(* ===== verification/Prelude.thy ===== *)
theory Prelude
  imports Main "HOL-Library.Word"
begin

unbundle bit_operations_syntax

text \<open>
  What every component of the development shares: the machine types of the C code, the shape of a
  fallible operation on a mutable object (\<open>andthen\<close>), the big- and little-endian readings of byte
  strings, and two interfaces. \<open>codec\<close> is the contract between a parser and an encoder of the same
  wire format; \<open>canonical_codec\<close> adds that the parser accepts nothing but what the encoder writes.
\<close>

section \<open>Machine types\<close>

type_synonym u8 = "8 word"
type_synonym u16 = "16 word"
type_synonym u32 = "32 word"
type_synonym u64 = "64 word"

text \<open>A byte string in memory: the \<open>len\<close> bytes that a \<open>(data, len)\<close> pair points to.\<close>

type_synonym bytes = "8 word list"

section \<open>Fallible operations on an object\<close>

text \<open>
  A C function \<open>int f(T *obj, out *o)\<close> returns zero on error and leaves \<open>*obj\<close> in some state either
  way. Its model returns \<open>(Some o, obj')\<close> or \<open>(None, obj')\<close>. \<open>andthen\<close> is the pattern
  \<open>if (!f(obj, &o)) return 0; ...\<close>.
\<close>

type_synonym ('a, 's) outcome = "'a option \<times> 's"

definition andthen ::
  "('a, 's) outcome \<Rightarrow> ('a \<Rightarrow> 's \<Rightarrow> ('b, 's) outcome) \<Rightarrow> ('b, 's) outcome" where
  "andthen r k = (case r of (None, s) \<Rightarrow> (None, s) | (Some x, s) \<Rightarrow> k x s)"

lemma andthen_simps [simp, code_unfold]:
  "andthen (None, s) k = (None, s)"
  "andthen (Some x, s) k = k x s"
  by (simp_all add: andthen_def)

lemma andthen_eq_Some:
  "andthen r k = (Some y, t) \<longleftrightarrow> (\<exists>x s. r = (Some x, s) \<and> k x s = (Some y, t))"
  by (cases r; cases "fst r") auto

lemma andthen_split:
  "P (andthen r k) \<longleftrightarrow>
     (\<forall>s. r = (None, s) \<longrightarrow> P (None, s)) \<and> (\<forall>x s. r = (Some x, s) \<longrightarrow> P (k x s))"
  by (cases r; cases "fst r") auto

lemma andthen_split_asm:
  "P (andthen r k) \<longleftrightarrow>
     \<not> ((\<exists>s. r = (None, s) \<and> \<not> P (None, s)) \<or> (\<exists>x s. r = (Some x, s) \<and> \<not> P (k x s)))"
  by (cases r; cases "fst r") auto

lemmas andthen_splits = andthen_split andthen_split_asm

lemma andthen_cong [fundef_cong]:
  "r = r' \<Longrightarrow> (\<And>x s. r' = (Some x, s) \<Longrightarrow> k x s = k' x s) \<Longrightarrow> andthen r k = andthen r' k'"
  by (cases r'; cases "fst r'") auto

lemma andthen_fails:
  "fst r = None \<Longrightarrow> fst (andthen r k) = None"
  "(\<And>x s. fst (k x s) = None) \<Longrightarrow> fst (andthen r k) = None"
  by (cases r; cases "fst r"; auto)+

lemma andthen_assoc: "andthen (andthen r k) l = andthen r (\<lambda>x s. andthen (k x s) l)"
  by (cases r; cases "fst r") auto

section \<open>Copying into a buffer\<close>

text \<open>\<open>memcpy(dst + off, src, length src)\<close>.\<close>

definition memcpy :: "bytes \<Rightarrow> nat \<Rightarrow> bytes \<Rightarrow> bytes" where
  "memcpy dst off src = take off dst @ src @ drop (off + length src) dst"

lemma memcpy_Nil [simp]: "memcpy dst off [] = dst"
  by (simp add: memcpy_def)

lemma memcpy_memcpy: "off \<le> length dst \<Longrightarrow> memcpy (memcpy dst off x) (off + length x) y = memcpy dst off (x @ y)"
  by (simp add: memcpy_def ac_simps)

lemma length_memcpy: "off + length x \<le> length dst \<Longrightarrow> length (memcpy dst off x) = length dst"
  by (simp add: memcpy_def)

lemma memcpy_single: "n < length dst \<Longrightarrow> dst[n := x] = memcpy dst n [x]"
  by (simp add: memcpy_def upd_conv_take_nth_drop)

lemma memcpy_to_end: "off + length x = length dst \<Longrightarrow> memcpy dst off x = take off dst @ x"
  by (simp add: memcpy_def)

lemma take_memcpy: "off \<le> length dst \<Longrightarrow> take (off + length x) (memcpy dst off x) = take off dst @ x"
  by (simp add: memcpy_def)

lemma memcpy_over:
  "off \<le> length dst \<Longrightarrow> length w \<le> length v \<Longrightarrow> memcpy (memcpy dst off (a @ w)) (off + length a) v = memcpy dst off (a @ v)"
  by (simp add: memcpy_def ac_simps)

section \<open>Big-endian and little-endian values\<close>

text \<open>The value of a byte string read with the most significant byte first, and its inverse.\<close>

definition be_val :: "bytes \<Rightarrow> nat" where
  "be_val bs = foldl (\<lambda>v b. v * 256 + unat b) 0 bs"

fun be_bytes :: "nat \<Rightarrow> nat \<Rightarrow> bytes" where
  "be_bytes 0 v = []"
| "be_bytes (Suc n) v = be_bytes n (v div 256) @ [of_nat v]"

lemma be_val_Nil [simp]: "be_val [] = 0"
  by (simp add: be_val_def)

lemma be_val_snoc [simp]: "be_val (bs @ [b]) = be_val bs * 256 + unat b"
  by (simp add: be_val_def)

lemma unat_u8_less [simp]: "unat (b :: u8) < 256"
  using unsigned_less [of b, where ?'a = nat] by simp

lemma byte_high_mod: "128 \<le> unat (b :: u8) \<Longrightarrow> unat b mod 128 = unat b - 128"
proof -
  assume "128 \<le> unat b"
  moreover have "unat b - 128 < 128" using unat_u8_less [of b] by linarith
  ultimately show ?thesis by (simp add: le_mod_geq)
qed

lemma be_val_Cons: "be_val (b # bs) = unat b * 256 ^ length bs + be_val bs"
proof (induction bs rule: rev_induct)
  case (snoc x xs)
  have "be_val (b # xs @ [x]) = be_val (b # xs) * 256 + unat x"
    using be_val_snoc [of "b # xs" x] by simp
  with snoc show ?case by (simp add: algebra_simps)
qed (simp add: be_val_def)

lemma be_val_less: "be_val bs < 256 ^ length bs"
proof (induction bs rule: rev_induct)
  case (snoc x xs)
  have "be_val xs * 256 + unat x < be_val xs * 256 + 256" by simp
  also have "\<dots> = (be_val xs + 1) * 256" by simp
  also have "\<dots> \<le> 256 ^ length xs * 256" using snoc by (intro mult_le_mono1) simp
  finally show ?case by (simp add: mult.commute)
qed simp

lemma length_be_bytes [simp]: "length (be_bytes n v) = n"
  by (induction n v rule: be_bytes.induct) simp_all

lemma unat_of_nat_u8 [simp]: "unat (of_nat v :: u8) = v mod 256"
  by (simp add: unat_of_nat)

lemma be_val_be_bytes: "be_val (be_bytes n v) = v mod 256 ^ n"
proof (induction n v rule: be_bytes.induct)
  case (2 n v)
  have "v mod 256 ^ Suc n = 256 * (v div 256 mod 256 ^ n) + v mod 256"
    by (simp add: mod_mult2_eq)
  with 2 show ?case by simp
qed simp

lemma of_nat_unat_add_u8: "(of_nat (m * 256 + unat b) :: u8) = b"
  by (simp add: word_unat_eq_iff unat_of_nat del: of_nat_add of_nat_mult)

lemma be_bytes_be_val: "be_bytes (length bs) (be_val bs) = bs"
proof (induction bs rule: rev_induct)
  case (snoc x xs)
  have "(be_val xs * 256 + unat x) div 256 = be_val xs" by simp
  with snoc show ?case by (simp add: of_nat_unat_add_u8 del: of_nat_add)
qed simp

lemma be_bytes_eqI: "length bs = n \<Longrightarrow> be_val bs = v \<Longrightarrow> bs = be_bytes n v"
  using be_bytes_be_val [of bs] by simp

lemma be_val_append: "be_val (xs @ ys) = be_val xs * 256 ^ length ys + be_val ys"
  by (induction xs) (simp_all add: be_val_Cons algebra_simps power_add)

lemma be_bytes_mod: "be_bytes n (v mod 256 ^ n) = be_bytes n v"
  using be_bytes_be_val [of "be_bytes n v"] by (simp add: be_val_be_bytes)

lemma be_bytes_append: "y < 256 ^ n \<Longrightarrow> be_bytes (m + n) (x * 256 ^ n + y) = be_bytes m x @ be_bytes n y"
proof -
  assume y: "y < 256 ^ n"
  have "be_val (be_bytes m x @ be_bytes n y) = (x * 256 ^ n + y) mod 256 ^ (m + n)"
  proof -
    have "(x * 256 ^ n + y) mod (256 ^ n * 256 ^ m) = x mod 256 ^ m * 256 ^ n + y"
      using y by (subst mod_mult2_eq) (simp add: mult.commute)
    then show ?thesis using y by (simp add: be_val_append be_val_be_bytes power_add mult.commute)
  qed
  then have "be_bytes m x @ be_bytes n y = be_bytes (m + n) ((x * 256 ^ n + y) mod 256 ^ (m + n))"
    by (intro be_bytes_eqI) simp_all
  then show ?thesis by (simp only: be_bytes_mod)
qed

text \<open>The value of a byte string with the least significant byte first.\<close>

fun le_val :: "bytes \<Rightarrow> nat" where
  "le_val [] = 0"
| "le_val (b # bs) = unat b + 256 * le_val bs"

lemma le_val_rev: "le_val (rev bs) = be_val bs"
  and be_val_rev: "be_val (rev bs) = le_val bs"
proof -
  show *: "be_val (rev bs) = le_val bs" for bs
    by (induction bs) simp_all
  show "le_val (rev bs) = be_val bs" using * [of "rev bs"] by simp
qed

lemma le_val_less: "le_val bs < 256 ^ length bs"
  using be_val_less [of "rev bs"] by (simp add: be_val_rev)

lemma le_val_append: "le_val (xs @ ys) = le_val xs + 256 ^ length xs * le_val ys"
  by (induction xs) (simp_all add: algebra_simps)

section \<open>Shifting a byte in\<close>

text \<open>One step of the loops \<open>v <<= k; v |= low\<close>, where \<open>low\<close> has at most \<open>k\<close> bits.\<close>

lemma unat_drop_bit_div: "unat (drop_bit k (v :: 'a::len word)) = unat v div 2 ^ k"
  by (subst unat_drop_bit_eq) (simp add: drop_bit_eq_div)

lemma unat_push_bit: "unat (push_bit k (w :: 'a::len word)) = unat w * 2 ^ k mod 2 ^ LENGTH('a)"
  unfolding unsigned_push_bit_eq by (simp add: push_bit_eq_mult take_bit_eq_mod)

lemma unat_and_mask_mod: "unat ((v :: 'a::len word) AND mask k) = unat v mod 2 ^ k"
proof -
  have "unat (v AND mask k) = take_bit k (unat v)"
    by (simp only: take_bit_eq_mask [symmetric] unsigned_take_bit_eq)
  then show ?thesis by (simp add: take_bit_eq_mod)
qed

lemma unat_shift_or:
  fixes r c :: "'a::len word"
  assumes "unat c < 2 ^ k"
  shows "unat (push_bit k r OR c) = (unat r * 2 ^ k + unat c) mod 2 ^ LENGTH('a)"
proof -
  have c: "take_bit k c = c"
    using assms by (simp add: word_unat_eq_iff unsigned_take_bit_eq take_bit_nat_eq_self)
  have "push_bit k r AND take_bit k c = 0"
    by (rule bit_eqI) (simp add: bit_simps)
  then have "push_bit k r OR c = push_bit k r + c"
    by (simp add: c disjunctive_add_eq_or)
  moreover have "unat (push_bit k r) = (unat r * 2 ^ k) mod 2 ^ LENGTH('a)"
    unfolding unsigned_push_bit_eq by (simp add: push_bit_eq_mult take_bit_eq_mod)
  ultimately show ?thesis
    by (simp add: unat_word_ariths mod_simps)
qed

section \<open>Two's complement\<close>

lemma sint_eq_uint:
  "sint (w :: 'a::len word) =
     (if uint w < 2 ^ (LENGTH('a) - 1) then uint w else uint w - 2 ^ LENGTH('a))"
proof (cases "uint w < 2 ^ (LENGTH('a) - 1)")
  case True
  have "- (2 ^ (LENGTH('a) - 1)) \<le> uint w"
    by (rule order_trans [of _ 0]) simp_all
  with True show ?thesis
    by (simp add: sint_uint signed_take_bit_int_eq_self)
next
  case False
  obtain n where n: "LENGTH('a) = Suc n" using len_gt_0 [where ?'a = 'a] gr0_implies_Suc by blast
  have w: "uint w < 2 ^ Suc n" using unsigned_less [of w, where ?'a = int] by (simp add: n)
  have "uint w div 2 ^ n = 1"
    using False w by (intro int_div_pos_eq [where r = "uint w - 2 ^ n"]) (simp_all add: n)
  then have b: "bit (uint w) n" by (simp add: bit_iff_odd)
  then show ?thesis
    using False w by (simp add: sint_uint n signed_take_bit_eq_take_bit_minus take_bit_int_eq_self)
qed

section \<open>Wire formats: parser and encoder\<close>

text \<open>
  A parser \<open>rd\<close> takes the remaining input and returns a value with the input left over. The
  encoder \<open>enc\<close> writes a value that satisfies \<open>ok\<close>; the parser reads it back and stops exactly
  where the encoding ends, whatever follows.
\<close>

locale codec =
  fixes rd :: "bytes \<Rightarrow> ('a, bytes) outcome"
    and enc :: "'a \<Rightarrow> bytes"
    and ok :: "'a \<Rightarrow> bool"
  assumes rd_enc: "ok v \<Longrightarrow> rd (enc v @ s) = (Some v, s)"
begin

lemma rd_enc_whole: "ok v \<Longrightarrow> rd (enc v) = (Some v, [])"
  using rd_enc [of v "[]"] by simp

lemma prefix_free:
  assumes "ok v" "ok w" "enc v @ s = enc w @ t"
  shows "v = w \<and> s = t"
proof -
  have "(Some v, s) = (Some w, t)"
    by (simp only: rd_enc [OF assms(1), symmetric] rd_enc [OF assms(2), symmetric] assms(3))
  then show ?thesis by simp
qed

lemma enc_inj: "ok v \<Longrightarrow> ok w \<Longrightarrow> enc v = enc w \<Longrightarrow> v = w"
  using prefix_free [of v w "[]" "[]"] by simp

end

locale canonical_codec = codec +
  assumes canonical: "rd s = (Some v, t) \<Longrightarrow> ok v \<and> s = enc v @ t"
begin

lemma rd_iff: "rd s = (Some v, t) \<longleftrightarrow> ok v \<and> s = enc v @ t"
  using canonical rd_enc by auto

lemma same_value_same_bytes:
  assumes "rd s = (Some v, t)" "rd s' = (Some v, t')"
  shows "take (length s - length t) s = take (length s' - length t') s'"
  using assms by (simp add: rd_iff)

lemma rd_shrinks: "rd s = (Some v, t) \<Longrightarrow> length t \<le> length s"
  by (auto simp: rd_iff)

end

text \<open>
  Reading values until the input is empty, as the loops \<open>while (CBS_len(&cbs) != 0)\<close> of the C code
  do. The guard on the length is what makes the loop end; a parser that consumes something on
  success never fails it.
\<close>

function read_all :: "(bytes \<Rightarrow> ('a, bytes) outcome) \<Rightarrow> bytes \<Rightarrow> 'a list option" where
  "read_all rd s =
     (if s = [] then Some []
      else case rd s of
        (None, _) \<Rightarrow> None
      | (Some v, t) \<Rightarrow> (if length t < length s then map_option ((#) v) (read_all rd t) else None))"
  by pat_completeness auto
termination
  by (relation "measure (\<lambda>(rd, s). length s)") auto

declare read_all.simps [simp del]

locale stream_codec = canonical_codec +
  assumes enc_nonempty: "ok v \<Longrightarrow> enc v \<noteq> []"
begin

lemma rd_progress: "rd s = (Some v, t) \<Longrightarrow> length t < length s"
  using enc_nonempty by (auto simp: rd_iff)

lemma read_all_encoded:
  "list_all ok vs \<Longrightarrow> read_all rd (concat (map enc vs)) = Some vs"
proof (induction vs)
  case (Cons v vs)
  then have v: "ok v" and vs: "read_all rd (concat (map enc vs)) = Some vs" by simp_all
  with enc_nonempty [OF v] rd_enc [OF v] show ?case
    by (subst read_all.simps) simp
qed (simp add: read_all.simps)

lemma read_all_sound:
  "read_all rd s = Some vs \<Longrightarrow> list_all ok vs \<and> s = concat (map enc vs)"
proof (induction "length s" arbitrary: s vs rule: less_induct)
  case less
  show ?case
  proof (cases "s = []")
    case True
    with less.prems show ?thesis by (simp add: read_all.simps)
  next
    case False
    with less.prems obtain v t ws where r: "rd s = (Some v, t)" "read_all rd t = Some ws" "vs = v # ws"
      by (subst (asm) read_all.simps) (auto split: prod.splits option.splits if_splits)
    from less.hyps [OF rd_progress [OF r(1)] r(2)] r show ?thesis by (simp add: rd_iff)
  qed
qed

lemma read_all_iff: "read_all rd s = Some vs \<longleftrightarrow> list_all ok vs \<and> s = concat (map enc vs)"
  using read_all_sound read_all_encoded by auto

lemma concat_enc_inj:
  "list_all ok vs \<Longrightarrow> list_all ok ws \<Longrightarrow> concat (map enc vs) = concat (map enc ws) \<Longrightarrow> vs = ws"
  by (metis option.inject read_all_encoded)


end

section \<open>Decimal numbers\<close>

text \<open>What \<open>printf\<close> writes for \<open>%u\<close> and its longer forms.\<close>

fun decimal :: "nat \<Rightarrow> bytes" where
  "decimal n = (if n < 10 then [of_nat (48 + n)] else decimal (n div 10) @ [of_nat (48 + n mod 10)])"

declare decimal.simps [simp del]

lemma decimal_nonempty [simp]: "decimal n \<noteq> []"
  by (subst decimal.simps) simp

end
