(* ===== verification/Mem.thy ===== *)
theory Mem
  imports Prelude
begin

text \<open>
  \<open>crypto/mem.c\<close> and the byte-order helpers of \<open>crypto/internal.h\<close>: the allocator wrapper, the
  constant-time comparison, and the string functions. The system allocator is a parameter:
  \<open>alloc n\<close> says whether \<open>malloc(n)\<close> returns a block. C strings are given by the bytes before their
  NUL terminator. \<open>char\<close> is signed on the platforms the library is built for.
\<close>

section \<open>Definitions\<close>

subsection \<open>Allocation\<close>

text \<open>
  \<open>OPENSSL_malloc\<close> asks for eight bytes more than its caller, to store the size. The addition is in
  \<open>size_t\<close> and is not checked. The result is the number of bytes after the prefix that the block
  really has, \<open>None\<close> for NULL; \<open>OPENSSL_MALLOC_PREFIX\<close> is 8. The store of the size, \<open>*(size_t *)ptr = size\<close>,
  is inside the block if the block has at least the eight bytes of the prefix, that is, if the result is not
  negative. A negative result stands for undefined behaviour: the request has wrapped to the few bytes that the
  block has, and the store is outside of it. \<open>OPENSSL_malloc_store\<close> says when that is.
\<close>

definition OPENSSL_MALLOC_PREFIX :: u64 where
  "OPENSSL_MALLOC_PREFIX = 8"

definition OPENSSL_malloc :: "(nat \<Rightarrow> bool) \<Rightarrow> u64 \<Rightarrow> int option" where
  "OPENSSL_malloc alloc sz =
     (let request = unat (sz + OPENSSL_MALLOC_PREFIX)
      in if alloc request then Some (int request - 8) else None)"

definition OPENSSL_memdup :: "(nat \<Rightarrow> bool) \<Rightarrow> bytes \<Rightarrow> bytes option" where
  "OPENSSL_memdup alloc data =
     (if data = [] then None
      else case OPENSSL_malloc alloc (of_nat (length data)) of None \<Rightarrow> None | Some _ \<Rightarrow> Some data)"

text \<open>\<open>OPENSSL_realloc\<close> of a block that holds \<open>old\<close>: what the new block starts with.\<close>

definition OPENSSL_realloc :: "(nat \<Rightarrow> bool) \<Rightarrow> bytes \<Rightarrow> nat \<Rightarrow> bytes option" where
  "OPENSSL_realloc alloc old new_size =
     (case OPENSSL_malloc alloc (of_nat new_size) of
        None \<Rightarrow> None
      | Some _ \<Rightarrow> (let to_copy = new_size;
                       to_copy = (if length old < to_copy then length old else to_copy)
                   in Some (take to_copy old)))"

subsection \<open>Comparison, hashing and strings\<close>

text \<open>
  \<open>CRYPTO_memcmp\<close> ORs all the differences together instead of branching on them: the result is zero
  iff the strings are equal, and carries no order otherwise.
\<close>

fun memcmp_acc :: "u8 \<Rightarrow> bytes \<Rightarrow> bytes \<Rightarrow> u8" where
  "memcmp_acc x (a # as) (b # bs) = memcmp_acc (x OR (a XOR b)) as bs"
| "memcmp_acc x _ _ = x"

definition CRYPTO_memcmp :: "bytes \<Rightarrow> bytes \<Rightarrow> u8" where
  "CRYPTO_memcmp a b = memcmp_acc 0 a b"

definition OPENSSL_hash32 :: "bytes \<Rightarrow> u32" where
  "OPENSSL_hash32 ptr = foldl (\<lambda>h b. (h XOR ucast b) * 16777619) 2166136261 ptr"

fun OPENSSL_strnlen :: "bytes \<Rightarrow> nat" where
  "OPENSSL_strnlen [] = 0"
| "OPENSSL_strnlen (b # bs) = (if b = 0 then 0 else Suc (OPENSSL_strnlen bs))"

definition OPENSSL_strdup :: "(nat \<Rightarrow> bool) \<Rightarrow> bytes \<Rightarrow> bytes option" where
  "OPENSSL_strdup alloc s =
     (let len = length s + 1
      in case OPENSSL_malloc alloc (of_nat len) of None \<Rightarrow> None | Some _ \<Rightarrow> Some (s @ [0]))"

definition OPENSSL_tolower :: "int \<Rightarrow> int" where
  "OPENSSL_tolower c = (if c \<ge> 65 \<and> c \<le> 90 then c + (97 - 65) else c)"

text \<open>Byte \<open>i\<close> of a C string, the terminator included.\<close>

definition char_at :: "bytes \<Rightarrow> nat \<Rightarrow> int" where
  "char_at s i = (if i < length s then sint (s ! i) else 0)"

function strcasecmp_from :: "bytes \<Rightarrow> bytes \<Rightarrow> nat \<Rightarrow> int" where
  "strcasecmp_from a b i =
     (let aa = OPENSSL_tolower (char_at a i); bb = OPENSSL_tolower (char_at b i)
      in if aa < bb then -1 else if aa > bb then 1 else if aa = 0 then 0
         else strcasecmp_from a b (i + 1))"
  by pat_completeness auto
termination
  by (relation "measure (\<lambda>(a, b, i). length a - i)")
    (auto simp: char_at_def OPENSSL_tolower_def split: if_splits)

declare strcasecmp_from.simps [simp del]

definition OPENSSL_strcasecmp :: "bytes \<Rightarrow> bytes \<Rightarrow> int" where
  "OPENSSL_strcasecmp a b = strcasecmp_from a b 0"

function strncasecmp_from :: "bytes \<Rightarrow> bytes \<Rightarrow> nat \<Rightarrow> nat \<Rightarrow> int" where
  "strncasecmp_from a b n i =
     (if i < n then
        (let aa = OPENSSL_tolower (char_at a i); bb = OPENSSL_tolower (char_at b i)
         in if aa < bb then -1 else if aa > bb then 1 else if aa = 0 then 0
            else strncasecmp_from a b n (i + 1))
      else 0)"
  by pat_completeness auto
termination
  by (relation "measure (\<lambda>(a, b, n, i). n - i)") auto

declare strncasecmp_from.simps [simp del]

definition OPENSSL_strncasecmp :: "bytes \<Rightarrow> bytes \<Rightarrow> nat \<Rightarrow> int" where
  "OPENSSL_strncasecmp a b n = strncasecmp_from a b n 0"

definition OPENSSL_strndup :: "(nat \<Rightarrow> bool) \<Rightarrow> bytes \<Rightarrow> bytes option" where
  "OPENSSL_strndup alloc str =
     (let sz = of_nat (OPENSSL_strnlen str) :: u64; alloc_size = sz + 1
      in if alloc_size < sz then None
         else case OPENSSL_malloc alloc alloc_size of
           None \<Rightarrow> None
         | Some _ \<Rightarrow> Some (take (unat sz) str @ [0]))"

text \<open>
  \<open>OPENSSL_strlcpy\<close>: what is written to \<open>dst\<close> (a prefix of the buffer) and the value returned.
\<close>

fun strlcpy_loop :: "bytes \<Rightarrow> nat \<Rightarrow> bytes \<times> bytes \<times> nat" where
  "strlcpy_loop (c # src) dst_size =
     (if dst_size > 1 then
        (case strlcpy_loop src (dst_size - 1) of (dst, src', sz) \<Rightarrow> (c # dst, src', sz))
      else ([], c # src, dst_size))"
| "strlcpy_loop [] dst_size = ([], [], dst_size)"

definition OPENSSL_strlcpy :: "bytes \<Rightarrow> nat \<Rightarrow> bytes \<times> nat" where
  "OPENSSL_strlcpy src dst_size =
     (case strlcpy_loop src dst_size of (dst, src', sz) \<Rightarrow>
        (if sz \<noteq> 0 then dst @ [0] else dst, length dst + length src'))"

text \<open>
  \<open>OPENSSL_strlcat\<close> on a buffer of \<open>dst_size\<close> bytes that holds \<open>dst\<close>: skip to the end of the string
  there (or of the buffer), then copy.
\<close>

definition OPENSSL_strlcat :: "bytes \<Rightarrow> bytes \<Rightarrow> nat \<Rightarrow> bytes \<times> nat" where
  "OPENSSL_strlcat dst src dst_size =
     (let l = OPENSSL_strnlen (take dst_size dst)
      in case OPENSSL_strlcpy src (dst_size - l) of (out, n) \<Rightarrow> (take l dst @ out, l + n))"

subsection \<open>Byte order\<close>

definition CRYPTO_bswap2 :: "u16 \<Rightarrow> u16" where
  "CRYPTO_bswap2 x = drop_bit 8 x OR push_bit 8 x"

definition CRYPTO_bswap4 :: "u32 \<Rightarrow> u32" where
  "CRYPTO_bswap4 x =
     (let y = drop_bit 16 x OR push_bit 16 x
      in drop_bit 8 (y AND 0xff00ff00) OR push_bit 8 (y AND 0x00ff00ff))"

definition CRYPTO_bswap8 :: "u64 \<Rightarrow> u64" where
  "CRYPTO_bswap8 x =
     ucast (CRYPTO_bswap4 (ucast (drop_bit 32 x))) OR push_bit 32 (ucast (CRYPTO_bswap4 (ucast x)))"

section \<open>Lemmas\<close>

subsection \<open>Allocation\<close>

lemma OPENSSL_malloc_room:
  assumes "unat sz + 8 < 2 ^ 64" "OPENSSL_malloc alloc sz = Some room"
  shows "room = int (unat sz)"
  using assms
  by (auto simp: OPENSSL_malloc_def OPENSSL_MALLOC_PREFIX_def Let_def unat_word_ariths split: if_splits)

lemma OPENSSL_malloc_store:
  assumes "OPENSSL_malloc alloc sz = Some room"
  shows "0 \<le> room \<longleftrightarrow> unat sz + 8 < 2 ^ 64"
proof -
  have "unat sz < 2 ^ 64" "uint sz < 2 ^ 64"
    using unsigned_less [of sz, where ?'a = nat] unsigned_less [of sz, where ?'a = int] by simp_all
  with assms show ?thesis
    by (auto simp: OPENSSL_malloc_def OPENSSL_MALLOC_PREFIX_def Let_def unat_word_ariths mod_if split: if_splits)
qed

lemma OPENSSL_malloc_wraps:
  assumes "unat sz + 8 \<ge> 2 ^ 64"
  shows "OPENSSL_malloc alloc sz =
    (if alloc (unat sz + 8 - 2 ^ 64) then Some (int (unat sz) - 2 ^ 64) else None)"
proof -
  have "unat sz < 2 ^ 64" using unsigned_less [of sz, where ?'a = nat] by simp
  then have "unat (sz + 8) = unat sz + 8 - 2 ^ 64"
    using assms by (simp add: unat_word_ariths mod_if)
  then show ?thesis
    using assms by (simp add: OPENSSL_malloc_def OPENSSL_MALLOC_PREFIX_def Let_def)
qed

subsection \<open>Comparison and strings\<close>

lemma word_or_eq_0: "(x OR y) = (0 :: 'a::len word) \<longleftrightarrow> x = 0 \<and> y = 0"
  by (auto simp: bit_eq_iff bit_simps)

lemma word_xor_eq_0: "(x XOR y) = (0 :: 'a::len word) \<longleftrightarrow> x = y"
  by (auto simp: bit_eq_iff bit_simps)

lemma memcmp_acc_eq_0:
  "length as = length bs \<Longrightarrow> memcmp_acc x as bs = 0 \<longleftrightarrow> x = 0 \<and> as = bs"
  by (induction x as bs rule: memcmp_acc.induct) (auto simp: word_or_eq_0 word_xor_eq_0)

lemma CRYPTO_memcmp_eq_0: "length as = length bs \<Longrightarrow> CRYPTO_memcmp as bs = 0 \<longleftrightarrow> as = bs"
  by (simp add: CRYPTO_memcmp_def memcmp_acc_eq_0)

lemma OPENSSL_strnlen_le: "OPENSSL_strnlen bs \<le> length bs"
  by (induction bs) auto

lemma take_OPENSSL_strnlen: "take (OPENSSL_strnlen bs) bs = takeWhile (\<lambda>b. b \<noteq> 0) bs"
  by (induction bs) auto

lemma OPENSSL_strnlen_no_NUL: "0 \<notin> set bs \<Longrightarrow> OPENSSL_strnlen bs = length bs"
  by (induction bs) auto

definition lower_byte :: "u8 \<Rightarrow> u8" where
  "lower_byte b = (if b \<ge> 65 \<and> b \<le> 90 then b + 32 else b)"

lemma tolower_sint: "OPENSSL_tolower (sint b) = sint (lower_byte b)"
proof (cases "b \<ge> 65 \<and> b \<le> 90")
  case True
  then have "uint (b + 32) = uint b + 32"
    by (simp add: uint_word_ariths word_le_def)
  with True show ?thesis
    by (simp add: OPENSSL_tolower_def lower_byte_def sint_eq_uint word_le_def)
next
  case False
  then show ?thesis
    using unsigned_less [of b, where ?'a = int]
    by (auto simp: OPENSSL_tolower_def lower_byte_def sint_eq_uint word_le_def split: if_splits)
qed

lemma lower_byte_eq_0: "lower_byte b = 0 \<longleftrightarrow> b = 0"
  by (auto simp: lower_byte_def word_le_nat_alt word_unat_eq_iff unat_word_ariths)

lemma strlcpy_loop_eq:
  "strlcpy_loop src n = (take (n - 1) src, drop (n - 1) src, n - min (n - 1) (length src))"
  by (induction src n rule: strlcpy_loop.induct) (auto simp: take_Cons' drop_Cons' min_def)

lemma OPENSSL_strlcpy_eq:
  "OPENSSL_strlcpy src n = (if n = 0 then [] else take (n - 1) src @ [0], length src)"
  by (auto simp: OPENSSL_strlcpy_def strlcpy_loop_eq min_def)

subsection \<open>Byte order\<close>

lemma bit_CRYPTO_bswap2: "n < 16 \<Longrightarrow> bit (CRYPTO_bswap2 x) n \<longleftrightarrow> bit x (if n < 8 then n + 8 else n - 8)"
  by (auto simp: CRYPTO_bswap2_def bit_simps add.commute dest: bit_imp_le_length)

lemma bit_CRYPTO_bswap4_byte:
  assumes "q < 4" "r < 8"
  shows "bit (CRYPTO_bswap4 x) (8 * q + r) \<longleftrightarrow> bit x (8 * (3 - q) + r)"
proof -
  have m: "(0xff00ff00 :: u32) = push_bit 8 (mask 8) OR push_bit 24 (mask 8)"
    "(0x00ff00ff :: u32) = mask 8 OR push_bit 16 (mask 8)"
    by (simp_all add: mask_eq_exp_minus_1)
  note defs = CRYPTO_bswap4_def Let_def m bit_simps
  have b: "bit (CRYPTO_bswap4 x) r \<longleftrightarrow> bit x (24 + r)"
    "bit (CRYPTO_bswap4 x) (8 + r) \<longleftrightarrow> bit x (16 + r)"
    "bit (CRYPTO_bswap4 x) (16 + r) \<longleftrightarrow> bit x (8 + r)"
    "bit (CRYPTO_bswap4 x) (24 + r) \<longleftrightarrow> bit x r"
    using assms(2) by (auto simp: defs dest: bit_imp_le_length)
  from assms(1) have "q = 0 \<or> q = 1 \<or> q = 2 \<or> q = 3" by linarith
  with b show ?thesis by (elim disjE) simp_all
qed

lemma bit_CRYPTO_bswap8_byte:
  assumes "q < 8" "r < 8"
  shows "bit (CRYPTO_bswap8 x) (8 * q + r) \<longleftrightarrow> bit x (8 * (7 - q) + r)"
proof (cases "q < 4")
  case True
  then have e: "32 + (8 * (3 - q) + r) = 8 * (7 - q) + r" and l: "8 * (3 - q) + r < 32" "8 * q + r < 32"
    using assms(2) by arith+
  have "bit (CRYPTO_bswap8 x) (8 * q + r) \<longleftrightarrow> bit x (32 + (8 * (3 - q) + r))"
    using True assms(2) l
    by (simp add: CRYPTO_bswap8_def bit_or_iff bit_push_bit_iff bit_ucast_iff bit_CRYPTO_bswap4_byte
        bit_drop_bit_eq)
  then show ?thesis by (simp only: e)
next
  case False
  then obtain p where q: "q = 4 + p" "p < 4"
    using that [of "q - 4"] assms(1) by simp
  have e: "8 * q + r - 32 = 8 * p + r" "8 * (7 - q) + r = 8 * (3 - p) + r" "8 * q + r < 64"
    "8 * (3 - p) + r < 32" "8 * p + r < 32" "32 \<le> 8 * q + r"
    using assms q(2) by (simp_all add: q(1))
  have n: "\<not> bit (CRYPTO_bswap4 z) (8 * q + r)" for z
    using bit_imp_le_length [of "CRYPTO_bswap4 z" "8 * q + r"] q by auto
  show ?thesis
    unfolding CRYPTO_bswap8_def bit_or_iff bit_push_bit_iff bit_ucast_iff e
    using q(2) assms(2) e n
    by (simp add: bit_CRYPTO_bswap4_byte bit_ucast_iff q(1) del: distrib_left_numeral)
qed

text \<open>Reversing the bytes of a word, as the byte strings that are stored in memory see it.\<close>

lemma unat_drop_bit_8: "unat (drop_bit 8 (x :: 'a::len word)) = unat x div 256"
  by (subst unat_drop_bit_eq) (simp add: drop_bit_eq_div)

lemma nth_be_bytes:
  "n < k \<Longrightarrow> be_bytes k (unat (x :: 'a::len word)) ! n = ucast (drop_bit (8 * (k - 1 - n)) x)"
proof (induction k arbitrary: x)
  case (Suc k)
  show ?case
  proof (cases "n < k")
    case True
    then have "8 * (k - 1 - n) + 8 = 8 * (k - n)" by simp
    with True show ?thesis
      using Suc.IH [OF True, of "drop_bit 8 x"]
      by (simp only: be_bytes.simps nth_append length_be_bytes unat_drop_bit_8 drop_bit_drop_bit
          if_True diff_Suc_1)
  next
    case False
    with Suc.prems have "n = k" by simp
    then show ?thesis
      by (simp add: nth_append word_unat_eq_iff unsigned_ucast_eq take_bit_eq_mod)
  qed
qed simp

lemma be_bytes_bswap2: "be_bytes 2 (unat (CRYPTO_bswap2 x)) = rev (be_bytes 2 (unat x))"
proof (rule nth_equalityI)
  fix i assume "i < length (be_bytes 2 (unat (CRYPTO_bswap2 x)))"
  then have i: "i < 2" by simp
  then have "ucast (drop_bit (8 * (1 - i)) (CRYPTO_bswap2 x)) = (ucast (drop_bit (8 * i) x) :: u8)"
    by (intro bit_word_eqI)
      (auto simp: less_2_cases_iff bit_ucast_iff bit_drop_bit_eq bit_CRYPTO_bswap2 add.commute dest: bit_imp_le_length)
  with i show "be_bytes 2 (unat (CRYPTO_bswap2 x)) ! i = rev (be_bytes 2 (unat x)) ! i"
    by (simp add: rev_nth nth_be_bytes)
qed simp

lemma be_bytes_bswap4: "be_bytes 4 (unat (CRYPTO_bswap4 x)) = rev (be_bytes 4 (unat x))"
proof (rule nth_equalityI)
  fix i assume "i < length (be_bytes 4 (unat (CRYPTO_bswap4 x)))"
  then have i: "i < 4" by simp
  then have "ucast (drop_bit (8 * (3 - i)) (CRYPTO_bswap4 x)) = (ucast (drop_bit (8 * i) x) :: u8)"
    by (intro bit_word_eqI)
      (simp add: bit_ucast_iff bit_drop_bit_eq bit_CRYPTO_bswap4_byte)
  with i show "be_bytes 4 (unat (CRYPTO_bswap4 x)) ! i = rev (be_bytes 4 (unat x)) ! i"
    by (simp add: rev_nth nth_be_bytes)
qed simp

lemma be_bytes_bswap8: "be_bytes 8 (unat (CRYPTO_bswap8 x)) = rev (be_bytes 8 (unat x))"
proof (rule nth_equalityI)
  fix i assume "i < length (be_bytes 8 (unat (CRYPTO_bswap8 x)))"
  then have i: "i < 8" by simp
  then have "ucast (drop_bit (8 * (7 - i)) (CRYPTO_bswap8 x)) = (ucast (drop_bit (8 * i) x) :: u8)"
    by (intro bit_word_eqI)
      (simp add: bit_ucast_iff bit_drop_bit_eq bit_CRYPTO_bswap8_byte)
  with i show "be_bytes 8 (unat (CRYPTO_bswap8 x)) ! i = rev (be_bytes 8 (unat x)) ! i"
    by (simp add: rev_nth nth_be_bytes)
qed simp

lemma be_bytes_inj:
  fixes x y :: "'a::len word"
  assumes "be_bytes k (unat x) = be_bytes k (unat y)" "LENGTH('a) \<le> 8 * k"
  shows "x = y"
proof -
  have "(2 :: nat) ^ LENGTH('a) \<le> 256 ^ k"
    using power_increasing [OF assms(2), of "2 :: nat"] by (simp add: power_mult)
  then have "unat z < 256 ^ k" for z :: "'a word"
    by (rule less_le_trans [OF unsigned_less])
  with arg_cong [OF assms(1), of be_val] show ?thesis
    by (simp add: be_val_be_bytes word_unat_eq_iff)
qed

lemma bswap2_involution [simp]: "CRYPTO_bswap2 (CRYPTO_bswap2 a) = a"
  by (rule be_bytes_inj [where k = 2]) (simp_all add: be_bytes_bswap2)

lemma bswap4_involution [simp]: "CRYPTO_bswap4 (CRYPTO_bswap4 a) = a"
  by (rule be_bytes_inj [where k = 4]) (simp_all add: be_bytes_bswap4)

lemma bswap8_involution [simp]: "CRYPTO_bswap8 (CRYPTO_bswap8 a) = a"
  by (rule be_bytes_inj [where k = 8]) (simp_all add: be_bytes_bswap8)

end
