(* ===== verification/LHash.thy ===== *)
theory LHash
  imports Mem "HOL-Library.Multiset"
begin

text \<open>
  \<open>crypto/lhash/lhash.c\<close>: the chained hash table, with the comparison and hash functions its client
  gives it. A chain is the list of its items, a pointer to a \<open>next\<close> field (or to the bucket itself)
  is the bucket's index with a position in its chain. \<open>hash_client\<close> is the contract between the
  table and its client; inside it the table is shown to refine a partial map, whatever the hash
  function, the sizes and the failing allocations are.
\<close>

section \<open>Definitions\<close>

definition kMinNumBuckets :: u64 where "kMinNumBuckets = 16"
definition kMaxAverageChainLength :: u64 where "kMaxAverageChainLength = 2"
definition kMinAverageChainLength :: u64 where "kMinAverageChainLength = 1"

text \<open>\<open>LHASH_ITEM\<close>: the data and the cached hash; \<open>next\<close> is the rest of the chain.\<close>

record 'a lhash_item =
  item_data :: 'a
  item_hash :: u32

definition sizeof_LHASH_ITEM :: u64 where "sizeof_LHASH_ITEM = 24"
definition sizeof_LHASH :: u64 where "sizeof_LHASH = 48"
definition sizeof_ptr :: u64 where "sizeof_ptr = 8"

record 'a lhash =
  num_items :: u64
  buckets :: "'a lhash_item list list"
  num_buckets :: u64
  callback_depth :: u32
  lh_comp :: "'a \<Rightarrow> 'a \<Rightarrow> int"
  lh_hash :: "'a \<Rightarrow> u32"

definition lh_new :: "(nat \<Rightarrow> bool) \<Rightarrow> ('a \<Rightarrow> u32) \<Rightarrow> ('a \<Rightarrow> 'a \<Rightarrow> int) \<Rightarrow> 'a lhash option" where
  "lh_new alloc hash cmp =
     (if OPENSSL_malloc alloc sizeof_LHASH = None then None
      else if OPENSSL_malloc alloc (sizeof_ptr * kMinNumBuckets) = None then None
      else Some \<lparr>num_items = 0, buckets = replicate (unat kMinNumBuckets) [], num_buckets = kMinNumBuckets,
                 callback_depth = 0, lh_comp = cmp, lh_hash = hash\<rparr>)"

definition lh_num_items :: "'a lhash \<Rightarrow> u64" where
  "lh_num_items lh = num_items lh"

text \<open>
  The walk down a chain: the position of the first item that compares equal, or of the NULL pointer
  at the end.
\<close>

fun chain_position :: "('a \<Rightarrow> int) \<Rightarrow> 'a lhash_item list \<Rightarrow> nat" where
  "chain_position cmp [] = 0"
| "chain_position cmp (cur # chain) =
     (if cmp (item_data cur) = 0 then 0 else Suc (chain_position cmp chain))"

text \<open>\<open>hash % lh->num_buckets\<close>, where the 32-bit hash is widened to \<open>size_t\<close>.\<close>

definition bucket_of :: "u32 \<Rightarrow> u64 \<Rightarrow> nat" where
  "bucket_of hash n = unat (ucast hash mod n)"

definition get_next_ptr_and_hash :: "'a lhash \<Rightarrow> 'a \<Rightarrow> u32 \<times> nat \<times> nat" where
  "get_next_ptr_and_hash lh data =
     (let hash = lh_hash lh data;
          b = bucket_of hash (num_buckets lh)
      in (hash, b, chain_position (\<lambda>cur. lh_comp lh cur data) (buckets lh ! b)))"

definition get_next_ptr_by_key :: "'a lhash \<Rightarrow> 'k \<Rightarrow> u32 \<Rightarrow> ('k \<Rightarrow> 'a \<Rightarrow> int) \<Rightarrow> nat \<times> nat" where
  "get_next_ptr_by_key lh key key_hash cmp_key =
     (let b = bucket_of key_hash (num_buckets lh)
      in (b, chain_position (\<lambda>cur. cmp_key key cur) (buckets lh ! b)))"

text \<open>\<open>*next_ptr\<close>: the item there, or NULL.\<close>

definition at_ptr :: "'a lhash \<Rightarrow> nat \<times> nat \<Rightarrow> 'a lhash_item option" where
  "at_ptr lh = (\<lambda>(b, k). if k < length (buckets lh ! b) then Some (buckets lh ! b ! k) else None)"

definition lh_retrieve :: "'a lhash \<Rightarrow> 'a \<Rightarrow> 'a option" where
  "lh_retrieve lh data =
     (case get_next_ptr_and_hash lh data of (_, ptr) \<Rightarrow> map_option item_data (at_ptr lh ptr))"

definition lh_retrieve_key :: "'a lhash \<Rightarrow> 'k \<Rightarrow> u32 \<Rightarrow> ('k \<Rightarrow> 'a \<Rightarrow> int) \<Rightarrow> 'a option" where
  "lh_retrieve_key lh key key_hash cmp_key =
     map_option item_data (at_ptr lh (get_next_ptr_by_key lh key key_hash cmp_key))"

text \<open>The two nested loops of \<open>lh_rebucket\<close>: every item goes to the front of its new chain.\<close>

definition rebucket_item :: "u64 \<Rightarrow> 'a lhash_item list list \<Rightarrow> 'a lhash_item \<Rightarrow> 'a lhash_item list list" where
  "rebucket_item n new_buckets cur =
     (let b = bucket_of (item_hash cur) n in new_buckets[b := cur # new_buckets ! b])"

definition lh_rebucket :: "(nat \<Rightarrow> bool) \<Rightarrow> 'a lhash \<Rightarrow> u64 \<Rightarrow> 'a lhash" where
  "lh_rebucket alloc lh new_num_buckets =
     (let alloc_size = sizeof_ptr * new_num_buckets
      in if alloc_size div sizeof_ptr \<noteq> new_num_buckets then lh
         else if OPENSSL_malloc alloc alloc_size = None then lh
         else lh\<lparr>num_buckets := new_num_buckets,
                 buckets := foldl (foldl (rebucket_item new_num_buckets))
                   (replicate (unat new_num_buckets) []) (buckets lh)\<rparr>)"

text \<open>\<open>None\<close> is the failed assertion.\<close>

definition lh_maybe_resize :: "(nat \<Rightarrow> bool) \<Rightarrow> 'a lhash \<Rightarrow> 'a lhash option" where
  "lh_maybe_resize alloc lh =
     (if callback_depth lh > 0 then Some lh
      else if \<not> num_buckets lh \<ge> kMinNumBuckets then None
      else
        (let avg_chain_length = num_items lh div num_buckets lh
         in if avg_chain_length > kMaxAverageChainLength then
              (let new_num_buckets = num_buckets lh * 2
               in Some (if new_num_buckets > num_buckets lh then lh_rebucket alloc lh new_num_buckets else lh))
            else if avg_chain_length < kMinAverageChainLength \<and> num_buckets lh > kMinNumBuckets then
              (let new_num_buckets = num_buckets lh div 2;
                   new_num_buckets =
                     (if new_num_buckets < kMinNumBuckets then kMinNumBuckets else new_num_buckets)
               in Some (lh_rebucket alloc lh new_num_buckets))
            else Some lh))"

text \<open>The result is the return value, \<open>*old_data\<close> and the table.\<close>

definition lh_insert :: "(nat \<Rightarrow> bool) \<Rightarrow> 'a lhash \<Rightarrow> 'a \<Rightarrow> (bool \<times> 'a option \<times> 'a lhash) option" where
  "lh_insert alloc lh data =
     (case get_next_ptr_and_hash lh data of (hash, b, k) \<Rightarrow>
        (case at_ptr lh (b, k) of
           Some item \<Rightarrow>
             Some (True, Some (item_data item),
               lh\<lparr>buckets := (buckets lh)[b := (buckets lh ! b)[k := item\<lparr>item_data := data\<rparr>]]\<rparr>)
         | None \<Rightarrow>
             (if OPENSSL_malloc alloc sizeof_LHASH_ITEM = None then Some (False, None, lh)
              else
                (let item = \<lparr>item_data = data, item_hash = hash\<rparr>;
                     lh = lh\<lparr>buckets := (buckets lh)[b := buckets lh ! b @ [item]]\<rparr>;
                     lh = lh\<lparr>num_items := num_items lh + 1\<rparr>
                 in map_option (\<lambda>lh. (True, None, lh)) (lh_maybe_resize alloc lh)))))"

definition lh_delete :: "(nat \<Rightarrow> bool) \<Rightarrow> 'a lhash \<Rightarrow> 'a \<Rightarrow> ('a option \<times> 'a lhash) option" where
  "lh_delete alloc lh data =
     (case get_next_ptr_and_hash lh data of (_, b, k) \<Rightarrow>
        (case at_ptr lh (b, k) of
           None \<Rightarrow> Some (None, lh)
         | Some item \<Rightarrow>
             (let lh = lh\<lparr>buckets := (buckets lh)[b := take k (buckets lh ! b) @ drop (Suc k) (buckets lh ! b)]\<rparr>;
                  lh = lh\<lparr>num_items := num_items lh - 1\<rparr>
              in map_option (\<lambda>lh. (Some (item_data item), lh)) (lh_maybe_resize alloc lh))))"

text \<open>
  \<open>lh_doall_arg\<close> with a callback that works on its own state \<open>arg\<close> and leaves the table alone.
\<close>

definition lh_doall_arg ::
  "(nat \<Rightarrow> bool) \<Rightarrow> 'a lhash \<Rightarrow> ('a \<Rightarrow> 's \<Rightarrow> 's) \<Rightarrow> 's \<Rightarrow> ('s \<times> 'a lhash) option" where
  "lh_doall_arg alloc lh func arg =
     (let lh = (if callback_depth lh < 0xffffffff then lh\<lparr>callback_depth := callback_depth lh + 1\<rparr> else lh);
          arg = foldl (foldl (\<lambda>arg cur. func (item_data cur) arg)) arg (buckets lh);
          lh = (if callback_depth lh < 0xffffffff then lh\<lparr>callback_depth := callback_depth lh - 1\<rparr> else lh)
      in map_option (\<lambda>lh. (arg, lh)) (lh_maybe_resize alloc lh))"

text \<open>\<open>c\<close> is NULL or the bytes before the terminator.\<close>

definition lh_strhash :: "bytes option \<Rightarrow> u32" where
  "lh_strhash c = (case c of None \<Rightarrow> 0 | Some s \<Rightarrow> OPENSSL_hash32 s)"


section \<open>The table as a map\<close>

text \<open>
  All items, in the order \<open>lh_doall\<close> visits them. \<open>lh_map lh key\<close> is the element of the table that is
  equal to \<open>key\<close>: no hash occurs in it.
\<close>

definition lh_items :: "'a lhash \<Rightarrow> 'a lhash_item list" where
  "lh_items lh = concat (buckets lh)"

definition equal_items :: "'a lhash \<Rightarrow> 'a \<Rightarrow> 'a lhash_item list" where
  "equal_items lh key = filter (\<lambda>i. lh_comp lh (item_data i) key = 0) (lh_items lh)"

definition lh_map :: "'a lhash \<Rightarrow> 'a \<Rightarrow> 'a option" where
  "lh_map lh key = (case equal_items lh key of [] \<Rightarrow> None | i # _ \<Rightarrow> Some (item_data i))"

text \<open>
  The invariant: the array has the size that is recorded and at least the minimum, every item is in
  the bucket of its cached hash, which is the hash of its data, no two items are equal, and
  \<open>num_items\<close> counts them.
\<close>

definition placed :: "u64 \<Rightarrow> 'a lhash_item list list \<Rightarrow> bool" where
  "placed n bs \<longleftrightarrow>
     length bs = unat n \<and> (\<forall>b < length bs. \<forall>i \<in> set (bs ! b). bucket_of (item_hash i) n = b)"

definition lh_ok :: "'a lhash \<Rightarrow> bool" where
  "lh_ok lh \<longleftrightarrow>
     kMinNumBuckets \<le> num_buckets lh \<and> placed (num_buckets lh) (buckets lh) \<and>
     (\<forall>i \<in> set (lh_items lh). item_hash i = lh_hash lh (item_data i)) \<and>
     (\<forall>key. length (equal_items lh key) \<le> 1) \<and>
     num_items lh = of_nat (length (lh_items lh))"

subsection \<open>Chains and buckets\<close>

lemma bucket_of_less: "n \<noteq> 0 \<Longrightarrow> bucket_of h n < unat n"
  by (simp add: bucket_of_def unat_mod unat_gt_0)

lemma chain_position_append: "(\<forall>i \<in> set xs. f (item_data i) \<noteq> 0) \<Longrightarrow> chain_position f (xs @ ys) = length xs + chain_position f ys"
  by (induction xs) auto

lemma chain_position_cases:
  obtains "chain_position f c = length c" "\<forall>i \<in> set c. f (item_data i) \<noteq> 0"
  | xs i ys where "c = xs @ i # ys" "chain_position f c = length xs" "f (item_data i) = 0"
      "\<forall>j \<in> set xs. f (item_data j) \<noteq> 0"
proof (cases "\<exists>i \<in> set c. f (item_data i) = 0")
  case True
  from split_list_first_prop [OF True] obtain xs i ys
    where *: "c = xs @ i # ys" "f (item_data i) = 0" "\<forall>j \<in> set xs. f (item_data j) \<noteq> 0" by auto
  then have "chain_position f c = length xs" by (simp add: chain_position_append)
  with * that(2) show ?thesis by blast
next
  case False
  then have "chain_position f c = length c" using chain_position_append [of c f "[]"] by simp
  with False that(1) show ?thesis by blast
qed

lemma filter_chain_position:
  "filter (\<lambda>i. f (item_data i) = 0) c = [] \<longleftrightarrow> chain_position f c = length c"
  by (rule chain_position_cases [of f c]) (auto simp: filter_empty_conv)

lemma concat_at: "b < length bs \<Longrightarrow> concat bs = concat (take b bs) @ bs ! b @ concat (drop (Suc b) bs)"
  by (metis append_take_drop_id concat.simps(2) concat_append Cons_nth_drop_Suc)

lemma concat_update:
  "b < length bs \<Longrightarrow> concat (bs[b := c]) = concat (take b bs) @ c @ concat (drop (Suc b) bs)"
  by (simp add: upd_conv_take_nth_drop)

lemma filter_outside:
  assumes "\<And>c i. c < length bs \<Longrightarrow> i \<in> set (bs ! c) \<Longrightarrow> Q i \<Longrightarrow> c = b" "b < length bs"
  shows "filter Q (concat (take b bs)) = []" "filter Q (concat (drop (Suc b) bs)) = []"
proof -
  have "\<not> Q i" if "i \<in> set c" "c \<in> set (take b bs)" for c i
  proof
    assume "Q i"
    from that(2) obtain k where "k < b" "k < length bs" "c = bs ! k" by (auto simp: in_set_conv_nth)
    with assms(1) [of k i] that(1) \<open>Q i\<close> show False by simp
  qed
  then show "filter Q (concat (take b bs)) = []" by (auto simp: filter_empty_conv)
  have "\<not> Q i" if "i \<in> set c" "c \<in> set (drop (Suc b) bs)" for c i
  proof
    assume "Q i"
    from that(2) obtain k where "k < length bs - Suc b" "c = bs ! (Suc b + k)"
      by (auto simp: in_set_conv_nth)
    with assms(1) [of "Suc b + k" i] that(1) \<open>Q i\<close> show False by (simp add: less_diff_conv add.commute)
  qed
  then show "filter Q (concat (drop (Suc b) bs)) = []" by (auto simp: filter_empty_conv)
qed

subsection \<open>Resizing\<close>

lemma placed_replicate: "placed n (replicate (unat n) [])"
  by (simp add: placed_def)

lemma placed_update:
  assumes "placed n bs" "\<forall>i \<in> set c. bucket_of (item_hash i) n = b"
  shows "placed n (bs[b := c])"
  using assms unfolding placed_def by (metis length_list_update nth_list_update_eq nth_list_update_neq)

lemma rebucket_item_placed:
  assumes "placed n bs" "n \<noteq> 0"
  shows "placed n (rebucket_item n bs i)"
    "mset (concat (rebucket_item n bs i)) = add_mset i (mset (concat bs))"
proof -
  let ?b = "bucket_of (item_hash i) n"
  have b: "?b < length bs" using assms bucket_of_less [of n] by (simp add: placed_def)
  then show "placed n (rebucket_item n bs i)"
    unfolding rebucket_item_def Let_def using assms(1)
    by (intro placed_update) (auto simp: placed_def)
  show "mset (concat (rebucket_item n bs i)) = add_mset i (mset (concat bs))"
    using b by (simp add: rebucket_item_def Let_def concat_update concat_at [of ?b bs])
qed

lemma rebucket_chain:
  assumes "placed n bs" "n \<noteq> 0"
  shows "placed n (foldl (rebucket_item n) bs c) \<and>
    mset (concat (foldl (rebucket_item n) bs c)) = mset c + mset (concat bs)"
  using assms
proof (induction c arbitrary: bs)
  case (Cons i c)
  from Cons.IH [OF rebucket_item_placed(1) [OF Cons.prems]] Cons.prems
  show ?case by (simp add: rebucket_item_placed)
qed simp

lemma rebucket_chains:
  assumes "placed n bs" "n \<noteq> 0"
  shows "placed n (foldl (foldl (rebucket_item n)) bs cs) \<and>
    mset (concat (foldl (foldl (rebucket_item n)) bs cs)) = mset (concat cs) + mset (concat bs)"
  using assms
proof (induction cs arbitrary: bs)
  case (Cons c cs)
  from rebucket_chain [OF Cons.prems, of c] Cons.IH [of "foldl (rebucket_item n) bs c"] Cons.prems
  show ?case by simp
qed simp

text \<open>
  What resizing keeps: everything but the order of the items and the number of buckets.
\<close>

definition same_items :: "'a lhash \<Rightarrow> 'a lhash \<Rightarrow> bool" where
  "same_items lh lh' \<longleftrightarrow>
     mset (lh_items lh') = mset (lh_items lh) \<and> lh_comp lh' = lh_comp lh \<and> lh_hash lh' = lh_hash lh \<and>
     num_items lh' = num_items lh \<and> callback_depth lh' = callback_depth lh"

lemma same_items_refl [simp]: "same_items lh lh"
  by (simp add: same_items_def)

lemma same_items_map:
  assumes "same_items lh lh'" "length (equal_items lh key) \<le> 1"
  shows "equal_items lh' key = equal_items lh key"
proof -
  have m: "mset (equal_items lh' key) = mset (equal_items lh key)"
    using assms(1) by (simp add: same_items_def equal_items_def)
  then have l: "length (equal_items lh' key) = length (equal_items lh key)"
    by (rule mset_eq_length)
  show ?thesis
  proof (cases "equal_items lh key")
    case (Cons i c)
    with assms(2) have "equal_items lh key = [i]" by simp
    with m show ?thesis by simp
  qed (use l in simp)
qed

lemma lh_ok_same_items:
  assumes "lh_ok lh" "same_items lh lh'" "kMinNumBuckets \<le> num_buckets lh'"
    "placed (num_buckets lh') (buckets lh')"
  shows "lh_ok lh'" "lh_map lh' = lh_map lh"
proof -
  have e: "equal_items lh' key = equal_items lh key" for key
    using assms(1,2) by (intro same_items_map) (simp_all add: lh_ok_def)
  then show "lh_map lh' = lh_map lh" by (simp add: lh_map_def fun_eq_iff)
  have "set (lh_items lh') = set (lh_items lh)" "length (lh_items lh') = length (lh_items lh)"
    using assms(2) unfolding same_items_def by (metis mset_eq_setD, metis mset_eq_length)
  with e assms show "lh_ok lh'" by (simp add: lh_ok_def same_items_def)
qed

lemma lh_rebucket_ok:
  assumes "lh_ok lh" "kMinNumBuckets \<le> n"
  shows "lh_ok (lh_rebucket alloc lh n)" "lh_map (lh_rebucket alloc lh n) = lh_map lh"
    "same_items lh (lh_rebucket alloc lh n)"
proof -
  have n: "n \<noteq> 0" using assms(2) by (auto simp: kMinNumBuckets_def)
  note r = rebucket_chains [OF placed_replicate n, of "buckets lh"]
  show s: "same_items lh (lh_rebucket alloc lh n)"
    using r by (simp add: lh_rebucket_def Let_def same_items_def lh_items_def)
  have p: "placed (num_buckets (lh_rebucket alloc lh n)) (buckets (lh_rebucket alloc lh n))"
    "kMinNumBuckets \<le> num_buckets (lh_rebucket alloc lh n)"
    using r assms by (simp_all add: lh_rebucket_def Let_def lh_ok_def)
  show "lh_ok (lh_rebucket alloc lh n)" "lh_map (lh_rebucket alloc lh n) = lh_map lh"
    by (rule lh_ok_same_items [OF assms(1) s p(2) p(1)])+
qed

lemma lh_maybe_resize_ok:
  assumes "lh_ok lh"
  obtains lh' where "lh_maybe_resize alloc lh = Some lh'" "lh_ok lh'" "lh_map lh' = lh_map lh"
    "same_items lh lh'"
proof -
  let ?n = "num_buckets lh" let ?m = "if ?n div 2 < kMinNumBuckets then kMinNumBuckets else ?n div 2"
  have n: "kMinNumBuckets \<le> ?n" using assms by (simp add: lh_ok_def)
  then have d: "kMinNumBuckets \<le> ?n * 2" if "?n < ?n * 2" using that by (metis less_imp_le order.trans)
  have "lh_maybe_resize alloc lh = Some lh \<or>
      ?n < ?n * 2 \<and> lh_maybe_resize alloc lh = Some (lh_rebucket alloc lh (?n * 2)) \<or>
      lh_maybe_resize alloc lh = Some (lh_rebucket alloc lh ?m)"
    by (cases "callback_depth lh > 0"; cases "num_items lh div ?n > kMaxAverageChainLength";
        cases "?n < ?n * 2"; cases "num_items lh div ?n < kMinAverageChainLength";
        cases "?n > kMinNumBuckets")
      (simp_all add: lh_maybe_resize_def Let_def n split del: if_split)
  then consider "lh_maybe_resize alloc lh = Some lh"
    | "lh_maybe_resize alloc lh = Some (lh_rebucket alloc lh (?n * 2))" "?n < ?n * 2"
    | "lh_maybe_resize alloc lh = Some (lh_rebucket alloc lh ?m)" by blast
  then show ?thesis
  proof cases
    case 1
    with assms that show ?thesis by simp
  next
    case 2
    with that lh_rebucket_ok [OF assms d] show ?thesis by blast
  next
    case 3
    have "kMinNumBuckets \<le> ?m" by auto
    from that [OF 3] lh_rebucket_ok [OF assms this] show ?thesis by blast
  qed
qed


subsection \<open>Operations\<close>

text \<open>
  Every table a client can build, with the map it stands for: whatever the operations, their order
  and the allocations that fail. The map is changed by the successful operations only.
\<close>

inductive lh_history :: "('a \<Rightarrow> u32) \<Rightarrow> ('a \<Rightarrow> 'a \<Rightarrow> int) \<Rightarrow> 'a lhash \<Rightarrow> ('a \<Rightarrow> 'a option) \<Rightarrow> bool"
  for hash cmp where
  new: "lh_new alloc hash cmp = Some lh \<Longrightarrow> lh_history hash cmp lh (\<lambda>_. None)"
| put: "lh_history hash cmp lh m \<Longrightarrow> lh_insert alloc lh d = Some (True, old, lh') \<Longrightarrow>
    lh_history hash cmp lh' (\<lambda>x. if cmp d x = 0 then Some d else m x)"
| put_failed: "lh_history hash cmp lh m \<Longrightarrow> lh_insert alloc lh d = Some (False, old, lh') \<Longrightarrow>
    lh_history hash cmp lh' m"
| remove: "lh_history hash cmp lh m \<Longrightarrow> lh_delete alloc lh d = Some (old, lh') \<Longrightarrow>
    lh_history hash cmp lh' (\<lambda>x. if cmp d x = 0 then None else m x)"
| visit: "lh_history hash cmp lh m \<Longrightarrow> lh_doall_arg alloc lh f (arg :: nat) = Some (arg', lh') \<Longrightarrow>
    lh_history hash cmp lh' m"

lemma lh_ok_callback_depth:
  "lh_ok (lh\<lparr>callback_depth := n\<rparr>) = lh_ok lh" "lh_map (lh\<lparr>callback_depth := n\<rparr>) = lh_map lh"
  by (simp_all add: lh_ok_def lh_items_def equal_items_def [abs_def] lh_map_def [abs_def])

lemma foldl_concat: "foldl (foldl f) a xss = foldl f a (concat xss)"
  by (induction xss arbitrary: a) simp_all

text \<open>What the client of a table provides: an equivalence, and a hash that respects it.\<close>

locale hash_client =
  fixes hash :: "'a \<Rightarrow> u32"
    and cmp :: "'a \<Rightarrow> 'a \<Rightarrow> int"
  assumes cmp_refl: "cmp x x = 0"
    and cmp_sym: "cmp x y = 0 \<Longrightarrow> cmp y x = 0"
    and cmp_trans: "cmp x y = 0 \<Longrightarrow> cmp y z = 0 \<Longrightarrow> cmp x z = 0"
    and cmp_hash: "cmp x y = 0 \<Longrightarrow> hash x = hash y"
begin

definition table :: "'a lhash \<Rightarrow> bool" where
  "table lh \<longleftrightarrow> lh_ok lh \<and> lh_hash lh = hash \<and> lh_comp lh = cmp"

lemma new_table:
  assumes "lh_new alloc hash cmp = Some lh"
  shows "table lh" "lh_map lh = (\<lambda>_. None)"
proof -
  have i: "lh_items lh = []"
    using assms by (auto simp: lh_new_def lh_items_def split: if_splits)
  then have e: "equal_items lh key = []" for key by (simp add: equal_items_def)
  then show "lh_map lh = (\<lambda>_. None)" by (simp add: lh_map_def fun_eq_iff)
  show "table lh"
    using assms i e placed_replicate [of kMinNumBuckets]
    by (auto simp: table_def lh_ok_def lh_new_def split: if_splits)
qed

lemma table_same_items:
  "table lh \<Longrightarrow> same_items lh lh' \<Longrightarrow> lh_ok lh' \<Longrightarrow> table lh'"
  by (simp add: table_def same_items_def)

lemma equal_items_cong: "lh_comp lh = cmp \<Longrightarrow> cmp x y = 0 \<Longrightarrow> equal_items lh x = equal_items lh y"
  unfolding equal_items_def by (rule filter_cong) (metis cmp_sym cmp_trans)+

lemma bucket_in_range:
  assumes "table lh" shows "bucket_of h (num_buckets lh) < length (buckets lh)"
proof -
  have "num_buckets lh \<noteq> 0" using assms by (auto simp: table_def lh_ok_def kMinNumBuckets_def)
  then show ?thesis using assms bucket_of_less by (simp add: table_def lh_ok_def placed_def)
qed

text \<open>The items equal to a key are all in the bucket of its hash.\<close>

lemma equal_items_bucket:
  assumes "table lh" "b = bucket_of (hash key) (num_buckets lh)"
    "\<And>i. Q i \<Longrightarrow> cmp (item_data i) key = 0"
  shows "filter Q (concat (take b (buckets lh))) = []" "filter Q (concat (drop (Suc b) (buckets lh))) = []"
    "filter Q (lh_items lh) = filter Q (buckets lh ! b)"
proof -
  have b: "b < length (buckets lh)" using bucket_in_range [OF assms(1)] assms(2) by simp
  have *: "c = b" if "c < length (buckets lh)" "i \<in> set (buckets lh ! c)" "Q i" for c i
  proof -
    have "bucket_of (item_hash i) (num_buckets lh) = c"
      using assms(1) that by (auto simp: table_def lh_ok_def placed_def)
    moreover have "item_hash i = hash (item_data i)"
      using assms(1) that by (auto simp: table_def lh_ok_def lh_items_def)
    ultimately show "c = b" using assms(2) cmp_hash [OF assms(3) [OF that(3)]] by simp
  qed
  from filter_outside [OF * b] show o: "filter Q (concat (take b (buckets lh))) = []"
    "filter Q (concat (drop (Suc b) (buckets lh))) = []" by auto
  show "filter Q (lh_items lh) = filter Q (buckets lh ! b)"
    using o b by (simp add: lh_items_def concat_at [of b])
qed

text \<open>The two results of the search for \<open>key\<close>.\<close>

lemma next_ptr_cases:
  assumes "table lh"
  obtains b P S where "get_next_ptr_and_hash lh key = (hash key, b, length (buckets lh ! b))"
      "b < length (buckets lh)" "b = bucket_of (hash key) (num_buckets lh)" "equal_items lh key = []"
      "lh_items lh = P @ buckets lh ! b @ S"
      "\<And>c. concat ((buckets lh)[b := c]) = P @ c @ S"
  | b xs i ys P S where "get_next_ptr_and_hash lh key = (hash key, b, length xs)"
      "b < length (buckets lh)" "b = bucket_of (hash key) (num_buckets lh)" "equal_items lh key = [i]"
      "buckets lh ! b = xs @ i # ys" "cmp (item_data i) key = 0"
      "lh_items lh = (P @ xs) @ i # (ys @ S)"
      "\<And>c. concat ((buckets lh)[b := c]) = P @ c @ S"
proof -
  let ?Q = "\<lambda>i. cmp (item_data i) key = 0"
  define b where "b = bucket_of (hash key) (num_buckets lh)"
  have bl: "b < length (buckets lh)" using bucket_in_range [OF assms] by (simp add: b_def)
  have nxt: "get_next_ptr_and_hash lh key = (hash key, b, chain_position (\<lambda>d. cmp d key) (buckets lh ! b))"
    using assms by (simp add: get_next_ptr_and_hash_def b_def table_def Let_def)
  have e: "equal_items lh key = filter ?Q (buckets lh ! b)"
    using equal_items_bucket(3) [OF assms b_def, of ?Q] assms by (simp add: equal_items_def table_def)
  let ?P = "concat (take b (buckets lh))" and ?S = "concat (drop (Suc b) (buckets lh))"
  have u: "concat ((buckets lh)[b := c]) = ?P @ c @ ?S" for c using bl by (rule concat_update)
  have it: "lh_items lh = ?P @ buckets lh ! b @ ?S" using bl by (simp add: lh_items_def concat_at [of b])
  show ?thesis
  proof (rule chain_position_cases [of "\<lambda>d. cmp d key" "buckets lh ! b"])
    assume "chain_position (\<lambda>d. cmp d key) (buckets lh ! b) = length (buckets lh ! b)"
      "\<forall>i \<in> set (buckets lh ! b). cmp (item_data i) key \<noteq> 0"
    with nxt e that(1) [OF _ bl b_def _ it u] show ?thesis by (simp add: filter_empty_conv)
  next
    fix xs i ys
    assume c: "buckets lh ! b = xs @ i # ys" "chain_position (\<lambda>d. cmp d key) (buckets lh ! b) = length xs"
      "cmp (item_data i) key = 0" "\<forall>j \<in> set xs. cmp (item_data j) key \<noteq> 0"
    have "length (equal_items lh key) \<le> 1" using assms by (simp add: table_def lh_ok_def)
    with e c have "equal_items lh key = [i]" by (simp add: filter_empty_conv)
    with nxt c it that(2) [OF _ bl b_def _ c(1) c(3) _ u] show ?thesis by simp
  qed
qed

lemma retrieve: "table lh \<Longrightarrow> lh_retrieve lh key = lh_map lh key"
  by (erule next_ptr_cases [of lh key]) (simp_all add: lh_retrieve_def at_ptr_def lh_map_def)

text \<open>\<open>lh_retrieve_key\<close>, for a key of another type that has the hash and the equality of \<open>data\<close>.\<close>

lemma retrieve_key:
  assumes "table lh" "key_hash = hash data" "\<And>x. cmp_key key x = 0 \<longleftrightarrow> cmp x data = 0"
  shows "lh_retrieve_key lh key key_hash cmp_key = lh_map lh data"
proof -
  have "chain_position (\<lambda>cur. cmp_key key cur) c = chain_position (\<lambda>cur. cmp cur data) c" for c
    using assms(3) by (induction c) auto
  then have "lh_retrieve_key lh key key_hash cmp_key = lh_retrieve lh data"
    using assms by (simp add: lh_retrieve_key_def lh_retrieve_def get_next_ptr_by_key_def
        get_next_ptr_and_hash_def Let_def table_def)
  with retrieve [OF assms(1)] show ?thesis by simp
qed

text \<open>
  Every change of the table replaces the item equal to \<open>data\<close>, if there is one, by the item that is
  wanted there, if any.
\<close>

lemma updated:
  assumes t: "table lh" and b: "b = bucket_of (hash data) (num_buckets lh)"
    and bs: "buckets lh ! b = xs @ es @ ys" "equal_items lh data = es"
    and es': "length es' \<le> 1" "\<And>i. i \<in> set es' \<Longrightarrow> cmp (item_data i) data = 0 \<and> item_hash i = hash data"
    and lh': "buckets lh' = (buckets lh)[b := xs @ es' @ ys]" "num_buckets lh' = num_buckets lh"
      "lh_hash lh' = lh_hash lh" "lh_comp lh' = lh_comp lh"
      "num_items lh' + of_nat (length es) = num_items lh + of_nat (length es')"
    and d: "d = (case es' of [] \<Rightarrow> None | i # _ \<Rightarrow> Some (item_data i))"
  shows "table lh'"
    "lh_map lh' = (\<lambda>x. if cmp data x = 0 then d else lh_map lh x)"
proof -
  have ok: "lh_ok lh" using t by (simp add: table_def)
  have c: "lh_comp lh = cmp" "lh_comp lh' = cmp" using t lh' by (simp_all add: table_def)
  have r: "b < length (buckets lh)" using bucket_in_range [OF t] b by simp
  define P S where PS: "P = concat (take b (buckets lh)) @ xs" "S = ys @ concat (drop (Suc b) (buckets lh))"
  have it: "lh_items lh = P @ es @ S" and it': "lh_items lh' = P @ es' @ S"
    using r bs lh' by (simp_all add: lh_items_def concat_at [of b "buckets lh"] concat_update PS)
  note eq = equal_items_def c
  have es: "cmp (item_data i) data = 0" if "i \<in> set es" for i using that bs(2) by (auto simp: eq)
  have e: "equal_items lh' x = (if cmp data x = 0 then es' else equal_items lh x)" for x
  proof (cases "cmp data x = 0")
    case True
    let ?f = "filter (\<lambda>i. cmp (item_data i) x = 0)"
    have k: "?f es = es" "?f es' = es'"
      using es es' True by (auto simp: filter_id_conv intro: cmp_trans)
    have "?f P @ ?f es @ ?f S = es"
      using equal_items_cong [OF c(1) True] it bs(2) by (simp add: eq)
    from arg_cong [OF this, of length] have "?f P = []" "?f S = []" by (simp_all add: k)
    with True it' k show ?thesis by (simp add: eq)
  next
    case False
    then have "\<not> cmp (item_data i) x = 0" if "i \<in> set es \<union> set es'" for i
      using that es es' by (blast intro: cmp_trans cmp_sym)
    then have "filter (\<lambda>i. cmp (item_data i) x = 0) es = []" "filter (\<lambda>i. cmp (item_data i) x = 0) es' = []"
      by (simp_all add: filter_empty_conv)
    with False it it' show ?thesis by (simp add: eq)
  qed
  then show "lh_map lh' = (\<lambda>x. if cmp data x = 0 then d else lh_map lh x)"
    by (simp add: lh_map_def fun_eq_iff d)
  have h: "\<forall>i \<in> set (lh_items lh). item_hash i = hash (item_data i)"
    using t by (simp add: table_def lh_ok_def)
  have "item_hash i = hash (item_data i)" if "i \<in> set es'" for i using es'(2) [OF that] cmp_hash by metis
  with h have h': "\<forall>i \<in> set (lh_items lh'). item_hash i = lh_hash lh' (item_data i)"
    using t lh' by (auto simp: it it' table_def)
  have pl: "placed (num_buckets lh) (buckets lh)" using ok by (simp add: lh_ok_def)
  have "set (xs @ ys) \<subseteq> set (buckets lh ! b)" using bs(1) by auto
  then have "\<forall>i \<in> set (xs @ es' @ ys). bucket_of (item_hash i) (num_buckets lh) = b"
    using es'(2) b pl r by (auto simp: placed_def)
  then have p: "placed (num_buckets lh') (buckets lh')"
    unfolding lh' by (rule placed_update [OF pl])
  have "num_items lh' + of_nat (length es) = of_nat (length (lh_items lh')) + of_nat (length es)"
    using lh'(5) ok by (simp add: lh_ok_def it it' ac_simps)
  then have n: "num_items lh' = of_nat (length (lh_items lh'))" by (rule add_right_imp_eq)
  have l: "length (equal_items lh' x) \<le> 1" for x using e [of x] es'(1) ok by (simp add: lh_ok_def)
  have k: "kMinNumBuckets \<le> num_buckets lh'" using ok by (simp add: lh_ok_def lh'(2))
  have "lh_ok lh'" unfolding lh_ok_def by (intro conjI allI k p h' n l)
  with t lh' show "table lh'" by (simp add: table_def)
qed

lemma resized:
  assumes "table lh"
  obtains lh' where "lh_maybe_resize alloc lh = Some lh'" "table lh'" "lh_map lh' = lh_map lh"
proof -
  have ok: "lh_ok lh" using assms by (simp add: table_def)
  obtain lh' where r: "lh_maybe_resize alloc lh = Some lh'" "lh_ok lh'" "lh_map lh' = lh_map lh" "same_items lh lh'"
    by (rule lh_maybe_resize_ok [OF ok])
  from table_same_items [OF assms r(4) r(2)] have "table lh'" .
  with that r show ?thesis by blast
qed

text \<open>
  Inserting: a failure (of an allocation) leaves the table as it was and needs that no element is equal
  to the new one; success updates the map and hands back the element that was replaced.
\<close>

lemma insert:
  assumes t: "table lh"
  obtains (failed) "lh_insert alloc lh data = Some (False, None, lh)" "lh_map lh data = None"
      "OPENSSL_malloc alloc sizeof_LHASH_ITEM = None"
  | (inserted) lh' where "lh_insert alloc lh data = Some (True, lh_map lh data, lh')" "table lh'"
      "lh_map lh' = (\<lambda>x. if cmp data x = 0 then Some data else lh_map lh x)"
proof (rule next_ptr_cases [OF t, of data])
  fix b P S
  assume s: "get_next_ptr_and_hash lh data = (hash data, b, length (buckets lh ! b))"
      "b < length (buckets lh)" "b = bucket_of (hash data) (num_buckets lh)" "equal_items lh data = []"
      "lh_items lh = P @ buckets lh ! b @ S" "\<And>c. concat ((buckets lh)[b := c]) = P @ c @ S"
  then have none: "lh_map lh data = None" by (simp add: lh_map_def)
  let ?it = "\<lparr>item_data = data, item_hash = hash data\<rparr>"
  define lh1 where "lh1 = lh\<lparr>buckets := (buckets lh)[b := buckets lh ! b @ [?it]], num_items := num_items lh + 1\<rparr>"
  have ins: "lh_insert alloc lh data =
      (if OPENSSL_malloc alloc sizeof_LHASH_ITEM = None then Some (False, None, lh)
       else map_option (\<lambda>lh. (True, None, lh)) (lh_maybe_resize alloc lh1))"
    using s(1) by (simp add: lh_insert_def at_ptr_def lh1_def)
  have "buckets lh ! b = buckets lh ! b @ [] @ []" by simp
  from updated [OF t s(3) this s(4), of "[?it]" lh1 "Some data"]
  have "table lh1" "lh_map lh1 = (\<lambda>x. if cmp data x = 0 then Some data else lh_map lh x)"
    by (simp_all add: cmp_refl lh1_def)
  moreover obtain lh2 where "lh_maybe_resize alloc lh1 = Some lh2" "table lh2" "lh_map lh2 = lh_map lh1"
    by (rule resized [OF calculation(1)])
  ultimately show ?thesis
    using failed inserted [of lh2] none ins by (cases "OPENSSL_malloc alloc sizeof_LHASH_ITEM = None") simp_all
next
  fix b xs i ys P S
  assume s: "get_next_ptr_and_hash lh data = (hash data, b, length xs)"
      "b < length (buckets lh)" "b = bucket_of (hash data) (num_buckets lh)" "equal_items lh data = [i]"
      "buckets lh ! b = xs @ i # ys" "cmp (item_data i) data = 0"
      "lh_items lh = (P @ xs) @ i # (ys @ S)" "\<And>c. concat ((buckets lh)[b := c]) = P @ c @ S"
  let ?it = "i\<lparr>item_data := data\<rparr>"
  define lh1 where "lh1 = lh\<lparr>buckets := (buckets lh)[b := xs @ ?it # ys]\<rparr>"
  have ins: "lh_insert alloc lh data = Some (True, lh_map lh data, lh1)"
    using s(1,4,5) by (simp add: lh_insert_def at_ptr_def lh1_def lh_map_def)
  have h: "item_hash i = hash data"
  proof -
    have "i \<in> set (lh_items lh)" using s(7) by simp
    then show ?thesis using t s(6) cmp_hash by (auto simp: table_def lh_ok_def)
  qed
  have "buckets lh ! b = xs @ [i] @ ys" using s(5) by simp
  from updated [OF t s(3) this s(4), of "[?it]" lh1 "Some data"]
  have "table lh1" "lh_map lh1 = (\<lambda>x. if cmp data x = 0 then Some data else lh_map lh x)"
    by (simp_all add: cmp_refl lh1_def h)
  with ins inserted show ?thesis by blast
qed

lemma delete:
  assumes t: "table lh"
  obtains lh' where "lh_delete alloc lh data = Some (lh_map lh data, lh')" "table lh'"
    "lh_map lh' = (\<lambda>x. if cmp data x = 0 then None else lh_map lh x)"
proof (rule next_ptr_cases [OF t, of data])
  fix b P S
  assume s: "get_next_ptr_and_hash lh data = (hash data, b, length (buckets lh ! b))" "equal_items lh data = []"
  have "lh_map lh = (\<lambda>x. if cmp data x = 0 then None else lh_map lh x)"
  proof
    fix x
    have "lh_map lh x = None" if "cmp data x = 0"
      using equal_items_cong [OF _ that, of lh] t s(2) by (simp add: lh_map_def table_def)
    then show "lh_map lh x = (if cmp data x = 0 then None else lh_map lh x)" by simp
  qed
  moreover have "lh_delete alloc lh data = Some (lh_map lh data, lh)"
    using s by (simp add: lh_delete_def at_ptr_def lh_map_def)
  ultimately show ?thesis using t that by metis
next
  fix b xs i ys P S
  assume s: "get_next_ptr_and_hash lh data = (hash data, b, length xs)"
      "b < length (buckets lh)" "b = bucket_of (hash data) (num_buckets lh)" "equal_items lh data = [i]"
      "buckets lh ! b = xs @ i # ys" "cmp (item_data i) data = 0"
      "lh_items lh = (P @ xs) @ i # (ys @ S)" "\<And>c. concat ((buckets lh)[b := c]) = P @ c @ S"
  define lh1 where "lh1 = lh\<lparr>buckets := (buckets lh)[b := xs @ ys], num_items := num_items lh - 1\<rparr>"
  have del: "lh_delete alloc lh data = map_option (\<lambda>lh1. (lh_map lh data, lh1)) (lh_maybe_resize alloc lh1)"
    using s(1,4,5) by (simp add: lh_delete_def at_ptr_def lh1_def lh_map_def)
  have "buckets lh ! b = xs @ [i] @ ys" using s(5) by simp
  from updated [OF t s(3) this s(4), of "[]" lh1 None]
  have "table lh1" "lh_map lh1 = (\<lambda>x. if cmp data x = 0 then None else lh_map lh x)"
    by (simp_all add: lh1_def)
  moreover obtain lh2 where "lh_maybe_resize alloc lh1 = Some lh2" "table lh2" "lh_map lh2 = lh_map lh1"
    by (rule resized [OF calculation(1)])
  ultimately show ?thesis using del that [of lh2] by simp
qed

text \<open>
  The callback sees every element once; afterwards the table may have another size, but it is the
  same map.
\<close>

lemma doall:
  assumes "table lh"
  obtains lh' where "lh_doall_arg alloc lh f arg = Some (fold f (map item_data (lh_items lh)) arg, lh')"
    "table lh'" "lh_map lh' = lh_map lh"
proof -
  define l1 where "l1 = (if callback_depth lh < 0xffffffff then lh\<lparr>callback_depth := callback_depth lh + 1\<rparr> else lh)"
  define l2 where "l2 = (if callback_depth l1 < 0xffffffff then l1\<lparr>callback_depth := callback_depth l1 - 1\<rparr> else l1)"
  have b: "buckets l1 = buckets lh" by (simp add: l1_def)
  have k: "table (lh\<lparr>callback_depth := n\<rparr>)" "lh_map (lh\<lparr>callback_depth := n\<rparr>) = lh_map lh" if "table lh"
    for n and lh :: "'a lhash"
    using that by (simp_all add: table_def lh_ok_callback_depth)
  from k assms have "table l1" "lh_map l1 = lh_map lh" unfolding l1_def by (simp_all split del: if_split split: if_splits)
  then have t: "table l2" "lh_map l2 = lh_map lh" unfolding l2_def using k [of l1] by (simp_all split: if_splits)
  have "foldl (\<lambda>arg cur. f (item_data cur) arg) arg xs = fold f (map item_data xs) arg" for xs :: "'a lhash_item list"
    by (induction xs arbitrary: arg) simp_all
  then have d: "lh_doall_arg alloc lh f arg =
      map_option (\<lambda>l. (fold f (map item_data (lh_items lh)) arg, l)) (lh_maybe_resize alloc l2)"
    using b by (simp add: lh_doall_arg_def Let_def foldl_concat lh_items_def flip: l1_def l2_def)
  obtain lh' where "lh_maybe_resize alloc l2 = Some lh'" "table lh'" "lh_map lh' = lh_map l2"
    by (rule resized [OF t(1)])
  with d t(2) that show ?thesis by simp
qed

lemma history:
  assumes "lh_history hash cmp lh m"
  shows "table lh" "lh_map lh = m"
proof -
  from assms have "table lh \<and> lh_map lh = m"
  proof (induction rule: lh_history.induct)
    case (new alloc lh)
    from new_table [OF this] show ?case by simp
  next
    case (put lh m alloc d old lh')
    then have t: "table lh" by simp
    show ?case by (rule insert [OF t, of alloc d]) (use put in auto)
  next
    case (put_failed lh m alloc d old lh')
    then have t: "table lh" by simp
    show ?case by (rule insert [OF t, of alloc d]) (use put_failed in auto)
  next
    case (remove lh m alloc d old lh')
    then have t: "table lh" by simp
    show ?case by (rule delete [OF t, of alloc d]) (use remove in auto)
  next
    case (visit lh m alloc f arg arg' lh')
    then have t: "table lh" by simp
    show ?case by (rule doall [OF t, of alloc f arg]) (use visit in auto)
  qed
  then show "table lh" "lh_map lh = m" by simp_all
qed

end

lemma table_behaviour:
  assumes "hash_client hash cmp" "lh_history hash cmp lh m"
  shows "lh_retrieve lh x = m x \<and>
    (\<exists>lh'. lh_delete alloc lh x = Some (m x, lh') \<and>
       lh_retrieve lh' = (\<lambda>y. if cmp x y = 0 then None else m y)) \<and>
    (lh_insert alloc lh x = Some (False, None, lh) \<and> m x = None \<or>
     (\<exists>lh'. lh_insert alloc lh x = Some (True, m x, lh') \<and>
        lh_retrieve lh' = (\<lambda>y. if cmp x y = 0 then Some x else m y)))"
proof -
  note t = hash_client.history [OF assms]
  have r: "lh_retrieve lh' = lh_map lh'" if "hash_client.table hash cmp lh'" for lh'
    by (rule ext) (rule hash_client.retrieve [OF assms(1) that])
  have d: "\<exists>lh'. lh_delete alloc lh x = Some (m x, lh') \<and> lh_retrieve lh' = (\<lambda>y. if cmp x y = 0 then None else m y)"
    by (rule hash_client.delete [OF assms(1) t(1), of alloc x]) (use t(2) r in auto)
  have i: "lh_insert alloc lh x = Some (False, None, lh) \<and> m x = None \<or>
     (\<exists>lh'. lh_insert alloc lh x = Some (True, m x, lh') \<and> lh_retrieve lh' = (\<lambda>y. if cmp x y = 0 then Some x else m y))"
    by (rule hash_client.insert [OF assms(1) t(1), of alloc x]) (use t(2) r in auto)
  from d i t r show ?thesis by simp
qed

end
