(* ===== verification/Stack.thy ===== *)
theory Stack
  imports Mem "HOL-Library.Multiset"
begin

text \<open>
  \<open>crypto/stack/stack.c\<close>: the growable array of pointers, sorted on demand. A \<open>void *\<close> is \<open>None\<close> for
  NULL. The stack stores a pointer \<open>comp\<close> to the comparison function (type \<open>'c\<close>); \<open>call_cmp\<close> is the
  wrapper \<open>call_cmp_func\<close> that calls it, and \<open>qsort\<close> of the C library is a parameter. \<open>total_cmp\<close>
  is the contract a comparison function has to keep for sorting and searching to make sense; under it
  the binary search is shown to find what the linear search finds.
\<close>

section \<open>Definitions\<close>

definition kMinSize :: u64 where "kMinSize = 4"

definition sizeof_pointer :: u64 where "sizeof_pointer = 8"
definition sizeof_STACK :: u64 where "sizeof_STACK = 40"

text \<open>\<open>st_data\<close> holds all the \<open>num_alloc\<close> slots of the array.\<close>

record ('a, 'c) stack =
  st_num :: u64
  st_data :: "'a option list"
  st_sorted :: bool
  st_num_alloc :: u64
  st_comp :: "'c option"

definition sk_new :: "(nat \<Rightarrow> bool) \<Rightarrow> 'c option \<Rightarrow> ('a, 'c) stack option" where
  "sk_new alloc cmp =
     (if OPENSSL_malloc alloc sizeof_STACK = None then None
      else if OPENSSL_malloc alloc (sizeof_pointer * kMinSize) = None then None
      else Some \<lparr>st_num = 0, st_data = replicate (unat kMinSize) None, st_sorted = False,
                 st_num_alloc = kMinSize, st_comp = cmp\<rparr>)"

definition sk_new_null :: "(nat \<Rightarrow> bool) \<Rightarrow> ('a, 'c) stack option" where
  "sk_new_null alloc = sk_new alloc None"

definition sk_num :: "('a, 'c) stack option \<Rightarrow> u64" where
  "sk_num sk = (case sk of None \<Rightarrow> 0 | Some sk \<Rightarrow> st_num sk)"

definition sk_zero :: "('a, 'c) stack option \<Rightarrow> ('a, 'c) stack option" where
  "sk_zero sk =
     (case sk of
        None \<Rightarrow> None
      | Some s \<Rightarrow>
          if st_num s = 0 then sk
          else Some (s\<lparr>st_data := replicate (unat (st_num s)) None @ drop (unat (st_num s)) (st_data s),
                       st_num := 0, st_sorted := False\<rparr>))"

definition sk_value :: "('a, 'c) stack option \<Rightarrow> u64 \<Rightarrow> 'a option" where
  "sk_value sk i =
     (case sk of None \<Rightarrow> None | Some s \<Rightarrow> if i \<ge> st_num s then None else st_data s ! unat i)"

definition sk_set :: "('a, 'c) stack option \<Rightarrow> u64 \<Rightarrow> 'a option \<Rightarrow> 'a option \<times> ('a, 'c) stack option" where
  "sk_set sk i p =
     (case sk of
        None \<Rightarrow> (None, None)
      | Some s \<Rightarrow> if i \<ge> st_num s then (None, sk) else (p, Some (s\<lparr>st_data := (st_data s)[unat i := p]\<rparr>)))"

text \<open>The elements handed to \<open>free_func\<close>, in order: the pointers that are not NULL.\<close>

fun non_null :: "'a option list \<Rightarrow> 'a list" where
  "non_null [] = []"
| "non_null (None # es) = non_null es"
| "non_null (Some e # es) = e # non_null es"

definition sk_pop_free_ex :: "('a, 'c) stack option \<Rightarrow> 'a list" where
  "sk_pop_free_ex sk =
     (case sk of None \<Rightarrow> [] | Some s \<Rightarrow> non_null (take (unat (st_num s)) (st_data s)))"

text \<open>\<open>memmove(&data[to], &data[from], n * sizeof(void *))\<close>\<close>

definition memmove :: "'b list \<Rightarrow> nat \<Rightarrow> nat \<Rightarrow> nat \<Rightarrow> 'b list" where
  "memmove data to fro n = take to data @ take n (drop fro data) @ drop (to + n) data"

text \<open>
  \<open>OPENSSL_realloc\<close> of the array to \<open>new_alloc\<close> slots. The slots that are added hold nothing in
  particular; no operation reads a slot past \<open>num\<close>.
\<close>

definition realloc_slots :: "(nat \<Rightarrow> bool) \<Rightarrow> 'a option list \<Rightarrow> u64 \<Rightarrow> u64 \<Rightarrow> 'a option list option" where
  "realloc_slots alloc data new_alloc alloc_size =
     (if OPENSSL_malloc alloc alloc_size = None then None
      else Some (take (unat new_alloc) data @ replicate (unat new_alloc - length data) None))"

text \<open>Making room for one more element: \<open>None\<close> when that fails.\<close>

definition sk_grow :: "(nat \<Rightarrow> bool) \<Rightarrow> ('a, 'c) stack \<Rightarrow> ('a, 'c) stack option" where
  "sk_grow alloc sk =
     (if st_num_alloc sk \<le> st_num sk + 1 then
        (let new_alloc = push_bit 1 (st_num_alloc sk);
             alloc_size = new_alloc * sizeof_pointer;
             overflow = (new_alloc < st_num_alloc sk \<or> alloc_size div sizeof_pointer \<noteq> new_alloc);
             new_alloc = (if overflow then st_num_alloc sk + 1 else new_alloc);
             alloc_size = (if overflow then new_alloc * sizeof_pointer else alloc_size)
         in if new_alloc < st_num_alloc sk \<or> alloc_size div sizeof_pointer \<noteq> new_alloc then None
            else case realloc_slots alloc (st_data sk) new_alloc alloc_size of
              None \<Rightarrow> None
            | Some data \<Rightarrow> Some (sk\<lparr>st_data := data, st_num_alloc := new_alloc\<rparr>))
      else Some sk)"

definition sk_insert ::
  "(nat \<Rightarrow> bool) \<Rightarrow> ('a, 'c) stack option \<Rightarrow> 'a option \<Rightarrow> u64 \<Rightarrow> u64 \<times> ('a, 'c) stack option" where
  "sk_insert alloc sk p pos =
     (case sk of
        None \<Rightarrow> (0, None)
      | Some s \<Rightarrow>
          (case sk_grow alloc s of
             None \<Rightarrow> (0, sk)
           | Some s \<Rightarrow>
               (let data =
                  (if pos \<ge> st_num s then (st_data s)[unat (st_num s) := p]
                   else (memmove (st_data s) (unat pos + 1) (unat pos) (unat (st_num s - pos)))[unat pos := p])
                in (st_num s + 1, Some (s\<lparr>st_data := data, st_num := st_num s + 1, st_sorted := False\<rparr>)))))"

definition sk_delete :: "('a, 'c) stack option \<Rightarrow> u64 \<Rightarrow> 'a option \<times> ('a, 'c) stack option" where
  "sk_delete sk pos =
     (case sk of
        None \<Rightarrow> (None, None)
      | Some s \<Rightarrow>
          if pos \<ge> st_num s then (None, sk)
          else
            (let ret = st_data s ! unat pos;
                 data =
                   (if pos \<noteq> st_num s - 1
                    then memmove (st_data s) (unat pos) (unat pos + 1) (unat (st_num s - pos - 1))
                    else st_data s)
             in (ret, Some (s\<lparr>st_data := data, st_num := st_num s - 1\<rparr>))))"

text \<open>The linear searches: the first index from \<open>i\<close> on whose element satisfies \<open>P\<close>.\<close>

lemma unat_next: "(x :: 'a::len word) < y \<Longrightarrow> unat (x + 1) = unat x + 1"
proof -
  assume "x < y"
  then have "unat x < unat y" by (simp add: word_less_nat_alt)
  moreover have "unat y < 2 ^ LENGTH('a)" by (rule unsigned_less)
  ultimately have "unat x + 1 < 2 ^ LENGTH('a)" by linarith
  then show "unat (x + 1) = unat x + 1" by (simp add: unat_word_ariths)
qed

function find_from :: "('a option \<Rightarrow> bool) \<Rightarrow> ('a, 'c) stack \<Rightarrow> u64 \<Rightarrow> u64 option" where
  "find_from P s i =
     (if i < st_num s then (if P (st_data s ! unat i) then Some i else find_from P s (i + 1)) else None)"
  by pat_completeness auto
termination
by (relation "measure (\<lambda>(P, s, i). unat (st_num s) - unat i)")
    (auto simp: unat_next word_less_nat_alt)

declare find_from.simps [simp del]

definition sk_delete_ptr ::
  "('a, 'c) stack option \<Rightarrow> 'a option \<Rightarrow> 'a option \<times> ('a, 'c) stack option" where
  "sk_delete_ptr sk p =
     (case sk of
        None \<Rightarrow> (None, None)
      | Some s \<Rightarrow>
          (case find_from (\<lambda>e. e = p) s 0 of None \<Rightarrow> (None, sk) | Some i \<Rightarrow> sk_delete sk i))"

definition sk_is_sorted :: "('a, 'c) stack option \<Rightarrow> bool" where
  "sk_is_sorted sk = (case sk of None \<Rightarrow> True | Some s \<Rightarrow> st_sorted s)"

text \<open>
  The binary search. The outer \<open>None\<close> is a failed assertion, \<open>Some None\<close> the result zero,
  \<open>Some (Some i)\<close> the result one with \<open>*out_index = i\<close>.
\<close>

definition mid_of :: "u64 \<Rightarrow> u64 \<Rightarrow> u64" where
  "mid_of lo hi = lo + (hi - lo - 1) div 2"

lemma search_shrinks:
  fixes lo mid hi :: u64
  assumes "lo \<le> mid" "mid < hi"
  shows "unat hi - unat (mid + 1) < unat hi - unat lo" "unat mid - unat lo < unat hi - unat lo"
    "mid + 1 < hi \<Longrightarrow> unat (mid + 1) - unat lo < unat hi - unat lo"
  using assms unat_next [OF assms(2)] by (simp_all add: word_less_nat_alt word_le_nat_alt)

function search_loop :: "('a option \<Rightarrow> int) \<Rightarrow> 'a option list \<Rightarrow> u64 \<Rightarrow> u64 \<Rightarrow> u64 option option" where
  "search_loop cmp data lo hi =
     (if lo < hi then
        (let mid = mid_of lo hi
         in if \<not> (lo \<le> mid \<and> mid < hi) then None
            else
              (let elem = data ! unat mid; r = cmp elem
               in if r > 0 then search_loop cmp data (mid + 1) hi
                  else if r < 0 then search_loop cmp data lo mid
                  else if hi - lo = 1 then Some (Some mid)
                  else if \<not> mid + 1 < hi then None
                  else search_loop cmp data lo (mid + 1)))
      else if lo = hi then Some None else None)"
  by pat_completeness auto

termination
  by (relation "measure (\<lambda>(cmp, data, lo, hi). unat hi - unat lo)")
    (auto intro: search_shrinks)

declare search_loop.simps [simp del]

definition sk_find ::
  "('c \<Rightarrow> 'a option \<Rightarrow> 'a option \<Rightarrow> int) \<Rightarrow> ('a, 'c) stack option \<Rightarrow> 'a option \<Rightarrow> u64 option option" where
  "sk_find call_cmp sk p =
     (case sk of
        None \<Rightarrow> Some None
      | Some s \<Rightarrow>
          (case st_comp s of
             None \<Rightarrow> Some (find_from (\<lambda>e. e = p) s 0)
           | Some c \<Rightarrow>
               if p = None then Some None
               else if \<not> sk_is_sorted sk then Some (find_from (\<lambda>e. call_cmp c p e = 0) s 0)
               else search_loop (call_cmp c p) (st_data s) 0 (st_num s)))"

definition sk_shift :: "('a, 'c) stack option \<Rightarrow> 'a option \<times> ('a, 'c) stack option" where
  "sk_shift sk =
     (case sk of
        None \<Rightarrow> (None, None)
      | Some s \<Rightarrow> if st_num s = 0 then (None, sk) else sk_delete sk 0)"

definition sk_push ::
  "(nat \<Rightarrow> bool) \<Rightarrow> ('a, 'c) stack \<Rightarrow> 'a option \<Rightarrow> u64 \<times> ('a, 'c) stack option" where
  "sk_push alloc sk p = sk_insert alloc (Some sk) p (st_num sk)"

definition sk_pop :: "('a, 'c) stack option \<Rightarrow> 'a option \<times> ('a, 'c) stack option" where
  "sk_pop sk =
     (case sk of
        None \<Rightarrow> (None, None)
      | Some s \<Rightarrow> if st_num s = 0 then (None, sk) else sk_delete sk (st_num s - 1))"

definition sk_dup :: "(nat \<Rightarrow> bool) \<Rightarrow> ('a, 'c) stack option \<Rightarrow> ('a, 'c) stack option" where
  "sk_dup alloc sk =
     (case sk of
        None \<Rightarrow> None
      | Some sk \<Rightarrow>
          (case sk_new alloc (st_comp sk) of
             None \<Rightarrow> None
           | Some ret \<Rightarrow>
               (case realloc_slots alloc (st_data ret) (st_num_alloc sk) (sizeof_pointer * st_num_alloc sk) of
                  None \<Rightarrow> None
                | Some s \<Rightarrow>
                    (let n = unat (st_num sk)
                     in Some (ret\<lparr>st_num := st_num sk,
                                  st_data := take n (st_data sk) @ drop n s,
                                  st_sorted := st_sorted sk,
                                  st_num_alloc := st_num_alloc sk,
                                  st_comp := st_comp sk\<rparr>)))))"

definition sk_sort ::
  "(('a option \<Rightarrow> 'a option \<Rightarrow> int) \<Rightarrow> 'a option list \<Rightarrow> 'a option list)
   \<Rightarrow> ('c \<Rightarrow> 'a option \<Rightarrow> 'a option \<Rightarrow> int) \<Rightarrow> ('a, 'c) stack option \<Rightarrow> ('a, 'c) stack option" where
  "sk_sort qsort call_cmp sk =
     (case sk of
        None \<Rightarrow> None
      | Some s \<Rightarrow>
          (case st_comp s of
             None \<Rightarrow> sk
           | Some c \<Rightarrow>
               if st_sorted s then sk
               else
                 (let n = unat (st_num s);
                      data =
                        (if st_num s \<ge> 2 then qsort (call_cmp c) (take n (st_data s)) @ drop n (st_data s)
                         else st_data s)
                  in Some (s\<lparr>st_data := data, st_sorted := True\<rparr>))))"

definition sk_set_cmp_func :: "('a, 'c) stack \<Rightarrow> 'c option \<Rightarrow> 'c option \<times> ('a, 'c) stack" where
  "sk_set_cmp_func sk cmp =
     (let old = st_comp sk;
          sk = (if st_comp sk \<noteq> cmp then sk\<lparr>st_sorted := False\<rparr> else sk)
      in (old, sk\<lparr>st_comp := cmp\<rparr>))"

text \<open>
  The loop of \<open>sk_deep_copy\<close> on the copied array: \<open>Inl\<close> the copies to free when a copy fails, in
  order, \<open>Inr\<close> the array otherwise.
\<close>

fun deep_copy_loop :: "('a \<Rightarrow> 'a option) \<Rightarrow> 'a option list \<Rightarrow> 'a option list \<Rightarrow> 'a list + 'a option list" where
  "deep_copy_loop copy_func copied [] = Inr copied"
| "deep_copy_loop copy_func copied (None # rest) = deep_copy_loop copy_func (copied @ [None]) rest"
| "deep_copy_loop copy_func copied (Some e # rest) =
     (case copy_func e of
        None \<Rightarrow> Inl (non_null copied)
      | Some e' \<Rightarrow> deep_copy_loop copy_func (copied @ [Some e']) rest)"

definition sk_deep_copy ::
  "(nat \<Rightarrow> bool) \<Rightarrow> ('a, 'c) stack option \<Rightarrow> ('a \<Rightarrow> 'a option) \<Rightarrow> ('a, 'c) stack option \<times> 'a list" where
  "sk_deep_copy alloc sk copy_func =
     (case sk_dup alloc sk of
        None \<Rightarrow> (None, [])
      | Some ret \<Rightarrow>
          (let n = unat (st_num ret)
           in case deep_copy_loop copy_func [] (take n (st_data ret)) of
                Inl freed \<Rightarrow> (None, freed)
              | Inr copies \<Rightarrow> (Some (ret\<lparr>st_data := copies @ drop n (st_data ret)\<rparr>), [])))"

section \<open>The stack as a list\<close>

definition sk_list :: "('a, 'c) stack \<Rightarrow> 'a option list" where
  "sk_list s = take (unat (st_num s)) (st_data s)"

text \<open>The array has the recorded size, which is representable in bytes, and is never full.\<close>

definition stack_ok :: "('a, 'c) stack \<Rightarrow> bool" where
  "stack_ok s \<longleftrightarrow>
     length (st_data s) = unat (st_num_alloc s) \<and> st_num s < st_num_alloc s \<and>
     unat (st_num_alloc s) * 8 < 2 ^ 64"

lemma length_sk_list: "stack_ok s \<Longrightarrow> length (sk_list s) = unat (st_num s)"
  by (simp add: stack_ok_def sk_list_def word_less_nat_alt)

lemma sk_list_nth: "stack_ok s \<Longrightarrow> i < st_num s \<Longrightarrow> sk_list s ! unat i = st_data s ! unat i"
  by (simp add: sk_list_def word_less_nat_alt)

lemma sk_new_ok:
  "sk_new alloc cmp = Some s \<Longrightarrow> stack_ok s \<and> sk_list s = [] \<and> st_comp s = cmp \<and> \<not> st_sorted s"
  by (auto simp: sk_new_def stack_ok_def sk_list_def kMinSize_def split: if_splits)

lemma sk_zero_ok:
  "stack_ok s \<Longrightarrow> \<exists>s'. sk_zero (Some s) = Some s' \<and> stack_ok s' \<and> sk_list s' = [] \<and> st_comp s' = st_comp s"
  by (auto simp: sk_zero_def stack_ok_def sk_list_def word_less_nat_alt)

lemma sk_value_eq:
  "stack_ok s \<Longrightarrow> sk_value (Some s) i = (if unat i < length (sk_list s) then sk_list s ! unat i else None)"
  by (simp add: sk_value_def length_sk_list sk_list_nth word_less_nat_alt word_le_nat_alt not_le)

lemma sk_set_ok:
  assumes "stack_ok s"
  shows "sk_set (Some s) i p =
    (if unat i < length (sk_list s) then (p, Some (s\<lparr>st_data := (st_data s)[unat i := p]\<rparr>)) else (None, Some s))"
    "stack_ok (s\<lparr>st_data := (st_data s)[j := p]\<rparr>)"
    "sk_list (s\<lparr>st_data := (st_data s)[j := p]\<rparr>) = (sk_list s)[j := p]"
  using assms length_sk_list [OF assms]
  by (simp_all add: sk_set_def stack_ok_def word_le_nat_alt not_le sk_list_def take_update_swap)


subsection \<open>Insertion and deletion\<close>

lemma bytes_representable: "(n :: u64) * 8 div 8 = n \<longleftrightarrow> unat n * 8 < 2 ^ 64"
proof
  assume "unat n * 8 < 2 ^ 64"
  then have "unat (n * 8) = unat n * 8" by (simp add: unat_word_ariths)
  then show "n * 8 div 8 = n" by (simp add: word_unat_eq_iff unat_div)
next
  assume "n * 8 div 8 = n"
  then have "unat (n * 8 div 8) = unat n" by simp
  then have "unat (n * 8) div 8 = unat n" by (simp add: unat_div)
  moreover have "unat (n * 8) < 2 ^ 64" using unsigned_less [of "n * 8", where ?'a = nat] by simp
  ultimately show "unat n * 8 < 2 ^ 64" by linarith
qed

lemma sk_grow_ok:
  assumes "stack_ok s" "sk_grow alloc s = Some s'"
  shows "stack_ok s'" "sk_list s' = sk_list s" "st_num s' = st_num s" "st_comp s' = st_comp s"
    "unat (st_num s) + 1 < unat (st_num_alloc s')"
proof -
  let ?a = "st_num_alloc s" let ?n = "st_num s"
  have len: "length (st_data s) = unat ?a" "unat ?n < unat ?a" "unat ?a * 8 < 2 ^ 64"
    using assms(1) by (simp_all add: stack_ok_def word_less_nat_alt)
  have n1: "unat (?n + 1) = unat ?n + 1" using assms(1) unat_next [of ?n ?a] by (simp add: stack_ok_def)
  consider "s' = s" "unat ?n + 1 < unat ?a"
    | new_alloc where "unat ?a < unat new_alloc" "unat new_alloc * 8 < 2 ^ 64" "?a \<le> ?n + 1"
      "s' = s\<lparr>st_data := take (unat new_alloc) (st_data s) @ replicate (unat new_alloc - length (st_data s)) None,
              st_num_alloc := new_alloc\<rparr>"
  proof (cases "?a \<le> ?n + 1")
    case False
    then show ?thesis using that(1) assms(2) n1 by (simp add: sk_grow_def word_le_nat_alt)
  next
    case True
    have two: "unat (push_bit 1 ?a) = 2 * unat ?a" using len(3) by (simp only: unat_push_bit) simp
    have one: "unat (?a + 1) = unat ?a + 1" using len(3) by (simp add: unat_word_ariths)
    let ?new = "if push_bit 1 ?a < ?a \<or> push_bit 1 ?a * 8 div 8 \<noteq> push_bit 1 ?a then ?a + 1 else push_bit 1 ?a"
    have "?new * 8 div 8 = ?new"
      and s': "s' = s\<lparr>st_data := take (unat ?new) (st_data s) @ replicate (unat ?new - length (st_data s)) None,
              st_num_alloc := ?new\<rparr>"
      using assms(2) True
      by (auto simp: sk_grow_def Let_def sizeof_pointer_def realloc_slots_def split: if_splits)
    then have "unat ?new * 8 < 2 ^ 64" by (simp only: bytes_representable)
    moreover have "unat ?a < unat ?new" using two one len(2) by simp
    ultimately show ?thesis using that(2) True s' by blast
  qed
  then show "stack_ok s'" "sk_list s' = sk_list s" "st_num s' = ?n" "st_comp s' = st_comp s"
    "unat ?n + 1 < unat (st_num_alloc s')"
    using len assms(1) by (cases; auto simp: stack_ok_def sk_list_def word_less_nat_alt)+
qed

lemma insert_slots:
  assumes "pos < n" "n < length data"
  shows "take (Suc n) ((memmove data (pos + 1) pos (n - pos))[pos := p]) =
    take pos (take n data) @ p # drop pos (take n data)"
proof -
  have "take (pos + 1) data = take pos data @ [data ! pos]"
    using assms by (simp add: take_Suc_conv_app_nth)
  with assms show ?thesis
    by (simp add: memmove_def list_update_append min_def take_drop Suc_diff_le)
qed

lemma append_slot: "n < length data \<Longrightarrow> take (Suc n) (data[n := p]) = take n data @ [p]"
  by (simp add: take_Suc_conv_app_nth)

lemma delete_slots:
  assumes "pos < n" "n \<le> length data"
  shows "take (n - 1) (memmove data pos (pos + 1) (n - pos - 1)) =
    take pos (take n data) @ drop (Suc pos) (take n data)"
proof (cases "n - 1 = pos")
  case False
  with assms have "pos < n - 1" by simp
  with assms show ?thesis by (simp add: memmove_def min_def take_drop)
qed (use assms in \<open>simp add: memmove_def\<close>)

lemma length_memmove:
  "to + n \<le> length data \<Longrightarrow> fro + n \<le> length data \<Longrightarrow> length (memmove data to fro n) = length data"
  by (simp add: memmove_def)

lemma sk_insert_ok:
  assumes "stack_ok s"
  obtains (failed) "sk_insert alloc (Some s) p pos = (0, Some s)"
  | (inserted) s' where "sk_insert alloc (Some s) p pos = (st_num s + 1, Some s')" "stack_ok s'"
      "sk_list s' = take (unat pos) (sk_list s) @ p # drop (unat pos) (sk_list s)"
      "st_comp s' = st_comp s" "\<not> st_sorted s'" "length (sk_list s') = length (sk_list s) + 1"
proof (cases "sk_grow alloc s")
  case None
  with failed show ?thesis by (simp add: sk_insert_def)
next
  case (Some g)
  note g = sk_grow_ok [OF assms Some]
  define data where "data = (if pos \<ge> st_num g then (st_data g)[unat (st_num g) := p]
    else (memmove (st_data g) (unat pos + 1) (unat pos) (unat (st_num g - pos)))[unat pos := p])"
  define s' where "s' = g\<lparr>st_data := data, st_num := st_num g + 1, st_sorted := False\<rparr>"
  have ins: "sk_insert alloc (Some s) p pos = (st_num s + 1, Some s')"
    using Some g by (simp add: sk_insert_def s'_def data_def Let_def)
  have num: "unat (st_num g + 1) = unat (st_num g) + 1"
    using g(1) unat_next [of "st_num g" "st_num_alloc g"] by (simp add: stack_ok_def)
  have len: "length (st_data g) = unat (st_num_alloc g)" "unat (st_num g) + 1 < unat (st_num_alloc g)"
    using g by (simp_all add: stack_ok_def)
  have d: "length data = length (st_data g)" "take (unat (st_num g) + 1) data =
      take (unat pos) (sk_list g) @ p # drop (unat pos) (sk_list g)"
  proof -
    show "length data = length (st_data g)"
      using len by (auto simp: data_def length_memmove unat_sub word_le_nat_alt)
    show "take (unat (st_num g) + 1) data = take (unat pos) (sk_list g) @ p # drop (unat pos) (sk_list g)"
      using len insert_slots [of "unat pos" "unat (st_num g)" "st_data g" p]
      by (auto simp: data_def append_slot sk_list_def unat_sub word_le_nat_alt not_le)
  qed
  have "stack_ok s'" using d(1) g(1) len num by (simp add: s'_def stack_ok_def word_less_nat_alt)
  moreover have "sk_list s' = take (unat pos) (sk_list s) @ p # drop (unat pos) (sk_list s)"
    using d(2) by (simp only: s'_def g(2)) (simp add: sk_list_def num)
  moreover have "length (sk_list s') = length (sk_list s) + 1" by (simp add: calculation(2))
  ultimately show ?thesis
    using inserted [OF ins] g(4) by (simp add: s'_def)
qed

text \<open>With memory, a stack of fewer than \<open>2 ^ 59\<close> elements takes one more.\<close>

lemma sk_insert_succeeds:
  assumes ok: "stack_ok s" and mem: "\<forall>k. alloc k" and few: "unat (st_num s) < 2 ^ 59"
  shows "fst (sk_insert alloc (Some s) p pos) = st_num s + 1" "st_num s + 1 \<noteq> 0"
proof -
  let ?a = "st_num_alloc s"
  have n1: "unat (st_num s + 1) = unat (st_num s) + 1"
    using ok unat_next [of "st_num s" ?a] by (simp add: stack_ok_def)
  then show "st_num s + 1 \<noteq> 0" by (metis Suc_eq_plus1 nat.distinct(1) unat_0)
  have "sk_grow alloc s \<noteq> None"
  proof (cases "?a \<le> st_num s + 1")
    case True
    then have a: "unat ?a \<le> 2 ^ 59" using few n1 by (simp add: word_le_nat_alt)
    then have two: "unat (push_bit 1 ?a) = 2 * unat ?a" by (simp only: unat_push_bit) simp
    then have "unat (push_bit 1 ?a) * 8 < 2 ^ 64" "\<not> push_bit 1 ?a < ?a" using a by (simp_all add: word_less_nat_alt)
    then show ?thesis
      using True mem bytes_representable [of "push_bit 1 ?a"]
      by (simp add: sk_grow_def Let_def sizeof_pointer_def realloc_slots_def OPENSSL_malloc_def)
  qed (simp add: sk_grow_def)
  then obtain g where g: "sk_grow alloc s = Some g" by blast
  then show "fst (sk_insert alloc (Some s) p pos) = st_num s + 1"
    using sk_grow_ok(3) [OF ok g] by (simp add: sk_insert_def Let_def)
qed

lemma sk_delete_ok:
  assumes "stack_ok s"
  obtains (out_of_range) "length (sk_list s) \<le> unat pos" "sk_delete (Some s) pos = (None, Some s)"
  | (deleted) s' where "unat pos < length (sk_list s)" "sk_delete (Some s) pos = (sk_list s ! unat pos, Some s')"
      "stack_ok s'" "sk_list s' = take (unat pos) (sk_list s) @ drop (Suc (unat pos)) (sk_list s)"
      "st_comp s' = st_comp s" "st_sorted s' = st_sorted s"
proof (cases "pos \<ge> st_num s")
  case True
  with out_of_range assms show ?thesis by (simp add: sk_delete_def length_sk_list word_le_nat_alt)
next
  case False
  then have pos: "unat pos < unat (st_num s)" by (simp add: word_le_nat_alt not_le)
  have len: "length (st_data s) = unat (st_num_alloc s)" "unat (st_num s) < unat (st_num_alloc s)"
    using assms by (simp_all add: stack_ok_def word_less_nat_alt)
  have num: "unat (st_num s - 1) = unat (st_num s) - 1" using pos by (subst unat_minus_one) auto
  have mv: "unat (st_num s - pos - 1) = unat (st_num s) - unat pos - 1"
  proof -
    have "unat (st_num s - pos) = unat (st_num s) - unat pos" using pos by (simp add: unat_sub word_le_nat_alt)
    moreover from this have "st_num s - pos \<noteq> 0" using pos by auto
    ultimately show ?thesis by (simp add: unat_minus_one)
  qed
  define data where "data = (if pos \<noteq> st_num s - 1
    then memmove (st_data s) (unat pos) (unat pos + 1) (unat (st_num s - pos - 1)) else st_data s)"
  define s' where "s' = s\<lparr>st_data := data, st_num := st_num s - 1\<rparr>"
  have del: "sk_delete (Some s) pos = (sk_list s ! unat pos, Some s')"
    using False assms by (simp add: sk_delete_def s'_def data_def Let_def sk_list_nth)
  have "length data = length (st_data s) \<and>
      take (unat (st_num s) - 1) data = take (unat pos) (sk_list s) @ drop (Suc (unat pos)) (sk_list s)"
  proof (cases "pos = st_num s - 1")
    case True
    then have "unat pos = unat (st_num s) - 1" by (simp add: num)
    with True pos len show ?thesis by (simp add: data_def sk_list_def min_def)
  next
    case False
    with pos len show ?thesis
      using delete_slots [of "unat pos" "unat (st_num s)" "st_data s"]
      by (simp add: data_def mv length_memmove sk_list_def)
  qed
  then have "stack_ok s'" "sk_list s' = take (unat pos) (sk_list s) @ drop (Suc (unat pos)) (sk_list s)"
    using assms len pos by (simp_all add: s'_def stack_ok_def sk_list_def word_less_nat_alt num)
  then show ?thesis
    using deleted [OF _ del] pos assms by (simp add: s'_def length_sk_list)
qed


lemma sk_push_ok:
  assumes "stack_ok s"
  obtains (failed) "sk_push alloc s p = (0, Some s)"
  | (pushed) s' where "sk_push alloc s p = (st_num s + 1, Some s')" "st_num s + 1 \<noteq> 0" "stack_ok s'"
      "sk_list s' = sk_list s @ [p]" "st_comp s' = st_comp s" "\<not> st_sorted s'"
proof (rule sk_insert_ok [OF assms, of alloc p "st_num s"])
  assume "sk_insert alloc (Some s) p (st_num s) = (0, Some s)"
  then show ?thesis by (intro failed) (simp add: sk_push_def)
next
  fix s'
  assume s': "sk_insert alloc (Some s) p (st_num s) = (st_num s + 1, Some s')" "stack_ok s'"
    "sk_list s' = take (unat (st_num s)) (sk_list s) @ p # drop (unat (st_num s)) (sk_list s)"
    "st_comp s' = st_comp s" "\<not> st_sorted s'"
  have "unat (st_num s + 1) = unat (st_num s) + 1"
    using assms unat_next by (auto simp: stack_ok_def)
  then have "st_num s + 1 \<noteq> 0" by (metis add_is_0 unat_0 zero_neq_one)
  with s' show ?thesis by (intro pushed [of s']) (simp_all add: sk_push_def length_sk_list [OF assms])
qed

subsection \<open>Searching\<close>

text \<open>\<open>i\<close> is the first index of \<open>xs\<close> whose element satisfies \<open>P\<close>, \<open>None\<close> that there is none.\<close>

definition first_match :: "('b \<Rightarrow> bool) \<Rightarrow> 'b list \<Rightarrow> u64 option \<Rightarrow> bool" where
  "first_match P xs r \<longleftrightarrow>
     (case r of
        None \<Rightarrow> \<forall>x \<in> set xs. \<not> P x
      | Some i \<Rightarrow> unat i < length xs \<and> P (xs ! unat i) \<and> (\<forall>j < unat i. \<not> P (xs ! j)))"

lemma first_match_unique:
  assumes "first_match P xs r" "first_match P xs r'"
  shows "r = r'"
proof (cases r)
  case None
  with assms show ?thesis by (cases r') (auto simp: first_match_def)
next
  case (Some i)
  with assms obtain j where j: "r' = Some j" by (cases r') (auto simp: first_match_def)
  have "unat i = unat j"
    by (rule linorder_cases [of "unat i" "unat j"]) (use assms Some j in \<open>auto simp: first_match_def\<close>)
  with Some j show ?thesis by (simp add: word_unat_eq_iff)
qed

lemma find_from_first:
  assumes "stack_ok s" "\<forall>j < unat i. \<not> P (sk_list s ! j)"
  shows "first_match P (sk_list s) (find_from P s i)"
  using assms
proof (induction P s i rule: find_from.induct)
  case (1 P s i)
  show ?case
  proof (cases "i < st_num s")
    case False
    then have "unat (st_num s) \<le> unat i" by (simp add: word_less_nat_alt)
    with 1(2,3) False show ?thesis
      by (subst find_from.simps) (auto simp: first_match_def in_set_conv_nth length_sk_list)
  next
    case True
    note i = unat_next [OF True] True [unfolded word_less_nat_alt]
    show ?thesis
    proof (cases "P (sk_list s ! unat i)")
      case P: True
      with 1(2,3) True i show ?thesis
        by (subst find_from.simps) (auto simp: first_match_def sk_list_nth length_sk_list)
    next
      case P: False
      then have "\<forall>j < unat (i + 1). \<not> P (sk_list s ! j)" using 1(3) i(1) by (auto simp: less_Suc_eq)
      with 1(1) [OF True _ 1(2)] 1(2) P True show ?thesis
        by (subst find_from.simps) (simp add: sk_list_nth)
    qed
  qed
qed

lemma first_match_remove1:
  "first_match (\<lambda>e. e = p) xs (Some i) \<Longrightarrow> take (unat i) xs @ drop (Suc (unat i)) xs = remove1 p xs"
proof -
  assume f: "first_match (\<lambda>e. e = p) xs (Some i)"
  then have "xs = take (unat i) xs @ p # drop (Suc (unat i)) xs"
    by (auto simp: first_match_def id_take_nth_drop)
  moreover have "p \<notin> set (take (unat i) xs)"
    using f by (auto simp: first_match_def in_set_conv_nth)
  ultimately show ?thesis by (metis remove1_append remove1.simps(2))
qed

lemma sk_delete_ptr_ok:
  assumes "stack_ok s"
  obtains (missing) "p \<notin> set (sk_list s)" "sk_delete_ptr (Some s) p = (None, Some s)"
  | (deleted) s' where "p \<in> set (sk_list s)" "sk_delete_ptr (Some s) p = (p, Some s')" "stack_ok s'"
      "sk_list s' = remove1 p (sk_list s)" "st_comp s' = st_comp s" "st_sorted s' = st_sorted s"
proof -
  have f: "first_match (\<lambda>e. e = p) (sk_list s) (find_from (\<lambda>e. e = p) s 0)"
    by (rule find_from_first [OF assms]) simp
  show ?thesis
  proof (cases "find_from (\<lambda>e. e = p) s 0")
    case None
    with f missing show ?thesis by (auto simp: first_match_def sk_delete_ptr_def)
  next
    case (Some i)
    with f have i: "first_match (\<lambda>e. e = p) (sk_list s) (Some i)" by simp
    then have n: "unat i < length (sk_list s)" "sk_list s ! unat i = p" by (simp_all add: first_match_def)
    with Some deleted show ?thesis
      by (rule_tac sk_delete_ok [OF assms, of i])
        (auto simp: sk_delete_ptr_def first_match_remove1 [OF i] in_set_conv_nth)
  qed
qed

lemma mid_of:
  assumes "lo < hi"
  shows "unat (mid_of lo hi) = unat lo + (unat hi - unat lo - 1) div 2" "lo \<le> mid_of lo hi" "mid_of lo hi < hi"
proof -
  have l: "unat lo < unat hi" using assms by (simp add: word_less_nat_alt)
  have d: "unat (hi - lo) = unat hi - unat lo" using assms by (simp add: unat_sub)
  with l have "hi - lo \<noteq> 0" by auto
  with d have d1: "unat (hi - lo - 1) = unat hi - unat lo - 1" by (simp add: unat_minus_one)
  have "unat hi < 2 ^ 64" using unsigned_less [of hi, where ?'a = nat] by simp
  with l have "unat lo + (unat hi - unat lo - 1) div 2 < 2 ^ 64" by linarith
  then show m: "unat (mid_of lo hi) = unat lo + (unat hi - unat lo - 1) div 2"
    by (simp add: mid_of_def unat_word_ariths unat_div d1)
  show "lo \<le> mid_of lo hi" "mid_of lo hi < hi"
    using l by (simp_all add: word_le_nat_alt word_less_nat_alt m)
qed

text \<open>Ascending order; all elements have to be pointers that the comparison function accepts.\<close>

definition accepted :: "('a \<Rightarrow> bool) \<Rightarrow> 'a option \<Rightarrow> bool" where
  "accepted valid e = (case e of None \<Rightarrow> False | Some a \<Rightarrow> valid a)"

definition ascending :: "('a \<Rightarrow> bool) \<Rightarrow> ('a option \<Rightarrow> 'a option \<Rightarrow> int) \<Rightarrow> 'a option list \<Rightarrow> bool" where
  "ascending valid cmp xs \<longleftrightarrow> list_all (accepted valid) xs \<and> sorted_wrt (\<lambda>x y. cmp x y \<le> 0) xs"

lemma search_loop_cong:
  assumes "\<forall>i < unat hi. data ! i = data' ! i"
  shows "search_loop cmp data lo hi = search_loop cmp data' lo hi"
  using assms
proof (induction cmp data lo hi rule: search_loop.induct)
  case (1 cmp data lo hi)
  show ?case
  proof (cases "lo < hi")
    case True
    define mid where "mid = mid_of lo hi"
    have m: "lo \<le> mid" "mid < hi" and e: "data ! unat mid = data' ! unat mid"
      using mid_of [OF True] 1(4) by (simp_all add: mid_def word_less_nat_alt)
    have "\<forall>i < unat mid. data ! i = data' ! i" using 1(4) m by (simp add: word_less_nat_alt)
    moreover have "\<forall>i < unat (mid + 1). data ! i = data' ! i" if "mid + 1 < hi"
      using 1(4) that by (simp add: word_less_nat_alt)
    ultimately show ?thesis
      using 1(1-3) [OF True mid_def _ refl refl] 1(4) True m e
      by (subst (1 2) search_loop.simps) (simp add: Let_def flip: mid_def)
  qed (simp add: search_loop.simps)
qed

text \<open>The contract of a comparison function on the elements it accepts.\<close>

locale total_cmp =
  fixes valid :: "'a \<Rightarrow> bool"
    and cmp :: "'a option \<Rightarrow> 'a option \<Rightarrow> int"
  assumes cmp_swap: "valid a \<Longrightarrow> valid b \<Longrightarrow> cmp (Some a) (Some b) < 0 \<longleftrightarrow> cmp (Some b) (Some a) > 0"
    and cmp_trans: "valid a \<Longrightarrow> valid b \<Longrightarrow> valid c \<Longrightarrow>
      cmp (Some a) (Some b) \<le> 0 \<Longrightarrow> cmp (Some b) (Some c) \<le> 0 \<Longrightarrow> cmp (Some a) (Some c) \<le> 0"
begin

lemma ascending_le:
  assumes "ascending valid cmp xs" "i < j" "j < length xs"
  obtains a b where "xs ! i = Some a" "xs ! j = Some b" "valid a" "valid b" "cmp (Some a) (Some b) \<le> 0"
proof -
  have "accepted valid (xs ! i)" "accepted valid (xs ! j)"
    using assms by (simp_all add: ascending_def list_all_length)
  moreover have "cmp (xs ! i) (xs ! j) \<le> 0"
    using assms sorted_wrt_nth_less [of "\<lambda>x y. cmp x y \<le> 0" xs i j] by (simp add: ascending_def)
  ultimately show ?thesis using that by (auto simp: accepted_def split: option.splits)
qed

text \<open>Elements before one that is too low are too low, elements after one that is too high too high.\<close>

lemma too_low:
  assumes "ascending valid cmp xs" "valid p" "cmp (Some p) (xs ! j) > 0" "i < j" "j < length xs"
  shows "cmp (Some p) (xs ! i) > 0"
proof (rule ccontr)
  obtain a b where ab: "xs ! i = Some a" "xs ! j = Some b" "valid a" "valid b" "cmp (Some a) (Some b) \<le> 0"
    by (rule ascending_le [OF assms(1,4,5)])
  assume "\<not> cmp (Some p) (xs ! i) > 0"
  with cmp_trans [of p a b] ab assms(2,3) show False by simp
qed

lemma too_high:
  assumes "ascending valid cmp xs" "valid p" "cmp (Some p) (xs ! i) < 0" "i < j" "j < length xs"
  shows "cmp (Some p) (xs ! j) < 0"
proof (rule ccontr)
  obtain a b where ab: "xs ! i = Some a" "xs ! j = Some b" "valid a" "valid b" "cmp (Some a) (Some b) \<le> 0"
    by (rule ascending_le [OF assms(1,4,5)])
  assume "\<not> cmp (Some p) (xs ! j) < 0"
  then have "cmp (Some b) (Some p) \<le> 0" using cmp_swap [of p b] ab assms(2) by simp
  with cmp_trans [of a b p] ab assms(2) have "cmp (Some a) (Some p) \<le> 0" by simp
  with cmp_swap [of p a] ab assms(2,3) show False by simp
qed

text \<open>
  The invariant of the search: what is below \<open>lo\<close> is too low; what is at or above \<open>hi\<close> is too high,
  or the element just below \<open>hi\<close> is a match.
\<close>

lemma search_loop_first:
  assumes "ascending valid cmp xs" "valid p" "lo \<le> hi" "unat hi \<le> length xs" "\<forall>i < unat lo. cmp (Some p) (xs ! i) > 0"
    "(\<forall>i \<ge> unat hi. i < length xs \<longrightarrow> cmp (Some p) (xs ! i) < 0) \<or>
       lo < hi \<and> cmp (Some p) (xs ! (unat hi - 1)) = 0"
  shows "\<exists>r. search_loop (cmp (Some p)) xs lo hi = Some r \<and> first_match (\<lambda>e. cmp (Some p) e = 0) xs r"
  using assms(3-)
proof (induction "unat hi - unat lo" arbitrary: lo hi rule: less_induct)
  case less
  let ?c = "\<lambda>i. cmp (Some p) (xs ! i)"
  show ?case
  proof (cases "lo < hi")
    case False
    then have eq: "lo = hi" using less.prems(1) by simp
    have "\<forall>i \<ge> unat lo. i < length xs \<longrightarrow> ?c i < 0" using less.prems(4) eq by simp
    then have "?c i \<noteq> 0" if "i < length xs" for i
      using that less.prems(3) by (metis linorder_not_less order.irrefl)
    then show ?thesis
      by (subst search_loop.simps) (auto simp: eq first_match_def in_set_conv_nth)
  next
    case True
    define mid where "mid = mid_of lo hi"
    note m = mid_of [OF True, folded mid_def] and m1 = unat_next [OF mid_of(3) [OF True], folded mid_def]
    have len: "unat mid < length xs" "unat lo \<le> unat mid" "unat mid < unat hi"
      using m less.prems(2) by (simp_all add: word_less_nat_alt word_le_nat_alt)
    have unfold: "search_loop (cmp (Some p)) xs lo hi =
        (if ?c (unat mid) > 0 then search_loop (cmp (Some p)) xs (mid + 1) hi
         else if ?c (unat mid) < 0 then search_loop (cmp (Some p)) xs lo mid
         else if hi - lo = 1 then Some (Some mid)
         else if \<not> mid + 1 < hi then None
         else search_loop (cmp (Some p)) xs lo (mid + 1))"
      using True m by (subst search_loop.simps) (simp add: Let_def flip: mid_def)
    consider (low) "?c (unat mid) > 0" | (high) "?c (unat mid) < 0" | (match) "?c (unat mid) = 0" by linarith
    then show ?thesis
    proof cases
      case low
      have b: "\<forall>i < unat (mid + 1). ?c i > 0"
        using too_low [OF assms(1,2) low _ len(1)] low m1 by (auto simp: less_Suc_eq)
      have h: "mid + 1 \<le> hi" using m1 len by (simp add: word_le_nat_alt)
      have "mid + 1 < hi" if "?c (unat hi - 1) = 0"
      proof -
        have "unat mid \<noteq> unat hi - 1" using that low by auto
        with len m1 show ?thesis by (simp add: word_less_nat_alt)
      qed
      with less.hyps [OF _ h less.prems(2) b] less.prems(4) len m1 low unfold show ?thesis by auto
    next
      case high
      have a: "\<forall>i \<ge> unat mid. i < length xs \<longrightarrow> ?c i < 0"
        using too_high [OF assms(1,2) high] high by (metis le_neq_implies_less)
      have "search_loop (cmp (Some p)) xs lo hi = search_loop (cmp (Some p)) xs lo mid"
        using high unfold by simp
      with less.hyps [OF _ m(2) _ less.prems(3)] len a show ?thesis by simp
    next
      case match
      show ?thesis
      proof (cases "hi - lo = 1")
        case one: True
        then have "unat hi - unat lo = 1" using True unat_sub [of lo hi] by simp
        with m(1) have "unat mid = unat lo" by simp
        with match less.prems(3) len one unfold show ?thesis by (auto simp: first_match_def)
      next
        case False
        then have "unat hi - unat lo \<noteq> 1" using True unat_sub [of lo hi] by (metis less_imp_le word_unat_eq_iff unat_1)
        with len m(1) have s: "unat mid + 1 < unat hi" by linarith
        then have h: "mid + 1 < hi" using m1 by (simp add: word_less_nat_alt)
        have l: "lo < mid + 1" using m1 len by (simp add: word_less_nat_alt)
        with less.hyps [OF _ less_imp_le [OF l] _ less.prems(3)] match m1 s h len False unfold
        show ?thesis by simp
      qed
    qed
  qed
qed

text \<open>The binary search of a sorted stack returns what the linear search would.\<close>

lemma find_sorted:
  assumes "stack_ok s" "ascending valid cmp (sk_list s)" "valid p"
  shows "search_loop (cmp (Some p)) (st_data s) 0 (st_num s) =
    Some (find_from (\<lambda>e. cmp (Some p) e = 0) s 0)"
proof -
  have l: "length (sk_list s) = unat (st_num s)" by (rule length_sk_list [OF assms(1)])
  then have "search_loop (cmp (Some p)) (st_data s) 0 (st_num s) = search_loop (cmp (Some p)) (sk_list s) 0 (st_num s)"
    by (intro search_loop_cong) (simp add: sk_list_def)
  moreover obtain r where r: "search_loop (cmp (Some p)) (sk_list s) 0 (st_num s) = Some r"
    "first_match (\<lambda>e. cmp (Some p) e = 0) (sk_list s) r"
    using search_loop_first [OF assms(2,3), of 0 "st_num s"] l by auto
  moreover have "r = find_from (\<lambda>e. cmp (Some p) e = 0) s 0"
    by (rule first_match_unique [OF r(2) find_from_first [OF assms(1)]]) simp
  ultimately show ?thesis by simp
qed

end

subsection \<open>Sorting\<close>

text \<open>What the C standard promises of \<open>qsort\<close>: the order of equal elements is not specified.\<close>

definition sorts ::
  "('a \<Rightarrow> bool) \<Rightarrow> (('a option \<Rightarrow> 'a option \<Rightarrow> int) \<Rightarrow> 'a option list \<Rightarrow> 'a option list) \<Rightarrow> bool" where
  "sorts valid qsort \<longleftrightarrow>
     (\<forall>cmp xs. total_cmp valid cmp \<longrightarrow> list_all (accepted valid) xs \<longrightarrow>
        mset (qsort cmp xs) = mset xs \<and> ascending valid cmp (qsort cmp xs))"

text \<open>A sort that keeps the promise.\<close>

fun insert_by :: "('b \<Rightarrow> 'b \<Rightarrow> int) \<Rightarrow> 'b \<Rightarrow> 'b list \<Rightarrow> 'b list" where
  "insert_by cmp x [] = [x]"
| "insert_by cmp x (y # ys) = (if cmp x y \<le> 0 then x # y # ys else y # insert_by cmp x ys)"

definition insertion_sort :: "('b \<Rightarrow> 'b \<Rightarrow> int) \<Rightarrow> 'b list \<Rightarrow> 'b list" where
  "insertion_sort cmp xs = foldr (insert_by cmp) xs []"

lemma mset_insert_by: "mset (insert_by cmp x ys) = add_mset x (mset ys)"
  by (induction ys) auto

lemma mset_insertion_sort: "mset (insertion_sort cmp xs) = mset xs"
  by (induction xs) (simp_all add: insertion_sort_def mset_insert_by)

context total_cmp
begin

lemma insert_by_ascending:
  assumes "ascending valid cmp ys" "valid a"
  shows "ascending valid cmp (insert_by cmp (Some a) ys)"
  using assms(1)
proof (induction ys)
  case Nil
  then show ?case using assms(2) by (simp add: ascending_def accepted_def)
next
  case (Cons y ys)
  then obtain b where y: "y = Some b" "valid b" by (auto simp: ascending_def accepted_def split: option.splits)
  have ys: "ascending valid cmp ys" "\<forall>e \<in> set ys. cmp y e \<le> 0" "\<forall>e \<in> set ys. \<exists>c. e = Some c \<and> valid c"
    using Cons.prems by (auto simp: ascending_def accepted_def list_all_iff split: option.splits)
  show ?case
  proof (cases "cmp (Some a) y \<le> 0")
    case True
    with y ys(2,3) assms(2) have "\<forall>e \<in> set ys. cmp (Some a) e \<le> 0" by (metis cmp_trans)
    with True Cons.prems assms(2) show ?thesis by (simp add: ascending_def accepted_def)
  next
    case False
    then have "cmp y (Some a) \<le> 0" using cmp_swap [of b a] y assms(2) by simp
    moreover have "set (insert_by cmp (Some a) ys) = insert (Some a) (set ys)"
      using mset_insert_by [of cmp "Some a" ys] by (metis set_mset_add_mset_insert set_mset_mset)
    ultimately show ?thesis
      using False Cons.IH [OF ys(1)] ys(2) y by (auto simp: ascending_def accepted_def)
  qed
qed

lemma insertion_sort_ascending:
  "list_all (accepted valid) xs \<Longrightarrow> ascending valid cmp (insertion_sort cmp xs)"
proof (induction xs)
  case (Cons x xs)
  then show ?case
    by (auto simp: insertion_sort_def accepted_def split: option.splits intro!: insert_by_ascending)
qed (simp add: insertion_sort_def ascending_def)

end

lemma insertion_sort_sorts: "sorts valid insertion_sort"
  by (simp add: sorts_def mset_insertion_sort total_cmp.insertion_sort_ascending)

subsection \<open>Reachable stacks\<close>

text \<open>
  Every stack a client can build out of a new one with elements its comparison functions accept:
  by insertion, deletion, clearing, sorting, copying and exchanging the comparison function.
  \<open>sk_set\<close> is not among these operations.
\<close>

inductive sk_history ::
  "('a \<Rightarrow> bool) \<Rightarrow> (('a option \<Rightarrow> 'a option \<Rightarrow> int) \<Rightarrow> 'a option list \<Rightarrow> 'a option list)
   \<Rightarrow> ('c \<Rightarrow> 'a option \<Rightarrow> 'a option \<Rightarrow> int) \<Rightarrow> ('a, 'c) stack \<Rightarrow> bool"
  for valid qsort call_cmp where
  new: "sk_new alloc c = Some s \<Longrightarrow> sk_history valid qsort call_cmp s"
| insert: "sk_history valid qsort call_cmp s \<Longrightarrow> valid a \<Longrightarrow>
    sk_insert alloc (Some s) (Some a) pos = (n, Some s') \<Longrightarrow> sk_history valid qsort call_cmp s'"
| delete: "sk_history valid qsort call_cmp s \<Longrightarrow>
    sk_delete (Some s) pos = (r, Some s') \<Longrightarrow> sk_history valid qsort call_cmp s'"
| zero: "sk_history valid qsort call_cmp s \<Longrightarrow>
    sk_zero (Some s) = Some s' \<Longrightarrow> sk_history valid qsort call_cmp s'"
| sort: "sk_history valid qsort call_cmp s \<Longrightarrow>
    sk_sort qsort call_cmp (Some s) = Some s' \<Longrightarrow> sk_history valid qsort call_cmp s'"
| set_cmp: "sk_history valid qsort call_cmp s \<Longrightarrow>
    sk_set_cmp_func s c = (old, s') \<Longrightarrow> sk_history valid qsort call_cmp s'"
| dup: "sk_history valid qsort call_cmp s \<Longrightarrow>
    sk_dup alloc (Some s) = Some s' \<Longrightarrow> sk_history valid qsort call_cmp s'"

definition stack_inv ::
  "('a \<Rightarrow> bool) \<Rightarrow> ('c \<Rightarrow> 'a option \<Rightarrow> 'a option \<Rightarrow> int) \<Rightarrow> ('a, 'c) stack \<Rightarrow> bool" where
  "stack_inv valid call_cmp s \<longleftrightarrow>
     stack_ok s \<and> list_all (accepted valid) (sk_list s) \<and>
     (\<forall>c. st_comp s = Some c \<longrightarrow> st_sorted s \<longrightarrow> ascending valid (call_cmp c) (sk_list s))"

lemma sk_sort_ok:
  assumes "stack_inv valid call_cmp s" "sorts valid qsort" "\<And>c. total_cmp valid (call_cmp c)"
    "sk_sort qsort call_cmp (Some s) = Some s'"
  shows "stack_inv valid call_cmp s'" "mset (sk_list s') = mset (sk_list s)" "st_comp s' = st_comp s"
    "st_comp s \<noteq> None \<Longrightarrow> st_sorted s'"
proof -
  have ok: "stack_ok s" and acc: "list_all (accepted valid) (sk_list s)"
    using assms(1) by (simp_all add: stack_inv_def)
  have l: "length (st_data s) = unat (st_num_alloc s)" "unat (st_num s) < unat (st_num_alloc s)"
    "length (sk_list s) = unat (st_num s)"
    using ok length_sk_list [OF ok] by (simp_all add: stack_ok_def word_less_nat_alt)
  have "stack_inv valid call_cmp s' \<and> mset (sk_list s') = mset (sk_list s) \<and> st_comp s' = st_comp s \<and>
      (st_comp s \<noteq> None \<longrightarrow> st_sorted s')"
  proof (cases "st_comp s = None \<or> st_sorted s")
    case True
    then have "s' = s" using assms(4) by (auto simp: sk_sort_def split: option.splits)
    with True assms(1) show ?thesis by auto
  next
    case False
    then obtain c where c: "st_comp s = Some c" and f: "\<not> st_sorted s" by auto
    define xs where "xs = (if st_num s \<ge> 2 then qsort (call_cmp c) (sk_list s) else sk_list s)"
    have xs: "mset xs = mset (sk_list s)" "ascending valid (call_cmp c) xs"
    proof -
      have "ascending valid (call_cmp c) (sk_list s)" if "\<not> st_num s \<ge> 2"
      proof -
        from that l(3) have "length (sk_list s) < 2" by (simp add: word_le_nat_alt)
        then show ?thesis using acc by (cases "sk_list s") (auto simp: ascending_def)
      qed
      then show "mset xs = mset (sk_list s)" "ascending valid (call_cmp c) xs"
        using assms(2,3) acc by (auto simp: xs_def sorts_def)
    qed
    have n: "length xs = unat (st_num s)" using mset_eq_length [OF xs(1)] l(3) by simp
    have s': "s' = s\<lparr>st_data := xs @ drop (unat (st_num s)) (st_data s), st_sorted := True\<rparr>"
      using assms(4) c f by (auto simp: sk_sort_def xs_def sk_list_def Let_def)
    have "sk_list s' = xs" "stack_ok s'"
      using s' n ok l by (simp_all add: sk_list_def stack_ok_def)
    with xs s' c show ?thesis by (simp add: stack_inv_def ascending_def)
  qed
  then show "stack_inv valid call_cmp s'" "mset (sk_list s') = mset (sk_list s)" "st_comp s' = st_comp s"
    "st_comp s \<noteq> None \<Longrightarrow> st_sorted s'" by auto
qed

lemma ascending_delete:
  "ascending valid cmp xs \<Longrightarrow> ascending valid cmp (take i xs @ drop (Suc i) xs)"
  by (rule append_take_drop_id [of i xs, THEN subst, of "\<lambda>ys. ascending valid cmp ys \<longrightarrow> _", THEN mp])
    (cases "drop i xs"; auto simp: ascending_def sorted_wrt_append drop_Suc drop_tl)+

lemma sk_dup_ok:
  assumes "stack_ok s" "sk_dup alloc (Some s) = Some s'"
  shows "stack_ok s'" "sk_list s' = sk_list s" "st_sorted s' = st_sorted s" "st_comp s' = st_comp s"
  using assms
  by (auto simp: sk_dup_def realloc_slots_def sk_list_def stack_ok_def word_less_nat_alt sk_new_def Let_def
      split: option.splits if_splits)

lemma sk_history_inv:
  assumes "sk_history valid qsort call_cmp s" "sorts valid qsort" "\<And>c. total_cmp valid (call_cmp c)"
  shows "stack_inv valid call_cmp s"
  using assms(1)
proof (induction rule: sk_history.induct)
  case (new alloc c s)
  then show ?case using sk_new_ok [of alloc c s] by (simp add: stack_inv_def)
next
  case (insert s a alloc pos n s')
  from insert.IH have "stack_ok s" by (simp add: stack_inv_def)
  then show ?case
    by (rule sk_insert_ok [of s alloc "Some a" pos])
      (use insert in \<open>auto simp: stack_inv_def accepted_def list_all_iff dest: in_set_takeD in_set_dropD\<close>)
next
  case (delete s pos r s')
  from delete.IH have "stack_ok s" by (simp add: stack_inv_def)
  then show ?case
    by (rule sk_delete_ok [of s pos])
      (use delete in \<open>auto simp: stack_inv_def list_all_iff intro: ascending_delete dest: in_set_takeD in_set_dropD\<close>)
next
  case (zero s s')
  then show ?case
    using sk_zero_ok [of s] by (auto simp: stack_inv_def ascending_def)
next
  case (sort s s')
  show ?case by (rule sk_sort_ok(1) [OF sort.IH assms(2,3) sort.hyps(2)])
next
  case (set_cmp s c old s')
  then show ?case by (auto simp: sk_set_cmp_func_def stack_inv_def stack_ok_def sk_list_def Let_def split: if_splits)
next
  case (dup s alloc s')
  then show ?case using sk_dup_ok [of s alloc s'] by (simp add: stack_inv_def)
qed

text \<open>Whatever was done to the stack before, \<open>sk_find\<close> finds the first element that is equal.\<close>

lemma sk_find_inv:
  assumes "stack_inv valid call_cmp s" "total_cmp valid (call_cmp c)" "st_comp s = Some c" "valid p"
  shows "\<exists>r. sk_find call_cmp (Some s) (Some p) = Some r \<and>
    first_match (\<lambda>e. call_cmp c (Some p) e = 0) (sk_list s) r"
proof -
  have ok: "stack_ok s" using assms(1) by (simp add: stack_inv_def)
  have f: "first_match (\<lambda>e. call_cmp c (Some p) e = 0) (sk_list s) (find_from (\<lambda>e. call_cmp c (Some p) e = 0) s 0)"
    by (rule find_from_first [OF ok]) simp
  have "sk_find call_cmp (Some s) (Some p) = Some (find_from (\<lambda>e. call_cmp c (Some p) e = 0) s 0)"
    using assms total_cmp.find_sorted [OF assms(2) ok _ assms(4)]
    by (auto simp: sk_find_def sk_is_sorted_def stack_inv_def)
  with f show ?thesis by simp
qed

text \<open>
  \<open>sk_set\<close> breaks the invariant: it leaves the flag \<open>sorted\<close> alone. A stack of integers, sorted, then
  changed at one index: the binary search no longer finds the element that was put there.
\<close>

definition int_cmp :: "unit \<Rightarrow> int option \<Rightarrow> int option \<Rightarrow> int" where
  "int_cmp u a b = (case (a, b) of (Some x, Some y) \<Rightarrow> x - y | _ \<Rightarrow> 0)"

interpretation int_cmp: total_cmp "\<lambda>_. True" "int_cmp u"
  by unfold_locales (auto simp: int_cmp_def)

definition sorted_123 :: "(int, unit) stack" where
  "sorted_123 = \<lparr>st_num = 3, st_data = [Some 1, Some 2, Some 3, None], st_sorted = True,
     st_num_alloc = 4, st_comp = Some ()\<rparr>"

lemma sorted_123_inv: "stack_inv (\<lambda>_. True) int_cmp sorted_123"
  by (simp add: stack_inv_def stack_ok_def sorted_123_def sk_list_def ascending_def accepted_def int_cmp_def)

lemma sk_set_unsorted:
  "\<exists>s. sk_set (Some sorted_123) 0 (Some 4) = (Some 4, Some s) \<and> Some 4 \<in> set (sk_list s) \<and>
    sk_find int_cmp (Some s) (Some 4) = Some None"
  by (simp add: sk_set_def sorted_123_def sk_list_def sk_find_def sk_is_sorted_def int_cmp_def
      search_loop.simps mid_of_def Let_def)

subsection \<open>Deep copies\<close>

text \<open>
  Either every element is copied, NULL to NULL, or the copies made so far, without the NULLs, are
  the ones that are freed.
\<close>

lemma deep_copy_loop_Inr:
  "deep_copy_loop f copied rest = Inr out \<longleftrightarrow>
     (\<forall>e. Some e \<in> set rest \<longrightarrow> f e \<noteq> None) \<and> out = copied @ map (\<lambda>e. Option.bind e f) rest"
  by (induction f copied rest rule: deep_copy_loop.induct) (auto split: option.splits)

lemma deep_copy_loop_Inl:
  "deep_copy_loop f copied rest = Inl freed \<Longrightarrow>
     \<exists>xs e ys. rest = xs @ Some e # ys \<and> f e = None \<and> freed = non_null (copied @ map (\<lambda>e. Option.bind e f) xs)"
proof (induction f copied rest rule: deep_copy_loop.induct)
  case (2 f copied rest)
  from 2(1) [OF 2(2) [unfolded deep_copy_loop.simps]] obtain xs e ys
    where "rest = xs @ Some e # ys" "f e = None" "freed = non_null ((copied @ [None]) @ map (\<lambda>e. Option.bind e f) xs)"
    by blast
  then show ?case by (intro exI [of _ "None # xs"] exI [of _ e] exI [of _ ys]) simp
next
  case (3 f copied a rest)
  show ?case
  proof (cases "f a")
    case None
    with 3(2) show ?thesis by (intro exI [of _ "[]"] exI [of _ a] exI [of _ rest]) simp
  next
    case (Some a')
    with 3(2) have "deep_copy_loop f (copied @ [Some a']) rest = Inl freed" by simp
    from 3(1) [OF Some this] obtain xs e ys
      where "rest = xs @ Some e # ys" "f e = None" "freed = non_null ((copied @ [Some a']) @ map (\<lambda>e. Option.bind e f) xs)"
      by blast
    with Some show ?thesis by (intro exI [of _ "Some a # xs"] exI [of _ e] exI [of _ ys]) simp
  qed
qed simp

lemma sk_deep_copy_ok:
  assumes "stack_ok s" "sk_dup alloc (Some s) = Some d"
  shows "case sk_deep_copy alloc (Some s) f of
      (Some s', freed) \<Rightarrow> freed = [] \<and> stack_ok s' \<and> sk_list s' = map (\<lambda>e. Option.bind e f) (sk_list s) \<and>
        (\<forall>e. Some e \<in> set (sk_list s) \<longrightarrow> f e \<noteq> None)
    | (None, freed) \<Rightarrow> \<exists>xs e ys. sk_list s = xs @ Some e # ys \<and> f e = None \<and>
        freed = non_null (map (\<lambda>e. Option.bind e f) xs)"
proof -
  note d = sk_dup_ok [OF assms]
  have l: "length (st_data d) = unat (st_num_alloc d)" "unat (st_num d) < unat (st_num_alloc d)"
    using d(1) by (simp_all add: stack_ok_def word_less_nat_alt)
  show ?thesis
  proof (cases "deep_copy_loop f [] (sk_list d)")
    case (Inl freed)
    then have "sk_deep_copy alloc (Some s) f = (None, freed)"
      using assms(2) by (simp add: sk_deep_copy_def sk_list_def Let_def)
    with deep_copy_loop_Inl [OF Inl] d(2) show ?thesis by auto
  next
    case (Inr out)
    then have out: "out = map (\<lambda>e. Option.bind e f) (sk_list s)" "\<forall>e. Some e \<in> set (sk_list s) \<longrightarrow> f e \<noteq> None"
      using d(2) by (simp_all add: deep_copy_loop_Inr)
    have n: "length out = unat (st_num d)" using out d length_sk_list [OF d(1)] by simp
    have "sk_deep_copy alloc (Some s) f = (Some (d\<lparr>st_data := out @ drop (unat (st_num d)) (st_data d)\<rparr>), [])"
      using assms(2) Inr by (simp add: sk_deep_copy_def sk_list_def Let_def)
    with out n l d(1) show ?thesis by (simp add: stack_ok_def sk_list_def)
  qed
qed

end
