(* ===== verification/Conf.thy ===== *)
theory Conf
  imports LHash Stack
begin

unbundle bit_operations_syntax

text \<open>
  \<open>crypto/conf/conf.c\<close>: the values of a configuration. One hash table holds an entry for every
  section (its \<open>name\<close> is NULL, its \<open>value\<close> the section's stack) and one for every value; the stack of
  a section lists the section's values, and shares them with the table. The table's contract
  \<open>hash_client\<close> is met by \<open>conf_value_hash\<close> and \<open>conf_value_cmp\<close>; table and stacks together are
  shown to refine, per section, a list of names with their texts.
\<close>

section \<open>Definitions\<close>

text \<open>
  \<open>strcmp\<close> of the C library on the bytes before the terminators. Its result is documented up to its
  sign only.
\<close>

fun strcmp :: "bytes \<Rightarrow> bytes \<Rightarrow> int" where
  "strcmp [] [] = 0"
| "strcmp [] (y # _) = - 1"
| "strcmp (x # _) [] = 1"
| "strcmp (x # xs) (y # ys) = (if x = y then strcmp xs ys else if x < y then - 1 else 1)"

text \<open>The string in the memory that \<open>OPENSSL_strdup\<close> returns: what is before its terminator.\<close>

definition strdup_string :: "(nat \<Rightarrow> bool) \<Rightarrow> bytes \<Rightarrow> bytes option" where
  "strdup_string alloc s = map_option butlast (OPENSSL_strdup alloc s)"

text \<open>
  \<open>CONF_VALUE\<close>: \<open>value\<close> is a text or, in the entry of a section, a pointer to a stack. \<open>cv_addr\<close> is
  the address of the object; \<open>section\<close> is not NULL in any entry of a table, nor in a key.
\<close>

datatype conf_data = Text bytes | Entries nat

record conf_value =
  cv_addr :: nat
  cv_section :: bytes
  cv_name :: "bytes option"
  cv_value :: conf_data

text \<open>\<open>CONF\<close>, with the stacks that exist and the next address that is not in use.\<close>

record conf =
  conf_data :: "conf_value lhash"
  conf_stacks :: "nat \<Rightarrow> (conf_value, unit) stack option"
  conf_next :: nat

definition sizeof_CONF :: u64 where "sizeof_CONF = 8"
definition sizeof_CONF_VALUE :: u64 where "sizeof_CONF_VALUE = 24"

definition conf_value_hash :: "conf_value \<Rightarrow> u32" where
  "conf_value_hash v = push_bit 2 (lh_strhash (Some (cv_section v))) XOR lh_strhash (cv_name v)"

text \<open>Where two pointers are compared before the strings are, equal pointers have equal strings.\<close>

definition conf_value_cmp :: "conf_value \<Rightarrow> conf_value \<Rightarrow> int" where
  "conf_value_cmp a b =
     (let i = strcmp (cv_section a) (cv_section b)
      in if i \<noteq> 0 then i
         else case (cv_name a, cv_name b) of
             (Some n, Some n') \<Rightarrow> strcmp n n'
           | (None, None) \<Rightarrow> 0
           | (None, Some _) \<Rightarrow> - 1
           | (Some _, None) \<Rightarrow> 1)"

definition NCONF_new :: "(nat \<Rightarrow> bool) \<Rightarrow> bool \<Rightarrow> conf option" where
  "NCONF_new alloc method_given =
     (if method_given then None
      else if OPENSSL_malloc alloc sizeof_CONF = None then None
      else map_option (\<lambda>data. \<lparr>conf_data = data, conf_stacks = \<lambda>_. None, conf_next = 0\<rparr>)
             (lh_new alloc conf_value_hash conf_value_cmp))"

text \<open>\<open>CONF_VALUE_new\<close>: whether the object can be allocated; its fields are set by the caller.\<close>

definition CONF_VALUE_new :: "(nat \<Rightarrow> bool) \<Rightarrow> bool" where
  "CONF_VALUE_new alloc \<longleftrightarrow> OPENSSL_malloc alloc sizeof_CONF_VALUE \<noteq> None"

text \<open>\<open>value_free\<close>: of what is modelled, only the stack of a section can be read through other pointers.\<close>

definition value_free :: "conf_value \<Rightarrow> conf \<Rightarrow> conf" where
  "value_free v conf =
     (case (cv_name v, cv_value v) of
        (None, Entries k) \<Rightarrow> conf\<lparr>conf_stacks := (conf_stacks conf)(k := None)\<rparr>
      | _ \<Rightarrow> conf)"

text \<open>
  In the operations on a configuration, an outer \<open>None\<close> is a failed assertion of the table or an
  access to an object that does not exist.
\<close>

definition NCONF_new_section :: "(nat \<Rightarrow> bool) \<Rightarrow> conf \<Rightarrow> bytes \<Rightarrow> (conf_value option \<times> conf) option" where
  "NCONF_new_section alloc conf section =
     (case sk_new_null alloc of
        None \<Rightarrow> Some (None, conf)
      | Some sk \<Rightarrow>
          if \<not> CONF_VALUE_new alloc then Some (None, conf)
          else
           (case strdup_string alloc section of
            None \<Rightarrow> Some (None, conf)
          | Some sec \<Rightarrow>
              (let k = conf_next conf;
                   v = \<lparr>cv_addr = k, cv_section = sec, cv_name = None, cv_value = Entries k\<rparr>
               in case lh_insert alloc (conf_data conf) v of
                    None \<Rightarrow> None
                  | Some (False, _, data) \<Rightarrow> Some (None, conf\<lparr>conf_data := data\<rparr>)
                  | Some (True, old_value, data) \<Rightarrow>
                      (let conf = conf\<lparr>conf_data := data, conf_stacks := (conf_stacks conf)(k := Some sk),
                                       conf_next := k + 1\<rparr>
                       in Some (Some v, (case old_value of None \<Rightarrow> conf | Some old \<Rightarrow> value_free old conf))))))"

definition section_key :: "bytes \<Rightarrow> conf_value" where
  "section_key section = \<lparr>cv_addr = 0, cv_section = section, cv_name = None, cv_value = Text []\<rparr>"

definition get_section :: "conf \<Rightarrow> bytes \<Rightarrow> conf_value option" where
  "get_section conf section = lh_retrieve (conf_data conf) (section_key section)"

text \<open>The result is the stack, \<open>Some None\<close> for NULL.\<close>

definition NCONF_get_section :: "conf \<Rightarrow> bytes \<Rightarrow> (conf_value, unit) stack option option" where
  "NCONF_get_section conf section =
     (case get_section conf section of
        None \<Rightarrow> Some None
      | Some section_value \<Rightarrow>
          (case cv_value section_value of
             Entries k \<Rightarrow> map_option Some (conf_stacks conf k)
           | Text _ \<Rightarrow> None))"

definition value_key :: "bytes \<Rightarrow> bytes option \<Rightarrow> conf_value" where
  "value_key section n = \<lparr>cv_addr = 0, cv_section = section, cv_name = n, cv_value = Text []\<rparr>"

definition NCONF_get_string :: "conf \<Rightarrow> bytes \<Rightarrow> bytes option \<Rightarrow> conf_data option" where
  "NCONF_get_string conf section n = map_option cv_value (lh_retrieve (conf_data conf) (value_key section n))"

text \<open>
  \<open>add_string\<close>. The copy of the section's name is not checked: when it fails \<open>value->section\<close> is NULL
  and the next comparison dereferences it.
\<close>

definition add_string :: "(nat \<Rightarrow> bool) \<Rightarrow> conf \<Rightarrow> conf_value \<Rightarrow> conf_value \<Rightarrow> (bool \<times> conf) option" where
  "add_string alloc conf section v =
     (case cv_value section of
        Text _ \<Rightarrow> None
      | Entries k \<Rightarrow>
          (case (conf_stacks conf k, strdup_string alloc (cv_section section)) of
             (Some section_stack, Some sec) \<Rightarrow>
               (let v = v\<lparr>cv_section := sec\<rparr>
                in case sk_push alloc section_stack (Some v) of
                     (n, section_stack) \<Rightarrow>
                       if n = 0 then Some (False, conf)
                       else
                         (case lh_insert alloc (conf_data conf) v of
                            None \<Rightarrow> None
                          | Some (ok, old_value, data) \<Rightarrow>
                              (let section_stack =
                                     (if ok \<and> old_value \<noteq> None
                                      then snd (sk_delete_ptr section_stack old_value) else section_stack);
                                   conf = conf\<lparr>conf_data := data,
                                               conf_stacks := (conf_stacks conf)(k := section_stack)\<rparr>
                               in Some (ok, (if ok then (case old_value of None \<Rightarrow> conf | Some old \<Rightarrow> value_free old conf)
                                             else conf)))))
           | _ \<Rightarrow> None))"

text \<open>
  What \<open>def_load_bio\<close> does with a line \<open>name = value\<close>: a new object is allocated for it, with a copy of
  the name, and added to its section.
\<close>

definition new_value :: "(nat \<Rightarrow> bool) \<Rightarrow> conf \<Rightarrow> bytes \<Rightarrow> bytes \<Rightarrow> (conf_value \<times> conf) option" where
  "new_value alloc conf pname val =
     (if \<not> CONF_VALUE_new alloc then None
      else map_option (\<lambda>n. (\<lparr>cv_addr = conf_next conf, cv_section = [], cv_name = Some n, cv_value = Text val\<rparr>,
             conf\<lparr>conf_next := conf_next conf + 1\<rparr>)) (strdup_string alloc pname))"


text \<open>
  What \<open>def_load_bio\<close> does with the section of a header or of a name with \<open>::\<close>, and with a line whose
  parts \<open>psection\<close>, \<open>pname\<close> and text are read: \<open>section\<close> and \<open>sv\<close> are the current section. The
  result says whether loading goes on.
\<close>

definition open_section :: "(nat \<Rightarrow> bool) \<Rightarrow> conf \<Rightarrow> bytes \<Rightarrow> (conf_value option \<times> conf) option" where
  "open_section alloc conf section =
     (case get_section conf section of
        Some sv \<Rightarrow> Some (Some sv, conf)
      | None \<Rightarrow> NCONF_new_section alloc conf section)"

definition load_value ::
  "(nat \<Rightarrow> bool) \<Rightarrow> conf \<Rightarrow> bytes \<Rightarrow> conf_value \<Rightarrow> bytes \<Rightarrow> bytes \<Rightarrow> bytes \<Rightarrow> (bool \<times> conf) option" where
  "load_value alloc conf section sv psection pname val =
     (case new_value alloc conf pname val of
        None \<Rightarrow> Some (False, conf)
      | Some (v, conf) \<Rightarrow>
          (case (if strcmp psection section \<noteq> 0 then open_section alloc conf psection else Some (Some sv, conf)) of
             None \<Rightarrow> None
           | Some (None, conf) \<Rightarrow> Some (False, conf)
           | Some (Some tv, conf) \<Rightarrow> add_string alloc conf tv v))"


section \<open>The table's contract\<close>

lemma strdup_string_eq: "strdup_string alloc s = Some s' \<Longrightarrow> s' = s"
  by (auto simp: strdup_string_def OPENSSL_strdup_def Let_def split: option.splits)

lemma strcmp_eq_0: "strcmp a b = 0 \<longleftrightarrow> a = b"
  by (induction a b rule: strcmp.induct) auto

lemma conf_value_cmp_eq_0:
  "conf_value_cmp a b = 0 \<longleftrightarrow> cv_section a = cv_section b \<and> cv_name a = cv_name b"
  by (auto simp: conf_value_cmp_def Let_def strcmp_eq_0 split: option.splits)

interpretation conf_table: hash_client conf_value_hash conf_value_cmp
  by unfold_locales (simp_all add: conf_value_cmp_eq_0 conf_value_hash_def)

text \<open>The entry of the table for a section and a name.\<close>

definition lookup :: "conf \<Rightarrow> bytes \<Rightarrow> bytes option \<Rightarrow> conf_value option" where
  "lookup conf s n = lh_map (conf_data conf) (value_key s n)"

lemma lh_map_Some: "lh_map lh x = Some v \<Longrightarrow> lh_comp lh v x = 0"
  by (auto simp: lh_map_def equal_items_def filter_eq_Cons_iff split: list.splits)

lemma lookup_Some:
  "conf_table.table (conf_data conf) \<Longrightarrow> lookup conf s n = Some v \<Longrightarrow> cv_section v = s \<and> cv_name v = n"
  unfolding lookup_def by (drule lh_map_Some) (simp add: conf_table.table_def conf_value_cmp_eq_0 value_key_def)

lemma lh_map_key:
  "conf_table.table lh \<Longrightarrow> lh_map lh x = lh_map lh (value_key (cv_section x) (cv_name x))"
  by (simp add: lh_map_def conf_table.table_def value_key_def
      conf_table.equal_items_cong [of lh x "value_key (cv_section x) (cv_name x)"] conf_value_cmp_eq_0)

section \<open>Sections as lists\<close>

definition listed :: "conf \<Rightarrow> conf_value \<Rightarrow> conf_value list \<Rightarrow> bool" where
  "listed conf v xs \<longleftrightarrow>
     (\<exists>k st. cv_value v = Entries k \<and> conf_stacks conf k = Some st \<and> stack_ok st \<and> sk_list st = map Some xs)"

text \<open>
  The invariant: every section has a stack of its own, which lists the values the table has for the
  section, each once; a section that does not exist has no values; addresses in use are below
  \<open>conf_next\<close>.
\<close>

definition conf_ok :: "conf \<Rightarrow> bool" where
  "conf_ok conf \<longleftrightarrow>
     conf_table.table (conf_data conf) \<and>
     (\<forall>s v. lookup conf s None = Some v \<longrightarrow>
        (\<exists>xs. listed conf v xs \<and> distinct xs \<and>
           (\<forall>w. w \<in> set xs \<longleftrightarrow> (\<exists>n. cv_name w = Some n \<and> lookup conf s (Some n) = Some w)))) \<and>
     (\<forall>s n. lookup conf s None = None \<longrightarrow> lookup conf s (Some n) = None) \<and>
     (\<forall>s s' v v'. lookup conf s None = Some v \<longrightarrow> lookup conf s' None = Some v' \<longrightarrow>
        cv_value v = cv_value v' \<longrightarrow> s = s') \<and>
     (\<forall>s n v. lookup conf s n = Some v \<longrightarrow> cv_addr v < conf_next conf) \<and>
     (\<forall>k. conf_stacks conf k \<noteq> None \<longrightarrow> k < conf_next conf)"

text \<open>What a configuration says: the names and texts of every section, in order.\<close>

definition conf_entries :: "conf \<Rightarrow> bytes \<Rightarrow> (bytes \<times> conf_data) list option" where
  "conf_entries conf s =
     (case NCONF_get_section conf s of
        Some (Some st) \<Rightarrow> Some (map (\<lambda>v. (the (cv_name v), cv_value v)) (non_null (sk_list st)))
      | _ \<Rightarrow> None)"

lemma non_null_map_Some [simp]: "non_null (map Some xs) = xs"
  by (induction xs) simp_all

lemma section_key_eq: "section_key = (\<lambda>s. value_key s None)"
  by (simp add: section_key_def value_key_def fun_eq_iff)

lemma get_section_eq: "conf_ok conf \<Longrightarrow> get_section conf s = lookup conf s None"
  by (simp add: get_section_def conf_table.retrieve conf_ok_def lookup_def section_key_eq)

lemma get_string_eq: "conf_ok conf \<Longrightarrow> NCONF_get_string conf s n = map_option cv_value (lookup conf s n)"
  by (simp add: NCONF_get_string_def conf_table.retrieve conf_ok_def lookup_def)

lemma listed_unique: "listed conf v xs \<Longrightarrow> listed conf v ys \<Longrightarrow> xs = ys"
  by (auto simp: listed_def)

lemma conf_entries_eq:
  assumes "conf_ok conf"
  shows "lookup conf s None = Some v \<Longrightarrow> listed conf v xs \<Longrightarrow>
      conf_entries conf s = Some (map (\<lambda>v. (the (cv_name v), cv_value v)) xs)"
    "lookup conf s None = None \<Longrightarrow> conf_entries conf s = None"
  using get_section_eq [OF assms, of s]
  by (auto simp: conf_entries_def NCONF_get_section_def listed_def)

lemma section_listed:
  assumes "conf_ok conf" "lookup conf s None = Some v"
  obtains xs where "listed conf v xs" "distinct xs"
    "\<And>w. w \<in> set xs \<longleftrightarrow> (\<exists>n. cv_name w = Some n \<and> lookup conf s (Some n) = Some w)"
  using assms unfolding conf_ok_def by blast

text \<open>The table and the stacks agree: a value is found under its name when its section lists it.\<close>

lemma get_string_listed:
  assumes "conf_ok conf"
  shows "NCONF_get_string conf s (Some n) = Option.bind (conf_entries conf s) (\<lambda>es. map_of es n)"
proof (cases "lookup conf s None")
  case None
  with assms have "lookup conf s (Some n) = None" by (simp add: conf_ok_def)
  with None show ?thesis by (simp add: get_string_eq assms conf_entries_eq)
next
  case (Some v)
  obtain xs where xs: "listed conf v xs" "distinct xs"
    "\<And>w. w \<in> set xs \<longleftrightarrow> (\<exists>n. cv_name w = Some n \<and> lookup conf s (Some n) = Some w)"
    by (rule section_listed [OF assms Some]) blast
  let ?es = "map (\<lambda>v. (the (cv_name v), cv_value v)) xs"
  have inj: "w = w'" if "w \<in> set xs" "w' \<in> set xs" "cv_name w = cv_name w'" for w w'
    using that xs(3) by (metis option.inject)
  have "inj_on (\<lambda>v. the (cv_name v)) (set xs)"
    by (rule inj_onI) (use xs(3) inj in \<open>metis option.sel\<close>)
  then have d: "distinct (map fst ?es)" using xs(2) by (simp add: distinct_map comp_def)
  have "map_of ?es n = map_option cv_value (lookup conf s (Some n))"
  proof (cases "lookup conf s (Some n)")
    case None
    then have "n \<notin> fst ` set ?es" using xs(3) by force
    with None show ?thesis by (simp add: map_of_eq_None_iff)
  next
    case (Some w)
    then have w: "cv_name w = Some n" using lookup_Some assms by (auto simp: conf_ok_def)
    with Some xs(3) have "w \<in> set xs" by blast
    with w have "(n, cv_value w) \<in> set ?es" by force
    with d Some show ?thesis by simp
  qed
  with Some xs(1) show ?thesis by (simp add: get_string_eq assms conf_entries_eq)
qed

lemma NCONF_new_ok:
  assumes "NCONF_new alloc method_given = Some conf"
  shows "conf_ok conf" "conf_entries conf = (\<lambda>_. None)"
proof -
  obtain data where d: "lh_new alloc conf_value_hash conf_value_cmp = Some data"
    "conf = \<lparr>conf_data = data, conf_stacks = \<lambda>_. None, conf_next = 0\<rparr>"
    using assms by (auto simp: NCONF_new_def split: if_splits)
  note n = conf_table.new_table [OF d(1)]
  then have l: "lookup conf s n = None" for s n using d(2) by (simp add: lookup_def)
  with n d show ok: "conf_ok conf" by (simp add: conf_ok_def)
  show "conf_entries conf = (\<lambda>_. None)" by (rule ext) (simp add: conf_entries_eq [OF ok] l)
qed

lemma lookup_inserted:
  assumes "lh_map data = (\<lambda>x. if conf_value_cmp v x = 0 then Some v else lh_map (conf_data conf) x)"
    "conf_data conf' = data"
  shows "lookup conf' s n = (if cv_section v = s \<and> cv_name v = n then Some v else lookup conf s n)"
  using assms by (simp add: lookup_def conf_value_cmp_eq_0 value_key_def)

text \<open>What is listed where in \<open>conf\<close>, and in no other way: the part of the invariant about one section.\<close>

definition section_ok :: "conf \<Rightarrow> bytes \<Rightarrow> conf_value \<Rightarrow> conf_value list \<Rightarrow> bool" where
  "section_ok conf s v xs \<longleftrightarrow>
     listed conf v xs \<and> distinct xs \<and>
     (\<forall>w. w \<in> set xs \<longleftrightarrow> (\<exists>n. cv_name w = Some n \<and> lookup conf s (Some n) = Some w))"

lemma conf_ok_section: "conf_ok conf \<Longrightarrow> lookup conf s None = Some v \<Longrightarrow> \<exists>xs. section_ok conf s v xs"
  by (simp add: conf_ok_def section_ok_def)

lemma conf_okI:
  assumes "conf_table.table (conf_data conf)"
    "\<And>s v. lookup conf s None = Some v \<Longrightarrow> \<exists>xs. section_ok conf s v xs"
    "\<And>s n. lookup conf s None = None \<Longrightarrow> lookup conf s (Some n) = None"
    "\<And>s s' v v'. lookup conf s None = Some v \<Longrightarrow> lookup conf s' None = Some v' \<Longrightarrow> cv_value v = cv_value v' \<Longrightarrow> s = s'"
    "\<And>s n v. lookup conf s n = Some v \<Longrightarrow> cv_addr v < conf_next conf"
    "\<And>k. conf_stacks conf k \<noteq> None \<Longrightarrow> k < conf_next conf"
  shows "conf_ok conf"
  using assms by (simp add: conf_ok_def section_ok_def)

lemma conf_ok_table: "conf_ok conf \<Longrightarrow> conf_table.table (conf_data conf)"
  by (simp add: conf_ok_def)

lemma no_section_no_value: "conf_ok conf \<Longrightarrow> lookup conf s None = None \<Longrightarrow> lookup conf s (Some n) = None"
  by (simp add: conf_ok_def)

lemma sections_distinct:
  "conf_ok conf \<Longrightarrow> lookup conf s None = Some v \<Longrightarrow> lookup conf s' None = Some v' \<Longrightarrow>
     cv_value v = cv_value v' \<Longrightarrow> s = s'"
  unfolding conf_ok_def by blast

lemma addr_below: "conf_ok conf \<Longrightarrow> lookup conf s n = Some v \<Longrightarrow> cv_addr v < conf_next conf"
  by (simp add: conf_ok_def)

lemma stack_below: "conf_ok conf \<Longrightarrow> conf_stacks conf k \<noteq> None \<Longrightarrow> k < conf_next conf"
  by (simp add: conf_ok_def)

lemma handle_below:
  assumes "conf_ok conf" "lookup conf s None = Some w"
  shows "cv_value w \<noteq> Entries (conf_next conf)"
proof
  assume "cv_value w = Entries (conf_next conf)"
  with conf_ok_section [OF assms] have "conf_stacks conf (conf_next conf) \<noteq> None"
    by (auto simp: section_ok_def listed_def)
  from stack_below [OF assms(1) this] show False by simp
qed

lemma conf_entries_frame:
  assumes "conf_ok conf" "conf_ok conf'" "lookup conf' s None = lookup conf s None"
    "\<And>w xs. lookup conf s None = Some w \<Longrightarrow> listed conf w xs \<Longrightarrow> listed conf' w xs"
  shows "conf_entries conf' s = conf_entries conf s"
proof (cases "lookup conf s None")
  case None
  with assms show ?thesis by (simp add: conf_entries_eq)
next
  case (Some w)
  then obtain xs where "listed conf w xs" using conf_ok_section [OF assms(1)] unfolding section_ok_def by blast
  with assms Some show ?thesis by (simp add: conf_entries_eq)
qed

text \<open>A section that does not exist yet is added, with no values; nothing else changes.\<close>

lemma section_added:
  assumes ok: "conf_ok conf" and new: "lookup conf s None = None"
    and v: "v = \<lparr>cv_addr = conf_next conf, cv_section = s, cv_name = None, cv_value = Entries (conf_next conf)\<rparr>"
    and data: "conf_table.table data"
      "lh_map data = (\<lambda>x. if conf_value_cmp v x = 0 then Some v else lh_map (conf_data conf) x)"
    and sk: "stack_ok sk" "sk_list sk = []"
    and conf': "conf' = conf\<lparr>conf_data := data, conf_stacks := (conf_stacks conf)(conf_next conf := Some sk),
        conf_next := conf_next conf + 1\<rparr>"
  shows "conf_ok conf'" "lookup conf' = (\<lambda>s' n. if s' = s \<and> n = None then Some v else lookup conf s' n)"
    "conf_entries conf' = (conf_entries conf)(s := Some [])"
proof -
  show lo: "lookup conf' = (\<lambda>s' n. if s' = s \<and> n = None then Some v else lookup conf s' n)"
    using lookup_inserted [OF data(2), of conf'] by (auto simp: fun_eq_iff conf' v)
  have nxt: "conf_next conf' = Suc (conf_next conf)" by (simp add: conf')
  have "k \<noteq> conf_next conf" if "conf_stacks conf k \<noteq> None" for k
    using stack_below [OF ok that] by simp
  then have keep: "listed conf' w xs" if "listed conf w xs" for w xs
    using that by (fastforce simp: listed_def conf')
  have empty: "listed conf' v []" using sk by (simp add: listed_def conf' v)
  have s: "section_ok conf' s v []"
    using empty no_section_no_value [OF ok new] by (simp add: section_ok_def lo)
  show ok': "conf_ok conf'"
  proof (rule conf_okI)
    show "conf_table.table (conf_data conf')" using data(1) by (simp add: conf')
    show "\<exists>xs. section_ok conf' s' w xs" if "lookup conf' s' None = Some w" for s' w
    proof (cases "s' = s")
      case True
      with that s lo show ?thesis by auto
    next
      case False
      with that lo have "lookup conf s' None = Some w" by simp
      from conf_ok_section [OF ok this] keep show ?thesis by (auto simp: section_ok_def lo)
    qed
    show "lookup conf' s' (Some n) = None" if "lookup conf' s' None = None" for s' n
      using that no_section_no_value [OF ok] by (auto simp: lo split: if_splits)
    show "s1 = s2" if "lookup conf' s1 None = Some v1" "lookup conf' s2 None = Some v2" "cv_value v1 = cv_value v2"
      for s1 s2 v1 v2
      using that sections_distinct [OF ok, of s1 v1 s2 v2] handle_below [OF ok, of s1 v1] handle_below [OF ok, of s2 v2]
      by (auto simp: lo v split: if_splits)
    show "cv_addr w < conf_next conf'" if "lookup conf' s' n = Some w" for s' n w
      using that addr_below [OF ok, of s' n w] nxt by (auto simp: lo v split: if_splits)
    show "k < conf_next conf'" if "conf_stacks conf' k \<noteq> None" for k
      using that stack_below [OF ok, of k] by (auto simp: conf' split: if_splits)
  qed
  show "conf_entries conf' = (conf_entries conf)(s := Some [])"
  proof
    fix s'
    show "conf_entries conf' s' = ((conf_entries conf)(s := Some [])) s'"
      using conf_entries_eq(1) [OF ok' _ empty, of s] conf_entries_frame [OF ok ok', of s'] keep lo by simp
  qed
qed

lemma NCONF_new_section_ok:
  assumes ok: "conf_ok conf" and new: "lookup conf s None = None"
  obtains (failed) "NCONF_new_section alloc conf s = Some (None, conf)"
  | (created) v conf' where "NCONF_new_section alloc conf s = Some (Some v, conf')" "conf_ok conf'"
      "lookup conf' = (\<lambda>s' n. if s' = s \<and> n = None then Some v else lookup conf s' n)"
      "conf_entries conf' = (conf_entries conf)(s := Some [])" "cv_addr v = conf_next conf"
proof -
  define v where "v = \<lparr>cv_addr = conf_next conf, cv_section = s, cv_name = None, cv_value = Entries (conf_next conf)\<rparr>"
  show ?thesis
  proof (cases "sk_new_null alloc = (None :: (conf_value, unit) stack option) \<or> \<not> CONF_VALUE_new alloc \<or>
      strdup_string alloc s = None")
    case True
    then show ?thesis by (intro failed) (auto simp: NCONF_new_section_def split: option.splits)
  next
    case False
    then obtain sk :: "(conf_value, unit) stack" where sk: "sk_new_null alloc = Some sk" "CONF_VALUE_new alloc"
      "strdup_string alloc s = Some s"
      using strdup_string_eq [of alloc s] by auto
    then have "stack_ok sk" "sk_list sk = []" using sk_new_ok by (auto simp: sk_new_null_def)
    note added = section_added [OF ok new v_def _ _ this refl]
    note ev = NCONF_new_section_def sk Let_def v_def [symmetric]
    show ?thesis
    proof (rule conf_table.insert [OF conf_ok_table [OF ok], of alloc v])
      assume "lh_insert alloc (conf_data conf) v = Some (False, None, conf_data conf)"
      then show ?thesis by (intro failed) (simp add: ev)
    next
      fix data
      assume ins: "lh_insert alloc (conf_data conf) v = Some (True, lh_map (conf_data conf) v, data)"
        "conf_table.table data"
        "lh_map data = (\<lambda>x. if conf_value_cmp v x = 0 then Some v else lh_map (conf_data conf) x)"
      have "lh_map (conf_data conf) v = None"
        using new lh_map_key [OF conf_ok_table [OF ok], of v] by (simp add: lookup_def v_def)
      with ins(1) have "NCONF_new_section alloc conf s =
          Some (Some v, conf\<lparr>conf_data := data, conf_stacks := (conf_stacks conf)(conf_next conf := Some sk),
            conf_next := conf_next conf + 1\<rparr>)"
        by (simp add: ev)
      from created [OF this added(1) added(2) added(3)] ins(2,3) show ?thesis by (simp add: v_def)
    qed
  qed
qed

text \<open>
  A value is added to its section: it takes the place of the value with its name in the table, and
  goes to the end of the section's list.
\<close>

lemma remove_old:
  assumes "section_ok conf s sv xs" "v \<notin> set xs" "conf_ok conf"
  shows "(case lookup conf s (Some n) of None \<Rightarrow> xs @ [v] | Some w \<Rightarrow> remove1 w (xs @ [v])) =
    filter (\<lambda>w. cv_name w \<noteq> Some n) xs @ [v]"
proof (cases "lookup conf s (Some n)")
  case None
  then have "filter (\<lambda>w. cv_name w \<noteq> Some n) xs = xs"
    using assms(1) by (auto simp: section_ok_def filter_id_conv)
  with None show ?thesis by simp
next
  case (Some w)
  with lookup_Some [OF conf_ok_table [OF assms(3)]] have "cv_name w = Some n" by blast
  with Some assms(1) have "w \<in> set xs" "\<And>u. u \<in> set xs \<Longrightarrow> cv_name u = Some n \<longleftrightarrow> u = w"
    by (auto simp: section_ok_def)
  moreover from this(2) have "filter (\<lambda>w. cv_name w \<noteq> Some n) xs = filter (\<lambda>u. w \<noteq> u) xs"
    by (auto intro: filter_cong)
  moreover have "remove1 w xs = removeAll w xs"
    using assms(1) by (simp add: distinct_remove1_removeAll section_ok_def)
  ultimately show ?thesis
    using Some by (simp add: remove1_append removeAll_filter_not_eq)
qed

lemma entries_filter:
  "(\<And>w. w \<in> set xs \<Longrightarrow> cv_name w \<noteq> None) \<Longrightarrow>
     map (\<lambda>v. (the (cv_name v), cv_value v)) (filter (\<lambda>w. cv_name w \<noteq> Some n) xs) =
     filter (\<lambda>e. fst e \<noteq> n) (map (\<lambda>v. (the (cv_name v), cv_value v)) xs)"
  by (induction xs) auto

lemma value_added:
  assumes ok: "conf_ok conf" and sv: "lookup conf s None = Some sv" "section_ok conf s sv xs"
    and v: "cv_section v = s" "cv_name v = Some n" "v \<notin> set xs" "cv_addr v < conf_next conf"
    and data: "conf_table.table data"
      "lh_map data = (\<lambda>x. if conf_value_cmp v x = 0 then Some v else lh_map (conf_data conf) x)"
    and st: "cv_value sv = Entries k" "stack_ok st"
      "sk_list st = map Some (filter (\<lambda>w. cv_name w \<noteq> Some n) xs @ [v])" "conf_stacks conf k \<noteq> None"
    and conf': "conf' = conf\<lparr>conf_data := data, conf_stacks := (conf_stacks conf)(k := Some st)\<rparr>"
  shows "conf_ok conf'"
    "conf_entries conf' = (conf_entries conf)(s := map_option (\<lambda>es. filter (\<lambda>e. fst e \<noteq> n) es @ [(n, cv_value v)])
       (conf_entries conf s))"
    "lookup conf' s' None = lookup conf s' None"
proof -
  let ?ys = "filter (\<lambda>w. cv_name w \<noteq> Some n) xs @ [v]"
  have lo: "lookup conf' s' m = (if s' = s \<and> m = Some n then Some v else lookup conf s' m)" for s' m
    using lookup_inserted [OF data(2), of conf' s' m] by (auto simp: conf' v)
  have sec: "lookup conf' s' None = lookup conf s' None" for s' by (simp add: lo)
  then show "lookup conf' s' None = lookup conf s' None" .
  have nxt: "conf_next conf' = conf_next conf" by (simp add: conf')
  have keep: "listed conf' w zs" if "listed conf w zs" "cv_value w \<noteq> Entries k" for w zs
    using that by (fastforce simp: listed_def conf')
  have here: "listed conf' sv ?ys" using st by (simp add: listed_def conf')
  have names: "cv_name w = Some m \<and> lookup conf s (Some m) = Some w" if "w \<in> set xs" "m = the (cv_name w)" for w m
    using sv(2) that by (auto simp: section_ok_def)
  have mem: "w \<in> set ?ys \<longleftrightarrow> (\<exists>m. cv_name w = Some m \<and> lookup conf' s (Some m) = Some w)" for w
    using sv(2) v by (auto simp: section_ok_def lo)
  have s: "section_ok conf' s sv ?ys"
    using here mem sv(2) v(3) unfolding section_ok_def by auto
  have other: "cv_value w \<noteq> Entries k" if "lookup conf s' None = Some w" "s' \<noteq> s" for s' w
    using sections_distinct [OF ok that(1) sv(1)] that(2) st(1) by auto
  show ok': "conf_ok conf'"
  proof (rule conf_okI)
    show "conf_table.table (conf_data conf')" using data(1) by (simp add: conf')
    show "\<exists>xs. section_ok conf' s' w xs" if "lookup conf' s' None = Some w" for s' w
    proof (cases "s' = s")
      case True
      with that s sec sv(1) show ?thesis by auto
    next
      case False
      with that sec have w: "lookup conf s' None = Some w" by simp
      from conf_ok_section [OF ok w] keep [OF _ other [OF w False]] False show ?thesis
        by (auto simp: section_ok_def lo)
    qed
    show "lookup conf' s' (Some m) = None" if "lookup conf' s' None = None" for s' m
      using that no_section_no_value [OF ok] sv(1) by (auto simp: lo)
    show "s1 = s2" if "lookup conf' s1 None = Some v1" "lookup conf' s2 None = Some v2" "cv_value v1 = cv_value v2"
      for s1 s2 v1 v2
      using that sections_distinct [OF ok, of s1 v1 s2 v2] by (simp add: sec)
    show "cv_addr w < conf_next conf'" if "lookup conf' s' m = Some w" for s' m w
      using that addr_below [OF ok, of s' m w] v(4) nxt by (auto simp: lo split: if_splits)
    show "j < conf_next conf'" if "conf_stacks conf' j \<noteq> None" for j
      using that stack_below [OF ok, of j] st(4) by (auto simp: conf' split: if_splits)
  qed
  have old: "conf_entries conf s = Some (map (\<lambda>v. (the (cv_name v), cv_value v)) xs)"
    using sv(2) by (simp add: conf_entries_eq(1) [OF ok sv(1)] section_ok_def)
  have new: "conf_entries conf' s = Some (map (\<lambda>v. (the (cv_name v), cv_value v)) ?ys)"
    using conf_entries_eq(1) [OF ok' _ here] sv(1) sec by simp
  show "conf_entries conf' = (conf_entries conf)(s := map_option
      (\<lambda>es. filter (\<lambda>e. fst e \<noteq> n) es @ [(n, cv_value v)]) (conf_entries conf s))"
  proof
    fix s'
    show "conf_entries conf' s' = ((conf_entries conf)(s := map_option
        (\<lambda>es. filter (\<lambda>e. fst e \<noteq> n) es @ [(n, cv_value v)]) (conf_entries conf s))) s'"
    proof (cases "s' = s")
      case True
      with old new v(2) names entries_filter [of xs n] show ?thesis by fastforce
    next
      case False
      with conf_entries_frame [OF ok ok' sec] keep other show ?thesis by auto
    qed
  qed
qed

text \<open>
  The three outcomes. In \<open>dangling\<close> the table could not take the value, which is reported as a
  failure: the caller frees the value, but the section's stack still lists it.
\<close>

lemma add_string_ok:
  assumes ok: "conf_ok conf" and sv: "lookup conf s None = Some sv" and dup: "strdup_string alloc s \<noteq> None"
    and v: "cv_name v = Some n" "cv_addr v < conf_next conf" "\<And>s n w. lookup conf s n = Some w \<Longrightarrow> cv_addr w \<noteq> cv_addr v"
  obtains (failed) "add_string alloc conf sv v = Some (False, conf)"
  | (dangling) k st xs where "add_string alloc conf sv v = Some (False, conf\<lparr>conf_stacks := (conf_stacks conf)(k := Some st)\<rparr>)"
      "cv_value sv = Entries k" "lookup conf s (Some n) = None" "listed conf sv xs"
      "sk_list st = map Some (xs @ [v\<lparr>cv_section := s\<rparr>])" "OPENSSL_malloc alloc sizeof_LHASH_ITEM = None"
  | (added) conf' where "add_string alloc conf sv v = Some (True, conf')" "conf_ok conf'"
      "conf_entries conf' = (conf_entries conf)(s := map_option (\<lambda>es. filter (\<lambda>e. fst e \<noteq> n) es @ [(n, cv_value v)])
         (conf_entries conf s))" "\<And>s'. lookup conf' s' None = lookup conf s' None"
proof -
  let ?v = "v\<lparr>cv_section := s\<rparr>"
  have c: "cv_section sv = s" using lookup_Some [OF conf_ok_table [OF ok] sv] by simp
  obtain xs where xs: "section_ok conf s sv xs" using conf_ok_section [OF ok sv] by blast
  then obtain k st where k: "cv_value sv = Entries k" "conf_stacks conf k = Some st" "stack_ok st" "sk_list st = map Some xs"
    by (auto simp: section_ok_def listed_def)
  have new: "?v \<notin> set xs" using xs v(3) by (fastforce simp: section_ok_def)
  have d: "strdup_string alloc (cv_section sv) = Some s"
    using dup strdup_string_eq [of alloc s] c by (cases "strdup_string alloc s") auto
  note ev = add_string_def k(1,2) d Let_def
  have key: "lh_map (conf_data conf) ?v = lookup conf s (Some n)"
    using lh_map_key [OF conf_ok_table [OF ok], of ?v] v(1) by (simp add: lookup_def)
  show ?thesis
  proof (rule sk_push_ok [OF k(3), of alloc "Some ?v"])
    assume "sk_push alloc st (Some ?v) = (0, Some st)"
    then show ?thesis by (intro failed) (simp add: ev)
  next
    fix st1
    assume st1: "sk_push alloc st (Some ?v) = (st_num st + 1, Some st1)" "st_num st + 1 \<noteq> 0" "stack_ok st1"
      "sk_list st1 = sk_list st @ [Some ?v]"
    have l1: "sk_list st1 = map Some (xs @ [?v])" using st1(4) k(4) by simp
    show ?thesis
    proof (rule conf_table.insert [OF conf_ok_table [OF ok], of alloc ?v])
      assume "lh_insert alloc (conf_data conf) ?v = Some (False, None, conf_data conf)"
        "lh_map (conf_data conf) ?v = None" "OPENSSL_malloc alloc sizeof_LHASH_ITEM = None"
      with l1 k(1) xs key show ?thesis
        by (intro dangling [of k st1 xs]) (simp_all add: ev st1(1,2) section_ok_def)
    next
      fix data
      assume ins: "lh_insert alloc (conf_data conf) ?v = Some (True, lh_map (conf_data conf) ?v, data)"
        "conf_table.table data"
        "lh_map data = (\<lambda>x. if conf_value_cmp ?v x = 0 then Some ?v else lh_map (conf_data conf) x)"
      obtain st2 where st2: "stack_ok st2" "sk_list st2 = map Some (filter (\<lambda>w. cv_name w \<noteq> Some n) xs @ [?v])"
        "add_string alloc conf sv v =
           Some (True, conf\<lparr>conf_data := data, conf_stacks := (conf_stacks conf)(k := Some st2)\<rparr>)"
      proof (cases "lookup conf s (Some n)")
        case None
        with remove_old [OF xs new ok, of n] have "sk_list st1 = map Some (filter (\<lambda>w. cv_name w \<noteq> Some n) xs @ [?v])"
          using l1 by simp
        with that [OF st1(3)] None show ?thesis by (simp add: ev st1(1,2) ins(1) key)
      next
        case (Some w)
        then have w: "cv_name w = Some n" "w \<in> set xs"
          using lookup_Some [OF conf_ok_table [OF ok] Some] xs by (auto simp: section_ok_def)
        have "remove1 (Some w) (map Some (xs @ [?v])) = map Some (remove1 w (xs @ [?v]))"
          by (induction xs) (simp_all add: inj_Some)
        with remove_old [OF xs new ok, of n] Some
        have r: "remove1 (Some w) (sk_list st1) = map Some (filter (\<lambda>w. cv_name w \<noteq> Some n) xs @ [?v])"
          using l1 by simp
        show ?thesis
          by (rule sk_delete_ptr_ok [OF st1(3), of "Some w"])
            (use that r l1 w Some in \<open>auto simp: ev st1(1,2) ins(1) key value_free_def\<close>)
      qed
      have "conf_stacks conf k \<noteq> None" using k(2) by simp
      from value_added [OF ok sv xs _ _ new _ ins(2,3) k(1) st2(1,2) this refl] v(1,2) st2(3) added
      show ?thesis by auto
    qed
  qed
qed

text \<open>A failure that is not without effect leaves a section that lists a value the table does not have.\<close>

lemma add_string_dangling:
  assumes ok: "conf_ok conf" and sv: "lookup conf s None = Some sv" and dup: "strdup_string alloc s \<noteq> None"
    and v: "cv_name v = Some n" "cv_addr v < conf_next conf" "\<And>s n w. lookup conf s n = Some w \<Longrightarrow> cv_addr w \<noteq> cv_addr v"
    and r: "add_string alloc conf sv v = Some (False, conf')" "conf' \<noteq> conf"
  shows "\<not> conf_ok conf'"
proof (rule add_string_ok [OF ok sv dup v(1,2)])
  show "cv_addr w \<noteq> cv_addr v" if "lookup conf s n = Some w" for s n w by (rule v(3) [OF that])
next
  fix k st xs
  assume d: "add_string alloc conf sv v = Some (False, conf\<lparr>conf_stacks := (conf_stacks conf)(k := Some st)\<rparr>)"
    "cv_value sv = Entries k" "lookup conf s (Some n) = None" "sk_list st = map Some (xs @ [v\<lparr>cv_section := s\<rparr>])"
  then have c: "conf' = conf\<lparr>conf_stacks := (conf_stacks conf)(k := Some st)\<rparr>" using r(1) by simp
  then have lo: "lookup conf' = lookup conf" by (simp add: lookup_def fun_eq_iff)
  show ?thesis
  proof
    assume "conf_ok conf'"
    then obtain ys where "section_ok conf' s sv ys" using conf_ok_section sv lo by metis
    moreover from this have "map Some ys = map Some (xs @ [v\<lparr>cv_section := s\<rparr>])"
      using c d(2,4) by (auto simp: section_ok_def listed_def)
    then have "ys = xs @ [v\<lparr>cv_section := s\<rparr>]" by (rule map_injective) simp
    ultimately have "\<exists>m. cv_name (v\<lparr>cv_section := s\<rparr>) = Some m \<and> lookup conf' s (Some m) = Some (v\<lparr>cv_section := s\<rparr>)"
      unfolding section_ok_def by (metis in_set_conv_decomp)
    then show False using lo d(3) v(1) by simp
  qed
qed (use r in simp_all)

section \<open>Loading\<close>

text \<open>
  Every configuration \<open>def_load_bio\<close> can build from a new one, with what its lines say: an own list per
  section, in which a later value of a name replaces an earlier one.
\<close>

definition default_section :: bytes where
  "default_section = [100, 101, 102, 97, 117, 108, 116]"

definition opened :: "bytes \<Rightarrow> (bytes \<Rightarrow> 'b list option) \<Rightarrow> bytes \<Rightarrow> 'b list option" where
  "opened s m = m(s := Some (case m s of None \<Rightarrow> [] | Some es \<Rightarrow> es))"

definition assigned ::
  "bytes \<Rightarrow> bytes \<Rightarrow> conf_data \<Rightarrow> (bytes \<Rightarrow> (bytes \<times> conf_data) list option) \<Rightarrow> bytes \<Rightarrow> (bytes \<times> conf_data) list option" where
  "assigned s n d m = m(s := map_option (\<lambda>es. filter (\<lambda>e. fst e \<noteq> n) es @ [(n, d)]) (m s))"

inductive conf_history ::
  "conf \<Rightarrow> bytes \<Rightarrow> conf_value \<Rightarrow> (bytes \<Rightarrow> (bytes \<times> conf_data) list option) \<Rightarrow> bool" where
  start: "NCONF_new alloc False = Some conf \<Longrightarrow>
    NCONF_new_section alloc' conf default_section = Some (Some sv, conf') \<Longrightarrow>
    conf_history conf' default_section sv (opened default_section (\<lambda>_. None))"
| sect: "conf_history conf section sv m \<Longrightarrow> open_section alloc conf s = Some (Some sv', conf') \<Longrightarrow>
    conf_history conf' s sv' (opened s m)"
| line: "conf_history conf section sv m \<Longrightarrow>
    load_value alloc conf section sv p n val = Some (True, conf') \<Longrightarrow>
    conf_history conf' section sv (assigned p n (Text val) (opened p m))"

lemma conf_next_irrelevant:
  "lookup (conf\<lparr>conf_next := k\<rparr>) = lookup conf" "listed (conf\<lparr>conf_next := k\<rparr>) = listed conf"
  "conf_entries (conf\<lparr>conf_next := k\<rparr>) = conf_entries conf"
  by (simp_all add: lookup_def fun_eq_iff listed_def conf_entries_def NCONF_get_section_def get_section_def
      cong: conf_data.case_cong option.case_cong)

lemma new_value_ok:
  assumes "conf_ok conf" "new_value alloc conf n val = Some (v, conf')"
  shows "conf_ok conf'" "conf_entries conf' = conf_entries conf" "lookup conf' = lookup conf"
    "cv_name v = Some n" "cv_value v = Text val" "cv_addr v = conf_next conf" "conf_next conf' = conf_next conf + 1"
proof -
  obtain n' where n': "strdup_string alloc n = Some n'"
    and v: "v = \<lparr>cv_addr = conf_next conf, cv_section = [], cv_name = Some n', cv_value = Text val\<rparr>"
    and c: "conf' = conf\<lparr>conf_next := conf_next conf + 1\<rparr>"
    using assms(2) by (auto simp: new_value_def split: if_splits)
  show "cv_name v = Some n" using strdup_string_eq [OF n'] v by simp
  show "conf_ok conf'"
    using assms(1) unfolding c conf_ok_def conf_next_irrelevant by (auto simp: less_Suc_eq)
qed (use assms(2) in \<open>auto simp: new_value_def conf_next_irrelevant split: if_splits\<close>)

lemma open_section_ok:
  assumes ok: "conf_ok conf" and r: "open_section alloc conf s = Some (Some sv, conf')"
  shows "conf_ok conf'" "conf_entries conf' = opened s (conf_entries conf)" "lookup conf' s None = Some sv"
    "\<And>s' v. lookup conf s' None = Some v \<Longrightarrow> lookup conf' s' None = Some v"
    "\<And>s' n v. lookup conf' s' n = Some v \<Longrightarrow> lookup conf s' n = Some v \<or> cv_addr v = conf_next conf"
    "conf_next conf \<le> conf_next conf'"
proof -
  have "conf_ok conf' \<and> conf_entries conf' = opened s (conf_entries conf) \<and> lookup conf' s None = Some sv \<and>
    (\<forall>s' v. lookup conf s' None = Some v \<longrightarrow> lookup conf' s' None = Some v) \<and>
    (\<forall>s' n v. lookup conf' s' n = Some v \<longrightarrow> lookup conf s' n = Some v \<or> cv_addr v = conf_next conf) \<and>
    conf_next conf \<le> conf_next conf'"
  proof (cases "lookup conf s None")
    case (Some v)
    obtain xs where "listed conf v xs" using conf_ok_section [OF ok Some] unfolding section_ok_def by blast
    from conf_entries_eq(1) [OF ok Some this] have "opened s (conf_entries conf) = conf_entries conf"
      by (simp add: opened_def fun_eq_iff)
    with Some r ok show ?thesis by (auto simp: open_section_def get_section_eq)
  next
    case None
    have n: "open_section alloc conf s = NCONF_new_section alloc conf s"
      using None by (simp add: open_section_def get_section_eq [OF ok])
    show ?thesis
    proof (rule NCONF_new_section_ok [OF ok None, of alloc])
      assume "NCONF_new_section alloc conf s = Some (None, conf)"
      with n r show ?thesis by simp
    next
      fix v conf1
      assume c: "NCONF_new_section alloc conf s = Some (Some v, conf1)" "conf_ok conf1"
        "lookup conf1 = (\<lambda>s' n. if s' = s \<and> n = None then Some v else lookup conf s' n)"
        "conf_entries conf1 = (conf_entries conf)(s := Some [])" "cv_addr v = conf_next conf"
      with n r have e: "v = sv" "conf1 = conf'" by simp_all
      have "cv_addr sv < conf_next conf'" using addr_below [OF c(2), of s None v] c(3) e by simp
      with c None conf_entries_eq(2) [OF ok None] show ?thesis
        unfolding e by (auto simp: opened_def split: if_splits)
    qed
  qed
  then show "conf_ok conf'" "conf_entries conf' = opened s (conf_entries conf)" "lookup conf' s None = Some sv"
    "\<And>s' v. lookup conf s' None = Some v \<Longrightarrow> lookup conf' s' None = Some v"
    "\<And>s' n v. lookup conf' s' n = Some v \<Longrightarrow> lookup conf s' n = Some v \<or> cv_addr v = conf_next conf"
    "conf_next conf \<le> conf_next conf'" by blast+
qed

lemma add_string_ok_result:
  assumes "conf_ok conf" "lookup conf s None = Some sv" "cv_name v = Some n" "cv_addr v < conf_next conf"
    "\<And>s n w. lookup conf s n = Some w \<Longrightarrow> cv_addr w \<noteq> cv_addr v" "add_string alloc conf sv v = Some (True, conf')"
  shows "conf_ok conf'" "conf_entries conf' = assigned s n (cv_value v) (conf_entries conf)"
    "lookup conf' s' None = lookup conf s' None"
proof -
  have c: "cv_section sv = s" using lookup_Some [OF conf_ok_table [OF assms(1)] assms(2)] by simp
  then have dup: "strdup_string alloc s \<noteq> None"
    using assms(6) by (auto simp: add_string_def split: conf_data.splits option.splits)
  have "conf_ok conf' \<and> conf_entries conf' = assigned s n (cv_value v) (conf_entries conf) \<and>
      (\<forall>s'. lookup conf' s' None = lookup conf s' None)"
    by (rule add_string_ok [OF assms(1,2) dup assms(3,4)])
      (use assms(5,6) in \<open>auto simp: assigned_def\<close>)
  then show "conf_ok conf'" "conf_entries conf' = assigned s n (cv_value v) (conf_entries conf)"
    "lookup conf' s' None = lookup conf s' None" by simp_all
qed

lemma load_value_ok:
  assumes ok: "conf_ok conf" and sv: "lookup conf section None = Some sv"
    and r: "load_value alloc conf section sv p n val = Some (True, conf')"
  shows "conf_ok conf'" "conf_entries conf' = assigned p n (Text val) (opened p (conf_entries conf))"
    "lookup conf' section None = Some sv"
proof -
  obtain v conf1 where v: "new_value alloc conf n val = Some (v, conf1)"
    using r by (auto simp: load_value_def split: option.splits)
  note n = new_value_ok [OF ok v]
  obtain tv conf2 where t: "(if strcmp p section \<noteq> 0 then open_section alloc conf1 p else Some (Some sv, conf1)) =
      Some (Some tv, conf2)" and a: "add_string alloc conf2 tv v = Some (True, conf')"
    using r by (auto simp: load_value_def v split: option.splits)
  have t': "open_section alloc conf1 p = Some (Some tv, conf2)"
    using t sv n by (auto simp: strcmp_eq_0 open_section_def get_section_eq split: if_splits)
  note o = open_section_ok [OF n(1) t']
  have fresh: "cv_addr w \<noteq> cv_addr v" if "lookup conf2 s' m = Some w" for s' m w
    using o(5) [OF that] addr_below [OF ok, of s' m w] n(3,6,7) by auto
  have below: "cv_addr v < conf_next conf2" using n(6,7) o(6) by simp
  note add = add_string_ok_result [OF o(1,3) n(4) below fresh a]
  show "conf_ok conf'" using add(1) .
  show "conf_entries conf' = assigned p n (Text val) (opened p (conf_entries conf))"
    using add(2) o(2) n(2,5) by simp
  show "lookup conf' section None = Some sv" using add(3) o(4) n(3) sv by simp
qed

lemma conf_history_ok:
  assumes "conf_history conf section sv m"
  shows "conf_ok conf" "conf_entries conf = m" "lookup conf section None = Some sv"
proof -
  from assms have "conf_ok conf \<and> conf_entries conf = m \<and> lookup conf section None = Some sv"
  proof induction
    case (start alloc conf alloc' sv conf')
    note n = NCONF_new_ok [OF start(1)]
    have "lookup conf default_section None = None"
    proof (rule ccontr)
      assume "lookup conf default_section None \<noteq> None"
      then obtain v where v: "lookup conf default_section None = Some v" by auto
      with conf_ok_section [OF n(1) v] conf_entries_eq(1) [OF n(1) v] n(2) show False by (auto simp: section_ok_def)
    qed
    then have "open_section alloc' conf default_section = Some (Some sv, conf')"
      using start(2) by (simp add: open_section_def get_section_eq n(1))
    from open_section_ok [OF n(1) this] n(2) show ?case by simp
  next
    case (sect conf sec sv m alloc s sv' conf')
    with open_section_ok [of conf alloc s sv' conf'] show ?case by simp
  next
    case (line conf sec sv m alloc p n val conf')
    with load_value_ok [of conf sec sv alloc p n val conf'] show ?case by simp
  qed
  then show "conf_ok conf" "conf_entries conf = m" "lookup conf section None = Some sv" by simp_all
qed

lemma get_section_entries:
  assumes "conf_ok conf"
  shows "map_option (map_option (\<lambda>st. map (\<lambda>v. (the (cv_name v), cv_value v)) (non_null (sk_list st))))
      (NCONF_get_section conf s) = Some (conf_entries conf s)"
proof (cases "lookup conf s None")
  case None
  then show ?thesis by (simp add: conf_entries_def NCONF_get_section_def get_section_eq [OF assms])
next
  case (Some v)
  from conf_ok_section [OF assms Some] Some show ?thesis
    by (auto simp: conf_entries_def NCONF_get_section_def get_section_eq [OF assms] section_ok_def listed_def)
qed

subsection \<open>An example\<close>

lemmas conf_eval = NCONF_new_def lh_new_def NCONF_new_section_def sk_new_null_def sk_new_def CONF_VALUE_new_def
  strdup_string_def OPENSSL_strdup_def OPENSSL_malloc_def lh_insert_def get_next_ptr_and_hash_def bucket_of_def
  conf_value_hash_def lh_strhash_def OPENSSL_hash32_def at_ptr_def lh_maybe_resize_def kMinNumBuckets_def
  kMinSize_def kMaxAverageChainLength_def kMinAverageChainLength_def default_section_def load_value_def
  new_value_def add_string_def sk_push_def sk_insert_def sk_grow_def sizeof_pointer_def sizeof_STACK_def
  sizeof_CONF_def sizeof_LHASH_def sizeof_LHASH_ITEM_def sizeof_ptr_def sizeof_CONF_VALUE_def realloc_slots_def Let_def

lemma sample_conf: "\<exists>conf. NCONF_new (\<lambda>_. True) False = Some conf"
  by (simp add: conf_eval)

lemma sample_section:
  "\<exists>sv conf. NCONF_new_section (\<lambda>_. True) (the (NCONF_new (\<lambda>_. True) False)) default_section = Some (Some sv, conf) \<and>
    fst (the (load_value (\<lambda>_. True) conf default_section sv default_section [120] [49])) \<and>
    load_value (\<lambda>_. True) conf default_section sv default_section [120] [49] \<noteq> None"
  by (simp add: conf_eval strcmp_eq_0 nth_list_update) blast

lemma sample_insert:
  "lh_new (\<lambda>_. True) conf_value_hash conf_value_cmp = Some lh \<Longrightarrow> \<exists>lh'. lh_insert (\<lambda>_. True) lh v = Some (True, None, lh')"
  by (rule conf_table.insert [OF conf_table.new_table(1), of "\<lambda>_. True" lh "\<lambda>_. True" v])
    (auto simp: conf_table.new_table(2) OPENSSL_malloc_def sizeof_LHASH_ITEM_def)

end
