(* ===== verification/CBS.thy ===== *)
theory CBS
  imports Mem
begin

text \<open>
  BoringSSL's byte-string reader, \<open>crypto/bytestring/cbs.c\<close>. A \<open>CBS\<close> is a pointer and a length; its
  model is the byte string it still has to read. Every \<open>CBS_get_*\<close> function returns the \<open>outcome\<close> of
  the C function together with the reader it leaves behind, on the error paths too. Sizes are
  \<open>size_t\<close>, which has 64 bits on every platform the library is built for (iOS 11.3 and later); they
  are \<open>nat\<close> where they cannot wrap and \<open>64 word\<close> in the one place where the code checks that they
  do not.
\<close>

section \<open>The reader\<close>

type_synonym CBS = bytes

definition CBS_init :: "bytes \<Rightarrow> nat \<Rightarrow> CBS" where
  "CBS_init data len = take len data"

definition CBS_data :: "CBS \<Rightarrow> bytes" where
  "CBS_data cbs = cbs"

definition CBS_len :: "CBS \<Rightarrow> nat" where
  "CBS_len cbs = length cbs"

definition cbs_get :: "CBS \<Rightarrow> nat \<Rightarrow> (bytes, CBS) outcome" where
  "cbs_get cbs n = (if length cbs < n then (None, cbs) else (Some (take n cbs), drop n cbs))"

definition CBS_skip :: "CBS \<Rightarrow> nat \<Rightarrow> (unit, CBS) outcome" where
  "CBS_skip cbs len = andthen (cbs_get cbs len) (\<lambda>_ cbs. (Some (), cbs))"

text \<open>
  \<open>CBS_stow\<close> copies the contents out: the result is the new \<open>*out_ptr\<close> (\<open>None\<close> for the NULL that an
  empty string gives).
\<close>

definition CBS_stow :: "(nat \<Rightarrow> bool) \<Rightarrow> CBS \<Rightarrow> bytes option option" where
  "CBS_stow alloc cbs =
     (if cbs = [] then Some None
      else case OPENSSL_memdup alloc cbs of None \<Rightarrow> None | Some p \<Rightarrow> Some (Some p))"

definition CBS_strdup :: "(nat \<Rightarrow> bool) \<Rightarrow> CBS \<Rightarrow> bytes option" where
  "CBS_strdup alloc cbs = OPENSSL_strndup alloc cbs"

definition CBS_contains_zero_byte :: "CBS \<Rightarrow> bool" where
  "CBS_contains_zero_byte cbs \<longleftrightarrow> list_ex (\<lambda>b. b = 0) cbs"

definition CBS_mem_equal :: "CBS \<Rightarrow> bytes \<Rightarrow> bool" where
  "CBS_mem_equal cbs data \<longleftrightarrow>
     (if length data \<noteq> length cbs then False else CRYPTO_memcmp cbs data = 0)"

text \<open>The loop \<open>result <<= 8; result |= data[i]\<close> of \<open>cbs_get_u\<close>.\<close>

definition cbs_shift_in :: "u64 \<Rightarrow> bytes \<Rightarrow> u64" where
  "cbs_shift_in v data = foldl (\<lambda>result b. push_bit 8 result OR ucast b) v data"

definition cbs_get_u :: "CBS \<Rightarrow> nat \<Rightarrow> (u64, CBS) outcome" where
  "cbs_get_u cbs len = andthen (cbs_get cbs len) (\<lambda>data cbs. (Some (cbs_shift_in 0 data), cbs))"

definition CBS_get_u8 :: "CBS \<Rightarrow> (u8, CBS) outcome" where
  "CBS_get_u8 cbs = andthen (cbs_get cbs 1) (\<lambda>v cbs. (Some (hd v), cbs))"

definition CBS_get_u16 :: "CBS \<Rightarrow> (u16, CBS) outcome" where
  "CBS_get_u16 cbs = andthen (cbs_get_u cbs 2) (\<lambda>v cbs. (Some (ucast v), cbs))"

definition CBS_get_u16le :: "CBS \<Rightarrow> (u16, CBS) outcome" where
  "CBS_get_u16le cbs = andthen (CBS_get_u16 cbs) (\<lambda>v cbs. (Some (CRYPTO_bswap2 v), cbs))"

text \<open>The 24-bit value lives in a \<open>uint32_t\<close>.\<close>

definition CBS_get_u24 :: "CBS \<Rightarrow> (u32, CBS) outcome" where
  "CBS_get_u24 cbs = andthen (cbs_get_u cbs 3) (\<lambda>v cbs. (Some (ucast v), cbs))"

definition CBS_get_u32 :: "CBS \<Rightarrow> (u32, CBS) outcome" where
  "CBS_get_u32 cbs = andthen (cbs_get_u cbs 4) (\<lambda>v cbs. (Some (ucast v), cbs))"

definition CBS_get_u32le :: "CBS \<Rightarrow> (u32, CBS) outcome" where
  "CBS_get_u32le cbs = andthen (CBS_get_u32 cbs) (\<lambda>v cbs. (Some (CRYPTO_bswap4 v), cbs))"

definition CBS_get_u64 :: "CBS \<Rightarrow> (u64, CBS) outcome" where
  "CBS_get_u64 cbs = cbs_get_u cbs 8"

definition CBS_get_u64le :: "CBS \<Rightarrow> (u64, CBS) outcome" where
  "CBS_get_u64le cbs = andthen (cbs_get_u cbs 8) (\<lambda>v cbs. (Some (CRYPTO_bswap8 v), cbs))"

definition CBS_get_last_u8 :: "CBS \<Rightarrow> (u8, CBS) outcome" where
  "CBS_get_last_u8 cbs = (if cbs = [] then (None, cbs) else (Some (last cbs), butlast cbs))"

definition CBS_get_bytes :: "CBS \<Rightarrow> nat \<Rightarrow> (CBS, CBS) outcome" where
  "CBS_get_bytes cbs len = andthen (cbs_get cbs len) (\<lambda>v cbs. (Some (CBS_init v len), cbs))"

definition CBS_copy_bytes :: "CBS \<Rightarrow> nat \<Rightarrow> (bytes, CBS) outcome" where
  "CBS_copy_bytes cbs len = cbs_get cbs len"

definition cbs_get_length_prefixed :: "CBS \<Rightarrow> nat \<Rightarrow> (CBS, CBS) outcome" where
  "cbs_get_length_prefixed cbs len_len =
     andthen (cbs_get_u cbs len_len) (\<lambda>len cbs. CBS_get_bytes cbs (unat len))"

definition CBS_get_u8_length_prefixed :: "CBS \<Rightarrow> (CBS, CBS) outcome" where
  "CBS_get_u8_length_prefixed cbs = cbs_get_length_prefixed cbs 1"

definition CBS_get_u16_length_prefixed :: "CBS \<Rightarrow> (CBS, CBS) outcome" where
  "CBS_get_u16_length_prefixed cbs = cbs_get_length_prefixed cbs 2"

definition CBS_get_u24_length_prefixed :: "CBS \<Rightarrow> (CBS, CBS) outcome" where
  "CBS_get_u24_length_prefixed cbs = cbs_get_length_prefixed cbs 3"

section \<open>What the fixed-width readers compute\<close>

lemma cbs_get_iff:
  "cbs_get s n = (Some bs, t) \<longleftrightarrow> length bs = n \<and> s = bs @ t"
  by (auto simp: cbs_get_def)

lemma cbs_get_append: "cbs_get (bs @ t) (length bs) = (Some bs, t)"
  by (simp add: cbs_get_def)

lemma cbs_get_None: "cbs_get s n = (None, t) \<longleftrightarrow> length s < n \<and> t = s"
  by (auto simp: cbs_get_def)

lemma unat_cbs_shift_in:
  "unat (cbs_shift_in v bs) = (unat v * 256 ^ length bs + be_val bs) mod 2 ^ 64"
proof (induction bs arbitrary: v)
  case Nil
  then show ?case
    using unsigned_less [of v, where ?'a = nat] by (simp add: cbs_shift_in_def)
next
  case (Cons b bs)
  have u: "unat (ucast b :: u64) = unat b"
    by (simp add: unsigned_ucast_eq take_bit_nat_eq_self unat_u8_less [THEN less_trans])
  then have "unat (push_bit 8 v OR ucast b) = (unat v * 256 + unat b) mod 2 ^ 64"
    using unat_shift_or [of "ucast b :: u64" 8 v] by simp
  with Cons [of "push_bit 8 v OR ucast b"]
  have "unat (cbs_shift_in v (b # bs)) =
      ((unat v * 256 + unat b) mod 2 ^ 64 * 256 ^ length bs + be_val bs) mod 2 ^ 64"
    by (simp add: cbs_shift_in_def)
  also have "\<dots> = ((unat v * 256 + unat b) * 256 ^ length bs + be_val bs) mod 2 ^ 64"
    by (metis mod_add_left_eq mod_mult_left_eq)
  also have "(unat v * 256 + unat b) * 256 ^ length bs + be_val bs =
      unat v * 256 ^ length (b # bs) + be_val (b # bs)"
    by (simp add: be_val_Cons algebra_simps)
  finally show ?case .
qed

lemma unat_cbs_shift_in_0: "length bs \<le> 8 \<Longrightarrow> unat (cbs_shift_in 0 bs) = be_val bs"
proof -
  assume "length bs \<le> 8"
  then have "(256 :: nat) ^ length bs \<le> 256 ^ 8" by (intro power_increasing) simp_all
  then have "be_val bs < 2 ^ 64" using be_val_less [of bs] by simp
  then show ?thesis by (simp add: unat_cbs_shift_in)
qed

lemma cbs_get_u_iff:
  assumes "n \<le> 8"
  shows "cbs_get_u s n = (Some v, t) \<longleftrightarrow> unat v < 256 ^ n \<and> s = be_bytes n (unat v) @ t"
proof
  assume "cbs_get_u s n = (Some v, t)"
  then obtain bs where bs: "length bs = n" "s = bs @ t" "v = cbs_shift_in 0 bs"
    by (auto simp: cbs_get_u_def andthen_eq_Some cbs_get_iff)
  then have "unat v = be_val bs" using assms by (simp add: unat_cbs_shift_in_0)
  then show "unat v < 256 ^ n \<and> s = be_bytes n (unat v) @ t"
    using bs be_val_less [of bs] be_bytes_be_val [of bs] by simp
next
  assume a: "unat v < 256 ^ n \<and> s = be_bytes n (unat v) @ t"
  have "cbs_shift_in 0 (be_bytes n (unat v)) = v"
    using a assms by (simp add: word_unat_eq_iff unat_cbs_shift_in_0 be_val_be_bytes)
  then show "cbs_get_u s n = (Some v, t)"
    using a cbs_get_append [of "be_bytes n (unat v)" t] by (simp add: cbs_get_u_def)
qed

lemma get_u_cast_iff:
  assumes "LENGTH('a::len) = 8 * n" "n \<le> 8"
  shows "andthen (cbs_get_u s n) (\<lambda>v t. (Some (ucast v :: 'a word), t)) = (Some w, t) \<longleftrightarrow>
    s = be_bytes n (unat w) @ t"
proof -
  have p: "(256 :: nat) ^ n = 2 ^ LENGTH('a)" by (simp add: assms(1) power_mult)
  have "unat (ucast v :: 'a word) = unat v" if "unat v < 256 ^ n" for v :: u64
    using that by (simp add: p unsigned_ucast_eq take_bit_nat_eq_self)
  moreover have "unat (ucast w :: u64) = unat w \<and> unat w < 256 ^ n \<and> ucast (ucast w :: u64) = w"
  proof -
    have "unat w < 2 ^ LENGTH('a)" by (rule unsigned_less)
    moreover have "(2 :: nat) ^ LENGTH('a) \<le> 2 ^ 64"
      using assms by (intro power_increasing) simp_all
    ultimately have "unat w < 2 ^ 64" "unat w < 2 ^ LENGTH('a)" by linarith+
    then show ?thesis
      by (simp add: p word_unat_eq_iff unsigned_ucast_eq unsigned_take_bit_eq take_bit_nat_eq_self)
  qed
  ultimately show ?thesis
    using assms(2) by (auto simp: andthen_eq_Some cbs_get_u_iff)
      (metis)
qed

lemma CBS_get_u8_iff: "CBS_get_u8 s = (Some v, t) \<longleftrightarrow> s = v # t"
  by (cases s) (auto simp: CBS_get_u8_def cbs_get_def)

lemma CBS_get_u8_Nil [simp]: "CBS_get_u8 [] = (None, [])"
  and CBS_get_u8_Cons [simp]: "CBS_get_u8 (b # s) = (Some b, s)"
  by (simp_all add: CBS_get_u8_def cbs_get_def)

lemma CBS_get_u16_iff: "CBS_get_u16 s = (Some v, t) \<longleftrightarrow> s = be_bytes 2 (unat v) @ t"
  unfolding CBS_get_u16_def by (rule get_u_cast_iff) simp_all

lemma CBS_get_u32_iff: "CBS_get_u32 s = (Some v, t) \<longleftrightarrow> s = be_bytes 4 (unat v) @ t"
  unfolding CBS_get_u32_def by (rule get_u_cast_iff) simp_all

lemma CBS_get_u64_iff: "CBS_get_u64 s = (Some v, t) \<longleftrightarrow> s = be_bytes 8 (unat v) @ t"
  using unsigned_less [of v, where ?'a = nat] by (simp add: CBS_get_u64_def cbs_get_u_iff)

lemma CBS_get_u24_iff:
  "CBS_get_u24 s = (Some v, t) \<longleftrightarrow> unat v < 2 ^ 24 \<and> s = be_bytes 3 (unat v) @ t"
proof -
  have "unat (ucast w :: u32) = unat w" if "unat w < 2 ^ 24" for w :: u64
    using that by (simp add: unsigned_ucast_eq take_bit_nat_eq_self)
  moreover have "unat (ucast v :: u64) = unat v \<and> ucast (ucast v :: u64) = v"
    using unsigned_less [of v, where ?'a = nat]
    by (simp add: word_unat_eq_iff unsigned_ucast_eq unsigned_take_bit_eq take_bit_nat_eq_self)
  ultimately show ?thesis
    unfolding CBS_get_u24_def
    by (auto simp: andthen_eq_Some cbs_get_u_iff) metis
qed

lemma CBS_get_u16le_iff: "CBS_get_u16le s = (Some v, t) \<longleftrightarrow> s = rev (be_bytes 2 (unat v)) @ t"
  by (auto simp: CBS_get_u16le_def andthen_eq_Some CBS_get_u16_iff be_bytes_bswap2)
    (metis be_bytes_bswap2 bswap2_involution)

lemma CBS_get_u32le_iff: "CBS_get_u32le s = (Some v, t) \<longleftrightarrow> s = rev (be_bytes 4 (unat v)) @ t"
  by (auto simp: CBS_get_u32le_def andthen_eq_Some CBS_get_u32_iff be_bytes_bswap4)
    (metis be_bytes_bswap4 bswap4_involution)

lemma CBS_get_u64le_iff: "CBS_get_u64le s = (Some v, t) \<longleftrightarrow> s = rev (be_bytes 8 (unat v)) @ t"
  unfolding CBS_get_u64le_def CBS_get_u64_def [symmetric]
  by (auto simp: andthen_eq_Some CBS_get_u64_iff be_bytes_bswap8)
    (metis be_bytes_bswap8 bswap8_involution)

lemma CBS_get_bytes_iff: "CBS_get_bytes s n = (Some bs, t) \<longleftrightarrow> length bs = n \<and> s = bs @ t"
  by (auto simp: CBS_get_bytes_def andthen_eq_Some cbs_get_iff CBS_init_def)

lemma cbs_get_length_prefixed_iff:
  assumes "n \<le> 3"
  shows "cbs_get_length_prefixed s n = (Some c, t) \<longleftrightarrow>
    length c < 256 ^ n \<and> s = be_bytes n (length c) @ c @ t"
proof -
  have "unat (of_nat (length c) :: u64) = length c" if "length c < 256 ^ n"
  proof -
    have "(256 :: nat) ^ n \<le> 256 ^ 3" using assms by (intro power_increasing) simp_all
    with that show ?thesis by (simp add: unat_of_nat)
  qed
  then show ?thesis
    using assms
    by (auto simp: cbs_get_length_prefixed_def andthen_eq_Some cbs_get_u_iff CBS_get_bytes_iff)
      (metis)
qed

text \<open>Each reader is the canonical decoder of its fixed-width or length-prefixed format.\<close>

interpretation u8_codec: stream_codec CBS_get_u8 "\<lambda>v. [v]" "\<lambda>_. True"
  by unfold_locales (auto simp: CBS_get_u8_iff)

interpretation u16_codec: stream_codec CBS_get_u16 "\<lambda>v. be_bytes 2 (unat v)" "\<lambda>_. True"
  by unfold_locales (auto simp: CBS_get_u16_iff simp flip: length_0_conv)

interpretation u24_codec: stream_codec CBS_get_u24 "\<lambda>v. be_bytes 3 (unat v)" "\<lambda>v. unat v < 2 ^ 24"
  by unfold_locales (auto simp: CBS_get_u24_iff simp flip: length_0_conv)

interpretation u32_codec: stream_codec CBS_get_u32 "\<lambda>v. be_bytes 4 (unat v)" "\<lambda>_. True"
  by unfold_locales (auto simp: CBS_get_u32_iff simp flip: length_0_conv)

interpretation u64_codec: stream_codec CBS_get_u64 "\<lambda>v. be_bytes 8 (unat v)" "\<lambda>_. True"
  by unfold_locales (auto simp: CBS_get_u64_iff simp flip: length_0_conv)

interpretation u16le_codec: stream_codec CBS_get_u16le "\<lambda>v. rev (be_bytes 2 (unat v))" "\<lambda>_. True"
  by unfold_locales (auto simp: CBS_get_u16le_iff simp flip: length_0_conv)

interpretation u32le_codec: stream_codec CBS_get_u32le "\<lambda>v. rev (be_bytes 4 (unat v))" "\<lambda>_. True"
  by unfold_locales (auto simp: CBS_get_u32le_iff simp flip: length_0_conv)

interpretation u64le_codec: stream_codec CBS_get_u64le "\<lambda>v. rev (be_bytes 8 (unat v))" "\<lambda>_. True"
  by unfold_locales (auto simp: CBS_get_u64le_iff simp flip: length_0_conv)

definition length_prefixed :: "nat \<Rightarrow> bytes \<Rightarrow> bytes" where
  "length_prefixed n c = be_bytes n (length c) @ c"

interpretation u8_prefixed: stream_codec CBS_get_u8_length_prefixed "length_prefixed 1"
  "\<lambda>c. length c < 2 ^ 8"
  by unfold_locales
    (auto simp: CBS_get_u8_length_prefixed_def cbs_get_length_prefixed_iff length_prefixed_def)

interpretation u16_prefixed: stream_codec CBS_get_u16_length_prefixed "length_prefixed 2"
  "\<lambda>c. length c < 2 ^ 16"
  by unfold_locales
    (auto simp: CBS_get_u16_length_prefixed_def cbs_get_length_prefixed_iff length_prefixed_def
      simp flip: length_0_conv)

interpretation u24_prefixed: stream_codec CBS_get_u24_length_prefixed "length_prefixed 3"
  "\<lambda>c. length c < 2 ^ 24"
  by unfold_locales
    (auto simp: CBS_get_u24_length_prefixed_def cbs_get_length_prefixed_iff length_prefixed_def
      simp flip: length_0_conv)

end
