(* ===== verification/CBS_ASN1.thy ===== *)
theory CBS_ASN1
  imports CBS
begin

text \<open>
  The ASN.1 half of \<open>crypto/bytestring/cbs.c\<close>: tags, definite and indefinite lengths, the typed
  getters. A tag is the \<open>unsigned\<close> of \<open>bytestring.h\<close>, with the class and the constructed bit in the
  top three bits and the tag number below. After the definitions: the DER encoding of tags, lengths
  and elements as a specification, and the theorems that the parser accepts exactly it.
\<close>

section \<open>Definitions\<close>

subsection \<open>Tag constants\<close>

definition CBS_ASN1_TAG_SHIFT :: nat where "CBS_ASN1_TAG_SHIFT = 24"

definition CBS_ASN1_CONSTRUCTED :: u32 where
  "CBS_ASN1_CONSTRUCTED = push_bit CBS_ASN1_TAG_SHIFT 0x20"

definition CBS_ASN1_TAG_NUMBER_MASK :: u32 where
  "CBS_ASN1_TAG_NUMBER_MASK = push_bit (5 + CBS_ASN1_TAG_SHIFT) 1 - 1"

definition CBS_ASN1_BOOLEAN :: u32 where "CBS_ASN1_BOOLEAN = 0x1"
definition CBS_ASN1_INTEGER :: u32 where "CBS_ASN1_INTEGER = 0x2"
definition CBS_ASN1_BITSTRING :: u32 where "CBS_ASN1_BITSTRING = 0x3"
definition CBS_ASN1_OCTETSTRING :: u32 where "CBS_ASN1_OCTETSTRING = 0x4"
definition CBS_ASN1_UTF8STRING :: u32 where "CBS_ASN1_UTF8STRING = 0xc"
definition CBS_ASN1_NUMERICSTRING :: u32 where "CBS_ASN1_NUMERICSTRING = 0x12"
definition CBS_ASN1_PRINTABLESTRING :: u32 where "CBS_ASN1_PRINTABLESTRING = 0x13"
definition CBS_ASN1_T61STRING :: u32 where "CBS_ASN1_T61STRING = 0x14"
definition CBS_ASN1_VIDEOTEXSTRING :: u32 where "CBS_ASN1_VIDEOTEXSTRING = 0x15"
definition CBS_ASN1_IA5STRING :: u32 where "CBS_ASN1_IA5STRING = 0x16"
definition CBS_ASN1_GRAPHICSTRING :: u32 where "CBS_ASN1_GRAPHICSTRING = 0x19"
definition CBS_ASN1_VISIBLESTRING :: u32 where "CBS_ASN1_VISIBLESTRING = 0x1a"
definition CBS_ASN1_GENERALSTRING :: u32 where "CBS_ASN1_GENERALSTRING = 0x1b"
definition CBS_ASN1_UNIVERSALSTRING :: u32 where "CBS_ASN1_UNIVERSALSTRING = 0x1c"
definition CBS_ASN1_BMPSTRING :: u32 where "CBS_ASN1_BMPSTRING = 0x1e"

subsection \<open>Base-128 integers and tags\<close>

text \<open>The body of the \<open>do ... while (b & 0x80)\<close> loop, on the value accumulated so far.\<close>

fun base128_loop :: "u64 \<Rightarrow> CBS \<Rightarrow> (u64, CBS) outcome" where
  "base128_loop v [] = (None, [])"
| "base128_loop v (b # cbs) =
     (if drop_bit (64 - 7) v \<noteq> 0 then (None, cbs)
      else if v = 0 \<and> b = 0x80 then (None, cbs)
      else (let v' = push_bit 7 v OR ucast (b AND 0x7f)
            in if b AND 0x80 \<noteq> 0 then base128_loop v' cbs else (Some v', cbs)))"

definition parse_base128_integer :: "CBS \<Rightarrow> (u64, CBS) outcome" where
  "parse_base128_integer cbs = base128_loop 0 cbs"

definition parse_asn1_tag :: "CBS \<Rightarrow> (u32, CBS) outcome" where
  "parse_asn1_tag cbs =
     andthen (CBS_get_u8 cbs) (\<lambda>tag_byte cbs.
       let tag = push_bit CBS_ASN1_TAG_SHIFT (ucast tag_byte AND 0xe0) :: u32;
           tag_number = ucast (tag_byte AND 0x1f) :: u32
       in if tag_number = 0x1f then
            andthen (parse_base128_integer cbs) (\<lambda>v cbs.
              if v > ucast CBS_ASN1_TAG_NUMBER_MASK \<or> v < 0x1f then (None, cbs)
              else (Some (tag OR ucast v), cbs))
          else (Some (tag OR tag_number), cbs))"

subsection \<open>Elements\<close>

text \<open>
  The result is the whole element (header included), its tag and the length of its header. The
  function reads the header through a copy of the reader, so \<open>cbs\<close> itself only moves in
  \<open>CBS_get_bytes\<close>.
\<close>

definition cbs_get_any_asn1_element ::
  "CBS \<Rightarrow> bool \<Rightarrow> (CBS \<times> u32 \<times> nat, CBS) outcome" where
  "cbs_get_any_asn1_element cbs ber_ok =
     (case parse_asn1_tag cbs of
        (None, _) \<Rightarrow> (None, cbs)
      | (Some tag, header) \<Rightarrow>
     (case CBS_get_u8 header of
        (None, _) \<Rightarrow> (None, cbs)
      | (Some length_byte, header) \<Rightarrow>
     (let header_len = CBS_len cbs - CBS_len header in
      if length_byte AND 0x80 = 0 then
        andthen (CBS_get_bytes cbs (unat length_byte + header_len))
          (\<lambda>out cbs. (Some (out, tag, header_len), cbs))
      else
       (let num_bytes = unat (length_byte AND 0x7f) in
        if ber_ok \<and> tag AND CBS_ASN1_CONSTRUCTED \<noteq> 0 \<and> num_bytes = 0 then
          andthen (CBS_get_bytes cbs header_len) (\<lambda>out cbs. (Some (out, tag, header_len), cbs))
        else if num_bytes = 0 \<or> num_bytes > 4 then (None, cbs)
        else
         (case cbs_get_u header num_bytes of
            (None, _) \<Rightarrow> (None, cbs)
          | (Some len64, header) \<Rightarrow>
              if len64 < 128 then (None, cbs)
              else if drop_bit ((num_bytes - 1) * 8) len64 = 0 then (None, cbs)
              else if len64 + of_nat header_len + of_nat num_bytes < len64 then (None, cbs)
              else
                let len = len64 + (of_nat header_len + of_nat num_bytes)
                in andthen (CBS_get_bytes cbs (unat len))
                     (\<lambda>out cbs. (Some (out, tag, header_len + num_bytes), cbs)))))))"

definition CBS_get_any_asn1_element :: "CBS \<Rightarrow> (CBS \<times> u32 \<times> nat, CBS) outcome" where
  "CBS_get_any_asn1_element cbs = cbs_get_any_asn1_element cbs False"

definition CBS_get_any_ber_asn1_element :: "CBS \<Rightarrow> (CBS \<times> u32 \<times> nat, CBS) outcome" where
  "CBS_get_any_ber_asn1_element cbs = cbs_get_any_asn1_element cbs True"

definition CBS_get_any_asn1 :: "CBS \<Rightarrow> (CBS \<times> u32, CBS) outcome" where
  "CBS_get_any_asn1 cbs =
     andthen (CBS_get_any_asn1_element cbs) (\<lambda>(out, tag, header_len) cbs.
       case CBS_skip out header_len of
         (None, _) \<Rightarrow> (None, cbs)
       | (Some _, out) \<Rightarrow> (Some (out, tag), cbs))"

definition cbs_get_asn1 :: "CBS \<Rightarrow> u32 \<Rightarrow> bool \<Rightarrow> (CBS, CBS) outcome" where
  "cbs_get_asn1 cbs tag_value skip_header =
     andthen (CBS_get_any_asn1_element cbs) (\<lambda>(out, tag, header_len) cbs.
       if tag \<noteq> tag_value then (None, cbs)
       else if skip_header then
         (case CBS_skip out header_len of
            (None, _) \<Rightarrow> (None, cbs)
          | (Some _, out) \<Rightarrow> (Some out, cbs))
       else (Some out, cbs))"

definition CBS_get_asn1 :: "CBS \<Rightarrow> u32 \<Rightarrow> (CBS, CBS) outcome" where
  "CBS_get_asn1 cbs tag_value = cbs_get_asn1 cbs tag_value True"

definition CBS_get_asn1_element :: "CBS \<Rightarrow> u32 \<Rightarrow> (CBS, CBS) outcome" where
  "CBS_get_asn1_element cbs tag_value = cbs_get_asn1 cbs tag_value False"

definition CBS_peek_asn1_tag :: "CBS \<Rightarrow> u32 \<Rightarrow> bool" where
  "CBS_peek_asn1_tag cbs tag_value \<longleftrightarrow>
     CBS_len cbs \<ge> 1 \<and>
     (case parse_asn1_tag cbs of (None, _) \<Rightarrow> False | (Some actual_tag, _) \<Rightarrow> tag_value = actual_tag)"

subsection \<open>Typed getters\<close>

text \<open>The loop of \<open>CBS_get_asn1_uint64\<close>; \<open>None\<close> is "too large to represent as a \<open>uint64_t\<close>".\<close>

fun asn1_uint64_loop :: "u64 \<Rightarrow> bytes \<Rightarrow> u64 option" where
  "asn1_uint64_loop out [] = Some out"
| "asn1_uint64_loop out (b # data) =
     (if drop_bit 56 out \<noteq> 0 then None else asn1_uint64_loop (push_bit 8 out OR ucast b) data)"

definition CBS_get_asn1_uint64 :: "CBS \<Rightarrow> (u64, CBS) outcome" where
  "CBS_get_asn1_uint64 cbs =
     andthen (CBS_get_asn1 cbs CBS_ASN1_INTEGER) (\<lambda>data cbs.
       let len = CBS_len data in
       if len = 0 then (None, cbs)
       else if data ! 0 AND 0x80 \<noteq> 0 then (None, cbs)
       else if data ! 0 = 0 \<and> len > 1 \<and> data ! 1 AND 0x80 = 0 then (None, cbs)
       else (asn1_uint64_loop 0 data, cbs))"

text \<open>
  The \<open>int64_t\<close> is assembled in memory, on little-endian machines: eight bytes of sign first, then
  the content octets from the low end up. The \<open>int64_t\<close> is the \<open>64 word\<close> with those bytes, read with
  \<open>sint\<close>.
\<close>

definition word_of_le :: "bytes \<Rightarrow> u64" where
  "word_of_le bs = of_nat (le_val bs)"

definition CBS_get_asn1_int64 :: "CBS \<Rightarrow> (u64, CBS) outcome" where
  "CBS_get_asn1_int64 cbs =
     andthen (CBS_get_asn1 cbs CBS_ASN1_INTEGER) (\<lambda>data cbs.
       let len = CBS_len data in
       if len = 0 \<or> len > 8 then (None, cbs)
       else if len > 1 \<and> data ! 0 = 0 \<and> data ! 1 AND 0x80 = 0 then (None, cbs)
       else if len > 1 \<and> data ! 0 = 0xff \<and> data ! 1 AND 0x80 \<noteq> 0 then (None, cbs)
       else
         let is_negative = data ! 0 AND 0x80 \<noteq> 0;
             u = replicate 8 (if is_negative then 0xff else 0);
             u = foldl (\<lambda>u i. u[i := data ! (len - i - 1)]) u [0..<len]
         in (Some (word_of_le u), cbs))"

definition CBS_get_asn1_bool :: "CBS \<Rightarrow> (bool, CBS) outcome" where
  "CBS_get_asn1_bool cbs =
     andthen (CBS_get_asn1 cbs CBS_ASN1_BOOLEAN) (\<lambda>data cbs.
       if CBS_len data \<noteq> 1 then (None, cbs)
       else let v = data ! 0
            in if v \<noteq> 0 \<and> v \<noteq> 0xff then (None, cbs) else (Some (v \<noteq> 0), cbs))"

text \<open>\<open>None\<close> inside the result is \<open>*out_present = 0\<close>.\<close>

definition CBS_get_optional_asn1 :: "CBS \<Rightarrow> u32 \<Rightarrow> (CBS option, CBS) outcome" where
  "CBS_get_optional_asn1 cbs tag =
     (if CBS_peek_asn1_tag cbs tag
      then andthen (CBS_get_asn1 cbs tag) (\<lambda>out cbs. (Some (Some out), cbs))
      else (Some None, cbs))"

definition CBS_get_optional_asn1_octet_string :: "CBS \<Rightarrow> u32 \<Rightarrow> (CBS \<times> bool, CBS) outcome" where
  "CBS_get_optional_asn1_octet_string cbs tag =
     andthen (CBS_get_optional_asn1 cbs tag) (\<lambda>child cbs.
       case child of
         None \<Rightarrow> (Some ([], False), cbs)
       | Some child \<Rightarrow>
           (case CBS_get_asn1 child CBS_ASN1_OCTETSTRING of
              (None, _) \<Rightarrow> (None, cbs)
            | (Some out, child) \<Rightarrow>
                if CBS_len child \<noteq> 0 then (None, cbs) else (Some (out, True), cbs)))"

definition CBS_get_optional_asn1_uint64 :: "CBS \<Rightarrow> u32 \<Rightarrow> u64 \<Rightarrow> (u64, CBS) outcome" where
  "CBS_get_optional_asn1_uint64 cbs tag default_value =
     andthen (CBS_get_optional_asn1 cbs tag) (\<lambda>child cbs.
       case child of
         None \<Rightarrow> (Some default_value, cbs)
       | Some child \<Rightarrow>
           (case CBS_get_asn1_uint64 child of
              (None, _) \<Rightarrow> (None, cbs)
            | (Some out, child) \<Rightarrow>
                if CBS_len child \<noteq> 0 then (None, cbs) else (Some out, cbs)))"

definition CBS_get_optional_asn1_bool :: "CBS \<Rightarrow> u32 \<Rightarrow> int \<Rightarrow> (int, CBS) outcome" where
  "CBS_get_optional_asn1_bool cbs tag default_value =
     andthen (CBS_get_optional_asn1 cbs tag) (\<lambda>child cbs.
       case child of
         None \<Rightarrow> (Some default_value, cbs)
       | Some child \<Rightarrow>
           (case CBS_get_asn1 child CBS_ASN1_BOOLEAN of
              (None, _) \<Rightarrow> (None, cbs)
            | (Some child2, child) \<Rightarrow>
                if CBS_len child2 \<noteq> 1 \<or> CBS_len child \<noteq> 0 then (None, cbs)
                else let boolean = child2 ! 0
                     in if boolean = 0 then (Some 0, cbs)
                        else if boolean = 0xff then (Some 1, cbs)
                        else (None, cbs)))"

definition CBS_is_valid_asn1_bitstring :: "CBS \<Rightarrow> bool" where
  "CBS_is_valid_asn1_bitstring cbs \<longleftrightarrow>
     (case CBS_get_u8 cbs of
        (None, _) \<Rightarrow> False
      | (Some num_unused_bits, in_cbs) \<Rightarrow>
          if num_unused_bits > 7 then False
          else if num_unused_bits = 0 then True
          else (case CBS_get_last_u8 in_cbs of
                  (None, _) \<Rightarrow> False
                | (Some final, _) \<Rightarrow> final AND (push_bit (unat num_unused_bits) 1 - 1) = 0))"

definition CBS_asn1_bitstring_has_bit :: "CBS \<Rightarrow> u32 \<Rightarrow> bool" where
  "CBS_asn1_bitstring_has_bit cbs n \<longleftrightarrow>
     (if \<not> CBS_is_valid_asn1_bitstring cbs then False
      else
        let byte_num = unat (drop_bit 3 n + 1); bit_num = unat (7 - (n AND 7))
        in byte_num < CBS_len cbs \<and> cbs ! byte_num AND push_bit bit_num 1 \<noteq> 0)"

section \<open>Base-128 integers\<close>

text \<open>
  The encoding of DER for large tag numbers and object identifiers: the digits to base 128, most
  significant first and without leading zeros, all but the last with the high bit set.
\<close>

fun base128_more :: "nat \<Rightarrow> bytes" where
  "base128_more n = (if n = 0 then [] else base128_more (n div 128) @ [of_nat (n mod 128 + 128)])"

declare base128_more.simps [simp del]

definition base128 :: "nat \<Rightarrow> bytes" where
  "base128 n = base128_more (n div 128) @ [of_nat (n mod 128)]"

lemma base128_more_0 [simp]: "base128_more 0 = []"
  by (simp add: base128_more.simps)

lemma base128_nonempty [simp]: "base128 n \<noteq> []"
  by (simp add: base128_def)

text \<open>Bits of a byte as arithmetic.\<close>

lemma unat_and_7f: "unat (b AND 0x7f :: u8) = unat b mod 128"
proof -
  have m: "(0x7f :: u8) = mask 7" by (simp add: mask_eq_exp_minus_1)
  have "b AND 0x7f = take_bit 7 b" by (simp only: m take_bit_eq_mask)
  then have "unat (b AND 0x7f) = take_bit 7 (unat b)" by (simp only: unsigned_take_bit_eq)
  then show ?thesis by (simp add: take_bit_eq_mod)
qed

lemma and_80_eq_0: "(b AND 0x80 :: u8) = 0 \<longleftrightarrow> unat b < 128"
proof -
  have "(b AND 0x80 = 0) \<longleftrightarrow> \<not> bit b 7"
    using and_exp_eq_0_iff_not_bit [of b 7] by simp
  also have "\<dots> \<longleftrightarrow> even (unat b div 128)"
    using bit_unsigned_iff [where ?'a = nat, of b 7] by (simp add: bit_iff_odd)
  also have "\<dots> \<longleftrightarrow> unat b < 128"
  proof -
    have "unat b div 128 < 2" using unat_u8_less [of b] by linarith
    then show ?thesis by (cases "unat b < 128") (auto simp: less_2_cases_iff)
  qed
  finally show ?thesis .
qed

lemma unat_shift_7:
  "drop_bit 57 v = 0 \<Longrightarrow> unat (push_bit 7 v OR ucast (b AND 0x7f :: u8) :: u64) = unat v * 128 + unat b mod 128"
proof -
  assume "drop_bit 57 v = (0 :: u64)"
  then have "unat v div 2 ^ 57 = 0"
    using unat_drop_bit_eq [of 57 v] by (simp add: drop_bit_eq_div)
  then have v: "unat v < 2 ^ 57" by (simp add: div_eq_0_iff)
  have u: "unat (ucast (b AND 0x7f) :: u64) = unat b mod 128"
    by (simp add: unsigned_ucast_eq unat_and_7f take_bit_nat_eq_self less_trans [OF mod_less_divisor])
  with v show ?thesis
    using unat_shift_or [of "ucast (b AND 0x7f) :: u64" 7 v] by simp
qed

lemma drop_57_eq_0: "drop_bit 57 (v :: u64) = 0 \<longleftrightarrow> unat v < 2 ^ 57"
proof -
  have "drop_bit 57 v = 0 \<longleftrightarrow> unat (drop_bit 57 v) = 0" by (simp add: unsigned_eq_0_iff)
  also have "\<dots> \<longleftrightarrow> unat v < 2 ^ 57"
    unfolding unat_drop_bit_eq by (simp add: drop_bit_eq_div div_eq_0_iff)
  finally show ?thesis .
qed

text \<open>One turn of the loop, with its word operations read as arithmetic.\<close>

lemma base128_loop_step:
  "base128_loop v (b # s) =
     (if 2 ^ 57 \<le> unat v \<or> unat v = 0 \<and> unat b = 128 then (None, s)
      else if 128 \<le> unat b then base128_loop (of_nat (unat v * 128 + unat b mod 128)) s
      else (Some (of_nat (unat v * 128 + unat b)), s))"
proof (cases "drop_bit 57 v = 0")
  case True
  have "push_bit 7 v OR ucast (b AND 0x7f) = (of_nat (unat v * 128 + unat b mod 128) :: u64)"
    by (simp only: unat_shift_7 [OF True, symmetric] of_nat_unat ucast_id)
  moreover have "v = 0 \<longleftrightarrow> unat v = 0" "b = 0x80 \<longleftrightarrow> unat b = 128"
    by (simp_all add: word_unat_eq_iff)
  ultimately show ?thesis
    using True by (auto simp: Let_def and_80_eq_0 drop_57_eq_0 not_le)
next
  case False
  then show ?thesis by (auto simp: drop_57_eq_0 not_less)
qed

declare base128_loop.simps(2) [simp del]

lemma base128_loop_sound:
  "base128_loop v s = (Some w, t) \<Longrightarrow> base128_more (unat v) @ s = base128 (unat w) @ t"
proof (induction s arbitrary: v)
  case (Cons b s)
  then have v: "unat v < 2 ^ 57" and nz: "\<not> (unat v = 0 \<and> unat b = 128)"
    by (auto simp: base128_loop_step split: if_splits)
  have u: "unat (of_nat (unat v * 128 + k) :: u64) = unat v * 128 + k" if "k < 128" for k
    using v that by (simp add: unat_of_nat del: of_nat_add of_nat_mult)
  show ?case
  proof (cases "128 \<le> unat b")
    case False
    with Cons.prems v nz have "w = of_nat (unat v * 128 + unat b)" "t = s"
      by (auto simp: base128_loop_step)
    with False u [of "unat b"] show ?thesis by (simp add: base128_def)
  next
    case True
    define k where "k = unat b - 128"
    define m where "m = unat v * 128 + k"
    have k: "unat b = k + 128" "k < 128" using True unat_u8_less [of b] unfolding k_def by linarith+
    then have b: "of_nat (k + 128) = b" by (metis of_nat_unat ucast_id)
    have "m \<noteq> 0" using nz k by (auto simp: m_def)
    then have "base128_more m = base128_more (unat v) @ [b]"
      using k b by (subst base128_more.simps) (simp add: m_def)
    moreover have "base128_loop v (b # s) = base128_loop (of_nat m) s"
      using v nz unfolding base128_loop_step k(1)
      by (auto simp: m_def k(2) simp del: of_nat_add of_nat_mult)
    with Cons.prems have "base128_loop (of_nat m) s = (Some w, t)" by simp
    ultimately show ?thesis using Cons.IH [of "of_nat m"] u [OF k(2)] by (simp add: m_def)
  qed
qed simp

lemma base128_loop_more:
  "m < 2 ^ 57 \<Longrightarrow> base128_loop 0 (base128_more m @ s) = base128_loop (of_nat m) s"
proof (induction m arbitrary: s rule: base128_more.induct)
  case (1 m)
  show ?case
  proof (cases "m = 0")
    case False
    let ?v = "of_nat (m div 128) :: u64"
    obtain b :: u8 where b: "b = of_nat (m mod 128 + 128)" by blast
    have v: "unat ?v = m div 128" using "1.prems" by (simp add: unat_of_nat)
    have ub: "unat b = m mod 128 + 128" by (simp add: b unat_of_nat del: of_nat_add)
    have "base128_loop 0 (base128_more m @ s) = base128_loop ?v (b # s)"
      using "1.IH" [OF False, of "b # s"] "1.prems" False
      by (subst base128_more.simps) (simp add: b)
    also have "\<dots> = base128_loop (of_nat m) s"
    proof -
      have "m div 128 < 2 ^ 57" "\<not> (m div 128 = 0 \<and> m mod 128 = 0)" using "1.prems" False by auto
      then show ?thesis by (auto simp: base128_loop_step v ub simp del: of_nat_add of_nat_mult)
    qed
    finally show ?thesis .
  qed simp
qed

lemma base128_loop_complete:
  assumes "n < 2 ^ 64"
  shows "base128_loop 0 (base128 n @ s) = (Some (of_nat n), s)"
proof -
  have n: "n div 128 < 2 ^ 57" using assms by simp
  then have v: "unat (of_nat (n div 128) :: u64) = n div 128" by (simp add: unat_of_nat)
  have b: "unat (of_nat (n mod 128) :: u8) = n mod 128" "\<not> 128 \<le> n mod 128"
    by (simp_all add: unat_of_nat not_le)
  have "base128_loop 0 (base128 n @ s) = base128_loop (of_nat (n div 128)) (of_nat (n mod 128) # s)"
    using base128_loop_more [OF n, of "of_nat (n mod 128) # s"] by (simp add: base128_def)
  also have "\<dots> = (Some (of_nat n), s)"
    using n b(2) by (simp add: base128_loop_step v b(1) del: of_nat_add of_nat_mult)
  finally show ?thesis .
qed

interpretation base128_codec: stream_codec parse_base128_integer "\<lambda>v. base128 (unat v)" "\<lambda>_. True"
proof
  show "parse_base128_integer (base128 (unat v) @ s) = (Some v, s)" for v s
    using base128_loop_complete [of "unat v" s] unsigned_less [of v, where ?'a = nat]
    by (simp add: parse_base128_integer_def)
  show "parse_base128_integer s = (Some v, t) \<Longrightarrow> True \<and> s = base128 (unat v) @ t" for s v t
    using base128_loop_sound [of 0 s v t] by (simp add: parse_base128_integer_def)
qed simp

section \<open>Tags\<close>

text \<open>
  The identifier octets of DER: the top three bits of the tag over its number when that is at most 30,
  over 31 and followed by the number in base 128 otherwise.
\<close>

definition der_tag :: "u32 \<Rightarrow> bytes" where
  "der_tag tag =
     (let bits = unat tag div 2 ^ 29 * 32; num = unat tag mod 2 ^ 29
      in if num < 31 then [of_nat (bits + num)] else of_nat (bits + 31) # base128 num)"

lemma der_tag_nonempty [simp]: "der_tag tag \<noteq> []"
  by (simp add: der_tag_def Let_def)

lemma tag_bits_or:
  fixes num :: u32
  assumes "unat num < 2 ^ 29"
  shows "push_bit 24 (ucast (b :: u8) AND 0xe0) OR num = of_nat (unat b div 32 * 2 ^ 29 + unat num)"
proof -
  have m: "(0xe0 :: u32) = push_bit 5 (mask 3)" by (simp add: mask_eq_exp_minus_1)
  have e: "push_bit 24 (ucast b AND 0xe0) = push_bit 29 (drop_bit 5 (ucast b) :: u32)"
    unfolding m by (rule bit_word_eqI) (auto simp: bit_simps dest: bit_imp_le_length)
  have u: "unat (ucast b :: u32) = unat b"
    by (simp add: unsigned_ucast_eq take_bit_nat_eq_self unat_u8_less [THEN less_trans])
  have d: "unat (drop_bit 5 (ucast b) :: u32) = unat b div 32"
    by (subst unat_drop_bit_eq) (simp add: u drop_bit_eq_div)
  have "unat b div 32 < 8" using unat_u8_less [of b] by linarith
  then have "unat b div 32 * 2 ^ 29 + unat num < 2 ^ 32" using assms by simp
  then show ?thesis
    unfolding e using unat_shift_or [OF assms, of "drop_bit 5 (ucast b)"]
    by (simp add: word_unat_eq_iff d unat_of_nat del: of_nat_add of_nat_mult)
qed

lemma unat_tag_mask: "unat (ucast CBS_ASN1_TAG_NUMBER_MASK :: u64) = 2 ^ 29 - 1"
  by (simp add: CBS_ASN1_TAG_NUMBER_MASK_def CBS_ASN1_TAG_SHIFT_def)

lemma unat_and_1f: "unat (b AND 0x1f :: u8) = unat b mod 32"
proof -
  have m: "(0x1f :: u8) = mask 5" by (simp add: mask_eq_exp_minus_1)
  have "b AND 0x1f = take_bit 5 b" by (simp only: m take_bit_eq_mask)
  then have "unat (b AND 0x1f) = take_bit 5 (unat b)" by (simp only: unsigned_take_bit_eq)
  then show ?thesis by (simp add: take_bit_eq_mod)
qed

lemma parse_asn1_tag_Cons:
  "parse_asn1_tag (b # s) =
     (if unat b mod 32 = 31 then
        andthen (parse_base128_integer s) (\<lambda>v s.
          if 2 ^ 29 \<le> unat v \<or> unat v < 31 then (None, s)
          else (Some (of_nat (unat b div 32 * 2 ^ 29 + unat v)), s))
      else (Some (of_nat (unat b div 32 * 2 ^ 29 + unat b mod 32)), s))"
proof -
  have u: "unat (ucast (b AND 0x1f) :: u32) = unat b mod 32"
    by (simp add: unsigned_ucast_eq unat_and_1f take_bit_nat_eq_self less_trans [OF mod_less_divisor])
  have n: "(ucast (b AND 0x1f) :: u32) = 0x1f \<longleftrightarrow> unat b mod 32 = 31"
    by (simp add: word_unat_eq_iff u)
  have c: "v > ucast CBS_ASN1_TAG_NUMBER_MASK \<or> v < 0x1f \<longleftrightarrow> 2 ^ 29 \<le> unat v \<or> unat v < 31" for v :: u64
    unfolding word_less_nat_alt unat_tag_mask by auto
  have v: "push_bit 24 (ucast b AND 0xe0) OR ucast v = (of_nat (unat b div 32 * 2 ^ 29 + unat v) :: u32)"
    if "unat v < 2 ^ 29" for v :: u64
  proof -
    have "unat (ucast v :: u32) = unat v"
      using that by (simp add: unsigned_ucast_eq take_bit_nat_eq_self)
    with tag_bits_or [of "ucast v" b] that show ?thesis by simp
  qed
  show ?thesis
    unfolding parse_asn1_tag_def CBS_get_u8_Cons andthen_simps Let_def n c
    using tag_bits_or [of "ucast (b AND 0x1f)" b]
    by (auto simp: u v CBS_ASN1_TAG_SHIFT_def not_le intro!: andthen_cong
        simp del: push_bit_and of_nat_add of_nat_mult)
qed

lemma parse_asn1_tag_Nil [simp]: "parse_asn1_tag [] = (None, [])"
  by (simp add: parse_asn1_tag_def)

interpretation tag_codec: stream_codec parse_asn1_tag der_tag "\<lambda>_. True"
proof
  show "parse_asn1_tag (der_tag tag @ s) = (Some tag, s)" for tag s
  proof -
    define bits where "bits = unat tag div 2 ^ 29"
    define num where "num = unat tag mod 2 ^ 29"
    have tag: "tag = of_nat (bits * 2 ^ 29 + num)" by (simp add: bits_def num_def)
    have n: "num < 2 ^ 29" by (simp add: num_def)
    have "unat tag < 2 ^ 32" using unsigned_less [of tag, where ?'a = nat] by simp
    then have b: "bits < 8" unfolding bits_def by (intro less_mult_imp_div_less) simp
    have p: "parse_base128_integer (base128 num @ s) = (Some (of_nat num), s)"
      using n base128_loop_complete [of num s] by (simp add: parse_base128_integer_def)
    have d: "(bits * 32 + k) div 32 = bits" "(bits * 32 + k) mod 32 = k" "(bits * 32 + k) mod 256 = bits * 32 + k"
      if "k < 32" for k using that b by auto
    show ?thesis
    proof (cases "num < 31")
      case True
      then have "der_tag tag = [of_nat (bits * 32 + num)]"
        by (simp add: der_tag_def bits_def num_def)
      with True show ?thesis
        by (simp add: parse_asn1_tag_Cons d tag del: of_nat_add of_nat_mult)
    next
      case False
      then have "der_tag tag = of_nat (bits * 32 + 31) # base128 num"
        by (simp add: der_tag_def bits_def num_def)
      with False n show ?thesis
        by (simp add: parse_asn1_tag_Cons d p tag unat_of_nat del: of_nat_add of_nat_mult)
    qed
  qed
  show "True \<and> s = der_tag tag @ t" if a: "parse_asn1_tag s = (Some tag, t)" for s tag t
  proof (cases s)
    case (Cons b s')
    have b: "unat b div 32 < 8" using unat_u8_less [of b] by linarith
    have u: "unat (of_nat (unat b div 32 * 2 ^ 29 + k) :: u32) = unat b div 32 * 2 ^ 29 + k" if "k < 2 ^ 29" for k
      using that b by (simp add: unat_of_nat del: of_nat_add of_nat_mult)
    have d: "(unat b div 32 * 2 ^ 29 + k) div 2 ^ 29 = unat b div 32" 
      "(unat b div 32 * 2 ^ 29 + k) mod 2 ^ 29 = k" if "k < 2 ^ 29" for k :: nat
      using that by simp_all
    show ?thesis
    proof (cases "unat b mod 32 = 31")
      case True
      with a Cons obtain v :: u64 where v: "31 \<le> unat v" "unat v < 2 ^ 29" "s' = base128 (unat v) @ t"
        "tag = of_nat (unat b div 32 * 2 ^ 29 + unat v)"
        by (auto simp: parse_asn1_tag_Cons andthen_eq_Some base128_codec.rd_iff not_le not_less split: if_splits)
      moreover have "unat b div 32 * 32 + 31 = unat b" using True by presburger
      ultimately have "der_tag tag = b # base128 (unat v)"
        unfolding der_tag_def v(4) u [OF v(2)] d [OF v(2)] Let_def
        by (simp del: of_nat_add of_nat_mult)
      with v Cons show ?thesis by simp
    next
      case False
      have k: "unat b mod 32 < 2 ^ 29" by (rule less_trans [of _ 32]) simp_all
      from False have "unat b mod 32 < 31" using mod_less_divisor [of 32 "unat b"] by linarith
      moreover from a Cons False have t: "t = s'" "tag = of_nat (unat b div 32 * 2 ^ 29 + unat b mod 32)"
        by (auto simp: parse_asn1_tag_Cons)
      ultimately have "der_tag tag = [b]"
        unfolding der_tag_def t(2) u [OF k] d [OF k] Let_def
        by (simp add: mult.commute [of _ 32] del: of_nat_add of_nat_mult)
      with t Cons show ?thesis by simp
    qed
  qed (use a in simp)
qed simp

section \<open>Elements\<close>

text \<open>
  The length octets of DER: one octet up to 127, otherwise the number of octets with the high bit set,
  and the length in as few octets as it takes. The parser reads lengths of at most four octets.
\<close>

definition der_length_octets :: "nat \<Rightarrow> nat" where
  "der_length_octets n = (if n < 2 ^ 8 then 1 else if n < 2 ^ 16 then 2 else if n < 2 ^ 24 then 3 else 4)"

definition der_length :: "nat \<Rightarrow> bytes" where
  "der_length n =
     (if n < 128 then [of_nat n]
      else of_nat (128 + der_length_octets n) # be_bytes (der_length_octets n) n)"

definition der_header :: "u32 \<Rightarrow> bytes \<Rightarrow> bytes" where
  "der_header tag c = der_tag tag @ der_length (length c)"

definition der_element :: "u32 \<Rightarrow> bytes \<Rightarrow> bytes" where
  "der_element tag c = der_header tag c @ c"

lemma der_length_octets_bounds:
  assumes "n < 2 ^ 32"
  shows "der_length_octets n \<in> {1..4}" "n < 256 ^ der_length_octets n"
    "der_length_octets n \<noteq> 1 \<Longrightarrow> 256 ^ (der_length_octets n - 1) \<le> n"
  using assms by (auto simp: der_length_octets_def)

lemma der_length_octets_unique:
  assumes "k \<in> {1..4}" "n < 256 ^ k" "128 \<le> n" "k \<noteq> 1 \<Longrightarrow> 256 ^ (k - 1) \<le> n"
  shows "der_length_octets n = k"
proof -
  from assms(1) have "k = 1 \<or> k = 2 \<or> k = 3 \<or> k = 4" by auto
  with assms(2-4) show ?thesis by (elim disjE) (auto simp: der_length_octets_def)
qed

lemma length_der_length:
  "length (der_length n) = (if n < 128 then 1 else 1 + der_length_octets n)"
  by (simp add: der_length_def)

lemma drop_bit_eq_0_u64: "drop_bit k (v :: u64) = 0 \<longleftrightarrow> unat v < 2 ^ k"
proof -
  have "drop_bit k v = 0 \<longleftrightarrow> unat (drop_bit k v) = 0" by (simp add: unsigned_eq_0_iff)
  also have "\<dots> \<longleftrightarrow> unat v < 2 ^ k"
    unfolding unat_drop_bit_eq by (simp add: drop_bit_eq_div div_eq_0_iff)
  finally show ?thesis .
qed

text \<open>
  The size check of the C code cannot fail on a machine whose \<open>size_t\<close> has 64 bits.
\<close>

lemma no_wrap:
  fixes len :: u64
  assumes "unat len < 2 ^ 32" "h < 2 ^ 62"
  shows "\<not> len + of_nat h < len" "unat (len + of_nat h) = unat len + h"
proof -
  show "unat (len + of_nat h) = unat len + h"
    using assms by (simp add: unat_word_ariths unat_of_nat)
  then show "\<not> len + of_nat h < len" by (simp add: word_less_nat_alt)
qed

lemma length_base128_more: "n < 128 ^ k \<Longrightarrow> length (base128_more n) \<le> k"
proof (induction k arbitrary: n)
  case (Suc k)
  then have "length (base128_more (n div 128)) \<le> k"
    by (simp add: less_mult_imp_div_less mult.commute)
  then show ?case by (subst base128_more.simps) simp
qed simp

lemma length_der_tag: "length (der_tag tag) \<le> 6"
proof -
  have "length (base128_more (unat tag mod 2 ^ 29 div 128)) \<le> 4"
    by (rule length_base128_more, rule less_mult_imp_div_less, rule less_trans [of _ "2 ^ 29"]) simp_all
  then show ?thesis by (simp add: der_tag_def base128_def Let_def)
qed

lemma append_split_prefix:
  assumes "p @ r = out @ t" "length out = length p + m"
  obtains c where "out = p @ c" "r = c @ t" "length c = m"
proof -
  from assms have "out = p @ drop (length p) out" "r = drop (length p) out @ t"
    by (metis append_eq_append_conv_if append_take_drop_id le_add1)+
  with assms(2) that [of "drop (length p) out"] show thesis by simp
qed

lemma CBS_get_bytes_append: "CBS_get_bytes (bs @ t) (length bs) = (Some bs, t)"
  by (simp add: CBS_get_bytes_iff)

text \<open>
  The parser with its size arithmetic read as arithmetic on \<open>nat\<close>: the tag and the length byte are
  \<open>der_tag tag @ [b]\<close>, \<open>r\<close> is what follows.
\<close>

lemma element_short:
  assumes "unat b < 128"
  shows "cbs_get_any_asn1_element (der_tag tag @ b # r) ber_ok =
    andthen (CBS_get_bytes (der_tag tag @ b # r) (length (der_tag tag) + 1 + unat b))
      (\<lambda>out cbs. (Some (out, tag, length (der_tag tag) + 1), cbs))"
  using assms
  by (simp add: cbs_get_any_asn1_element_def tag_codec.rd_enc CBS_len_def Let_def and_80_eq_0 add.commute)

lemma element_long:
  assumes "128 \<le> unat b"
  shows "cbs_get_any_asn1_element (der_tag tag @ b # r) ber_ok =
    (let h = length (der_tag tag) + 1; k = unat b - 128; s = der_tag tag @ b # r in
     if ber_ok \<and> tag AND CBS_ASN1_CONSTRUCTED \<noteq> 0 \<and> k = 0 then
       andthen (CBS_get_bytes s h) (\<lambda>out cbs. (Some (out, tag, h), cbs))
     else if k = 0 \<or> k > 4 then (None, s)
     else case cbs_get_u r k of
       (None, _) \<Rightarrow> (None, s)
     | (Some v, _) \<Rightarrow>
         if unat v < 128 \<or> unat v < 256 ^ (k - 1) then (None, s)
         else andthen (CBS_get_bytes s (unat v + (h + k))) (\<lambda>out cbs. (Some (out, tag, h + k), cbs)))"
proof -
  define h where "h = length (der_tag tag) + 1"
  define k where "k = unat b - 128"
  have k: "unat b mod 128 = k" using assms by (simp add: k_def byte_high_mod)
  have n: "unat v < 2 ^ 32 \<and> h + k < 2 ^ 62" if "cbs_get_u r k = (Some v, r')" "\<not> k > 4" for v r'
  proof -
    have "(256 :: nat) ^ k \<le> 256 ^ 4" using that(2) by (intro power_increasing) simp_all
    moreover have "unat v < 256 ^ k" using that by (simp add: cbs_get_u_iff)
    ultimately show ?thesis using that(2) length_der_tag [of tag] by (simp add: h_def)
  qed
  have e: "(256 :: nat) ^ (k - Suc 0) = 2 ^ ((k - Suc 0) * 8)"
    by (simp add: power_mult mult.commute [of _ 8])
  have w: "v < 128 \<longleftrightarrow> unat v < 128" for v :: u64 by (simp add: word_less_nat_alt)
  have a: "v + of_nat h + of_nat k = v + of_nat (h + k)" "of_nat h + of_nat k = (of_nat (h + k) :: u64)"
    for v :: u64 by (simp_all add: add.assoc)
  have len: "CBS_len (der_tag tag @ b # r) - CBS_len r = h" by (simp add: CBS_len_def h_def)
  note defs = cbs_get_any_asn1_element_def tag_codec.rd_enc len unat_and_7f k and_80_eq_0
    h_def [symmetric, simplified] k_def [symmetric] Let_def
  consider "k = 0" | "k > 4" | "k \<noteq> 0" "\<not> k > 4" by blast
  then show ?thesis
  proof cases
    case 1
    then show ?thesis using assms by (simp add: defs)
  next
    case 2
    then show ?thesis using assms by (simp add: defs)
  next
    case 3
    obtain v' r' where u: "cbs_get_u r k = (v', r')" by (cases "cbs_get_u r k")
    show ?thesis
    proof (cases v')
      case None
      with u 3 show ?thesis using assms by (simp add: defs)
    next
      case (Some v)
      with u n 3 have "unat v < 2 ^ 32" "h + k < 2 ^ 62" by blast+
      note nw = no_wrap [OF this]
      from Some u 3 show ?thesis
        using assms by (simp add: defs a nw w e drop_bit_eq_0_u64 del: of_nat_add)
    qed
  qed
qed

lemma cbs_get_any_asn1_element_sound:
  assumes "cbs_get_any_asn1_element s ber_ok = (Some (out, tag, hl), t)"
  shows "s = out @ t \<and>
    ((\<exists>c. length c < 2 ^ 32 \<and> out = der_element tag c \<and> hl = length (der_header tag c)) \<or>
     ber_ok \<and> tag AND CBS_ASN1_CONSTRUCTED \<noteq> 0 \<and> out = der_tag tag @ [0x80] \<and> hl = length out)"
proof -
  from assms obtain tg h1 where t1: "parse_asn1_tag s = (Some tg, h1)"
    by (auto simp: cbs_get_any_asn1_element_def split: prod.splits option.splits)
  with assms obtain b r where h1: "h1 = b # r"
    by (cases h1) (auto simp: cbs_get_any_asn1_element_def)
  with t1 have s: "s = der_tag tg @ b # r" by (simp add: tag_codec.rd_iff)
  show ?thesis
  proof (cases "unat b < 128")
    case True
    with assms have o: "length out = length (der_tag tg @ [b]) + unat b" "(der_tag tg @ [b]) @ r = out @ t"
      "tag = tg" "hl = length (der_tag tg) + 1"
      by (auto simp: s element_short andthen_eq_Some CBS_get_bytes_iff)
    from o(2,1) obtain c where c: "out = (der_tag tg @ [b]) @ c" "r = c @ t" "length c = unat b"
      by (rule append_split_prefix)
    with True o s have "out = der_element tag c \<and> hl = length (der_header tag c) \<and> s = out @ t"
      by (simp add: der_element_def der_header_def der_length_def)
    moreover have "length c < 2 ^ 32" using c(3) True by simp
    ultimately show ?thesis by blast
  next
    case False
    then have b: "128 \<le> unat b" by simp
    define k where "k = unat b - 128"
    show ?thesis
    proof (cases "k = 0")
      case True
      with b have "unat b = 128" by (simp add: k_def)
      then have "b = 0x80" by (simp add: word_unat_eq_iff)
      moreover have "ber_ok \<and> tg AND CBS_ASN1_CONSTRUCTED \<noteq> 0 \<and> tag = tg \<and> hl = length (der_tag tg) + 1 \<and>
          length out = length (der_tag tg @ [b]) + 0 \<and> (der_tag tg @ [b]) @ r = out @ t"
        using assms True
        by (auto simp: s element_long [OF b] k_def Let_def andthen_eq_Some CBS_get_bytes_iff split: if_splits)
      ultimately show ?thesis using s by (fastforce elim: append_split_prefix)
    next
      case False
      define h where "h = length (der_tag tg) + 1"
      have E: "(if k > 4 then (None, s) else case cbs_get_u r k of
             (None, _) \<Rightarrow> (None, s)
           | (Some v, _) \<Rightarrow>
               if unat v < 128 \<or> unat v < 256 ^ (k - 1) then (None, s)
               else andthen (CBS_get_bytes s (unat v + (h + k))) (\<lambda>out cbs. (Some (out, tg, h + k), cbs)))
          = (Some (out, tag, hl), t)"
        using assms False unfolding s element_long [OF b] Let_def k_def [symmetric] h_def [symmetric]
        by simp
      then have k4: "k \<le> 4" by (cases "k > 4") simp_all
      with E obtain v r' where u: "cbs_get_u r k = (Some v, r')"
        by (cases "cbs_get_u r k"; cases "fst (cbs_get_u r k)") simp_all
      with E k4 have v: "128 \<le> unat v" "256 ^ (k - 1) \<le> unat v"
        by (simp_all add: not_less [symmetric] split: if_splits)
      with E k4 u have o: "CBS_get_bytes s (unat v + (length (der_tag tg) + 1 + k)) = (Some out, t)"
          "tag = tg" "hl = length (der_tag tg) + 1 + k"
        by (auto simp: h_def andthen_eq_Some)
      from u k4 have r: "unat v < 256 ^ k" "r = be_bytes k (unat v) @ r'"
        by (simp_all add: cbs_get_u_iff)
      let ?p = "der_tag tg @ b # be_bytes k (unat v)"
      from o(1) have "?p @ r' = out @ t" "length out = length ?p + unat v"
        by (auto simp: s r CBS_get_bytes_iff)
      then obtain c where c: "out = ?p @ c" "r' = c @ t" "length c = unat v"
        by (rule append_split_prefix)
      have kn: "der_length_octets (length c) = k"
        using False k4 r(1) v by (intro der_length_octets_unique) (auto simp: c(3))
      have "(256 :: nat) ^ k \<le> 256 ^ 4" using k4 by (intro power_increasing) simp_all
      then have l: "length c < 2 ^ 32" using r(1) c(3) by simp
      have "of_nat (128 + k) = b" using b by (simp add: k_def)
      then have "der_length (length c) = b # be_bytes k (unat v)"
        using v(1) by (simp add: der_length_def kn) (simp add: c(3))
      then have "out = der_element tag c" "hl = length (der_header tag c)"
        using c(1) o(2,3) by (simp_all add: der_element_def der_header_def)
      moreover have "s = out @ t" using s r(2) c(1,2) by simp
      ultimately show ?thesis using l by blast
    qed
  qed
qed

lemma cbs_get_any_asn1_element_complete:
  assumes c: "length c < 2 ^ 32"
  shows "cbs_get_any_asn1_element (der_element tag c @ t) ber_ok =
    (Some (der_element tag c, tag, length (der_header tag c)), t)"
proof (cases "length c < 128")
  case True
  define b :: u8 where "b = of_nat (length c)"
  have b: "unat b = length c" using True by (simp add: b_def unat_of_nat)
  have e: "der_element tag c = der_tag tag @ b # c" "der_header tag c = der_tag tag @ [b]"
    using True by (simp_all add: der_element_def der_header_def der_length_def b_def)
  have "CBS_get_bytes (der_tag tag @ b # c @ t) (length (der_tag tag) + 1 + unat b) =
      (Some (der_tag tag @ b # c), t)"
    by (simp add: CBS_get_bytes_iff b)
  then show ?thesis using True b by (simp add: e element_short)
next
  case False
  define k where "k = der_length_octets (length c)"
  define b :: u8 where "b = of_nat (128 + k)"
  from der_length_octets_bounds [OF c] have k: "1 \<le> k" "k \<le> 4" "length c < 256 ^ k"
    and k': "k \<noteq> 1 \<Longrightarrow> 256 ^ (k - 1) \<le> length c"
    by (auto simp: k_def)
  have b: "unat b = 128 + k" using k by (simp add: b_def unat_of_nat del: of_nat_add)
  then have b128: "128 \<le> unat b" "unat b - 128 = k" by simp_all
  have v: "unat (of_nat (length c) :: u64) = length c" using c by (simp add: unat_of_nat)
  have u: "cbs_get_u (be_bytes k (length c) @ c @ t) k = (Some (of_nat (length c)), c @ t)"
    using k by (simp add: cbs_get_u_iff v)
  have l: "\<not> (length c < 128 \<or> length c < 256 ^ (k - 1))"
    using False k k' by (cases "k = 1") auto
  have e: "der_element tag c = der_tag tag @ b # be_bytes k (length c) @ c"
    "der_header tag c = der_tag tag @ b # be_bytes k (length c)"
    using False by (simp_all add: der_element_def der_header_def der_length_def b_def k_def)
  have g: "CBS_get_bytes (der_tag tag @ b # be_bytes k (length c) @ c @ t)
      (length c + (length (der_tag tag) + 1 + k)) = (Some (der_tag tag @ b # be_bytes k (length c) @ c), t)"
    by (simp add: CBS_get_bytes_iff)
  show ?thesis
    using k l unfolding e append.assoc append_Cons element_long [OF b128(1)] Let_def b128(2) u
    by (simp add: v g del: be_bytes.simps) (use g in simp)
qed

text \<open>
  What the element parser accepts, in one statement: DER elements with a content of less than \<open>2 ^ 32\<close>
  bytes and, if BER is allowed, the header of a constructed element of indefinite length.
\<close>

lemma cbs_get_any_asn1_element_DER_iff:
  "CBS_get_any_asn1_element s = (Some (out, tag, hl), t) \<longleftrightarrow>
     (\<exists>c. length c < 2 ^ 32 \<and> out = der_element tag c \<and> hl = length (der_header tag c) \<and> s = out @ t)"
  unfolding CBS_get_any_asn1_element_def
  using cbs_get_any_asn1_element_sound [of s False out tag hl t] cbs_get_any_asn1_element_complete
  by blast

lemma cbs_get_any_asn1_element_None:
  "cbs_get_any_asn1_element s ber_ok = (None, t) \<Longrightarrow> t = s"
  unfolding cbs_get_any_asn1_element_def
  by (auto simp: andthen_def CBS_get_bytes_def cbs_get_def Let_def
      split: prod.splits option.splits if_splits)

lemma der_element_nonempty [simp]: "der_element tag c \<noteq> []"
  by (simp add: der_element_def der_header_def)

lemma CBS_skip_header: "CBS_skip (der_element tag c) (length (der_header tag c)) = (Some (), c)"
  by (simp add: CBS_skip_def der_element_def cbs_get_def)

lemma der_element_inj:
  assumes "length c < 2 ^ 32" "length c' < 2 ^ 32"
  shows "der_element tag c @ t = der_element tag' c' @ t' \<longleftrightarrow> tag = tag' \<and> c = c' \<and> t = t'"
proof
  assume e: "der_element tag c @ t = der_element tag' c' @ t'"
  have "(Some (der_element tag c, tag, length (der_header tag c)), t) =
      (Some (der_element tag' c', tag', length (der_header tag' c')), t')"
    by (simp only: cbs_get_any_asn1_element_complete [OF assms(1), of tag t False, symmetric]
        cbs_get_any_asn1_element_complete [OF assms(2), of tag' t' False, symmetric] e)
  then have "(der_element tag c = der_element tag' c' \<and> tag = tag' \<and>
      length (der_header tag c) = length (der_header tag' c')) \<and> t = t'"
    unfolding prod.inject option.inject .
  then show "tag = tag' \<and> c = c' \<and> t = t'"
    unfolding der_element_def by (elim conjE) (simp only: append_eq_append_conv simp_thms)
qed simp

text \<open>Reading an element either fails and leaves the reader alone, or takes one DER element off it.\<close>

lemma element_cases:
  obtains (fail) "CBS_get_any_asn1_element s = (None, s)"
      "\<And>tag c t. length c < 2 ^ 32 \<Longrightarrow> s \<noteq> der_element tag c @ t"
  | (ok) tag c t where "length c < 2 ^ 32" "s = der_element tag c @ t"
      "CBS_get_any_asn1_element s = (Some (der_element tag c, tag, length (der_header tag c)), t)"
proof (cases "CBS_get_any_asn1_element s")
  case (Pair v t)
  show thesis
  proof (cases v)
    case None
    with Pair have e: "CBS_get_any_asn1_element s = (None, s)"
      using cbs_get_any_asn1_element_None [of s False t] by (simp add: CBS_get_any_asn1_element_def)
    moreover have "s \<noteq> der_element tag c @ t" if "length c < 2 ^ 32" for tag c t
      using e cbs_get_any_asn1_element_complete [OF that, of tag t False]
      by (auto simp: CBS_get_any_asn1_element_def)
    ultimately show thesis by (rule fail)
  next
    case (Some x)
    obtain out tag hl where x: "x = (out, tag, hl)" by (cases x)
    with Some Pair obtain c where "length c < 2 ^ 32" "out = der_element tag c"
      "hl = length (der_header tag c)" "s = out @ t"
      by (auto simp: cbs_get_any_asn1_element_DER_iff)
    with Some Pair x show thesis by (intro ok) simp_all
  qed
qed

lemma CBS_get_any_asn1_iff:
  "CBS_get_any_asn1 s = (Some (c, tag), t) \<longleftrightarrow> length c < 2 ^ 32 \<and> s = der_element tag c @ t"
  by (cases s rule: element_cases) (auto simp: CBS_get_any_asn1_def CBS_skip_header der_element_inj)

lemma CBS_get_asn1_iff:
  "CBS_get_asn1 s tag = (Some c, t) \<longleftrightarrow> length c < 2 ^ 32 \<and> s = der_element tag c @ t"
  by (cases s rule: element_cases)
    (auto simp: CBS_get_asn1_def cbs_get_asn1_def CBS_skip_header der_element_inj)

lemma CBS_get_asn1_element_iff:
  "CBS_get_asn1_element s tag = (Some out, t) \<longleftrightarrow>
     (\<exists>c. length c < 2 ^ 32 \<and> out = der_element tag c \<and> s = out @ t)"
  by (cases s rule: element_cases)
    (auto simp: CBS_get_asn1_element_def cbs_get_asn1_def der_element_inj)

interpretation der_codec: stream_codec CBS_get_any_asn1
  "\<lambda>(c, tag). der_element tag c" "\<lambda>(c, tag). length c < 2 ^ 32"
  by unfold_locales (auto simp: CBS_get_any_asn1_iff)

interpretation der_content: stream_codec "\<lambda>s. CBS_get_asn1 s tag" "der_element tag"
  "\<lambda>c. length c < 2 ^ 32"
  by unfold_locales (auto simp: CBS_get_asn1_iff)

end
