(* ===== verification/CBB.thy ===== *)
theory CBB
  imports CBS_ASN1
begin

text \<open>
  BoringSSL's byte-string builder, \<open>crypto/bytestring/cbb.c\<close>, without its ASN.1 values. One top-level
  \<open>CBB\<close> owns a growing buffer; a child \<open>CBB\<close> opened in it stands for contents whose length prefix is
  still pending. The chain of \<open>child\<close> pointers is the list \<open>children\<close>, outermost first, and a
  \<open>CBB *\<close> is its depth in the chain: 0 is the top-level object and a depth beyond the chain is an
  object that was flushed, whose \<open>base\<close> is NULL. The second half states what a builder promises (a
  stack of contents, \<open>collapse\<close>d by a flush) and proves that the code keeps the promise.
\<close>

section \<open>Definitions\<close>

subsection \<open>The buffer\<close>

text \<open>
  \<open>buf\<close> holds the \<open>len\<close> bytes in use, so \<open>base->len\<close> is its length. Bytes that the code adds
  before it writes them are zero in the model.
\<close>

record cbb_buffer =
  buf :: bytes
  cap :: nat
  can_resize :: bool
  error :: bool

record cbb_child =
  offset :: nat
  pending_len_len :: nat
  pending_is_asn1 :: bool

record CBB =
  base :: "cbb_buffer option"
  children :: "cbb_child list"

text \<open>Addition in \<open>size_t\<close>.\<close>

definition size_add :: "nat \<Rightarrow> nat \<Rightarrow> nat" where
  "size_add a b = (a + b) mod 2 ^ 64"

definition CBB_zero :: CBB where
  "CBB_zero = \<lparr>base = None, children = []\<rparr>"

text \<open>
  The first allocation of \<open>CBB_init\<close> is the buffer and the second one, in \<open>cbb_init\<close>, the
  \<open>struct cbb_buffer_st\<close> of 32 bytes.
\<close>

definition cbb_init :: "(nat \<Rightarrow> bool) \<Rightarrow> CBB \<Rightarrow> bytes \<Rightarrow> nat \<Rightarrow> (unit, CBB) outcome" where
  "cbb_init alloc cbb b c =
     (case OPENSSL_malloc alloc 32 of
        None \<Rightarrow> (None, cbb)
      | Some _ \<Rightarrow> (Some (), cbb\<lparr>base := Some \<lparr>buf = b, cap = c, can_resize = True, error = False\<rparr>\<rparr>))"

definition CBB_init :: "(nat \<Rightarrow> bool) \<Rightarrow> nat \<Rightarrow> (unit, CBB) outcome" where
  "CBB_init alloc initial_capacity =
     (if initial_capacity > 0 \<and> OPENSSL_malloc alloc (of_nat initial_capacity) = None
      then (None, CBB_zero)
      else cbb_init alloc CBB_zero [] initial_capacity)"

definition CBB_init_fixed :: "(nat \<Rightarrow> bool) \<Rightarrow> nat \<Rightarrow> (unit, CBB) outcome" where
  "CBB_init_fixed alloc len =
     andthen (cbb_init alloc CBB_zero [] len) (\<lambda>_ cbb.
       (Some (), cbb\<lparr>base := map_option (\<lambda>b. b\<lparr>can_resize := False\<rparr>) (base cbb)\<rparr>))"

definition CBB_cleanup :: "CBB \<Rightarrow> CBB" where
  "CBB_cleanup cbb = cbb\<lparr>base := None\<rparr>"

text \<open>The result of a reservation is the index of its first byte, \<open>base->buf + base->len\<close>.\<close>

definition cbb_buffer_reserve :: "(nat \<Rightarrow> bool) \<Rightarrow> cbb_buffer \<Rightarrow> nat \<Rightarrow> (nat, cbb_buffer) outcome" where
  "cbb_buffer_reserve alloc b len =
     (let newlen = size_add (length (buf b)) len
      in if newlen < length (buf b) then (None, b\<lparr>error := True\<rparr>)
         else if newlen > cap b then
           (let newcap = (cap b * 2) mod 2 ^ 64
            in if \<not> can_resize b then (None, b\<lparr>error := True\<rparr>)
               else
                 (let newcap = (if newcap < cap b \<or> newcap < newlen then newlen else newcap)
                  in case OPENSSL_realloc alloc (buf b) newcap of
                       None \<Rightarrow> (None, b\<lparr>error := True\<rparr>)
                     | Some newbuf \<Rightarrow> (Some (length newbuf), b\<lparr>buf := newbuf, cap := newcap\<rparr>)))
         else (Some (length (buf b)), b))"

definition cbb_buffer_add :: "(nat \<Rightarrow> bool) \<Rightarrow> cbb_buffer \<Rightarrow> nat \<Rightarrow> (nat, cbb_buffer) outcome" where
  "cbb_buffer_add alloc b len =
     andthen (cbb_buffer_reserve alloc b len) (\<lambda>out b.
       (Some out, b\<lparr>buf := buf b @ replicate len 0\<rparr>))"

text \<open>The loops \<open>buf[i] = v; v >>= 8\<close>, from the last of \<open>n\<close> bytes down to the first.\<close>

fun store_be :: "bytes \<Rightarrow> nat \<Rightarrow> nat \<Rightarrow> u64 \<Rightarrow> bytes \<times> u64" where
  "store_be bs off 0 v = (bs, v)"
| "store_be bs off (Suc i) v = store_be (bs[off + i := ucast v]) off i (drop_bit 8 v)"

definition cbb_buffer_add_u :: "(nat \<Rightarrow> bool) \<Rightarrow> cbb_buffer \<Rightarrow> u64 \<Rightarrow> nat \<Rightarrow> (unit, cbb_buffer) outcome" where
  "cbb_buffer_add_u alloc b v len_len =
     (if len_len = 0 then (Some (), b)
      else andthen (cbb_buffer_add alloc b len_len) (\<lambda>out b.
        let (bs, v) = store_be (buf b) out len_len v; b = b\<lparr>buf := bs\<rparr>
        in if v \<noteq> 0 then (None, b\<lparr>error := True\<rparr>) else (Some (), b)))"

definition memmove :: "bytes \<Rightarrow> nat \<Rightarrow> nat \<Rightarrow> nat \<Rightarrow> bytes" where
  "memmove bs dst src n = take dst bs @ take n (drop src bs) @ drop (dst + n) bs"

subsection \<open>Flushing\<close>

text \<open>
  The length octets of an ASN.1 child: the number of octets, the first of them, and the value that
  is left to write behind it; \<open>None\<close> is "too large".
\<close>

definition asn1_length :: "nat \<Rightarrow> (nat \<times> u8 \<times> nat) option" where
  "asn1_length len =
     (if len > 0xfffffffe then None
      else if len > 0xffffff then Some (5, 0x80 OR 4, len)
      else if len > 0xffff then Some (4, 0x80 OR 3, len)
      else if len > 0xff then Some (3, 0x80 OR 2, len)
      else if len > 0x7f then Some (2, 0x80 OR 1, len)
      else Some (1, of_nat len, 0))"

text \<open>
  The end of \<open>CBB_flush\<close> on \<open>child\<close>, whose own children are flushed: writing its length prefix.
\<close>

definition cbb_write_prefix :: "(nat \<Rightarrow> bool) \<Rightarrow> cbb_buffer \<Rightarrow> cbb_child \<Rightarrow> (unit, cbb_buffer) outcome" where
  "cbb_write_prefix alloc b child =
     (let child_start = size_add (offset child) (pending_len_len child) in
      if child_start < offset child \<or> length (buf b) < child_start then (None, b\<lparr>error := True\<rparr>)
      else
        (let len = length (buf b) - child_start in
         if pending_is_asn1 child then
           (case asn1_length len of
              None \<Rightarrow> (None, b\<lparr>error := True\<rparr>)
            | Some (len_len, initial_length_byte, v) \<Rightarrow>
                andthen
                  (if len_len \<noteq> 1 then
                     andthen (cbb_buffer_add alloc b (len_len - 1)) (\<lambda>_ b.
                       (Some (), b\<lparr>buf := memmove (buf b) (child_start + (len_len - 1)) child_start v\<rparr>))
                   else (Some (), b))
                  (\<lambda>_ b.
                    let bs = (buf b)[offset child := initial_length_byte];
                        (bs, v) = store_be bs (offset child + 1) (len_len - 1) (of_nat v);
                        b = b\<lparr>buf := bs\<rparr>
                    in if v \<noteq> 0 then (None, b\<lparr>error := True\<rparr>) else (Some (), b)))
         else
           (let (bs, v) = store_be (buf b) (offset child) (pending_len_len child) (of_nat len);
                b = b\<lparr>buf := bs\<rparr>
            in if v \<noteq> 0 then (None, b\<lparr>error := True\<rparr>) else (Some (), b))))"

text \<open>
  \<open>CBB_flush\<close> on an object whose chain of descendants is the given list. It returns the buffer and the
  descendants that are left.
\<close>

fun cbb_flush_chain ::
  "(nat \<Rightarrow> bool) \<Rightarrow> cbb_buffer \<Rightarrow> cbb_child list \<Rightarrow> (unit, cbb_buffer \<times> cbb_child list) outcome" where
  "cbb_flush_chain alloc b cs =
     (if error b then (None, b, cs)
      else case cs of
        [] \<Rightarrow> (Some (), b, [])
      | child # rest \<Rightarrow>
          if pending_len_len child = 0 then (Some (), b, cs)
          else
            (case cbb_flush_chain alloc b rest of
               (None, b, rest) \<Rightarrow> (None, b\<lparr>error := True\<rparr>, child # rest)
             | (Some _, b, rest) \<Rightarrow>
                 (case cbb_write_prefix alloc b child of
                    (None, b) \<Rightarrow> (None, b\<lparr>error := True\<rparr>, child # rest)
                  | (Some _, b) \<Rightarrow> (Some (), b, []))))"

declare cbb_flush_chain.simps [simp del]

definition CBB_flush :: "(nat \<Rightarrow> bool) \<Rightarrow> nat \<Rightarrow> CBB \<Rightarrow> (unit, CBB) outcome" where
  "CBB_flush alloc d cbb =
     (case base cbb of
        None \<Rightarrow> (None, cbb)
      | Some b \<Rightarrow>
          if d > length (children cbb) then (None, cbb)
          else (case cbb_flush_chain alloc b (drop d (children cbb)) of
                  (r, b, cs) \<Rightarrow>
                    (r, cbb\<lparr>base := Some b, children := take d (children cbb) @ cs\<rparr>)))"

subsection \<open>Adding\<close>

text \<open>
  What the functions below share: they flush, and then add to the buffer of the object. \<open>on_base\<close> is
  the second half, for an operation on \<open>cbb->base\<close>.
\<close>

definition on_base ::
  "CBB \<Rightarrow> (cbb_buffer \<Rightarrow> ('a, cbb_buffer) outcome) \<Rightarrow> ('a, CBB) outcome" where
  "on_base cbb f =
     (case base cbb of
        None \<Rightarrow> (None, cbb)
      | Some b \<Rightarrow> (case f b of (r, b) \<Rightarrow> (r, cbb\<lparr>base := Some b\<rparr>)))"

definition CBB_finish :: "(nat \<Rightarrow> bool) \<Rightarrow> nat \<Rightarrow> CBB \<Rightarrow> bool \<Rightarrow> (bytes, CBB) outcome" where
  "CBB_finish alloc d cbb out =
     (if d \<noteq> 0 then (None, cbb)
      else andthen (CBB_flush alloc d cbb) (\<lambda>_ cbb.
        case base cbb of
          None \<Rightarrow> (None, cbb)
        | Some b \<Rightarrow>
            if can_resize b \<and> \<not> out then (None, cbb)
            else (Some (buf b), CBB_cleanup cbb)))"

text \<open>
  \<open>CBB_data\<close> and \<open>CBB_len\<close> assert that the object has no child; \<open>None\<close> is a failed assertion or an
  object without a buffer.
\<close>

definition cbb_start :: "nat \<Rightarrow> CBB \<Rightarrow> nat" where
  "cbb_start d cbb =
     (if d = 0 then 0
      else offset (children cbb ! (d - 1)) + pending_len_len (children cbb ! (d - 1)))"

definition CBB_data :: "nat \<Rightarrow> CBB \<Rightarrow> bytes option" where
  "CBB_data d cbb =
     (case base cbb of
        None \<Rightarrow> None
      | Some b \<Rightarrow> if length (children cbb) \<noteq> d then None else Some (drop (cbb_start d cbb) (buf b)))"

definition CBB_len :: "nat \<Rightarrow> CBB \<Rightarrow> nat option" where
  "CBB_len d cbb =
     (case base cbb of
        None \<Rightarrow> None
      | Some b \<Rightarrow>
          if length (children cbb) \<noteq> d \<or> cbb_start d cbb > length (buf b) then None
          else Some (length (buf b) - cbb_start d cbb))"

definition cbb_add_child :: "nat \<Rightarrow> nat \<Rightarrow> nat \<Rightarrow> bool \<Rightarrow> CBB \<Rightarrow> CBB" where
  "cbb_add_child d off len_len is_asn1 cbb =
     cbb\<lparr>children := take d (children cbb) @
       [\<lparr>offset = off, pending_len_len = len_len, pending_is_asn1 = is_asn1\<rparr>]\<rparr>"

text \<open>The child that these functions open has depth \<open>Suc d\<close>.\<close>

definition cbb_add_length_prefixed :: "(nat \<Rightarrow> bool) \<Rightarrow> nat \<Rightarrow> CBB \<Rightarrow> nat \<Rightarrow> (unit, CBB) outcome" where
  "cbb_add_length_prefixed alloc d cbb len_len =
     andthen (CBB_flush alloc d cbb) (\<lambda>_ cbb.
     andthen (on_base cbb (\<lambda>b. cbb_buffer_add alloc b len_len)) (\<lambda>out cbb.
     andthen (on_base cbb (\<lambda>b. (Some (), b\<lparr>buf := memcpy (buf b) out (replicate len_len 0)\<rparr>))) (\<lambda>_ cbb.
       (Some (), cbb_add_child d out len_len False cbb))))"

definition CBB_add_u8_length_prefixed :: "(nat \<Rightarrow> bool) \<Rightarrow> nat \<Rightarrow> CBB \<Rightarrow> (unit, CBB) outcome" where
  "CBB_add_u8_length_prefixed alloc d cbb = cbb_add_length_prefixed alloc d cbb 1"

definition CBB_add_u16_length_prefixed :: "(nat \<Rightarrow> bool) \<Rightarrow> nat \<Rightarrow> CBB \<Rightarrow> (unit, CBB) outcome" where
  "CBB_add_u16_length_prefixed alloc d cbb = cbb_add_length_prefixed alloc d cbb 2"

definition CBB_add_u24_length_prefixed :: "(nat \<Rightarrow> bool) \<Rightarrow> nat \<Rightarrow> CBB \<Rightarrow> (unit, CBB) outcome" where
  "CBB_add_u24_length_prefixed alloc d cbb = cbb_add_length_prefixed alloc d cbb 3"

definition CBB_add_bytes :: "(nat \<Rightarrow> bool) \<Rightarrow> nat \<Rightarrow> bytes \<Rightarrow> CBB \<Rightarrow> (unit, CBB) outcome" where
  "CBB_add_bytes alloc d data cbb =
     andthen (CBB_flush alloc d cbb) (\<lambda>_ cbb.
     andthen (on_base cbb (\<lambda>b. cbb_buffer_add alloc b (length data))) (\<lambda>dest cbb.
       on_base cbb (\<lambda>b. (Some (), b\<lparr>buf := memcpy (buf b) dest data\<rparr>))))"

definition CBB_add_space :: "(nat \<Rightarrow> bool) \<Rightarrow> nat \<Rightarrow> nat \<Rightarrow> CBB \<Rightarrow> (nat, CBB) outcome" where
  "CBB_add_space alloc d len cbb =
     andthen (CBB_flush alloc d cbb) (\<lambda>_ cbb. on_base cbb (\<lambda>b. cbb_buffer_add alloc b len))"

definition CBB_reserve :: "(nat \<Rightarrow> bool) \<Rightarrow> nat \<Rightarrow> nat \<Rightarrow> CBB \<Rightarrow> (nat, CBB) outcome" where
  "CBB_reserve alloc d len cbb =
     andthen (CBB_flush alloc d cbb) (\<lambda>_ cbb. on_base cbb (\<lambda>b. cbb_buffer_reserve alloc b len))"

text \<open>
  The caller of \<open>CBB_did_write\<close> has written bytes behind the end of the buffer, which become part of
  it: \<open>data\<close> are those bytes. The outer \<open>None\<close> is the NULL dereference on a flushed object.
\<close>

definition CBB_did_write :: "nat \<Rightarrow> bytes \<Rightarrow> CBB \<Rightarrow> (unit, CBB) outcome option" where
  "CBB_did_write d data cbb =
     (case base cbb of
        None \<Rightarrow> None
      | Some b \<Rightarrow>
          if d > length (children cbb) then None
          else
            let newlen = size_add (length (buf b)) (length data)
            in if length (children cbb) \<noteq> d \<or> newlen < length (buf b) \<or> newlen > cap b
               then Some (None, cbb)
               else Some (Some (), cbb\<lparr>base := Some (b\<lparr>buf := buf b @ data\<rparr>)\<rparr>))"

definition cbb_add_u :: "(nat \<Rightarrow> bool) \<Rightarrow> nat \<Rightarrow> u64 \<Rightarrow> nat \<Rightarrow> CBB \<Rightarrow> (unit, CBB) outcome" where
  "cbb_add_u alloc d value n cbb =
     andthen (CBB_flush alloc d cbb) (\<lambda>_ cbb. on_base cbb (\<lambda>b. cbb_buffer_add_u alloc b value n))"

definition CBB_add_u8 :: "(nat \<Rightarrow> bool) \<Rightarrow> nat \<Rightarrow> u8 \<Rightarrow> CBB \<Rightarrow> (unit, CBB) outcome" where
  "CBB_add_u8 alloc d value cbb = cbb_add_u alloc d (ucast value) 1 cbb"

definition CBB_add_u16 :: "(nat \<Rightarrow> bool) \<Rightarrow> nat \<Rightarrow> u16 \<Rightarrow> CBB \<Rightarrow> (unit, CBB) outcome" where
  "CBB_add_u16 alloc d value cbb = cbb_add_u alloc d (ucast value) 2 cbb"

definition CBB_add_u16le :: "(nat \<Rightarrow> bool) \<Rightarrow> nat \<Rightarrow> u16 \<Rightarrow> CBB \<Rightarrow> (unit, CBB) outcome" where
  "CBB_add_u16le alloc d value cbb = CBB_add_u16 alloc d (CRYPTO_bswap2 value) cbb"

definition CBB_add_u24 :: "(nat \<Rightarrow> bool) \<Rightarrow> nat \<Rightarrow> u32 \<Rightarrow> CBB \<Rightarrow> (unit, CBB) outcome" where
  "CBB_add_u24 alloc d value cbb = cbb_add_u alloc d (ucast value) 3 cbb"

definition CBB_add_u32 :: "(nat \<Rightarrow> bool) \<Rightarrow> nat \<Rightarrow> u32 \<Rightarrow> CBB \<Rightarrow> (unit, CBB) outcome" where
  "CBB_add_u32 alloc d value cbb = cbb_add_u alloc d (ucast value) 4 cbb"

definition CBB_add_u32le :: "(nat \<Rightarrow> bool) \<Rightarrow> nat \<Rightarrow> u32 \<Rightarrow> CBB \<Rightarrow> (unit, CBB) outcome" where
  "CBB_add_u32le alloc d value cbb = CBB_add_u32 alloc d (CRYPTO_bswap4 value) cbb"

definition CBB_add_u64 :: "(nat \<Rightarrow> bool) \<Rightarrow> nat \<Rightarrow> u64 \<Rightarrow> CBB \<Rightarrow> (unit, CBB) outcome" where
  "CBB_add_u64 alloc d value cbb = cbb_add_u alloc d value 8 cbb"

definition CBB_add_u64le :: "(nat \<Rightarrow> bool) \<Rightarrow> nat \<Rightarrow> u64 \<Rightarrow> CBB \<Rightarrow> (unit, CBB) outcome" where
  "CBB_add_u64le alloc d value cbb = CBB_add_u64 alloc d (CRYPTO_bswap8 value) cbb"

definition CBB_discard_child :: "nat \<Rightarrow> CBB \<Rightarrow> CBB" where
  "CBB_discard_child d cbb =
     (if length (children cbb) \<le> d then cbb
      else cbb\<lparr>base := map_option (\<lambda>b. b\<lparr>buf := take (offset (children cbb ! d)) (buf b)\<rparr>) (base cbb),
               children := take d (children cbb)\<rparr>)"

section \<open>The buffer\<close>

definition buffer_ok :: "cbb_buffer \<Rightarrow> bool" where
  "buffer_ok b \<longleftrightarrow> \<not> error b \<and> length (buf b) \<le> cap b \<and> cap b < 2 ^ 64"

text \<open>What an operation may do to a buffer besides appending: a fixed one keeps its capacity.\<close>

definition grows :: "cbb_buffer \<Rightarrow> cbb_buffer \<Rightarrow> bool" where
  "grows b b' \<longleftrightarrow> can_resize b' = can_resize b \<and> cap b \<le> cap b' \<and> (can_resize b \<or> cap b' = cap b)"

text \<open>The buffer is large enough for \<open>n\<close> bytes, or can be made so.\<close>

definition fits :: "(nat \<Rightarrow> bool) \<Rightarrow> cbb_buffer \<Rightarrow> nat \<Rightarrow> bool" where
  "fits alloc b n \<longleftrightarrow> n < 2 ^ 64 \<and> (n \<le> cap b \<or> can_resize b \<and> (\<forall>k. alloc k))"

lemma grows_refl [simp]: "grows b b"
  by (simp add: grows_def)

lemma grows_trans: "grows b b' \<Longrightarrow> grows b' b'' \<Longrightarrow> grows b b''"
  by (auto simp: grows_def)

lemma grows_buf [simp]: "grows b (b'\<lparr>buf := x\<rparr>) = grows b b'"
  by (simp add: grows_def)

lemma fits_grows: "grows b b' \<Longrightarrow> fits alloc b n \<Longrightarrow> fits alloc b' n"
  by (auto simp: grows_def fits_def)

lemma fits_le: "fits alloc b n \<Longrightarrow> m \<le> n \<Longrightarrow> fits alloc b m"
  by (auto simp: fits_def)

lemma size_add_no_wrap:
  assumes "a < 2 ^ 64" "n < 2 ^ 64"
  shows "size_add a n < a \<longleftrightarrow> 2 ^ 64 \<le> a + n" "a + n < 2 ^ 64 \<Longrightarrow> size_add a n = a + n"
proof -
  show "a + n < 2 ^ 64 \<Longrightarrow> size_add a n = a + n" by (simp add: size_add_def)
  show "size_add a n < a \<longleftrightarrow> 2 ^ 64 \<le> a + n"
  proof (cases "a + n < 2 ^ 64")
    case False
    then have "size_add a n = a + n - 2 ^ 64"
      using assms by (simp add: size_add_def le_mod_geq)
    then show ?thesis using False assms by linarith
  qed (simp add: size_add_def)
qed

lemma OPENSSL_realloc_larger:
  "length old \<le> n \<Longrightarrow> OPENSSL_realloc alloc old n = Some new \<Longrightarrow> new = old"
  by (auto simp: OPENSSL_realloc_def Let_def split: option.splits if_splits)

lemma OPENSSL_realloc_Some: "\<forall>k. alloc k \<Longrightarrow> \<exists>new. OPENSSL_realloc alloc old n = Some new"
  by (simp add: OPENSSL_realloc_def OPENSSL_malloc_def Let_def)

lemma reserve_sound:
  assumes b: "buffer_ok b" and n: "n < 2 ^ 64" and r: "cbb_buffer_reserve alloc b n = (Some out, b')"
  shows "out = length (buf b) \<and> buf b' = buf b \<and> buffer_ok b' \<and> grows b b' \<and> length (buf b) + n \<le> cap b'"
proof -
  have l: "length (buf b) < 2 ^ 64" using b by (simp add: buffer_ok_def)
  from r have a: "size_add (length (buf b)) n = length (buf b) + n" "length (buf b) + n < 2 ^ 64"
    using size_add_no_wrap [OF l n] by (auto simp: cbb_buffer_reserve_def Let_def split: if_splits)
  show ?thesis
  proof (cases "cap b < length (buf b) + n")
    case True
    define newcap where "newcap =
      (if cap b * 2 mod 2 ^ 64 < cap b \<or> cap b * 2 mod 2 ^ 64 < length (buf b) + n
       then length (buf b) + n else cap b * 2 mod 2 ^ 64)"
    have c: "length (buf b) + n \<le> newcap" "newcap < 2 ^ 64"
      using a by (auto simp: newcap_def not_less)
    obtain new where new: "can_resize b" "OPENSSL_realloc alloc (buf b) newcap = Some new"
      "out = length new" "b' = b\<lparr>buf := new, cap := newcap\<rparr>"
      using r True unfolding cbb_buffer_reserve_def a(1) Let_def newcap_def [symmetric]
      by (auto split: option.splits if_splits)
    then have "new = buf b" using OPENSSL_realloc_larger [of "buf b" newcap alloc new] c(1) by simp
    with new c True b show ?thesis by (simp add: buffer_ok_def grows_def)
  next
    case False
    with r a b show ?thesis by (auto simp: cbb_buffer_reserve_def buffer_ok_def)
  qed
qed

lemma reserve_complete:
  assumes b: "buffer_ok b" and f: "fits alloc b (length (buf b) + n)"
  shows "\<exists>b'. cbb_buffer_reserve alloc b n = (Some (length (buf b)), b')"
proof -
  have l: "length (buf b) < 2 ^ 64" using b by (simp add: buffer_ok_def)
  have n: "length (buf b) + n < 2 ^ 64" using f by (simp add: fits_def)
  then have a: "size_add (length (buf b)) n = length (buf b) + n" by (simp add: size_add_def)
  show ?thesis
  proof (cases "cap b < length (buf b) + n")
    case False
    then show ?thesis by (simp add: cbb_buffer_reserve_def a Let_def)
  next
    case True
    define newcap where "newcap =
      (if cap b * 2 mod 2 ^ 64 < cap b \<or> cap b * 2 mod 2 ^ 64 < length (buf b) + n
       then length (buf b) + n else cap b * 2 mod 2 ^ 64)"
    have r: "can_resize b" "\<forall>k. alloc k" using f True by (auto simp: fits_def)
    then obtain new where "OPENSSL_realloc alloc (buf b) newcap = Some new"
      using OPENSSL_realloc_Some by blast
    moreover from this have "new = buf b"
      by (rule OPENSSL_realloc_larger [rotated]) (auto simp: newcap_def not_less)
    ultimately show ?thesis
      using True r unfolding cbb_buffer_reserve_def a Let_def newcap_def [symmetric] by simp
  qed
qed

lemma reserve_fails: "cbb_buffer_reserve alloc b n = (None, b') \<Longrightarrow> b' = b\<lparr>error := True\<rparr>"
  by (auto simp: cbb_buffer_reserve_def Let_def split: option.splits if_splits)

lemma add_sound:
  assumes "buffer_ok b" "n < 2 ^ 64" "cbb_buffer_add alloc b n = (Some out, b')"
  shows "out = length (buf b) \<and> buf b' = buf b @ replicate n 0 \<and> buffer_ok b' \<and> grows b b'"
proof -
  from assms(3) obtain b1 where r: "cbb_buffer_reserve alloc b n = (Some out, b1)"
    "b' = b1\<lparr>buf := buf b1 @ replicate n 0\<rparr>"
    by (auto simp: cbb_buffer_add_def andthen_eq_Some)
  from reserve_sound [OF assms(1,2) r(1)] r(2) show ?thesis by (auto simp: buffer_ok_def grows_def)
qed

lemma add_complete:
  assumes "buffer_ok b" "fits alloc b (length (buf b) + n)"
  shows "\<exists>b'. cbb_buffer_add alloc b n = (Some (length (buf b)), b')"
  using reserve_complete [OF assms] by (auto simp: cbb_buffer_add_def)

lemma add_fails: "cbb_buffer_add alloc b n = (None, b') \<Longrightarrow> b' = b\<lparr>error := True\<rparr>"
  by (auto simp: cbb_buffer_add_def dest: reserve_fails split: andthen_splits)

lemma store_be_eq:
  "off + n \<le> length bs \<Longrightarrow>
   store_be bs off n v = (take off bs @ be_bytes n (unat v) @ drop (off + n) bs, drop_bit (8 * n) v)"
proof (induction bs off n v rule: store_be.induct)
  case (2 bs off i v)
  then have "store_be bs off (Suc i) v =
      (take off bs @ be_bytes i (unat v div 256) @ drop (off + i) (bs[off + i := ucast v]),
       drop_bit (8 * i) (drop_bit 8 v))"
    by (simp add: unat_drop_bit_8)
  moreover have "drop (off + i) (bs[off + i := ucast v]) = of_nat (unat v) # drop (off + Suc i) bs"
    using 2(2) by (subst Cons_nth_drop_Suc [symmetric]) simp_all
  ultimately show ?case by (simp add: add.commute)
qed simp

lemma add_u_sound:
  assumes b: "buffer_ok b" and n: "n \<le> 8" and r: "cbb_buffer_add_u alloc b v n = (Some u, b')" and "n \<noteq> 0"
  shows "unat v < 256 ^ n \<and> buf b' = buf b @ be_bytes n (unat v) \<and> buffer_ok b' \<and> grows b b'"
proof -
  from r \<open>n \<noteq> 0\<close> obtain out b1 where a: "cbb_buffer_add alloc b n = (Some out, b1)"
    by (auto simp: cbb_buffer_add_u_def andthen_eq_Some)
  have b1: "out = length (buf b)" "buf b1 = buf b @ replicate n 0" "buffer_ok b1" "grows b b1"
    using add_sound [OF b _ a] n by simp_all
  have s: "store_be (buf b1) out n v = (buf b @ be_bytes n (unat v), drop_bit (8 * n) v)"
    by (simp add: store_be_eq b1)
  from r \<open>n \<noteq> 0\<close> have "drop_bit (8 * n) v = 0" "b' = b1\<lparr>buf := buf b @ be_bytes n (unat v)\<rparr>"
    by (auto simp: cbb_buffer_add_u_def a s Let_def split: if_splits)
  then show ?thesis using b1 by (simp add: drop_bit_eq_0_u64 power_mult buffer_ok_def)
qed

lemma add_u_complete:
  assumes b: "buffer_ok b" and "fits alloc b (length (buf b) + n)" "unat v < 256 ^ n"
  shows "\<exists>b'. cbb_buffer_add_u alloc b v n = (Some (), b')"
proof (cases "n = 0")
  case False
  obtain b1 where a: "cbb_buffer_add alloc b n = (Some (length (buf b)), b1)"
    using add_complete [OF b assms(2)] by blast
  have "n < 2 ^ 64" using assms(2) by (simp add: fits_def)
  then have "buf b1 = buf b @ replicate n 0" using add_sound [OF b _ a] by simp
  moreover have "drop_bit (8 * n) v = 0" using assms(3) by (simp add: drop_bit_eq_0_u64 power_mult)
  ultimately show ?thesis using False by (simp add: cbb_buffer_add_u_def a store_be_eq)
qed (simp add: cbb_buffer_add_u_def)

lemma add_u_fails: "cbb_buffer_add_u alloc b v n = (None, b') \<Longrightarrow> error b'"
  by (auto simp: cbb_buffer_add_u_def Let_def dest: add_fails split: andthen_splits if_splits prod.splits)

section \<open>What a builder promises\<close>

text \<open>
  A builder with pending children is a stack of contents. \<open>Fixed n\<close> is a child whose length prefix has
  \<open>n\<close> bytes, \<open>Der\<close> one whose prefix is a DER length. Closing a child puts the length in front of it.
\<close>

datatype prefix_kind = Fixed nat | Der

fun prefix_len :: "prefix_kind \<Rightarrow> nat" where
  "prefix_len (Fixed n) = n"
| "prefix_len Der = 1"

fun length_prefix :: "prefix_kind \<Rightarrow> nat \<Rightarrow> bytes" where
  "length_prefix (Fixed n) len = be_bytes n len"
| "length_prefix Der len = der_length len"

fun closable :: "prefix_kind \<Rightarrow> nat \<Rightarrow> bool" where
  "closable (Fixed n) len \<longleftrightarrow> len < 256 ^ n"
| "closable Der len \<longleftrightarrow> len \<le> 0xfffffffe"

fun kind_ok :: "prefix_kind \<Rightarrow> bool" where
  "kind_ok (Fixed n) \<longleftrightarrow> 1 \<le> n \<and> n \<le> 8"
| "kind_ok Der \<longleftrightarrow> True"

type_synonym stack = "(prefix_kind \<times> bytes) list"

text \<open>The contents \<open>c\<close> of an object after its children \<open>ks\<close> have been closed, innermost first.\<close>

fun collapse :: "bytes \<Rightarrow> stack \<Rightarrow> bytes" where
  "collapse c [] = c"
| "collapse c ((k, c') # ks) = c @ length_prefix k (length (collapse c' ks)) @ collapse c' ks"

fun all_closable :: "stack \<Rightarrow> bool" where
  "all_closable [] \<longleftrightarrow> True"
| "all_closable ((k, c) # ks) \<longleftrightarrow> closable k (length (collapse c ks)) \<and> all_closable ks"

text \<open>How the stack lies in the buffer, and the child objects that point into it.\<close>

fun layout :: "bytes \<Rightarrow> stack \<Rightarrow> bytes" where
  "layout c [] = c"
| "layout c ((k, c') # ks) = c @ replicate (prefix_len k) 0 @ layout c' ks"

fun frames :: "nat \<Rightarrow> bytes \<Rightarrow> stack \<Rightarrow> cbb_child list" where
  "frames off c [] = []"
| "frames off c ((k, c') # ks) =
     \<lparr>offset = off + length c, pending_len_len = prefix_len k, pending_is_asn1 = (k = Der)\<rparr> #
     frames (off + length c + prefix_len k) c' ks"

lemma length_frames [simp]: "length (frames off c ks) = length ks"
  by (induction off c ks rule: frames.induct) simp_all

lemma prefix_len_pos: "kind_ok k \<Longrightarrow> 0 < prefix_len k"
  by (cases k) auto

lemma prefix_len_le: "prefix_len k \<le> length (length_prefix k n)"
  by (cases k) (auto simp: length_der_length)

lemma length_layout_le: "length (layout c ks) \<le> length (collapse c ks)"
proof (induction c ks rule: collapse.induct)
  case (2 c k c' ks)
  then show ?case using prefix_len_le [of k "length (collapse c' ks)"] by simp
qed simp

text \<open>The length octets that the code computes are those of DER.\<close>

lemma asn1_length_Some:
  assumes "n \<le> 0xfffffffe"
  obtains k b v where "asn1_length n = Some (k, b, v)" "der_length n = b # be_bytes (k - 1) v"
    "1 \<le> k" "v < 256 ^ (k - 1)" "k \<noteq> 1 \<Longrightarrow> v = n" "k \<le> 5"
proof -
  have o: "(0x80 OR 4 :: u8) = 132" "(0x80 OR 3 :: u8) = 131" "(0x80 OR 2 :: u8) = 130"
    "(0x80 OR 1 :: u8) = 129" by (simp_all flip: word_unat_eq_iff)
  consider "n > 0xffffff" | "n > 0xffff" "n \<le> 0xffffff" | "n > 0xff" "n \<le> 0xffff"
    | "n > 0x7f" "n \<le> 0xff" | "n \<le> 0x7f" by linarith
  then show thesis
    using assms
    by cases (auto intro!: that simp: asn1_length_def der_length_def der_length_octets_def o)
qed

lemma asn1_length_None: "asn1_length n = None \<longleftrightarrow> \<not> n \<le> 0xfffffffe"
  by (auto simp: asn1_length_def)

section \<open>A flush keeps the promise\<close>

text \<open>The child \<open>f\<close> starts behind \<open>p\<close>, its prefix is still zero and its contents are \<open>c\<close>.\<close>

definition pending :: "cbb_buffer \<Rightarrow> cbb_child \<Rightarrow> bytes \<Rightarrow> prefix_kind \<Rightarrow> bytes \<Rightarrow> bool" where
  "pending b f p k c \<longleftrightarrow>
     buf b = p @ replicate (prefix_len k) 0 @ c \<and>
     f = \<lparr>offset = length p, pending_len_len = prefix_len k, pending_is_asn1 = (k = Der)\<rparr>"

lemma pending_start:
  assumes "buffer_ok b" "pending b f p k c"
  shows "size_add (offset f) (pending_len_len f) = length p + prefix_len k"
  using assms by (auto simp: pending_def buffer_ok_def size_add_def)

lemma write_prefix_fixed:
  assumes b: "buffer_ok b" and f: "pending b f p (Fixed n) c"
  shows "cbb_write_prefix alloc b f =
    (if length c < 256 ^ n then (Some (), b\<lparr>buf := p @ be_bytes n (length c) @ c\<rparr>)
     else (None, b\<lparr>buf := p @ be_bytes n (length c) @ c, error := True\<rparr>))"
proof -
  have u: "unat (of_nat (length c) :: u64) = length c"
    using b f by (auto simp: unat_of_nat pending_def buffer_ok_def)
  have "store_be (buf b) (length p) n (of_nat (length c)) =
      (p @ be_bytes n (length c) @ c, drop_bit (8 * n) (of_nat (length c)))"
    using f by (simp add: store_be_eq pending_def u)
  moreover have "drop_bit (8 * n) (of_nat (length c) :: u64) \<noteq> 0 \<longleftrightarrow> \<not> length c < 256 ^ n"
    by (simp add: drop_bit_eq_0_u64 u power_mult)
  ultimately show ?thesis
    using f pending_start [OF b f] by (auto simp: cbb_write_prefix_def pending_def Let_def)
qed

lemma write_prefix_too_long:
  assumes "buffer_ok b" "pending b f p Der c" "\<not> length c \<le> 0xfffffffe"
  shows "cbb_write_prefix alloc b f = (None, b\<lparr>error := True\<rparr>)"
  using assms pending_start [OF assms(1,2)]
  by (auto simp: cbb_write_prefix_def pending_def Let_def asn1_length_None [THEN iffD2])

text \<open>The rest of the function once the contents have been moved along.\<close>

lemma write_prefix_der:
  assumes b: "buffer_ok b" and f: "pending b f p Der c" and c: "length c \<le> 0xfffffffe"
  defines "x \<equiv> length (der_length (length c)) - 1"
  shows "cbb_write_prefix alloc b f =
    (if x = 0 then (Some (), b\<lparr>buf := p @ der_length (length c) @ c\<rparr>)
     else andthen (cbb_buffer_add alloc b x) (\<lambda>_ b'.
       (Some (), b'\<lparr>buf := memcpy (memmove (buf b') (length p + 1 + x) (length p + 1) (length c))
          (length p) (der_length (length c))\<rparr>)))"
proof -
  obtain k h v where l: "asn1_length (length c) = Some (k, h, v)"
    "der_length (length c) = h # be_bytes (k - 1) v" "1 \<le> k" "v < 256 ^ (k - 1)"
    "k \<noteq> 1 \<Longrightarrow> v = length c" "k \<le> 5"
    using asn1_length_Some [OF c] by blast
  have x: "x = k - 1" by (simp add: x_def l)
  have "(256 :: nat) ^ (k - 1) \<le> 256 ^ 4" using l(6) by (intro power_increasing) simp_all
  then have v: "unat (of_nat v :: u64) = v" using l(4) by (simp add: unat_of_nat)
  have d: "drop_bit (8 * (k - 1)) (of_nat v :: u64) = 0"
    using l(4) by (simp add: drop_bit_eq_0_u64 v power_mult)
  have s: "store_be (bs[length p := h]) (Suc (length p)) (k - 1) (of_nat v) =
      (memcpy bs (length p) (der_length (length c)), 0)" if "length p + k \<le> length bs" for bs
    using that l(3) d
    by (simp add: store_be_eq v memcpy_def l(2) take_Suc_conv_app_nth take_update_swap
        list_update_append)
  show ?thesis
  proof (cases "k = 1")
    case True
    then have "buf b = p @ 0 # c" "der_length (length c) = [h]" "length p + k \<le> length (buf b)"
      using f l(2) by (simp_all add: pending_def)
    with True f pending_start [OF b f] s [of "buf b"] l(1) x show ?thesis
      by (simp add: cbb_write_prefix_def pending_def memcpy_def)
  next
    case False
    then have vc: "v = length c" by (rule l(5))
    have w: "cbb_write_prefix alloc b f = andthen (cbb_buffer_add alloc b x) (\<lambda>_ b'.
       (let b' = b'\<lparr>buf := memmove (buf b') (length p + 1 + x) (length p + 1) (length c)\<rparr>;
            (bs, v) = store_be ((buf b')[length p := h]) (Suc (length p)) (k - 1) (of_nat v);
            b' = b'\<lparr>buf := bs\<rparr>
        in if v \<noteq> 0 then (None, b'\<lparr>error := True\<rparr>) else (Some (), b')))"
      using False f l(1) pending_start [OF b f]
      by (simp add: cbb_write_prefix_def pending_def andthen_assoc x vc)
    show ?thesis
    proof (cases "cbb_buffer_add alloc b x")
      case (Pair r b')
      show ?thesis
      proof (cases r)
        case None
        with Pair w False x l(3) show ?thesis by simp
      next
        case (Some out)
        with Pair add_sound [OF b, of x alloc out b'] l(6) x f
        have "buf b' = p @ 0 # c @ replicate x 0" by (simp add: pending_def)
        then have "length p + k \<le> length (memmove (buf b') (length p + 1 + x) (length p + 1) (length c))"
          using l(3) by (simp add: memmove_def x)
        from s [OF this] show ?thesis
          using Pair Some w False x l(3) by simp
      qed
    qed
  qed
qed

lemma moved_along:
  assumes "bs = p @ 0 # c @ replicate x 0" "length h = x + 1"
  shows "memcpy (memmove bs (length p + 1 + x) (length p + 1) (length c)) (length p) h = p @ h @ c"
  using assms by (simp add: memcpy_def memmove_def)

lemma write_prefix_sound:
  assumes b: "buffer_ok b" and f: "pending b f p k c" and r: "cbb_write_prefix alloc b f = (Some u, b')"
  shows "closable k (length c) \<and> buf b' = p @ length_prefix k (length c) @ c \<and> buffer_ok b' \<and> grows b b'"
proof (cases k)
  case (Fixed n)
  with r write_prefix_fixed [OF b f [unfolded Fixed], of alloc] have
    "length c < 256 ^ n" "b' = b\<lparr>buf := p @ be_bytes n (length c) @ c\<rparr>" by (auto split: if_splits)
  then show ?thesis using b f by (simp add: Fixed pending_def buffer_ok_def)
next
  case Der
  note f = f [unfolded Der]
  have c: "length c \<le> 0xfffffffe"
  proof (rule ccontr)
    assume "\<not> ?thesis"
    from write_prefix_too_long [OF b f this, of alloc] r show False by simp
  qed
  define x where "x = length (der_length (length c)) - 1"
  have h: "length (der_length (length c)) = x + 1" and x: "x < 2 ^ 64"
    by (auto simp: x_def length_der_length der_length_octets_def)
  note r = r [unfolded write_prefix_der [OF b f c] x_def [symmetric]]
  show ?thesis
  proof (cases "x = 0")
    case True
    with r f h b c show ?thesis by (auto simp: Der pending_def buffer_ok_def)
  next
    case False
    with r obtain out b1 where a: "cbb_buffer_add alloc b x = (Some out, b1)"
      "b' = b1\<lparr>buf := memcpy (memmove (buf b1) (length p + 1 + x) (length p + 1) (length c))
                (length p) (der_length (length c))\<rparr>"
      by (auto simp: andthen_eq_Some)
    from add_sound [OF b x a(1)] f have b1: "buf b1 = p @ 0 # c @ replicate x 0" "buffer_ok b1" "grows b b1"
      by (simp_all add: pending_def)
    then have "length (p @ der_length (length c) @ c) \<le> cap b1" using h by (simp add: buffer_ok_def)
    with b1 a(2) c moved_along [OF b1(1) h] show ?thesis by (simp add: Der buffer_ok_def)
  qed
qed

lemma write_prefix_complete:
  assumes b: "buffer_ok b" and f: "pending b f p k c"
    and c: "closable k (length c)" and l: "fits alloc b (length (p @ length_prefix k (length c) @ c))"
  shows "\<exists>b'. cbb_write_prefix alloc b f = (Some (), b')"
proof (cases k)
  case (Fixed n)
  then show ?thesis using write_prefix_fixed [OF b f [unfolded Fixed]] c by simp
next
  case Der
  note f = f [unfolded Der]
  define x where "x = length (der_length (length c)) - 1"
  have h: "length (der_length (length c)) = x + 1" by (simp add: x_def length_der_length)
  with l f have "fits alloc b (length (buf b) + x)" by (simp add: Der pending_def add_ac)
  then obtain b1 where "cbb_buffer_add alloc b x = (Some (length (buf b)), b1)"
    using add_complete [OF b] by blast
  with c h show ?thesis by (simp add: Der write_prefix_der [OF b f])
qed

lemma write_prefix_fails: "cbb_write_prefix alloc b f = (None, b') \<Longrightarrow> error b'"
  by (auto simp: cbb_write_prefix_def Let_def dest: add_fails
      split: if_splits option.splits prod.splits andthen_splits)

text \<open>
  The chain of children: a flush turns the layout of the stack into its collapsed contents, or fails
  and marks the buffer. It succeeds when every length fits its prefix and the buffer the result.
\<close>

lemma flush_chain_sound:
  "cbb_flush_chain alloc b (frames (length p) c ks) = (Some (), b', cs) \<Longrightarrow>
   buffer_ok b \<Longrightarrow> buf b = p @ layout c ks \<Longrightarrow> list_all (\<lambda>(k, _). kind_ok k) ks \<Longrightarrow>
   cs = [] \<and> all_closable ks \<and> buf b' = p @ collapse c ks \<and> buffer_ok b' \<and> grows b b'"
proof (induction c ks arbitrary: p b' cs rule: collapse.induct)
  case (1 c)
  then show ?case by (auto simp: cbb_flush_chain.simps buffer_ok_def)
next
  case (2 c k c' ks)
  let ?q = "p @ c @ replicate (prefix_len k) 0"
  let ?f = "\<lparr>offset = length (p @ c), pending_len_len = prefix_len k, pending_is_asn1 = (k = Der)\<rparr>"
  let ?d = "collapse c' ks"
  have k: "kind_ok k" "prefix_len k \<noteq> 0" using "2.prems"(4) prefix_len_pos [of k] by auto
  have q: "length ?q = length p + length c + prefix_len k" by simp
  have fr: "frames (length p) c ((k, c') # ks) = ?f # frames (length ?q) c' ks"
    by (simp add: add.assoc)
  have ne: "\<not> error b" using "2.prems"(2) by (simp add: buffer_ok_def)
  from "2.prems"(1) k ne obtain b1 cs1 where f1:
    "cbb_flush_chain alloc b (frames (length ?q) c' ks) = (Some (), b1, cs1)"
    and w: "cbb_write_prefix alloc b1 ?f = (Some (), b')" and cs: "cs = []"
    unfolding fr by (subst (asm) cbb_flush_chain.simps)
      (auto split: prod.splits option.splits)
  have b1: "all_closable ks" "buf b1 = ?q @ ?d" "buffer_ok b1" "grows b b1"
    using "2.IH"(1) [OF f1 "2.prems"(2)] "2.prems"(3,4) by simp_all
  have "pending b1 ?f (p @ c) k ?d" by (simp add: pending_def b1)
  from write_prefix_sound [OF b1(3) this w] b1 cs grows_trans [OF b1(4)]
  show ?case by simp
qed

lemma flush_chain_complete:
  "buffer_ok b \<Longrightarrow> buf b = p @ layout c ks \<Longrightarrow> list_all (\<lambda>(k, _). kind_ok k) ks \<Longrightarrow>
   all_closable ks \<Longrightarrow> fits alloc b (length (p @ collapse c ks)) \<Longrightarrow>
   \<exists>b'. cbb_flush_chain alloc b (frames (length p) c ks) = (Some (), b', [])"
proof (induction c ks arbitrary: p rule: collapse.induct)
  case (1 c)
  then show ?case by (auto simp: cbb_flush_chain.simps buffer_ok_def)
next
  case (2 c k c' ks)
  let ?q = "p @ c @ replicate (prefix_len k) 0"
  let ?f = "\<lparr>offset = length (p @ c), pending_len_len = prefix_len k, pending_is_asn1 = (k = Der)\<rparr>"
  let ?d = "collapse c' ks"
  have k: "kind_ok k" "prefix_len k \<noteq> 0" using "2.prems"(3) prefix_len_pos [of k] by auto
  have fr: "frames (length p) c ((k, c') # ks) = ?f # frames (length ?q) c' ks"
    by (simp add: add.assoc)
  have ne: "\<not> error b" using "2.prems"(1) by (simp add: buffer_ok_def)
  have "length (?q @ ?d) \<le> length (p @ collapse c ((k, c') # ks))"
    using prefix_len_le [of k "length ?d"] by simp
  from "2.IH"(1) [OF "2.prems"(1) _ _ _ fits_le [OF "2.prems"(5) this]] "2.prems"(2-4)
  obtain b1 where f1: "cbb_flush_chain alloc b (frames (length ?q) c' ks) = (Some (), b1, [])"
    by auto
  have b1: "buf b1 = ?q @ ?d" "buffer_ok b1" "grows b b1"
    using flush_chain_sound [OF f1 "2.prems"(1)] "2.prems"(2,3) by simp_all
  have "pending b1 ?f (p @ c) k ?d" by (simp add: pending_def b1)
  then obtain b' where "cbb_write_prefix alloc b1 ?f = (Some (), b')"
    using write_prefix_complete [OF b1(2), of ?f "p @ c" k ?d alloc] "2.prems"(4) fits_grows [OF b1(3) "2.prems"(5)]
    by auto
  with f1 k ne show ?case unfolding fr by (subst cbb_flush_chain.simps) simp
qed

lemma flush_chain_fails:
  "cbb_flush_chain alloc b cs = (None, b', cs') \<Longrightarrow> error b'"
proof (induction alloc b cs arbitrary: b' cs' rule: cbb_flush_chain.induct)
  case (1 alloc b cs)
  from "1.prems" show ?case
    by (subst (asm) cbb_flush_chain.simps)
      (auto split: if_splits list.splits prod.splits option.splits dest!: "1.IH")
qed

section \<open>Operations on a builder\<close>

text \<open>The builder \<open>cbb\<close> stands for a top-level object with contents \<open>c\<close> and pending children \<open>ks\<close>.\<close>

definition models :: "CBB \<Rightarrow> bytes \<times> stack \<Rightarrow> bool" where
  "models cbb = (\<lambda>(c, ks).
     \<exists>b. base cbb = Some b \<and> buffer_ok b \<and> buf b = layout c ks \<and> children cbb = frames 0 c ks \<and>
       list_all (\<lambda>(k, _). kind_ok k) ks)"

text \<open>
  The specification of every operation that adds: at depth \<open>d\<close> the children are closed, then \<open>bs\<close> is
  appended and the children \<open>new\<close> are opened.
\<close>

fun write_at :: "nat \<Rightarrow> bytes \<Rightarrow> stack \<Rightarrow> bytes \<times> stack \<Rightarrow> bytes \<times> stack" where
  "write_at 0 bs new (c, ks) = (collapse c ks @ bs, new)"
| "write_at (Suc d) bs new (c, (k, c') # ks) =
     (case write_at d bs new (c', ks) of (c'', ks') \<Rightarrow> (c, (k, c'') # ks'))"
| "write_at (Suc d) bs new (c, []) = (c, [])"

fun stack_at :: "nat \<Rightarrow> bytes \<times> stack \<Rightarrow> bytes \<times> stack" where
  "stack_at 0 s = s"
| "stack_at (Suc d) (c, (k, c') # ks) = stack_at d (c', ks)"
| "stack_at (Suc d) (c, []) = (c, [])"

fun before :: "nat \<Rightarrow> bytes \<times> stack \<Rightarrow> bytes" where
  "before 0 s = []"
| "before (Suc d) (c, (k, c') # ks) = c @ replicate (prefix_len k) 0 @ before d (c', ks)"
| "before (Suc d) (c, []) = []"

abbreviation kinds_ok :: "stack \<Rightarrow> bool" where
  "kinds_ok ks \<equiv> list_all (\<lambda>(k, _). kind_ok k) ks"

lemma layout_stack_at:
  "d \<le> length ks \<Longrightarrow>
   layout c ks = before d (c, ks) @ (case stack_at d (c, ks) of (x, y) \<Rightarrow> layout x y) \<and>
   drop d (frames off c ks) =
     (case stack_at d (c, ks) of (x, y) \<Rightarrow> frames (off + length (before d (c, ks))) x y) \<and>
   (kinds_ok ks \<longrightarrow> kinds_ok (snd (stack_at d (c, ks))))"
proof (induction d arbitrary: off c ks)
  case (Suc d)
  then obtain k c' ks' where ks: "ks = (k, c') # ks'" by (cases ks) auto
  from Suc.prems ks have "d \<le> length ks'" by simp
  from Suc.IH [OF this, where c = c' and off = "off + length c + prefix_len k"] show ?case
    by (auto simp: ks add_ac split: prod.splits)
qed simp

lemma layout_write_at:
  "d \<le> length ks \<Longrightarrow> stack_at d (c, ks) = (x, y) \<Longrightarrow> write_at d bs new (c, ks) = (c', ks') \<Longrightarrow>
   layout c' ks' = before d (c, ks) @ layout (collapse x y @ bs) new \<and>
   frames off c' ks' = take d (frames off c ks) @
     frames (off + length (before d (c, ks))) (collapse x y @ bs) new \<and>
   (kinds_ok ks \<longrightarrow> kinds_ok new \<longrightarrow> kinds_ok ks') \<and>
   stack_at d (c', ks') = (collapse x y @ bs, new) \<and> length ks' = d + length new"
proof (induction d arbitrary: off c ks c' ks')
  case (Suc d)
  then obtain k c1 ks1 where ks: "ks = (k, c1) # ks1" by (cases ks) auto
  obtain c2 ks2 where w: "write_at d bs new (c1, ks1) = (c2, ks2)" by fastforce
  from Suc.prems ks have "d \<le> length ks1" "stack_at d (c1, ks1) = (x, y)" by auto
  from Suc.IH [OF this w, where off = "off + length c + prefix_len k"] Suc.prems show ?case
    by (auto simp: ks w add_ac)
qed auto

lemma write_at_write_at:
  "d \<le> length ks \<Longrightarrow>
   write_at d bs' new (write_at d bs [] (c, ks)) = write_at d (bs @ bs') new (c, ks)"
proof (induction d arbitrary: c ks)
  case (Suc d)
  then obtain k c' ks' where ks: "ks = (k, c') # ks'" by (cases ks) auto
  with Suc.prems Suc.IH [of ks' c'] show ?case by (auto split: prod.splits)
qed simp

text \<open>Contents written into a child that was just opened, and closed.\<close>

lemma write_at_child:
  "d \<le> length ks \<Longrightarrow>
   write_at d bs'' new (write_at (Suc d) bs' [] (write_at d bs [(k, [])] (c, ks))) =
   write_at d (bs @ length_prefix k (length bs') @ bs' @ bs'') new (c, ks)"
proof (induction d arbitrary: c ks)
  case (Suc d)
  then obtain k' c' ks' where ks: "ks = (k', c') # ks'" by (cases ks) auto
  with Suc.prems Suc.IH [of ks' c'] show ?case by (auto split: prod.splits)
qed simp

definition fits_cbb :: "(nat \<Rightarrow> bool) \<Rightarrow> CBB \<Rightarrow> nat \<Rightarrow> bool" where
  "fits_cbb alloc cbb n \<longleftrightarrow> (case base cbb of None \<Rightarrow> False | Some b \<Rightarrow> fits alloc b n)"

definition grows_cbb :: "CBB \<Rightarrow> CBB \<Rightarrow> bool" where
  "grows_cbb cbb cbb' \<longleftrightarrow>
     (case (base cbb, base cbb') of (Some b, Some b') \<Rightarrow> grows b b' | _ \<Rightarrow> False)"

lemma fits_cbb_grows: "grows_cbb cbb cbb' \<Longrightarrow> fits_cbb alloc cbb n \<Longrightarrow> fits_cbb alloc cbb' n"
  by (auto simp: grows_cbb_def fits_cbb_def fits_grows split: option.splits)

lemma fits_cbb_le: "fits_cbb alloc cbb n \<Longrightarrow> m \<le> n \<Longrightarrow> fits_cbb alloc cbb m"
  by (auto simp: fits_cbb_def fits_le split: option.splits)

lemma grows_cbb_trans: "grows_cbb a b \<Longrightarrow> grows_cbb b c \<Longrightarrow> grows_cbb a c"
  by (auto simp: grows_cbb_def dest: grows_trans split: option.splits)

text \<open>
  \<open>op\<close> implements writing \<open>bs\<close> at depth \<open>d\<close> and opening \<open>new\<close>: when it succeeds it has done so,
  and \<open>ok\<close> holds of the value and every child that had to be closed has a length that its prefix can
  express; and it succeeds whenever that is so and the buffer has room for the result.
\<close>

definition implements ::
  "(nat \<Rightarrow> bool) \<Rightarrow> nat \<Rightarrow> (CBB \<Rightarrow> (unit, CBB) outcome) \<Rightarrow> bool \<Rightarrow> bytes \<Rightarrow> stack \<Rightarrow> bool" where
  "implements alloc d op ok bs new \<longleftrightarrow>
     (\<forall>cbb c ks. models cbb (c, ks) \<longrightarrow> d \<le> length ks \<longrightarrow>
        (\<forall>cbb'. op cbb = (Some (), cbb') \<longrightarrow>
           ok \<and> all_closable (snd (stack_at d (c, ks))) \<and>
           models cbb' (write_at d bs new (c, ks)) \<and> grows_cbb cbb cbb') \<and>
        (ok \<longrightarrow> all_closable (snd (stack_at d (c, ks))) \<longrightarrow>
         fits_cbb alloc cbb (length (case write_at d bs new (c, ks) of (c, ks) \<Rightarrow> layout c ks)) \<longrightarrow>
           (\<exists>cbb'. op cbb = (Some (), cbb'))))"

lemma implementsI:
  assumes "\<And>cbb c ks cbb'. models cbb (c, ks) \<Longrightarrow> d \<le> length ks \<Longrightarrow> op cbb = (Some (), cbb') \<Longrightarrow>
      ok \<and> all_closable (snd (stack_at d (c, ks))) \<and>
      models cbb' (write_at d bs new (c, ks)) \<and> grows_cbb cbb cbb'"
    and "\<And>cbb c ks. models cbb (c, ks) \<Longrightarrow> d \<le> length ks \<Longrightarrow> ok \<Longrightarrow>
      all_closable (snd (stack_at d (c, ks))) \<Longrightarrow>
      fits_cbb alloc cbb (length (case write_at d bs new (c, ks) of (c, ks) \<Rightarrow> layout c ks)) \<Longrightarrow>
      \<exists>cbb'. op cbb = (Some (), cbb')"
  shows "implements alloc d op ok bs new"
  using assms unfolding implements_def by blast

lemma implements_sound:
  assumes "implements alloc d op ok bs new" "models cbb (c, ks)" "d \<le> length ks" "op cbb = (Some (), cbb')"
  shows "ok" "all_closable (snd (stack_at d (c, ks)))" "models cbb' (write_at d bs new (c, ks))"
    "grows_cbb cbb cbb'"
  using assms unfolding implements_def by blast+

lemma implements_complete:
  assumes "implements alloc d op ok bs new" "models cbb (c, ks)" "d \<le> length ks" "ok"
    "all_closable (snd (stack_at d (c, ks)))"
    "fits_cbb alloc cbb (length (case write_at d bs new (c, ks) of (c, ks) \<Rightarrow> layout c ks))"
  obtains cbb' where "op cbb = (Some (), cbb')"
  using assms unfolding implements_def by blast

text \<open>The common shape of the functions that add: a flush, and an addition to the buffer.\<close>

definition appends :: "(nat \<Rightarrow> bool) \<Rightarrow> (cbb_buffer \<Rightarrow> ('a, cbb_buffer) outcome) \<Rightarrow> bool \<Rightarrow> bytes \<Rightarrow> bool" where
  "appends alloc f ok bs \<longleftrightarrow>
     (\<forall>b. buffer_ok b \<longrightarrow>
        (\<forall>x b'. f b = (Some x, b') \<longrightarrow> ok \<and> buf b' = buf b @ bs \<and> buffer_ok b' \<and> grows b b') \<and>
        (ok \<longrightarrow> fits alloc b (length (buf b) + length bs) \<longrightarrow> (\<exists>x b'. f b = (Some x, b'))))"

lemma CBB_flush_sound:
  assumes m: "models cbb (c, ks)" and d: "d \<le> length ks" and r: "CBB_flush alloc d cbb = (Some (), cbb')"
  shows "all_closable (snd (stack_at d (c, ks))) \<and> models cbb' (write_at d [] [] (c, ks)) \<and>
    grows_cbb cbb cbb'"
proof -
  from m obtain b where b: "base cbb = Some b" "buffer_ok b" "buf b = layout c ks"
    "children cbb = frames 0 c ks" "kinds_ok ks" by (auto simp: models_def)
  obtain x y where a: "stack_at d (c, ks) = (x, y)" by fastforce
  obtain c' ks' where w: "write_at d [] [] (c, ks) = (c', ks')" by fastforce
  let ?p = "before d (c, ks)"
  have l: "buf b = ?p @ layout x y" "drop d (frames 0 c ks) = frames (length ?p) x y" "kinds_ok y"
    using layout_stack_at [OF d, of c 0] b a by auto
  from r d b l obtain b' cs where f: "cbb_flush_chain alloc b (frames (length ?p) x y) = (Some (), b', cs)"
    "cbb' = cbb\<lparr>base := Some b', children := take d (frames 0 c ks) @ cs\<rparr>"
    by (auto simp: CBB_flush_def split: prod.splits)
  from flush_chain_sound [OF f(1) b(2) l(1,3)] f(2) layout_write_at [OF d a w, of 0] b a w
  show ?thesis by (auto simp: models_def grows_cbb_def)
qed

lemma CBB_flush_complete:
  assumes m: "models cbb (c, ks)" and d: "d \<le> length ks"
    and k: "all_closable (snd (stack_at d (c, ks)))"
    and f: "fits_cbb alloc cbb (length (case write_at d [] [] (c, ks) of (c, ks) \<Rightarrow> layout c ks))"
  shows "\<exists>cbb'. CBB_flush alloc d cbb = (Some (), cbb')"
proof -
  from m obtain b where b: "base cbb = Some b" "buffer_ok b" "buf b = layout c ks"
    "children cbb = frames 0 c ks" "kinds_ok ks" by (auto simp: models_def)
  obtain x y where a: "stack_at d (c, ks) = (x, y)" by fastforce
  obtain c' ks' where w: "write_at d [] [] (c, ks) = (c', ks')" by fastforce
  let ?p = "before d (c, ks)"
  have l: "buf b = ?p @ layout x y" "drop d (frames 0 c ks) = frames (length ?p) x y" "kinds_ok y"
    using layout_stack_at [OF d, of c 0] b a by auto
  have "fits alloc b (length (?p @ collapse x y))"
    using f b w layout_write_at [OF d a w, of 0] by (auto simp: fits_cbb_def)
  from flush_chain_complete [OF b(2) l(1,3) _ this] k a d b l(2) show ?thesis
    by (auto simp: CBB_flush_def)
qed

lemma implements_flush: "implements alloc d (CBB_flush alloc d) True [] []"
  by (rule implementsI) (simp_all add: CBB_flush_sound CBB_flush_complete)

lemma flush_then_complete:
  assumes "models cbb (c, ks)" "d \<le> length ks" "all_closable (snd (stack_at d (c, ks)))"
    "fits_cbb alloc cbb (length (case write_at d bs new (c, ks) of (c, ks) \<Rightarrow> layout c ks))"
  obtains cbb' where "CBB_flush alloc d cbb = (Some (), cbb')"
    "models cbb' (write_at d [] [] (c, ks))" "grows_cbb cbb cbb'"
proof -
  obtain x y where a: "stack_at d (c, ks) = (x, y)" by fastforce
  obtain c' ks' where w: "write_at d [] [] (c, ks) = (c', ks')" by fastforce
  obtain c'' ks'' where w': "write_at d bs new (c, ks) = (c'', ks'')" by fastforce
  have "length (collapse x y) \<le> length (layout (collapse x y @ bs) new)"
    by (cases new) auto
  then have "length (layout c' ks') \<le> length (layout c'' ks'')"
    using layout_write_at [OF assms(2) a w, of 0] layout_write_at [OF assms(2) a w', of 0] by simp
  with assms(4) w w' have
    "fits_cbb alloc cbb (length (case write_at d [] [] (c, ks) of (c, ks) \<Rightarrow> layout c ks))"
    by (auto elim: fits_cbb_le)
  with CBB_flush_complete [OF assms(1-3)] CBB_flush_sound [OF assms(1,2)] that show thesis by blast
qed

lemma on_base_on_base:
  "andthen (on_base cbb f) (\<lambda>x cbb. on_base cbb (g x)) = on_base cbb (\<lambda>b. andthen (f b) g)"
proof (cases "base cbb")
  case (Some b)
  then show ?thesis by (cases "f b"; cases "fst (f b)") (auto simp: on_base_def split: prod.splits)
qed (simp add: on_base_def)

lemma flushed_layout:
  assumes "length ks = d"
  obtains x where "stack_at d (c, ks) = (x, [])" "layout c ks = before d (c, ks) @ x"
proof -
  obtain x y where a: "stack_at d (c, ks) = (x, y)" by fastforce
  from layout_stack_at [of d ks c 0] assms a have "length (frames (0 + length (before d (c, ks))) x y) = 0"
    by (metis case_prod_conv drop_all length_frames list.size(3) order_refl)
  then have "y = []" by simp
  with a layout_stack_at [of d ks c 0] assms that show thesis by simp
qed

lemma on_base_append:
  assumes m: "models cbb (c, ks)" and d: "length ks = d" and f: "appends alloc f ok bs"
  shows "on_base cbb f = (Some v, cbb') \<Longrightarrow>
      ok \<and> models cbb' (write_at d bs [] (c, ks)) \<and> grows_cbb cbb cbb' \<and>
      (\<exists>b b'. base cbb = Some b \<and> base cbb' = Some b' \<and> f b = (Some v, b'))"
    and "ok \<Longrightarrow> fits_cbb alloc cbb (length (layout c ks) + length bs) \<Longrightarrow> \<exists>v cbb'. on_base cbb f = (Some v, cbb')"
proof -
  from m obtain b where b: "base cbb = Some b" "buffer_ok b" "buf b = layout c ks"
    "children cbb = frames 0 c ks" "kinds_ok ks" by (auto simp: models_def)
  obtain x where a: "stack_at d (c, ks) = (x, [])" "layout c ks = before d (c, ks) @ x"
    by (rule flushed_layout [OF d])
  obtain c' ks' where w: "write_at d bs [] (c, ks) = (c', ks')" by fastforce
  from d a layout_write_at [OF _ a(1) w, of 0] b(5)
  have l: "layout c' ks' = layout c ks @ bs" "frames 0 c' ks' = frames 0 c ks" "kinds_ok ks'" by simp_all
  show "ok \<and> models cbb' (write_at d bs [] (c, ks)) \<and> grows_cbb cbb cbb' \<and>
      (\<exists>b b'. base cbb = Some b \<and> base cbb' = Some b' \<and> f b = (Some v, b'))"
    if r: "on_base cbb f = (Some v, cbb')"
  proof -
    from r b(1) obtain b' where b': "f b = (Some v, b')" "cbb' = cbb\<lparr>base := Some b'\<rparr>"
      by (auto simp: on_base_def split: prod.splits)
    have "ok \<and> buf b' = buf b @ bs \<and> buffer_ok b' \<and> grows b b'"
      using f b(2) b'(1) unfolding appends_def by blast
    with b(3) l(1) have b1: "ok" "buf b' = layout c' ks'" "buffer_ok b'" "grows b b'" by simp_all
    have c1: "base cbb' = Some b'" "children cbb' = frames 0 c' ks'"
      by (simp_all add: b'(2) b(4) l(2))
    with b1 l(3) have "models cbb' (c', ks')" by (simp add: models_def)
    moreover have "grows_cbb cbb cbb'" by (simp add: grows_cbb_def b(1) c1(1) b1(4))
    ultimately show ?thesis using b1(1) b(1) c1(1) b'(1) w by simp
  qed
  show "\<exists>v cbb'. on_base cbb f = (Some v, cbb')"
    if "ok" "fits_cbb alloc cbb (length (layout c ks) + length bs)"
  proof -
    from that(2) b have "fits alloc b (length (buf b) + length bs)" by (simp add: fits_cbb_def)
    with f b(2) that(1) obtain v b' where "f b = (Some v, b')" unfolding appends_def by blast
    with b(1) show ?thesis by (simp add: on_base_def)
  qed
qed

lemma length_layout_write_at:
  assumes "d \<le> length ks"
  shows "length (case write_at d bs new (c, ks) of (c, ks) \<Rightarrow> layout c ks) =
    length (case write_at d [] [] (c, ks) of (c, ks) \<Rightarrow> layout c ks) + length (layout bs new)"
proof -
  obtain x y where a: "stack_at d (c, ks) = (x, y)" by fastforce
  obtain c1 ks1 where w1: "write_at d bs new (c, ks) = (c1, ks1)" by fastforce
  obtain c2 ks2 where w2: "write_at d [] [] (c, ks) = (c2, ks2)" by fastforce
  have "length (layout (collapse x y @ bs) new) = length (collapse x y) + length (layout bs new)"
    by (cases new) auto
  moreover have "layout c1 ks1 = before d (c, ks) @ layout (collapse x y @ bs) new"
    "layout c2 ks2 = before d (c, ks) @ collapse x y"
    using layout_write_at [OF assms a w1, of 0] layout_write_at [OF assms a w2, of 0] by simp_all
  ultimately show ?thesis unfolding w1 w2 by simp
qed

lemma write_at_flushed:
  assumes "d \<le> length ks" "write_at d bs [] (c, ks) = (c', ks')"
  shows "length ks' = d" "snd (stack_at d (c', ks')) = []"
  using layout_write_at [OF assms(1) _ assms(2), of "fst (stack_at d (c, ks))" "snd (stack_at d (c, ks))" 0]
  by simp_all

text \<open>Two writes one after the other.\<close>

lemma implements_andthen:
  assumes 1: "implements alloc d f ok bs []" and 2: "implements alloc d g ok' bs' new"
  shows "implements alloc d (\<lambda>cbb. andthen (f cbb) (\<lambda>_. g)) (ok \<and> ok') (bs @ bs') new"
proof (rule implementsI)
  fix cbb c ks cbb' assume m: "models cbb (c, ks)" and d: "d \<le> length ks"
    and r: "andthen (f cbb) (\<lambda>_. g) = (Some (), cbb')"
  from r obtain cbb1 where r1: "f cbb = (Some (), cbb1)" and r2: "g cbb1 = (Some (), cbb')"
    by (auto simp: andthen_eq_Some)
  obtain c1 ks1 where w: "write_at d bs [] (c, ks) = (c1, ks1)" by fastforce
  note s1 = implements_sound [OF 1 m d r1, unfolded w]
  note s2 = implements_sound [OF 2 s1(3) _ r2]
  have "d \<le> length ks1" using write_at_flushed [OF d w] by simp
  from s1 s2 [OF this] write_at_write_at [OF d, of bs' new bs c] w grows_cbb_trans [OF s1(4)]
  show "(ok \<and> ok') \<and> all_closable (snd (stack_at d (c, ks))) \<and>
      models cbb' (write_at d (bs @ bs') new (c, ks)) \<and> grows_cbb cbb cbb'" by simp
next
  fix cbb c ks assume m: "models cbb (c, ks)" and d: "d \<le> length ks" and ok: "ok \<and> ok'"
    and k: "all_closable (snd (stack_at d (c, ks)))"
    and f: "fits_cbb alloc cbb (length (case write_at d (bs @ bs') new (c, ks) of (c, ks) \<Rightarrow> layout c ks))"
  obtain c1 ks1 where w: "write_at d bs [] (c, ks) = (c1, ks1)" by fastforce
  have "length (layout (bs @ bs') new) = length bs + length (layout bs' new)"
    by (cases new) auto
  then have "length (layout bs []) \<le> length (layout (bs @ bs') new)" by simp
  with f have f1: "fits_cbb alloc cbb (length (case write_at d bs [] (c, ks) of (c, ks) \<Rightarrow> layout c ks))"
    by (simp add: length_layout_write_at [OF d, of bs "[]"] length_layout_write_at [OF d, of "bs @ bs'"])
      (erule fits_cbb_le, simp)
  obtain cbb1 where r1: "f cbb = (Some (), cbb1)"
    using implements_complete [OF 1 m d _ k f1] ok by blast
  note s1 = implements_sound [OF 1 m d r1, unfolded w]
  have d1: "d \<le> length ks1" and k1: "all_closable (snd (stack_at d (c1, ks1)))"
    using write_at_flushed [OF d w] by simp_all
  have "fits_cbb alloc cbb1 (length (case write_at d bs' new (c1, ks1) of (c, ks) \<Rightarrow> layout c ks))"
    using fits_cbb_grows [OF s1(4) f] write_at_write_at [OF d, of bs' new bs c] w by simp
  from implements_complete [OF 2 s1(3) d1 _ k1 this] ok r1
  show "\<exists>cbb'. andthen (f cbb) (\<lambda>_. g) = (Some (), cbb')" by (metis andthen_simps(2))
qed

text \<open>A flush followed by an addition to the buffer.\<close>

lemma implements_append:
  assumes f: "appends alloc f ok bs"
  shows "implements alloc d (\<lambda>cbb. andthen (CBB_flush alloc d cbb) (\<lambda>_ cbb. on_base cbb f)) ok bs []"
proof (rule implementsI)
  fix cbb c ks cbb' assume m: "models cbb (c, ks)" and d: "d \<le> length ks"
    and r: "andthen (CBB_flush alloc d cbb) (\<lambda>_ cbb. on_base cbb f) = (Some (), cbb')"
  from r obtain cbb1 where r1: "CBB_flush alloc d cbb = (Some (), cbb1)" "on_base cbb1 f = (Some (), cbb')"
    by (auto simp: andthen_eq_Some)
  obtain c1 ks1 where w: "write_at d [] [] (c, ks) = (c1, ks1)" by fastforce
  have s1: "all_closable (snd (stack_at d (c, ks)))" "models cbb1 (c1, ks1)" "grows_cbb cbb cbb1"
    using CBB_flush_sound [OF m d r1(1)] w by simp_all
  have "write_at d bs [] (c1, ks1) = write_at d bs [] (c, ks)"
    using write_at_write_at [OF d, of bs "[]" "[]" c] w by simp
  with on_base_append(1) [OF s1(2) write_at_flushed(1) [OF d w] f r1(2)] s1 grows_cbb_trans [OF s1(3)]
  show "ok \<and> all_closable (snd (stack_at d (c, ks))) \<and>
      models cbb' (write_at d bs [] (c, ks)) \<and> grows_cbb cbb cbb'" by auto
next
  fix cbb c ks assume m: "models cbb (c, ks)" and d: "d \<le> length ks" and ok: "ok"
    and k: "all_closable (snd (stack_at d (c, ks)))"
    and l: "fits_cbb alloc cbb (length (case write_at d bs [] (c, ks) of (c, ks) \<Rightarrow> layout c ks))"
  obtain c1 ks1 where w: "write_at d [] [] (c, ks) = (c1, ks1)" by fastforce
  obtain cbb1 where r1: "CBB_flush alloc d cbb = (Some (), cbb1)" "models cbb1 (c1, ks1)" "grows_cbb cbb cbb1"
    using flush_then_complete [OF m d k l] w by metis
  have "fits_cbb alloc cbb1 (length (layout c1 ks1) + length bs)"
    using fits_cbb_grows [OF r1(3) l] by (simp add: length_layout_write_at [OF d, of bs "[]"] w)
  from on_base_append(2) [OF r1(2) write_at_flushed(1) [OF d w] f ok this] r1(1)
  show "\<exists>cbb'. andthen (CBB_flush alloc d cbb) (\<lambda>_ cbb. on_base cbb f) = (Some (), cbb')" by simp
qed

text \<open>Opening a child behind a prefix that was just written as zeros.\<close>

lemma models_add_child:
  assumes "length ks = d" "kind_ok k" "off = length (layout c ks)"
    "models cbb (write_at d (replicate (prefix_len k) 0) [] (c, ks))"
  shows "models (cbb_add_child d off (prefix_len k) (k = Der) cbb) (write_at d [] [(k, [])] (c, ks))"
proof -
  let ?z = "replicate (prefix_len k) 0"
  obtain x where a: "stack_at d (c, ks) = (x, [])" "layout c ks = before d (c, ks) @ x"
    by (rule flushed_layout [OF assms(1)])
  obtain c1 ks1 where w1: "write_at d ?z [] (c, ks) = (c1, ks1)" by fastforce
  obtain c2 ks2 where w2: "write_at d [] [(k, [])] (c, ks) = (c2, ks2)" by fastforce
  have d: "d \<le> length ks" using assms(1) by simp
  note l1 = layout_write_at [OF d a(1) w1, of 0] and l2 = layout_write_at [OF d a(1) w2, of 0]
  from assms(4) w1 obtain b where b: "base cbb = Some b" "buffer_ok b" "buf b = layout c1 ks1"
    "children cbb = frames 0 c1 ks1" "kinds_ok ks1" by (auto simp: models_def)
  have "length ks1 = d" using l1 by simp
  have k1: "kinds_ok ks"
  proof -
    have "kinds_ok ks1 \<Longrightarrow> d \<le> length ks \<Longrightarrow> kinds_ok ks" using w1 assms(1)
      by (induction d arbitrary: c ks c1 ks1)
        (auto simp: neq_Nil_conv length_Suc_conv split: prod.splits)
    with b(5) d show ?thesis by simp
  qed
  have "frames 0 c2 ks2 = take d (frames 0 c1 ks1) @
      [\<lparr>offset = off, pending_len_len = prefix_len k, pending_is_asn1 = (k = Der)\<rparr>]"
    using l1 l2 assms(1,3) a(2) by simp
  moreover have "layout c2 ks2 = layout c1 ks1" using l1 l2 by simp
  moreover have "kinds_ok ks2" using l2 k1 assms(2) by simp
  ultimately show ?thesis using b unfolding w2 by (simp add: models_def cbb_add_child_def)
qed

text \<open>Contents written into a child that was just opened, and closed again.\<close>

lemma stack_at_Suc:
  "Suc d \<le> length ks \<Longrightarrow> stack_at (Suc d) (c, ks) = stack_at 1 (stack_at d (c, ks))"
proof (induction d arbitrary: c ks)
  case (Suc d)
  then obtain k c' ks' where ks: "ks = (k, c') # ks'" by (cases ks) auto
  with Suc.prems Suc.IH [of ks' c'] show ?case by (simp del: stack_at.simps add: stack_at.simps(2))
qed simp

lemma write_at_Suc:
  "Suc d \<le> length ks \<Longrightarrow>
   stack_at d (write_at (Suc d) bs [] (c, ks)) = write_at 1 bs [] (stack_at d (c, ks))"
proof (induction d arbitrary: c ks)
  case (Suc d)
  then obtain k c' ks' where ks: "ks = (k, c') # ks'" by (cases ks) auto
  obtain c2 ks2 where w: "write_at (Suc d) bs [] (c', ks') = (c2, ks2)" by fastforce
  have "write_at (Suc (Suc d)) bs [] (c, ks) = (c, (k, c2) # ks2)"
    by (simp only: ks write_at.simps(2) w prod.case)
  with Suc.IH [of ks' c'] Suc.prems w show ?case
    by (simp only: ks stack_at.simps(2)) (simp del: write_at.simps stack_at.simps)
qed simp

lemma write_at_child_at:
  assumes d: "d \<le> length ks" and w1: "write_at d bs [(k, [])] (c, ks) = (c1, ks1)"
    and w2: "write_at (Suc d) bs' [] (c1, ks1) = (c2, ks2)"
  shows "Suc d \<le> length ks1 \<and> stack_at (Suc d) (c1, ks1) = ([], []) \<and>
    d \<le> length ks2 \<and> snd (stack_at d (c2, ks2)) = [(k, bs')]"
proof -
  obtain x y where a: "stack_at d (c, ks) = (x, y)" by fastforce
  have l1: "stack_at d (c1, ks1) = (collapse x y @ bs, [(k, [])])" "length ks1 = Suc d"
    using layout_write_at [OF d a w1] by simp_all
  note s = stack_at_Suc
  have "length ks2 = Suc d"
    using layout_write_at [OF _ _ w2, of "[]" "[]" 0] l1 s [of d ks1 c1] by simp
  with l1 s [of d ks1 c1] write_at_Suc [of d ks1 bs' c1] w2 show ?thesis by simp
qed

lemma implements_child:
  assumes 1: "implements alloc d f ok bs [(k, [])]" and 2: "implements alloc (Suc d) g ok' bs' []"
  shows "implements alloc d
      (\<lambda>cbb. andthen (f cbb) (\<lambda>_ cbb. andthen (g cbb) (\<lambda>_. CBB_flush alloc d)))
      (ok \<and> ok' \<and> closable k (length bs')) (bs @ length_prefix k (length bs') @ bs') []"
proof (rule implementsI)
  fix cbb c ks cbb3 assume m: "models cbb (c, ks)" and d: "d \<le> length ks"
    and r: "andthen (f cbb) (\<lambda>_ cbb. andthen (g cbb) (\<lambda>_. CBB_flush alloc d)) = (Some (), cbb3)"
  from r obtain cbb1 cbb2 where r1: "f cbb = (Some (), cbb1)" and r2: "g cbb1 = (Some (), cbb2)"
    and r3: "CBB_flush alloc d cbb2 = (Some (), cbb3)" by (auto simp: andthen_eq_Some)
  obtain c1 ks1 where w1: "write_at d bs [(k, [])] (c, ks) = (c1, ks1)" by fastforce
  obtain c2 ks2 where w2: "write_at (Suc d) bs' [] (c1, ks1) = (c2, ks2)" by fastforce
  note at = write_at_child_at [OF d w1 w2]
  note s1 = implements_sound [OF 1 m d r1, unfolded w1]
  note s2 = implements_sound [OF 2 s1(3) conjunct1 [OF at] r2, unfolded w2]
  have s3: "all_closable (snd (stack_at d (c2, ks2)))" "models cbb3 (write_at d [] [] (c2, ks2))"
    "grows_cbb cbb2 cbb3"
    using CBB_flush_sound [OF s2(3) _ r3] at by simp_all
  have "write_at d [] [] (c2, ks2) = write_at d (bs @ length_prefix k (length bs') @ bs') [] (c, ks)"
    using write_at_child [OF d, of "[]" "[]" bs' bs k c] by (simp add: w1 w2)
  with s1 s2(1) s3 at grows_cbb_trans [OF s1(4) grows_cbb_trans [OF s2(4) s3(3)]]
  show "(ok \<and> ok' \<and> closable k (length bs')) \<and> all_closable (snd (stack_at d (c, ks))) \<and>
      models cbb3 (write_at d (bs @ length_prefix k (length bs') @ bs') [] (c, ks)) \<and>
      grows_cbb cbb cbb3" by simp
next
  fix cbb c ks assume m: "models cbb (c, ks)" and d: "d \<le> length ks"
    and ok: "ok \<and> ok' \<and> closable k (length bs')" and k: "all_closable (snd (stack_at d (c, ks)))"
    and l: "fits_cbb alloc cbb (length (case write_at d (bs @ length_prefix k (length bs') @ bs') [] (c, ks)
      of (c, ks) \<Rightarrow> layout c ks))"
  obtain c1 ks1 where w1: "write_at d bs [(k, [])] (c, ks) = (c1, ks1)" by fastforce
  obtain c2 ks2 where w2: "write_at (Suc d) bs' [] (c1, ks1) = (c2, ks2)" by fastforce
  note at = write_at_child_at [OF d w1 w2]
  have w3: "write_at d [] [] (c2, ks2) = write_at d (bs @ length_prefix k (length bs') @ bs') [] (c, ks)"
    using write_at_child [OF d, of "[]" "[]" bs' bs k c] by (simp add: w1 w2)
  have len1: "length (layout bs [(k, [])]) \<le> length (bs @ length_prefix k (length bs') @ bs')"
    using prefix_len_le [of k "length bs'"] by simp
  have l1: "fits_cbb alloc cbb (length (case write_at d bs [(k, [])] (c, ks) of (c, ks) \<Rightarrow> layout c ks))"
    using l len1 unfolding length_layout_write_at [OF d, of _ "[(k, [])]"]
      length_layout_write_at [OF d, of "bs @ length_prefix k (length bs') @ bs'"]
    by (elim fits_cbb_le) simp
  obtain cbb1 where r1: "f cbb = (Some (), cbb1)"
    using implements_complete [OF 1 m d _ k l1] ok by blast
  note s1 = implements_sound [OF 1 m d r1, unfolded w1]
  have lf: "length (case write_at d [] [] (c2, ks2) of (c, ks) \<Rightarrow> layout c ks) \<ge> length (layout c2 ks2)"
  proof -
    obtain x y where a: "stack_at d (c2, ks2) = (x, y)" by fastforce
    obtain c3 ks3 where w: "write_at d [] [] (c2, ks2) = (c3, ks3)" by fastforce
    have "length (layout x y) \<le> length (collapse x y)" by (rule length_layout_le)
    with layout_write_at [OF _ a w, of 0] layout_stack_at [of d ks2 c2 0] at a w show ?thesis by simp
  qed
  have l2: "fits_cbb alloc cbb1 (length (case write_at (Suc d) bs' [] (c1, ks1) of (c, ks) \<Rightarrow> layout c ks))"
    using fits_cbb_le [OF fits_cbb_grows [OF s1(4) l]] lf w3 w2 by simp
  have k1: "all_closable (snd (stack_at (Suc d) (c1, ks1)))" using at by simp
  obtain cbb2 where r2: "g cbb1 = (Some (), cbb2)"
    using implements_complete [OF 2 s1(3) _ _ k1 l2] ok at by blast
  note s2 = implements_sound [OF 2 s1(3) conjunct1 [OF at] r2, unfolded w2]
  have l3: "fits_cbb alloc cbb2 (length (case write_at d [] [] (c2, ks2) of (c, ks) \<Rightarrow> layout c ks))"
    using fits_cbb_grows [OF grows_cbb_trans [OF s1(4) s2(4)] l] w3 by simp
  have k2: "all_closable (snd (stack_at d (c2, ks2)))" using at ok by simp
  obtain cbb3 where "CBB_flush alloc d cbb2 = (Some (), cbb3)"
    using CBB_flush_complete [OF s2(3) _ k2 l3] at by blast
  then show "\<exists>cbb'. andthen (f cbb) (\<lambda>_ cbb. andthen (g cbb) (\<lambda>_. CBB_flush alloc d)) = (Some (), cbb')"
    by (simp add: r1 r2)
qed

lemma appends_space: "n < 2 ^ 64 \<Longrightarrow> appends alloc (\<lambda>b. cbb_buffer_add alloc b n) True (replicate n 0)"
  unfolding appends_def using add_sound add_complete by simp blast

lemma appends_add_u:
  assumes "1 \<le> n" "n \<le> 8"
  shows "appends alloc (\<lambda>b. cbb_buffer_add_u alloc b v n) (unat v < 256 ^ n) (be_bytes n (unat v))"
  unfolding appends_def using add_u_sound [of _ n alloc v] add_u_complete [of _ alloc n v] assms
  by (metis length_be_bytes not_one_le_zero)

lemma appends_bytes:
  assumes "length data < 2 ^ 64"
  shows "appends alloc (\<lambda>b. andthen (cbb_buffer_add alloc b (length data))
    (\<lambda>dest b. (Some (), b\<lparr>buf := memcpy (buf b) dest data\<rparr>))) True data"
  unfolding appends_def
proof (intro allI impI conjI)
  fix b x b' assume b: "buffer_ok b" and r: "andthen (cbb_buffer_add alloc b (length data))
    (\<lambda>dest b. (Some (), b\<lparr>buf := memcpy (buf b) dest data\<rparr>)) = (Some x, b')"
  then obtain dest b1 where a: "cbb_buffer_add alloc b (length data) = (Some dest, b1)"
    "b' = b1\<lparr>buf := memcpy (buf b1) dest data\<rparr>" by (auto simp: andthen_eq_Some)
  from add_sound [OF b assms a(1)] a(2)
  have "buf b' = buf b @ data" "buffer_ok b1" "length (buf b1) = length (buf b @ data)" "grows b b1"
    by (simp_all add: memcpy_def)
  then show "True" "buf b' = buf b @ data" "buffer_ok b'" "grows b b'"
    using a(2) by (simp_all add: buffer_ok_def)
next
  fix b assume "buffer_ok b" "fits alloc b (length (buf b) + length data)"
  from add_complete [OF this] show "\<exists>x b'. andthen (cbb_buffer_add alloc b (length data))
    (\<lambda>dest b. (Some (), b\<lparr>buf := memcpy (buf b) dest data\<rparr>)) = (Some x, b')" by auto
qed

lemma implements_add_u:
  assumes "1 \<le> n" "n \<le> 8"
  shows "implements alloc d (cbb_add_u alloc d v n) (unat v < 256 ^ n) (be_bytes n (unat v)) []"
  unfolding cbb_add_u_def by (rule implements_append [OF appends_add_u [OF assms]])

lemma implements_add_bytes:
  assumes "length data < 2 ^ 64"
  shows "implements alloc d (CBB_add_bytes alloc d data) True data []"
  unfolding CBB_add_bytes_def on_base_on_base by (rule implements_append [OF appends_bytes [OF assms]])

text \<open>Opening a child.\<close>

lemma appends_prefix:
  "n < 2 ^ 64 \<Longrightarrow> appends alloc (\<lambda>b. andthen (cbb_buffer_add alloc b n)
    (\<lambda>out b. andthen (Some (), b\<lparr>buf := memcpy (buf b) out (replicate n 0)\<rparr>) (\<lambda>_ b. (Some out, b))))
    True (replicate n 0)"
  unfolding appends_def andthen_simps
proof (intro allI impI conjI)
  fix b x b' assume n: "n < 2 ^ 64" and b: "buffer_ok b" and r: "andthen (cbb_buffer_add alloc b n)
    (\<lambda>out b. (Some out, b\<lparr>buf := memcpy (buf b) out (replicate n 0)\<rparr>)) = (Some x, b')"
  then obtain b1 where a: "cbb_buffer_add alloc b n = (Some x, b1)"
    "b' = b1\<lparr>buf := memcpy (buf b1) x (replicate n 0)\<rparr>" by (auto simp: andthen_eq_Some)
  from add_sound [OF b n a(1)] a(2)
  have "buf b' = buf b @ replicate n 0" "buffer_ok b1" "length (buf b1) = length (buf b) + n" "grows b b1"
    by (simp_all add: memcpy_def)
  then show "True" "buf b' = buf b @ replicate n 0" "buffer_ok b'" "grows b b'"
    using a(2) by (simp_all add: buffer_ok_def)
next
  fix b assume "buffer_ok b" "fits alloc b (length (buf b) + length (replicate n 0))"
  then show "\<exists>x b'. andthen (cbb_buffer_add alloc b n)
    (\<lambda>out b. (Some out, b\<lparr>buf := memcpy (buf b) out (replicate n 0)\<rparr>)) = (Some x, b')"
    using add_complete [of b alloc n] by auto
qed

lemma on_base_andthen_keep:
  "andthen (on_base cbb f) (\<lambda>x cbb. andthen (on_base cbb (g x)) (\<lambda>_ cbb. h x cbb)) =
   andthen (on_base cbb (\<lambda>b. andthen (f b) (\<lambda>x b. andthen (g x b) (\<lambda>_ b. (Some x, b))))) h"
proof (cases "base cbb")
  case (Some b)
  then show ?thesis
    by (cases "f b"; cases "fst (f b)"; cases "g (the (fst (f b))) (snd (f b))";
        cases "fst (g (the (fst (f b))) (snd (f b)))") (auto simp: on_base_def split: prod.splits)
qed (simp add: on_base_def)

lemma implements_open:
  assumes k: "kind_ok k" and f: "appends alloc f True (replicate (prefix_len k) 0)"
    and out: "\<And>b x b'. buffer_ok b \<Longrightarrow> f b = (Some x, b') \<Longrightarrow> x = length (buf b)"
  shows "implements alloc d
    (\<lambda>cbb. andthen (CBB_flush alloc d cbb) (\<lambda>_ cbb. andthen (on_base cbb f)
       (\<lambda>x cbb. (Some (), cbb_add_child d x (prefix_len k) (k = Der) cbb)))) True [] [(k, [])]"
proof (rule implementsI)
  fix cbb c ks cbb3 assume m: "models cbb (c, ks)" and d: "d \<le> length ks"
    and r: "andthen (CBB_flush alloc d cbb) (\<lambda>_ cbb. andthen (on_base cbb f)
       (\<lambda>x cbb. (Some (), cbb_add_child d x (prefix_len k) (k = Der) cbb))) = (Some (), cbb3)"
  from r obtain cbb1 cbb2 x where r1: "CBB_flush alloc d cbb = (Some (), cbb1)"
    and r2: "on_base cbb1 f = (Some x, cbb2)"
    and r3: "cbb3 = cbb_add_child d x (prefix_len k) (k = Der) cbb2" by (auto simp: andthen_eq_Some)
  obtain c1 ks1 where w: "write_at d [] [] (c, ks) = (c1, ks1)" by fastforce
  have s1: "all_closable (snd (stack_at d (c, ks)))" "models cbb1 (c1, ks1)" "grows_cbb cbb cbb1"
    using CBB_flush_sound [OF m d r1] w by simp_all
  note d1 = write_at_flushed(1) [OF d w]
  note s2 = on_base_append(1) [OF s1(2) d1 f r2]
  from s1(2) s2 have "x = length (layout c1 ks1)" by (auto simp: models_def dest!: out)
  from models_add_child [OF d1 k this] s2
  have "models cbb3 (write_at d [] [(k, [])] (c1, ks1))" by (simp add: r3)
  then have "models cbb3 (write_at d [] [(k, [])] (c, ks))"
    using write_at_write_at [OF d, of "[]" "[(k, [])]" "[]" c] w by simp
  moreover have "grows_cbb cbb2 cbb3"
    using s2 by (auto simp: r3 cbb_add_child_def grows_cbb_def)
  ultimately show "True \<and> all_closable (snd (stack_at d (c, ks))) \<and>
      models cbb3 (write_at d [] [(k, [])] (c, ks)) \<and> grows_cbb cbb cbb3"
    using s1 s2 grows_cbb_trans by blast
next
  fix cbb c ks assume m: "models cbb (c, ks)" and d: "d \<le> length ks"
    and k: "all_closable (snd (stack_at d (c, ks)))"
    and l: "fits_cbb alloc cbb (length (case write_at d [] [(k, [])] (c, ks) of (c, ks) \<Rightarrow> layout c ks))"
  obtain c1 ks1 where w: "write_at d [] [] (c, ks) = (c1, ks1)" by fastforce
  obtain cbb1 where r1: "CBB_flush alloc d cbb = (Some (), cbb1)" "models cbb1 (c1, ks1)" "grows_cbb cbb cbb1"
    using flush_then_complete [OF m d k l] w by metis
  have "fits_cbb alloc cbb1 (length (layout c1 ks1) + length (replicate (prefix_len k) (0 :: u8)))"
    using fits_cbb_grows [OF r1(3) l] by (simp add: length_layout_write_at [OF d, of _ "[(k, [])]"] w)
  from on_base_append(2) [OF r1(2) write_at_flushed(1) [OF d w] f TrueI this] r1(1)
  show "\<exists>cbb'. andthen (CBB_flush alloc d cbb) (\<lambda>_ cbb. andthen (on_base cbb f)
       (\<lambda>x cbb. (Some (), cbb_add_child d x (prefix_len k) (k = Der) cbb))) = (Some (), cbb')"
    by auto
qed

lemma implements_add_length_prefixed:
  assumes "1 \<le> n" "n \<le> 8"
  shows "implements alloc d (\<lambda>cbb. cbb_add_length_prefixed alloc d cbb n) True [] [(Fixed n, [])]"
proof -
  let ?f = "\<lambda>b. andthen (cbb_buffer_add alloc b n)
    (\<lambda>out b. andthen (Some (), b\<lparr>buf := memcpy (buf b) out (replicate n 0)\<rparr>) (\<lambda>_ b. (Some out, b)))"
  have "appends alloc ?f True (replicate n 0)" using assms by (intro appends_prefix) simp
  moreover have "x = length (buf b)" if "buffer_ok b" "?f b = (Some x, b')" for b x b'
    using that add_sound [OF that(1), of n alloc] assms by (auto simp: andthen_eq_Some)
  ultimately show ?thesis
    using implements_open [of "Fixed n" alloc ?f d] assms
    unfolding cbb_add_length_prefixed_def on_base_andthen_keep by simp
qed

section \<open>Serialising and parsing\<close>

fun write_all :: "('v \<Rightarrow> CBB \<Rightarrow> (unit, CBB) outcome) \<Rightarrow> 'v list \<Rightarrow> CBB \<Rightarrow> (unit, CBB) outcome" where
  "write_all op [] cbb = (Some (), cbb)"
| "write_all op (v # vs) cbb = andthen (op v cbb) (\<lambda>_. write_all op vs)"

text \<open>A client that starts a builder, adds values to it and takes the result.\<close>

definition serialize ::
  "((nat \<Rightarrow> bool) \<Rightarrow> nat \<Rightarrow> 'v \<Rightarrow> CBB \<Rightarrow> (unit, CBB) outcome) \<Rightarrow> (nat \<Rightarrow> bool) \<Rightarrow> nat \<Rightarrow> 'v list \<Rightarrow> bytes option" where
  "serialize op alloc n vs =
     fst (andthen (CBB_init alloc n) (\<lambda>_ cbb.
          andthen (write_all (op alloc 0) vs cbb) (\<lambda>_ cbb. CBB_finish alloc 0 cbb True)))"

lemma CBB_init_sound:
  "n < 2 ^ 64 \<Longrightarrow> CBB_init alloc n = (Some (), cbb) \<Longrightarrow> models cbb ([], [])"
  by (auto simp: CBB_init_def cbb_init_def CBB_zero_def models_def buffer_ok_def
      split: if_splits option.splits)

lemma CBB_init_complete:
  assumes "\<forall>k. alloc k"
  obtains cbb where "CBB_init alloc n = (Some (), cbb)" "m < 2 ^ 64 \<Longrightarrow> fits_cbb alloc cbb m"
  using assms
  by (auto simp: CBB_init_def cbb_init_def CBB_zero_def OPENSSL_malloc_def Let_def fits_cbb_def fits_def)

lemma CBB_finish_sound:
  assumes "models cbb (c, ks)" "CBB_finish alloc 0 cbb out = (Some bs, cbb')"
  shows "all_closable ks \<and> bs = collapse c ks \<and> base cbb' = None"
proof -
  from assms(2) obtain cbb1 where f: "CBB_flush alloc 0 cbb = (Some (), cbb1)"
    and r: "(case base cbb1 of None \<Rightarrow> (None, cbb1) | Some b \<Rightarrow>
      if can_resize b \<and> \<not> out then (None, cbb1) else (Some (buf b), CBB_cleanup cbb1)) = (Some bs, cbb')"
    by (auto simp: CBB_finish_def andthen_eq_Some)
  from CBB_flush_sound [OF assms(1) _ f] r show ?thesis
    by (auto simp: models_def CBB_cleanup_def split: option.splits if_splits)
qed

text \<open>
  The contract of a function that adds a value to a builder: it appends the encoding of the value, or
  fails because the value has none (\<open>ok\<close>) or the buffer no room. \<open>repr\<close> is the range of the C type.
\<close>

locale writer =
  fixes op :: "(nat \<Rightarrow> bool) \<Rightarrow> nat \<Rightarrow> 'v \<Rightarrow> CBB \<Rightarrow> (unit, CBB) outcome"
    and enc :: "'v \<Rightarrow> bytes"
    and ok :: "'v \<Rightarrow> bool"
    and repr :: "'v \<Rightarrow> bool"
  assumes op_implements: "repr v \<Longrightarrow> implements alloc d (op alloc d v) (ok v) (enc v) []"
begin

lemma write_all_implements:
  "list_all repr vs \<Longrightarrow>
   implements alloc d (\<lambda>cbb. andthen (write_all (op alloc d) vs cbb) (\<lambda>_. CBB_flush alloc d))
     (list_all ok vs) (concat (map enc vs)) []"
proof (induction vs)
  case Nil
  then show ?case by (simp add: implements_flush)
next
  case (Cons v vs)
  then have "implements alloc d (op alloc d v) (ok v) (enc v) []"
    "implements alloc d (\<lambda>cbb. andthen (write_all (op alloc d) vs cbb) (\<lambda>_. CBB_flush alloc d))
     (list_all ok vs) (concat (map enc vs)) []" by (simp_all add: op_implements)
  from implements_andthen [OF this] show ?case by (simp add: andthen_assoc)
qed

lemma serialize_flushes:
  "serialize op alloc n vs =
     fst (andthen (CBB_init alloc n) (\<lambda>_ cbb.
          andthen (andthen (write_all (op alloc 0) vs cbb) (\<lambda>_. CBB_flush alloc 0)) (\<lambda>_ cbb.
          case base cbb of None \<Rightarrow> (None, cbb) | Some b \<Rightarrow> (Some (buf b), CBB_cleanup cbb))))"
  by (simp add: serialize_def CBB_finish_def andthen_assoc cong: option.case_cong)

theorem serialize_sound:
  assumes n: "n < 2 ^ 64" and vs: "list_all repr vs" and r: "serialize op alloc n vs = Some out"
  shows "list_all ok vs \<and> out = concat (map enc vs)"
proof -
  from r obtain cbb cbb1 b where i: "CBB_init alloc n = (Some (), cbb)"
    and w: "andthen (write_all (op alloc 0) vs cbb) (\<lambda>_. CBB_flush alloc 0) = (Some (), cbb1)"
    and b: "base cbb1 = Some b" "out = buf b"
    unfolding serialize_flushes
    by (auto simp: andthen_def split: prod.splits option.splits)
  note m = CBB_init_sound [OF n i]
  from implements_sound [OF write_all_implements [OF vs] m _ w] b show ?thesis
    by (auto simp: models_def)
qed

theorem serialize_complete:
  assumes n: "n < 2 ^ 64" and vs: "list_all repr vs" "list_all ok vs"
    and a: "\<forall>k. alloc k" and l: "length (concat (map enc vs)) < 2 ^ 64"
  shows "serialize op alloc n vs = Some (concat (map enc vs))"
proof -
  obtain cbb where i: "CBB_init alloc n = (Some (), cbb)"
    and f: "fits_cbb alloc cbb (length (concat (map enc vs)))"
    using CBB_init_complete [OF a] l by metis
  note m = CBB_init_sound [OF n i]
  obtain cbb1 where w: "andthen (write_all (op alloc 0) vs cbb) (\<lambda>_. CBB_flush alloc 0) = (Some (), cbb1)"
    using implements_complete [OF write_all_implements [OF vs(1), of alloc 0] m] vs(2) f by auto
  from implements_sound(3) [OF write_all_implements [OF vs(1)] m _ w] i w show ?thesis
    unfolding serialize_flushes by (auto simp: models_def)
qed

end

text \<open>
  A writer whose format has a parser: what it writes is read back. The parser may accept more values
  than the writer writes.
\<close>

locale reading_writer = writer op enc ok repr + stream_codec rd enc rd_ok
  for op :: "(nat \<Rightarrow> bool) \<Rightarrow> nat \<Rightarrow> 'v \<Rightarrow> CBB \<Rightarrow> (unit, CBB) outcome"
    and rd :: "bytes \<Rightarrow> ('v, bytes) outcome"
    and enc ok rd_ok repr +
  assumes rd_ok: "ok v \<Longrightarrow> rd_ok v"
begin

lemma read_all_written: "list_all ok vs \<Longrightarrow> read_all rd (concat (map enc vs)) = Some vs"
  by (rule read_all_encoded) (auto simp: list_all_iff rd_ok)

theorem roundtrip:
  assumes "n < 2 ^ 64" "list_all repr vs" "serialize op alloc n vs = Some out"
  shows "read_all rd out = Some vs"
  using serialize_sound [OF assms] by (simp add: read_all_written)

theorem roundtrip_total:
  assumes "n < 2 ^ 64" "list_all repr vs" "list_all ok vs" "\<forall>k. alloc k" "length (concat (map enc vs)) < 2 ^ 64"
  shows "\<exists>out. serialize op alloc n vs = Some out \<and> read_all rd out = Some vs"
  using serialize_complete [OF assms(1,2,3,4,5)] assms(3) by (simp add: read_all_written)

end

text \<open>When both accept the same values, what the parser accepts is also written again.\<close>

locale serializer = writer op enc ok repr + stream_codec rd enc ok
  for op :: "(nat \<Rightarrow> bool) \<Rightarrow> nat \<Rightarrow> 'v \<Rightarrow> CBB \<Rightarrow> (unit, CBB) outcome"
    and rd :: "bytes \<Rightarrow> ('v, bytes) outcome"
    and enc ok repr

sublocale serializer \<subseteq> reading_writer op rd enc ok ok repr
  by unfold_locales

context serializer
begin

theorem reserialize:
  assumes "n < 2 ^ 64" "list_all repr vs" "read_all rd s = Some vs" "\<forall>k. alloc k" "length s < 2 ^ 64"
  shows "serialize op alloc n vs = Some s"
  using serialize_complete [OF assms(1,2) _ assms(4)] assms(3,5) by (simp add: read_all_iff)

end

section \<open>The writers of the fixed-width and length-prefixed formats\<close>

lemma unat_ucast_up: "LENGTH('a) \<le> LENGTH('b) \<Longrightarrow> unat (ucast (v :: 'a::len word) :: 'b::len word) = unat v"
  by (simp add: unsigned_ucast_eq take_bit_nat_eq_self unsigned_less [THEN less_le_trans])

lemma implements_add_word:
  fixes v :: "'a::len word"
  assumes "LENGTH('a) = 8 * n" "1 \<le> n" "n \<le> 8"
  shows "implements alloc d (cbb_add_u alloc d (ucast v) n) True (be_bytes n (unat v)) []"
proof -
  have "unat v < 2 ^ LENGTH('a)" by (rule unsigned_less)
  then have "unat v < 256 ^ n" by (simp add: assms(1) power_mult)
  with implements_add_u [OF assms(2,3), of alloc d "ucast v"] show ?thesis
    using assms by (simp add: unat_ucast_up)
qed

interpretation u8_writer: serializer CBB_add_u8 CBS_get_u8 "\<lambda>v. [v]" "\<lambda>_. True" "\<lambda>_. True"
proof
  show "implements alloc d (CBB_add_u8 alloc d v) True [v] []" for alloc d v
    using implements_add_word [of 1 alloc d v] unfolding CBB_add_u8_def [abs_def] by simp
qed

interpretation u16_writer: serializer CBB_add_u16 CBS_get_u16 "\<lambda>v. be_bytes 2 (unat v)"
  "\<lambda>_. True" "\<lambda>_. True"
  by unfold_locales (use implements_add_word [where ?'a = 16 and n = 2] in \<open>simp add: CBB_add_u16_def [abs_def]\<close>)

interpretation u32_writer: serializer CBB_add_u32 CBS_get_u32 "\<lambda>v. be_bytes 4 (unat v)"
  "\<lambda>_. True" "\<lambda>_. True"
  by unfold_locales (use implements_add_word [where ?'a = 32 and n = 4] in \<open>simp add: CBB_add_u32_def [abs_def]\<close>)

interpretation u64_writer: serializer CBB_add_u64 CBS_get_u64 "\<lambda>v. be_bytes 8 (unat v)"
  "\<lambda>_. True" "\<lambda>_. True"
proof
  show "implements alloc d (CBB_add_u64 alloc d v) True (be_bytes 8 (unat v)) []" for alloc d v
    using implements_add_word [of 8 alloc d v] unfolding CBB_add_u64_def [abs_def] by simp
qed

text \<open>The 24-bit writer refuses what does not fit, as the reader never returns it.\<close>

interpretation u24_writer: serializer CBB_add_u24 CBS_get_u24 "\<lambda>v. be_bytes 3 (unat v)"
  "\<lambda>v. unat v < 2 ^ 24" "\<lambda>_. True"
proof
  show "implements alloc d (CBB_add_u24 alloc d v) (unat v < 2 ^ 24) (be_bytes 3 (unat v)) []" for alloc d v
    using implements_add_u [of 3 alloc d "ucast v"] unfolding CBB_add_u24_def [abs_def]
    by (simp add: unat_ucast_up)
qed

interpretation u16le_writer: serializer CBB_add_u16le CBS_get_u16le "\<lambda>v. rev (be_bytes 2 (unat v))"
  "\<lambda>_. True" "\<lambda>_. True"
  by unfold_locales
    (use u16_writer.op_implements in \<open>simp add: CBB_add_u16le_def [abs_def] flip: be_bytes_bswap2\<close>)

interpretation u32le_writer: serializer CBB_add_u32le CBS_get_u32le "\<lambda>v. rev (be_bytes 4 (unat v))"
  "\<lambda>_. True" "\<lambda>_. True"
  by unfold_locales
    (use u32_writer.op_implements in \<open>simp add: CBB_add_u32le_def [abs_def] flip: be_bytes_bswap4\<close>)

interpretation u64le_writer: serializer CBB_add_u64le CBS_get_u64le "\<lambda>v. rev (be_bytes 8 (unat v))"
  "\<lambda>_. True" "\<lambda>_. True"
  by unfold_locales
    (use u64_writer.op_implements in \<open>simp add: CBB_add_u64le_def [abs_def] flip: be_bytes_bswap8\<close>)

text \<open>A client that writes one length-prefixed string: it opens a child, fills it and flushes.\<close>

definition add_prefixed ::
  "((nat \<Rightarrow> bool) \<Rightarrow> nat \<Rightarrow> CBB \<Rightarrow> (unit, CBB) outcome) \<Rightarrow>
   (nat \<Rightarrow> bool) \<Rightarrow> nat \<Rightarrow> bytes \<Rightarrow> CBB \<Rightarrow> (unit, CBB) outcome" where
  "add_prefixed open_child alloc d data cbb =
     andthen (open_child alloc d cbb) (\<lambda>_ cbb.
     andthen (CBB_add_bytes alloc (Suc d) data cbb) (\<lambda>_. CBB_flush alloc d))"

lemma implements_add_prefixed:
  assumes "implements alloc d (open_child alloc d) True [] [(k, [])]" "length data < 2 ^ 64"
  shows "implements alloc d (add_prefixed open_child alloc d data)
    (closable k (length data)) (length_prefix k (length data) @ data) []"
  using implements_child [OF assms(1) implements_add_bytes [OF assms(2)]]
  unfolding add_prefixed_def [abs_def] by simp

lemma implements_open_u8: "implements alloc d (CBB_add_u8_length_prefixed alloc d) True [] [(Fixed 1, [])]"
  and implements_open_u16: "implements alloc d (CBB_add_u16_length_prefixed alloc d) True [] [(Fixed 2, [])]"
  and implements_open_u24: "implements alloc d (CBB_add_u24_length_prefixed alloc d) True [] [(Fixed 3, [])]"
  using implements_add_length_prefixed [of 1 alloc d] implements_add_length_prefixed [of 2 alloc d]
    implements_add_length_prefixed [of 3 alloc d]
  unfolding CBB_add_u8_length_prefixed_def [abs_def] CBB_add_u16_length_prefixed_def [abs_def]
    CBB_add_u24_length_prefixed_def [abs_def] by simp_all

interpretation u8_prefixed_writer: serializer "add_prefixed CBB_add_u8_length_prefixed"
  CBS_get_u8_length_prefixed "length_prefixed 1" "\<lambda>c. length c < 2 ^ 8" "\<lambda>c. length c < 2 ^ 64"
  by unfold_locales
    (use implements_add_prefixed [where open_child = CBB_add_u8_length_prefixed, OF implements_open_u8]
     in \<open>simp add: length_prefixed_def\<close>)

interpretation u16_prefixed_writer: serializer "add_prefixed CBB_add_u16_length_prefixed"
  CBS_get_u16_length_prefixed "length_prefixed 2" "\<lambda>c. length c < 2 ^ 16" "\<lambda>c. length c < 2 ^ 64"
  by unfold_locales
    (use implements_add_prefixed [where open_child = CBB_add_u16_length_prefixed, OF implements_open_u16]
     in \<open>simp add: length_prefixed_def\<close>)

interpretation u24_prefixed_writer: serializer "add_prefixed CBB_add_u24_length_prefixed"
  CBS_get_u24_length_prefixed "length_prefixed 3" "\<lambda>c. length c < 2 ^ 24" "\<lambda>c. length c < 2 ^ 64"
  by unfold_locales
    (use implements_add_prefixed [where open_child = CBB_add_u24_length_prefixed, OF implements_open_u24]
     in \<open>simp add: length_prefixed_def\<close>)

section \<open>Errors are sticky\<close>

definition failed :: "CBB \<Rightarrow> bool" where
  "failed cbb \<longleftrightarrow> (case base cbb of None \<Rightarrow> True | Some b \<Rightarrow> error b)"

lemma flush_failed: "failed cbb \<Longrightarrow> CBB_flush alloc d cbb = (None, t) \<Longrightarrow> failed t"
  by (auto simp: failed_def CBB_flush_def split: option.splits if_splits prod.splits dest: flush_chain_fails)

lemma failed_flush: "failed cbb \<Longrightarrow> \<exists>t. CBB_flush alloc d cbb = (None, t) \<and> failed t"
proof -
  assume f: "failed cbb"
  have "fst (CBB_flush alloc d cbb) = None"
    using f by (auto simp: failed_def CBB_flush_def cbb_flush_chain.simps split: option.splits prod.splits)
  then obtain t where "CBB_flush alloc d cbb = (None, t)" by (cases "CBB_flush alloc d cbb") auto
  with flush_failed [OF f this] show ?thesis by blast
qed

lemma flush_fails: "CBB_flush alloc d cbb = (None, t) \<Longrightarrow> d \<le> length (children cbb) \<Longrightarrow> failed t"
  by (auto simp: failed_def CBB_flush_def split: option.splits if_splits prod.splits dest: flush_chain_fails)

section \<open>Building one value\<close>

text \<open>A client that starts a builder, runs \<open>op\<close> on it and takes the result.\<close>

definition build :: "(nat \<Rightarrow> bool) \<Rightarrow> nat \<Rightarrow> (CBB \<Rightarrow> (unit, CBB) outcome) \<Rightarrow> bytes option" where
  "build alloc n op =
     fst (andthen (CBB_init alloc n) (\<lambda>_ cbb. andthen (op cbb) (\<lambda>_ cbb. CBB_finish alloc 0 cbb True)))"

lemma build_sound:
  assumes i: "implements alloc 0 op ok bs []" and n: "n < 2 ^ 64" and r: "build alloc n op = Some out"
  shows "ok \<and> out = bs"
proof -
  from r obtain cbb cbb1 where c: "CBB_init alloc n = (Some (), cbb)" "op cbb = (Some (), cbb1)"
    and "fst (CBB_finish alloc 0 cbb1 True) = Some out"
    by (auto simp: build_def andthen_def split: prod.splits option.splits)
  then obtain cbb2 where f: "CBB_finish alloc 0 cbb1 True = (Some out, cbb2)"
    by (cases "CBB_finish alloc 0 cbb1 True") auto
  note m = CBB_init_sound [OF n c(1)]
  from implements_sound [OF i m _ c(2)] CBB_finish_sound [OF _ f] show ?thesis by auto
qed

lemma build_complete:
  assumes i: "implements alloc 0 op ok bs []" and "n < 2 ^ 64" "\<forall>k. alloc k" "ok" "length bs < 2 ^ 64"
  shows "build alloc n op = Some bs"
proof -
  obtain cbb where c: "CBB_init alloc n = (Some (), cbb)" "fits_cbb alloc cbb (length bs)"
    using CBB_init_complete [OF assms(3)] assms(5) by metis
  note m = CBB_init_sound [OF assms(2) c(1)]
  obtain cbb1 where o: "op cbb = (Some (), cbb1)"
    using implements_complete [OF i m] assms(4) c(2) by auto
  have m1: "models cbb1 (bs, [])" and g: "grows_cbb cbb cbb1"
    using implements_sound [OF i m _ o] by simp_all
  then have "CBB_flush alloc 0 cbb1 = (Some (), cbb1)"
    by (auto simp: models_def CBB_flush_def cbb_flush_chain.simps buffer_ok_def)
  with m1 have "fst (CBB_finish alloc 0 cbb1 True) = Some bs"
    by (auto simp: CBB_finish_def models_def)
  with c o show ?thesis by (simp add: build_def)
qed

end
