(* ===== verification/CBB_ASN1.thy ===== *)
theory CBB_ASN1
  imports CBB
begin

text \<open>
  The ASN.1 half of \<open>crypto/bytestring/cbb.c\<close>: elements with a pending DER length, and the values
  \<open>INTEGER\<close>, \<open>OCTET STRING\<close> and \<open>BOOLEAN\<close>. After the definitions, the encoding of each value as a
  specification; the writers and the readers of \<open>cbs.c\<close> are proved to implement the same encoding.
\<close>

section \<open>Definitions\<close>

text \<open>The two loops of \<open>add_base128_integer\<close>.\<close>

function base128_len_loop :: "u64 \<Rightarrow> nat \<Rightarrow> nat" where
  "base128_len_loop copy len_len =
     (if copy > 0 then base128_len_loop (drop_bit 7 copy) (len_len + 1) else len_len)"
  by pat_completeness auto
termination
proof (relation "measure (\<lambda>(copy, len_len). unat copy)")
  fix copy :: u64 and len_len :: nat
  assume "copy > 0"
  then have "0 < unat copy" by (simp add: word_less_nat_alt)
  moreover have "unat (drop_bit 7 copy) = unat copy div 128"
    by (subst unat_drop_bit_eq) (simp add: drop_bit_eq_div)
  ultimately show "((drop_bit 7 copy, len_len + 1), (copy, len_len)) \<in> measure (\<lambda>(copy, len_len). unat copy)"
    by simp
qed simp

declare base128_len_loop.simps [simp del]

fun base128_add_loop :: "(nat \<Rightarrow> bool) \<Rightarrow> nat \<Rightarrow> u64 \<Rightarrow> nat \<Rightarrow> CBB \<Rightarrow> (unit, CBB) outcome" where
  "base128_add_loop alloc d v 0 cbb = (Some (), cbb)"
| "base128_add_loop alloc d v (Suc i) cbb =
     (let byte = ucast (drop_bit (7 * i) v AND 0x7f) :: u8;
          byte = (if i \<noteq> 0 then byte OR 0x80 else byte)
      in andthen (CBB_add_u8 alloc d byte cbb) (\<lambda>_. base128_add_loop alloc d v i))"

definition add_base128_integer :: "(nat \<Rightarrow> bool) \<Rightarrow> nat \<Rightarrow> u64 \<Rightarrow> CBB \<Rightarrow> (unit, CBB) outcome" where
  "add_base128_integer alloc d v cbb =
     (let len_len = base128_len_loop v 0;
          len_len = (if len_len = 0 then 1 else len_len)
      in base128_add_loop alloc d v len_len cbb)"

text \<open>The length of the buffer that an object writes to.\<close>

definition base_len :: "CBB \<Rightarrow> nat" where
  "base_len cbb = (case base cbb of None \<Rightarrow> 0 | Some b \<Rightarrow> length (buf b))"

definition cbb_add_tag :: "(nat \<Rightarrow> bool) \<Rightarrow> nat \<Rightarrow> u32 \<Rightarrow> CBB \<Rightarrow> (unit, CBB) outcome" where
  "cbb_add_tag alloc d tag cbb =
     (let tag_bits = ucast (drop_bit CBS_ASN1_TAG_SHIFT tag AND 0xe0) :: u8;
          tag_number = tag AND CBS_ASN1_TAG_NUMBER_MASK
      in if tag_number \<ge> 0x1f then
           andthen (CBB_add_u8 alloc d (tag_bits OR 0x1f) cbb) (\<lambda>_.
             add_base128_integer alloc d (ucast tag_number))
         else CBB_add_u8 alloc d (tag_bits OR ucast tag_number) cbb)"

text \<open>The new child has depth \<open>Suc d\<close>.\<close>

definition CBB_add_asn1 :: "(nat \<Rightarrow> bool) \<Rightarrow> nat \<Rightarrow> u32 \<Rightarrow> CBB \<Rightarrow> (unit, CBB) outcome" where
  "CBB_add_asn1 alloc d tag cbb =
     andthen (CBB_flush alloc d cbb) (\<lambda>_ cbb.
     andthen (cbb_add_tag alloc d tag cbb) (\<lambda>_ cbb.
       let off = base_len cbb in
       andthen (CBB_add_u8 alloc d 0 cbb) (\<lambda>_ cbb. (Some (), cbb_add_child d off 1 True cbb))))"

text \<open>The loop of \<open>CBB_add_asn1_uint64\<close> from \<open>i\<close> on, for \<open>n = 8 - i\<close> bytes that are left.\<close>

fun asn1_uint64_bytes ::
  "(nat \<Rightarrow> bool) \<Rightarrow> nat \<Rightarrow> u64 \<Rightarrow> nat \<Rightarrow> bool \<Rightarrow> CBB \<Rightarrow> (bool, CBB) outcome" where
  "asn1_uint64_bytes alloc d value 0 started cbb = (Some started, cbb)"
| "asn1_uint64_bytes alloc d value (Suc n) started cbb =
     (let byte = ucast (drop_bit (8 * n) value AND 0xff) :: u8 in
      if \<not> started \<and> byte = 0 then asn1_uint64_bytes alloc d value n started cbb
      else
        andthen
          (if \<not> started \<and> byte AND 0x80 \<noteq> 0 then CBB_add_u8 alloc d 0 cbb else (Some (), cbb))
          (\<lambda>_ cbb. andthen (CBB_add_u8 alloc d byte cbb) (\<lambda>_.
             asn1_uint64_bytes alloc d value n True)))"

definition CBB_add_asn1_uint64 :: "(nat \<Rightarrow> bool) \<Rightarrow> nat \<Rightarrow> u64 \<Rightarrow> CBB \<Rightarrow> (unit, CBB) outcome" where
  "CBB_add_asn1_uint64 alloc d value cbb =
     andthen (CBB_add_asn1 alloc d CBS_ASN1_INTEGER cbb) (\<lambda>_ cbb.
     andthen (asn1_uint64_bytes alloc (Suc d) value 8 False cbb) (\<lambda>started cbb.
     andthen (if \<not> started then CBB_add_u8 alloc (Suc d) 0 cbb else (Some (), cbb)) (\<lambda>_.
       CBB_flush alloc d)))"

text \<open>
  \<open>CBB_add_asn1_int64\<close>: \<open>bs\<close> is the union's view of the value as bytes, least significant first.
\<close>

fun skip_sign_bytes :: "bytes \<Rightarrow> nat \<Rightarrow> nat" where
  "skip_sign_bytes bs 0 = 0"
| "skip_sign_bytes bs (Suc start) =
     (if bs ! Suc start = 0xff \<and> bs ! start AND 0x80 \<noteq> 0 then skip_sign_bytes bs start else Suc start)"

fun add_bytes_down :: "(nat \<Rightarrow> bool) \<Rightarrow> nat \<Rightarrow> bytes \<Rightarrow> nat \<Rightarrow> CBB \<Rightarrow> (unit, CBB) outcome" where
  "add_bytes_down alloc d bs 0 cbb = (Some (), cbb)"
| "add_bytes_down alloc d bs (Suc i) cbb =
     andthen (CBB_add_u8 alloc d (bs ! i) cbb) (\<lambda>_. add_bytes_down alloc d bs i)"

definition CBB_add_asn1_int64 :: "(nat \<Rightarrow> bool) \<Rightarrow> nat \<Rightarrow> u64 \<Rightarrow> CBB \<Rightarrow> (unit, CBB) outcome" where
  "CBB_add_asn1_int64 alloc d value cbb =
     (if sint value \<ge> 0 then CBB_add_asn1_uint64 alloc d value cbb
      else
        (let bs = map (\<lambda>i. ucast (drop_bit (8 * i) value)) [0..<8];
             start = skip_sign_bytes bs 7
         in andthen (CBB_add_asn1 alloc d CBS_ASN1_INTEGER cbb) (\<lambda>_ cbb.
            andthen (add_bytes_down alloc (Suc d) bs (start + 1) cbb) (\<lambda>_.
              CBB_flush alloc d))))"

definition CBB_add_asn1_octet_string :: "(nat \<Rightarrow> bool) \<Rightarrow> nat \<Rightarrow> bytes \<Rightarrow> CBB \<Rightarrow> (unit, CBB) outcome" where
  "CBB_add_asn1_octet_string alloc d data cbb =
     andthen (CBB_add_asn1 alloc d CBS_ASN1_OCTETSTRING cbb) (\<lambda>_ cbb.
     andthen (CBB_add_bytes alloc (Suc d) data cbb) (\<lambda>_. CBB_flush alloc d))"

definition CBB_add_asn1_bool :: "(nat \<Rightarrow> bool) \<Rightarrow> nat \<Rightarrow> int \<Rightarrow> CBB \<Rightarrow> (unit, CBB) outcome" where
  "CBB_add_asn1_bool alloc d value cbb =
     andthen (CBB_add_asn1 alloc d CBS_ASN1_BOOLEAN cbb) (\<lambda>_ cbb.
     andthen (CBB_add_u8 alloc (Suc d) (if value \<noteq> 0 then 0xff else 0) cbb) (\<lambda>_. CBB_flush alloc d))"

section \<open>Tags and elements\<close>

lemma implements_add_u8: "implements alloc d (CBB_add_u8 alloc d b) True [b] []"
  by (rule u8_writer.op_implements) simp

lemma write_all_fun:
  "write_all op [] = (\<lambda>cbb. (Some (), cbb))"
  "write_all op (v # vs) = (\<lambda>cbb. andthen (op v cbb) (\<lambda>_. write_all op vs))"
  by (rule ext, simp)+

lemma write_all_append:
  "write_all op (xs @ ys) = (\<lambda>cbb. andthen (write_all op xs cbb) (\<lambda>_. write_all op ys))"
  by (induction xs) (simp_all add: write_all_fun andthen_assoc)

lemma andthen_unit: "andthen r (\<lambda>_ s. (Some (), s)) = r"
  by (cases r; cases "fst r") auto

text \<open>Bytes added one after the other; at least one, so that the first of them flushes.\<close>

abbreviation add_u8s :: "(nat \<Rightarrow> bool) \<Rightarrow> nat \<Rightarrow> bytes \<Rightarrow> CBB \<Rightarrow> (unit, CBB) outcome" where
  "add_u8s alloc d \<equiv> write_all (CBB_add_u8 alloc d)"

lemma implements_add_u8s: "bs \<noteq> [] \<Longrightarrow> implements alloc d (add_u8s alloc d bs) True bs []"
proof (induction bs)
  case (Cons b bs)
  show ?case
  proof (cases "bs = []")
    case True
    then show ?thesis using implements_add_u8 by (simp add: write_all_fun andthen_unit)
  next
    case False
    from implements_andthen [OF implements_add_u8 Cons.IH [OF this]] show ?thesis
      by (simp add: write_all_fun)
  qed
qed simp

subsection \<open>Base-128 integers\<close>

definition base128_byte :: "u64 \<Rightarrow> nat \<Rightarrow> u8" where
  "base128_byte v i =
     (let byte = ucast (drop_bit (7 * i) v AND 0x7f) in if i \<noteq> 0 then byte OR 0x80 else byte)"

lemma base128_add_loop_eq:
  "base128_add_loop alloc d v n = add_u8s alloc d (map (base128_byte v) (rev [0..<n]))"
proof (induction n)
  case (Suc n)
  show ?case
    by (rule ext) (simp add: Suc base128_byte_def Let_def)
qed (simp add: write_all_fun)

lemma base128_byte_eq:
  "base128_byte v i = of_nat (unat v div 128 ^ i mod 128 + (if i = 0 then 0 else 128))"
proof -
  have m: "(0x7f :: u64) = mask 7" by (simp add: mask_eq_exp_minus_1)
  have p: "(2 :: nat) ^ (7 * i) = 128 ^ i" by (simp add: power_mult)
  define k where "k = unat v div 128 ^ i mod 128"
  have k: "k < 128" by (simp add: k_def)
  have u: "unat (ucast (drop_bit (7 * i) v AND 0x7f) :: u8) = k"
    using k by (simp add: m unsigned_ucast_eq unat_and_mask_mod unat_drop_bit_div p k_def
        take_bit_eq_mod)
  have "ucast (drop_bit (7 * i) v AND 0x7f) OR 0x80 = (of_nat (k + 128) :: u8)"
  proof -
    have "push_bit 7 1 OR ucast (drop_bit (7 * i) v AND 0x7f) = (of_nat (k + 128) :: u8)"
      using unat_shift_or [of "ucast (drop_bit (7 * i) v AND 0x7f) :: u8" 7 1] k
      by (simp only: u) (simp add: word_unat_eq_iff unat_of_nat add.commute del: of_nat_add)
    then show ?thesis by (simp add: or.commute)
  qed
  moreover have "ucast (drop_bit (7 * i) v AND 0x7f) = (of_nat k :: u8)"
    using k by (simp add: word_unat_eq_iff u unat_of_nat)
  ultimately show ?thesis by (simp add: base128_byte_def Let_def k_def del: of_nat_add)
qed

lemma base128_len_loop_eq: "base128_len_loop v k = length (base128_more (unat v)) + k"
proof (induction v k rule: base128_len_loop.induct)
  case (1 v k)
  show ?case
  proof (cases "v > 0")
    case True
    then have "unat v \<noteq> 0" by (simp add: word_less_nat_alt)
    then have "length (base128_more (unat v)) = Suc (length (base128_more (unat v div 128)))"
      by (subst base128_more.simps) simp
    moreover have "base128_len_loop v k = base128_len_loop (drop_bit 7 v) (k + 1)"
      using True by (subst base128_len_loop.simps) simp
    ultimately show ?thesis using 1 [OF True] by (simp add: unat_drop_bit_div)
  next
    case False
    then have "v = 0" using word_greater_zero_iff by blast
    then show ?thesis by (simp add: base128_len_loop.simps)
  qed
qed

lemma rev_upt_Suc: "rev [0..<Suc n] = map Suc (rev [0..<n]) @ [0]"
  by (simp add: upt_conv_Cons map_Suc_upt [symmetric] rev_map del: upt_Suc)

lemma base128_more_eq:
  "base128_more m = map (\<lambda>i. of_nat (m div 128 ^ i mod 128 + 128)) (rev [0..<length (base128_more m)])"
proof (induction m rule: base128_more.induct)
  case (1 m)
  show ?case
  proof (cases "m = 0")
    case False
    define l where "l = length (base128_more (m div 128))"
    have m: "base128_more m = base128_more (m div 128) @ [of_nat (m mod 128 + 128)]"
      using False by (subst base128_more.simps) simp
    then have "length (base128_more m) = Suc l" by (simp add: l_def)
    moreover have "base128_more (m div 128) =
        map (\<lambda>i. of_nat (m div 128 ^ Suc i mod 128 + 128)) (rev [0..<l])"
      using 1 [OF False] by (simp add: l_def div_mult2_eq del: of_nat_add)
    ultimately show ?thesis
      by (simp only: m rev_upt_Suc) (simp del: of_nat_add add: comp_def)
  qed simp
qed

lemma base128_bytes:
  assumes "n = (if length (base128_more (unat v)) = 0 then 1 else length (base128_more (unat v)))"
  shows "map (base128_byte v) (rev [0..<n]) = base128 (unat v)"
proof (cases "unat v = 0")
  case True
  then show ?thesis using assms by (simp add: base128_def base128_byte_eq)
next
  case False
  define l where "l = length (base128_more (unat v div 128))"
  have "base128_more (unat v) = base128_more (unat v div 128) @ [of_nat (unat v mod 128 + 128)]"
    using False by (subst base128_more.simps) simp
  then have "n = Suc l" using assms by (simp add: l_def)
  moreover have "base128_more (unat v div 128) =
      map (\<lambda>i. of_nat (unat v div 128 ^ Suc i mod 128 + 128)) (rev [0..<l])"
    using base128_more_eq [of "unat v div 128"] by (simp add: l_def div_mult2_eq del: of_nat_add)
  ultimately show ?thesis
    by (simp only: rev_upt_Suc base128_def)
      (simp add: base128_byte_eq comp_def del: of_nat_add power_Suc)
qed

lemma add_base128_integer_eq: "add_base128_integer alloc d v = add_u8s alloc d (base128 (unat v))"
proof (rule ext)
  fix cbb
  show "add_base128_integer alloc d v cbb = add_u8s alloc d (base128 (unat v)) cbb"
    using base128_bytes [OF refl, of v]
    by (simp only: add_base128_integer_def Let_def base128_len_loop_eq add_0_right base128_add_loop_eq)
qed

interpretation base128_writer: serializer add_base128_integer parse_base128_integer
  "\<lambda>v. base128 (unat v)" "\<lambda>_. True" "\<lambda>_. True"
  by unfold_locales (simp add: add_base128_integer_eq implements_add_u8s)

subsection \<open>Tags and elements\<close>

lemma cbb_add_tag_eq: "cbb_add_tag alloc d tag = add_u8s alloc d (der_tag tag)"
proof -
  define bits where "bits = unat tag div 2 ^ 29"
  define num where "num = unat tag mod 2 ^ 29"
  have "unat tag < 2 ^ 32" using unsigned_less [of tag, where ?'a = nat] by simp
  then have b: "bits < 8" unfolding bits_def by (intro less_mult_imp_div_less) simp
  have m1: "(0xe0 :: u32) = push_bit 5 (mask 3)" by (simp add: mask_eq_exp_minus_1)
  have m2: "CBS_ASN1_TAG_NUMBER_MASK = mask 29"
    by (simp add: CBS_ASN1_TAG_NUMBER_MASK_def CBS_ASN1_TAG_SHIFT_def mask_eq_exp_minus_1)
  have n: "unat (tag AND CBS_ASN1_TAG_NUMBER_MASK) = num"
    by (simp only: m2 unat_and_mask_mod num_def)
  have t: "ucast (drop_bit CBS_ASN1_TAG_SHIFT tag AND 0xe0) = (push_bit 5 (of_nat bits) :: u8)"
  proof -
    have "drop_bit 24 tag AND 0xe0 = push_bit 5 (drop_bit 29 tag)"
      unfolding m1 by (rule bit_word_eqI) (auto simp: bit_simps dest: bit_imp_le_length)
    moreover have "ucast (push_bit 5 (drop_bit 29 tag)) = (push_bit 5 (ucast (drop_bit 29 tag)) :: u8)"
      by (rule bit_word_eqI) (auto simp: bit_simps)
    moreover have "ucast (drop_bit 29 tag) = (of_nat bits :: u8)"
      by (simp add: word_unat_eq_iff unsigned_ucast_eq unat_drop_bit_div bits_def unat_of_nat take_bit_eq_mod)
    ultimately show ?thesis by (simp add: CBS_ASN1_TAG_SHIFT_def)
  qed
  have o: "push_bit 5 (of_nat bits) OR k = (of_nat (bits * 32 + unat k) :: u8)" if "unat k < 32" for k :: u8
    using unat_shift_or [of k 5 "of_nat bits :: u8"] that b
    by (simp add: word_unat_eq_iff unat_of_nat del: of_nat_add of_nat_mult)
  have c: "tag AND CBS_ASN1_TAG_NUMBER_MASK \<ge> 0x1f \<longleftrightarrow> \<not> num < 31"
    by (simp add: word_le_nat_alt n not_less)
  show ?thesis
  proof (rule ext, cases "num < 31")
    fix cbb assume k: "num < 31"
    then have "unat (ucast (tag AND CBS_ASN1_TAG_NUMBER_MASK) :: u8) = num"
      by (simp add: unsigned_ucast_eq n take_bit_eq_mod)
    with k o [of "ucast (tag AND CBS_ASN1_TAG_NUMBER_MASK)"]
    show "cbb_add_tag alloc d tag cbb = add_u8s alloc d (der_tag tag) cbb"
      unfolding cbb_add_tag_def Let_def c t der_tag_def bits_def [symmetric] num_def [symmetric]
      by (simp add: andthen_unit write_all_fun)
  next
    fix cbb assume k: "\<not> num < 31"
    have "unat (ucast (tag AND CBS_ASN1_TAG_NUMBER_MASK) :: u64) = num"
      by (simp add: unat_ucast_up n)
    with k o [of "0x1f"]
    show "cbb_add_tag alloc d tag cbb = add_u8s alloc d (der_tag tag) cbb"
      unfolding cbb_add_tag_def Let_def c t der_tag_def bits_def [symmetric] num_def [symmetric]
      by (simp add: add_base128_integer_eq)
  qed
qed

lemma flush_flushed:
  assumes "models cbb (c, ks)" "length ks = d"
  shows "CBB_flush alloc d cbb = (Some (), cbb)"
  using assms by (auto simp: models_def CBB_flush_def cbb_flush_chain.simps buffer_ok_def)

lemma implements_cong:
  assumes g: "implements alloc d g ok bs new"
    and eq: "\<And>cbb c ks. models cbb (c, ks) \<Longrightarrow> d \<le> length ks \<Longrightarrow> f cbb = g cbb"
  shows "implements alloc d f ok bs new"
proof (rule implementsI)
  fix cbb c ks cbb' assume m: "models cbb (c, ks)" "d \<le> length ks" and r: "f cbb = (Some (), cbb')"
  from implements_sound [OF g m] r eq [OF m]
  show "ok \<and> all_closable (snd (stack_at d (c, ks))) \<and>
      models cbb' (write_at d bs new (c, ks)) \<and> grows_cbb cbb cbb'" by simp
next
  fix cbb c ks assume m: "models cbb (c, ks)" "d \<le> length ks" and o: "ok"
    "all_closable (snd (stack_at d (c, ks)))"
    "fits_cbb alloc cbb (length (case write_at d bs new (c, ks) of (c, ks) \<Rightarrow> layout c ks))"
  from implements_complete [OF g m o] eq [OF m] show "\<exists>cbb'. f cbb = (Some (), cbb')" by metis
qed

lemma on_base_keep:
  "andthen (on_base cbb f) (\<lambda>_ cbb'. h (base_len cbb) cbb') =
   andthen (on_base cbb (\<lambda>b. andthen (f b) (\<lambda>_ b'. (Some (length (buf b)), b')))) h"
proof (cases "base cbb")
  case (Some b)
  then show ?thesis
    by (cases "f b"; cases "fst (f b)") (auto simp: on_base_def base_len_def)
qed (simp add: on_base_def)

lemma appends_keep:
  assumes f: "appends alloc f ok bs"
  shows "appends alloc (\<lambda>b. andthen (f b) (\<lambda>_ b'. (Some (length (buf b)), b'))) ok bs"
  unfolding appends_def
proof (intro allI impI)
  fix b assume b: "buffer_ok b"
  show "(\<forall>x b'. andthen (f b) (\<lambda>_ b'. (Some (length (buf b)), b')) = (Some x, b') \<longrightarrow>
          ok \<and> buf b' = buf b @ bs \<and> buffer_ok b' \<and> grows b b') \<and>
      (ok \<longrightarrow> fits alloc b (length (buf b) + length bs) \<longrightarrow>
        (\<exists>x b'. andthen (f b) (\<lambda>_ b'. (Some (length (buf b)), b')) = (Some x, b')))"
  proof (cases "f b")
    case (Pair r b')
    have f: "f b = (Some x, b') \<Longrightarrow> ok \<and> buf b' = buf b @ bs \<and> buffer_ok b' \<and> grows b b'"
      "ok \<Longrightarrow> fits alloc b (length (buf b) + length bs) \<Longrightarrow> \<exists>x b'. f b = (Some x, b')" for x b'
      using f b unfolding appends_def by blast+
    show ?thesis
    proof (cases r)
      case None
      with Pair f(2) show ?thesis by auto
    next
      case (Some x)
      with Pair f(1) show ?thesis by auto
    qed
  qed
qed

lemma implements_add_asn1: "implements alloc d (CBB_add_asn1 alloc d tag) True (der_tag tag) [(Der, [])]"
proof -
  let ?f = "\<lambda>b. cbb_buffer_add_u alloc b 0 1"
  let ?g = "\<lambda>b. andthen (?f b) (\<lambda>_ b'. (Some (length (buf b)), b'))"
  let ?tag = "\<lambda>cbb. andthen (CBB_flush alloc d cbb) (\<lambda>_. cbb_add_tag alloc d tag)"
  let ?open = "\<lambda>cbb. andthen (CBB_flush alloc d cbb) (\<lambda>_ cbb. andthen (on_base cbb ?g)
       (\<lambda>x cbb. (Some (), cbb_add_child d x (prefix_len Der) (Der = Der) cbb)))"
  have tag: "implements alloc d ?tag True (der_tag tag) []"
    using implements_andthen [OF implements_flush implements_add_u8s] by (simp add: cbb_add_tag_eq)
  have "appends alloc ?f (unat (0 :: u64) < 256 ^ 1) (be_bytes 1 (unat (0 :: u64)))"
    by (rule appends_add_u) simp_all
  then have f: "appends alloc ?f True [0]" by simp
  have "appends alloc ?g True [0]" by (rule appends_keep [OF f])
  then have "implements alloc d ?open True [] [(Der, [])]"
    by (intro implements_open) (auto simp: andthen_eq_Some)
  from implements_andthen [OF tag this]
  have i: "implements alloc d (\<lambda>cbb. andthen (?tag cbb) (\<lambda>_. ?open)) True (der_tag tag) [(Der, [])]" by simp
  have "CBB_add_asn1 alloc d tag cbb = andthen (?tag cbb) (\<lambda>_. ?open)"
    if m: "models cbb (c, ks)" and d: "d \<le> length ks" for cbb c ks
  proof -
    have "CBB_add_asn1 alloc d tag cbb = andthen (?tag cbb) (\<lambda>_ cbb. let off = base_len cbb in
        andthen (CBB_add_u8 alloc d 0 cbb) (\<lambda>_ cbb. (Some (), cbb_add_child d off 1 True cbb)))"
      by (simp only: CBB_add_asn1_def andthen_assoc)
    also have "\<dots> = andthen (?tag cbb) (\<lambda>_. ?open)"
    proof (rule andthen_cong [OF refl])
      fix x cbb1 assume r: "?tag cbb = (Some x, cbb1)"
      obtain c1 ks1 where w: "write_at d (der_tag tag) [] (c, ks) = (c1, ks1)" by fastforce
      have "models cbb1 (c1, ks1)" using implements_sound(3) [OF tag m d] r w by simp
      then have "CBB_flush alloc d cbb1 = (Some (), cbb1)"
        using write_at_flushed(1) [OF d w] by (intro flush_flushed)
      then show "(let off = base_len cbb1 in
          andthen (CBB_add_u8 alloc d 0 cbb1) (\<lambda>_ cbb. (Some (), cbb_add_child d off 1 True cbb))) = ?open cbb1"
        by (simp add: CBB_add_u8_def cbb_add_u_def on_base_keep [symmetric])
    qed
    finally show ?thesis .
  qed
  with i show ?thesis by (rule implements_cong)
qed

text \<open>A complete element: open, contents, flush.\<close>

lemma implements_element:
  assumes "implements alloc (Suc d) g ok c []"
  shows "implements alloc d
    (\<lambda>cbb. andthen (CBB_add_asn1 alloc d tag cbb) (\<lambda>_ cbb. andthen (g cbb) (\<lambda>_. CBB_flush alloc d)))
    (ok \<and> length c \<le> 0xfffffffe) (der_element tag c) []"
  using implements_child [OF implements_add_asn1 assms, of tag]
  by (simp add: der_element_def der_header_def)

end
