(* ===== verification/CBB_Errors.thy ===== *)
theory CBB_Errors
  imports CBB_ASN1
begin

text \<open>
  The error bit of \<open>struct cbb_buffer_st\<close> (\<open>crypto/bytestring/cbb.c\<close>): "all future operations will fail".
  A program makes any sequence of calls on the objects of a builder; the sequences here hold every function
  that writes through \<open>CBB_flush\<close>. \<open>CBB_did_write\<close> and \<open>CBB_add_asn1_oid_from_text\<close> are not
  among them, which can fail without the bit: on a wrong length, and on a text that is no identifier.
\<close>

section \<open>Calls\<close>

datatype cbb_call =
    Flush nat
  | Add_u8 nat u8 | Add_u16 nat u16 | Add_u16le nat u16 | Add_u24 nat u32
  | Add_u32 nat u32 | Add_u32le nat u32 | Add_u64 nat u64 | Add_u64le nat u64
  | Add_bytes nat bytes | Add_space nat nat | Reserve nat nat
  | Add_u8_length_prefixed nat | Add_u16_length_prefixed nat | Add_u24_length_prefixed nat
  | Add_asn1 nat u32 | Add_asn1_uint64 nat u64 | Add_asn1_int64 nat u64
  | Add_asn1_octet_string nat bytes | Add_asn1_bool nat int

text \<open>The depth of the object that a call is made on: 0 is the root.\<close>

fun depth :: "cbb_call \<Rightarrow> nat" where
  "depth (Flush d) = d"
| "depth (Add_u8 d _) = d"
| "depth (Add_u16 d _) = d"
| "depth (Add_u16le d _) = d"
| "depth (Add_u24 d _) = d"
| "depth (Add_u32 d _) = d"
| "depth (Add_u32le d _) = d"
| "depth (Add_u64 d _) = d"
| "depth (Add_u64le d _) = d"
| "depth (Add_bytes d _) = d"
| "depth (Add_space d _) = d"
| "depth (Reserve d _) = d"
| "depth (Add_u8_length_prefixed d) = d"
| "depth (Add_u16_length_prefixed d) = d"
| "depth (Add_u24_length_prefixed d) = d"
| "depth (Add_asn1 d _) = d"
| "depth (Add_asn1_uint64 d _) = d"
| "depth (Add_asn1_int64 d _) = d"
| "depth (Add_asn1_octet_string d _) = d"
| "depth (Add_asn1_bool d _) = d"

text \<open>The caller sees whether the call succeeded.\<close>

definition tested :: "('a, CBB) outcome \<Rightarrow> bool \<times> CBB" where
  "tested r = (fst r \<noteq> None, snd r)"

fun call :: "(nat \<Rightarrow> bool) \<Rightarrow> cbb_call \<Rightarrow> CBB \<Rightarrow> bool \<times> CBB" where
  "call alloc (Flush d) cbb = tested (CBB_flush alloc d cbb)"
| "call alloc (Add_u8 d v) cbb = tested (CBB_add_u8 alloc d v cbb)"
| "call alloc (Add_u16 d v) cbb = tested (CBB_add_u16 alloc d v cbb)"
| "call alloc (Add_u16le d v) cbb = tested (CBB_add_u16le alloc d v cbb)"
| "call alloc (Add_u24 d v) cbb = tested (CBB_add_u24 alloc d v cbb)"
| "call alloc (Add_u32 d v) cbb = tested (CBB_add_u32 alloc d v cbb)"
| "call alloc (Add_u32le d v) cbb = tested (CBB_add_u32le alloc d v cbb)"
| "call alloc (Add_u64 d v) cbb = tested (CBB_add_u64 alloc d v cbb)"
| "call alloc (Add_u64le d v) cbb = tested (CBB_add_u64le alloc d v cbb)"
| "call alloc (Add_bytes d data) cbb = tested (CBB_add_bytes alloc d data cbb)"
| "call alloc (Add_space d n) cbb = tested (CBB_add_space alloc d n cbb)"
| "call alloc (Reserve d n) cbb = tested (CBB_reserve alloc d n cbb)"
| "call alloc (Add_u8_length_prefixed d) cbb = tested (CBB_add_u8_length_prefixed alloc d cbb)"
| "call alloc (Add_u16_length_prefixed d) cbb = tested (CBB_add_u16_length_prefixed alloc d cbb)"
| "call alloc (Add_u24_length_prefixed d) cbb = tested (CBB_add_u24_length_prefixed alloc d cbb)"
| "call alloc (Add_asn1 d tag) cbb = tested (CBB_add_asn1 alloc d tag cbb)"
| "call alloc (Add_asn1_uint64 d v) cbb = tested (CBB_add_asn1_uint64 alloc d v cbb)"
| "call alloc (Add_asn1_int64 d v) cbb = tested (CBB_add_asn1_int64 alloc d v cbb)"
| "call alloc (Add_asn1_octet_string d data) cbb = tested (CBB_add_asn1_octet_string alloc d data cbb)"
| "call alloc (Add_asn1_bool d v) cbb = tested (CBB_add_asn1_bool alloc d v cbb)"

text \<open>The results of the calls in turn, made whether or not one before has failed.\<close>

fun run_calls :: "(nat \<Rightarrow> bool) \<Rightarrow> cbb_call list \<Rightarrow> CBB \<Rightarrow> bool list \<times> CBB" where
  "run_calls alloc [] cbb = ([], cbb)"
| "run_calls alloc (c # cs) cbb =
     (case call alloc c cbb of (ok, cbb) \<Rightarrow>
        case run_calls alloc cs cbb of (oks, cbb) \<Rightarrow> (ok # oks, cbb))"

text \<open>Until a call fails, each is made on an object that is open.\<close>

fun calls_open :: "(nat \<Rightarrow> bool) \<Rightarrow> cbb_call list \<Rightarrow> CBB \<Rightarrow> bool" where
  "calls_open alloc [] cbb \<longleftrightarrow> True"
| "calls_open alloc (c # cs) cbb \<longleftrightarrow>
     depth c \<le> length (children cbb) \<and>
     (case call alloc c cbb of (ok, cbb) \<Rightarrow> ok \<longrightarrow> calls_open alloc cs cbb)"

section \<open>The contract of an operation\<close>

text \<open>
  \<open>refuses f\<close>: on a failed builder \<open>f\<close> fails and leaves it failed. \<open>marks d e f\<close>: on an object of depth \<open>d\<close> that
  is open \<open>f\<close> leaves a failed builder when it fails, and when it succeeds an open object of depth \<open>e\<close>.
\<close>

definition refuses :: "(CBB \<Rightarrow> ('a, CBB) outcome) \<Rightarrow> bool" where
  "refuses f \<longleftrightarrow> (\<forall>cbb. failed cbb \<longrightarrow> (\<exists>t. f cbb = (None, t) \<and> failed t))"

definition marks :: "nat \<Rightarrow> nat \<Rightarrow> (CBB \<Rightarrow> ('a, CBB) outcome) \<Rightarrow> bool" where
  "marks d e f \<longleftrightarrow>
     (\<forall>cbb r t. d \<le> length (children cbb) \<longrightarrow> f cbb = (r, t) \<longrightarrow>
        (if r = None then failed t else e \<le> length (children t)))"

named_theorems error_bit

lemma refuses_andthen [error_bit]: "refuses f \<Longrightarrow> refuses (\<lambda>cbb. andthen (f cbb) (g cbb))"
  unfolding refuses_def by (metis andthen_simps(1))

lemma marks_andthen:
  assumes "marks d e f" "\<And>c x. marks e e' (g c x)"
  shows "marks d e' (\<lambda>cbb. andthen (f cbb) (g cbb))"
  unfolding marks_def
proof (intro allI impI)
  fix cbb r t
  assume d: "d \<le> length (children cbb)" and r: "andthen (f cbb) (g cbb) = (r, t)"
  obtain x u where f: "f cbb = (x, u)" by fastforce
  with assms(1) d have x: "if x = None then failed u else e \<le> length (children u)"
    unfolding marks_def by blast
  show "if r = None then failed t else e' \<le> length (children t)"
  proof (cases x)
    case None
    with x f r show ?thesis by auto
  next
    case (Some a)
    with x f r have "e \<le> length (children u)" "g cbb a u = (r, t)" by simp_all
    with assms(2) [of cbb a] show ?thesis unfolding marks_def by blast
  qed
qed

lemma marks_mono: "marks d e f \<Longrightarrow> d \<le> d' \<Longrightarrow> e' \<le> e \<Longrightarrow> marks d' e' f"
  unfolding marks_def by (meson order_trans)

lemma marks_return [error_bit]: "e \<le> d \<Longrightarrow> marks d e (\<lambda>cbb. (Some x, cbb))"
  by (simp add: marks_def)

lemma marks_if: "marks d e f \<Longrightarrow> marks d e g \<Longrightarrow> marks d e (\<lambda>cbb. if c then f cbb else g cbb)"
  by (simp add: marks_def)

lemma cases_marked:
  "h = (if c then f else g) \<Longrightarrow> refuses f \<Longrightarrow> refuses g \<Longrightarrow> refuses h"
  "h = (if c then f else g) \<Longrightarrow> marks d e f \<Longrightarrow> marks d e g \<Longrightarrow> marks d e h"
  by simp_all

text \<open>The two halves of an operation: flushing, and a change of the buffer that sets the bit when it fails.\<close>

lemma flush_refuses [error_bit]: "refuses (CBB_flush alloc d)"
  by (simp add: refuses_def failed_flush)

lemma flush_marks [error_bit]: "marks d d (CBB_flush alloc d)"
proof -
  have "failed t" if "CBB_flush alloc d cbb = (None, t)" "d \<le> length (children cbb)" for cbb t
    using that by (rule flush_fails)
  moreover have "d \<le> length (children t)" if "CBB_flush alloc d cbb = (Some x, t)" "d \<le> length (children cbb)" for cbb x t
    using that by (auto simp: CBB_flush_def split: option.splits if_splits prod.splits)
  ultimately show ?thesis unfolding marks_def by (metis not_None_eq)
qed

definition sets_error :: "(cbb_buffer \<Rightarrow> ('a, cbb_buffer) outcome) \<Rightarrow> bool" where
  "sets_error f \<longleftrightarrow> (\<forall>b t. f b = (None, t) \<longrightarrow> error t)"

lemma on_base_marks [error_bit]: "sets_error f \<Longrightarrow> marks d d (\<lambda>cbb. on_base cbb f)"
  by (auto simp: marks_def sets_error_def on_base_def failed_def split: option.splits prod.splits)

lemma reserve_sets_error [error_bit]: "sets_error (\<lambda>b. cbb_buffer_reserve alloc b n)"
  by (auto simp: sets_error_def cbb_buffer_reserve_def Let_def split: if_splits option.splits)

lemma add_sets_error [error_bit]: "sets_error (\<lambda>b. cbb_buffer_add alloc b n)"
  using reserve_sets_error [of alloc n]
  by (auto simp: sets_error_def cbb_buffer_add_def split: andthen_splits)

lemma add_u_sets_error [error_bit]: "sets_error (\<lambda>b. cbb_buffer_add_u alloc b v n)"
  using add_sets_error [of alloc n]
  by (auto simp: sets_error_def cbb_buffer_add_u_def Let_def split: andthen_splits if_splits prod.splits)

lemma store_sets_error [error_bit]: "sets_error (\<lambda>b. (Some x, g b))"
  by (simp add: sets_error_def)

section \<open>Every operation keeps it\<close>

lemma words_marked [error_bit]:
  "refuses (\<lambda>cbb. cbb_add_u alloc d v n cbb)" "marks d d (\<lambda>cbb. cbb_add_u alloc d v n cbb)"
  unfolding cbb_add_u_def by (rule error_bit marks_andthen)+

lemma u8_marked [error_bit]: "refuses (CBB_add_u8 alloc d v)" "marks d d (CBB_add_u8 alloc d v)"
  unfolding CBB_add_u8_def [abs_def] by (rule error_bit)+

lemma bytes_marked [error_bit]:
  "refuses (CBB_add_bytes alloc d data)" "marks d d (CBB_add_bytes alloc d data)"
  unfolding CBB_add_bytes_def [abs_def] by (rule error_bit marks_andthen)+

lemma opens_child [error_bit]: "marks d (Suc d) (\<lambda>cbb. (Some x, cbb_add_child d off n asn1 cbb))"
  by (simp add: marks_def cbb_add_child_def)

lemma length_prefixed_marked [error_bit]:
  "refuses (\<lambda>cbb. cbb_add_length_prefixed alloc d cbb n)"
  "marks d (Suc d) (\<lambda>cbb. cbb_add_length_prefixed alloc d cbb n)"
  unfolding cbb_add_length_prefixed_def by (rule error_bit marks_andthen)+

lemma u8s_marked [error_bit]: "marks d d (add_u8s alloc d bs)"
  by (induction bs) (auto simp: write_all_fun intro!: error_bit marks_andthen)

lemma asn1_marked [error_bit]:
  "refuses (CBB_add_asn1 alloc d tag)" "marks d (Suc d) (CBB_add_asn1 alloc d tag)"
  unfolding CBB_add_asn1_def [abs_def] cbb_add_tag_eq Let_def by (rule error_bit marks_andthen)+

text \<open>A value is written to the child that \<open>CBB_add_asn1\<close> opens, and a flush closes it.\<close>

lemma flush_closes [error_bit]: "marks (Suc d) d (CBB_flush alloc d)"
  by (rule marks_mono [OF flush_marks]) simp_all

lemma uint64_bytes_marked [error_bit]: "marks d d (asn1_uint64_bytes alloc d v n started)"
proof (induction n arbitrary: started)
  case 0
  show ?case by (simp add: marks_def)
next
  case (Suc n)
  let ?byte = "ucast (drop_bit (8 * n) v AND 0xff) :: u8"
  have "marks d d (\<lambda>cbb. if \<not> started \<and> ?byte AND 0x80 \<noteq> 0 then CBB_add_u8 alloc d 0 cbb else (Some (), cbb))"
    by (rule marks_if) (rule error_bit order_refl)+
  then have step: "marks d d (\<lambda>cbb. andthen
      (if \<not> started \<and> ?byte AND 0x80 \<noteq> 0 then CBB_add_u8 alloc d 0 cbb else (Some (), cbb))
      (\<lambda>_ cbb. andthen (CBB_add_u8 alloc d ?byte cbb) (\<lambda>_. asn1_uint64_bytes alloc d v n True)))" (is "marks d d ?f")
    by (rule marks_andthen) (rule marks_andthen Suc error_bit)+
  have "asn1_uint64_bytes alloc d v (Suc n) started =
      (if \<not> started \<and> ?byte = 0 then asn1_uint64_bytes alloc d v n started else ?f)"
    by (rule ext) (simp only: asn1_uint64_bytes.simps Let_def split: if_split, blast)
  then show ?case using Suc [of started] step by (rule cases_marked)
qed

lemma bytes_down_marked [error_bit]: "marks d d (add_bytes_down alloc d bs n)"
proof (induction n)
  case (Suc n)
  have "marks d d (\<lambda>cbb. andthen (CBB_add_u8 alloc d (bs ! n) cbb) (\<lambda>_. add_bytes_down alloc d bs n))"
    by (rule marks_andthen Suc error_bit)+
  then show ?case by (simp add: marks_def)
qed (simp add: marks_def)

lemma add_zero_marked [error_bit]: "marks d d (\<lambda>cbb. if c then CBB_add_u8 alloc d v cbb else (Some (), cbb))"
  by (rule marks_if) (rule error_bit order_refl)+

lemma uint64_marked [error_bit]:
  "refuses (CBB_add_asn1_uint64 alloc d v)" "marks d d (CBB_add_asn1_uint64 alloc d v)"
  unfolding CBB_add_asn1_uint64_def [abs_def] by (rule error_bit marks_andthen)+

lemma int64_marked [error_bit]:
  "refuses (CBB_add_asn1_int64 alloc d v)" "marks d d (CBB_add_asn1_int64 alloc d v)"
proof -
  let ?w = "\<lambda>bs n cbb. andthen (CBB_add_asn1 alloc d CBS_ASN1_INTEGER cbb) (\<lambda>_ cbb.
      andthen (add_bytes_down alloc (Suc d) bs n cbb) (\<lambda>_. CBB_flush alloc d))"
  have "refuses (?w bs n)" "marks d d (?w bs n)" for bs n
    by (rule error_bit marks_andthen)+
  note w = this
  have "refuses (CBB_add_asn1_int64 alloc d v) \<and> marks d d (CBB_add_asn1_int64 alloc d v)"
  proof (cases "sint v \<ge> 0")
    case True
    then have "CBB_add_asn1_int64 alloc d v = CBB_add_asn1_uint64 alloc d v"
      by (intro ext) (simp only: CBB_add_asn1_int64_def if_True)
    with uint64_marked show ?thesis by simp
  next
    case False
    let ?bs = "map (\<lambda>i. ucast (drop_bit (8 * i) v)) [0..<8] :: bytes"
    from False have "CBB_add_asn1_int64 alloc d v = ?w ?bs (skip_sign_bytes ?bs 7 + 1)"
      by (intro ext) (simp only: CBB_add_asn1_int64_def if_False Let_def)
    with w [of ?bs "skip_sign_bytes ?bs 7 + 1"]
    show ?thesis by (simp only:)
  qed
  then show "refuses (CBB_add_asn1_int64 alloc d v)" "marks d d (CBB_add_asn1_int64 alloc d v)" by simp_all
qed

lemma octet_string_marked [error_bit]:
  "refuses (CBB_add_asn1_octet_string alloc d data)" "marks d d (CBB_add_asn1_octet_string alloc d data)"
  unfolding CBB_add_asn1_octet_string_def [abs_def] by (rule error_bit marks_andthen)+

lemma bool_marked [error_bit]:
  "refuses (CBB_add_asn1_bool alloc d v)" "marks d d (CBB_add_asn1_bool alloc d v)"
  unfolding CBB_add_asn1_bool_def [abs_def] by (rule error_bit marks_andthen)+

lemma space_marked [error_bit]:
  "refuses (CBB_add_space alloc d n)" "marks d d (CBB_add_space alloc d n)"
  "refuses (CBB_reserve alloc d n)" "marks d d (CBB_reserve alloc d n)"
  unfolding CBB_add_space_def [abs_def] CBB_reserve_def [abs_def] by (rule error_bit marks_andthen)+

section \<open>A sequence of calls\<close>

lemma refuses_tested: "refuses f \<Longrightarrow> failed cbb \<Longrightarrow> \<exists>t. tested (f cbb) = (False, t) \<and> failed t"
  unfolding refuses_def tested_def by fastforce

lemma marks_tested: "marks d e f \<Longrightarrow> d \<le> length (children cbb) \<Longrightarrow> tested (f cbb) = (False, t) \<Longrightarrow> failed t"
  by (cases "f cbb") (fastforce simp: marks_def tested_def)

lemma call_refused: "failed cbb \<Longrightarrow> \<exists>t. call alloc c cbb = (False, t) \<and> failed t"
  by (cases c)
    (simp_all only: call.simps CBB_add_u16_def CBB_add_u16le_def CBB_add_u24_def CBB_add_u32_def CBB_add_u32le_def
      CBB_add_u64_def CBB_add_u64le_def CBB_add_u8_length_prefixed_def CBB_add_u16_length_prefixed_def
      CBB_add_u24_length_prefixed_def, (rule refuses_tested [OF _ ], rule error_bit, assumption)+)

lemma call_marks:
  assumes "depth c \<le> length (children cbb)" "call alloc c cbb = (False, t)"
  shows "failed t"
  using assms
  by (cases c)
    (simp_all only: call.simps depth.simps CBB_add_u16_def CBB_add_u16le_def CBB_add_u24_def CBB_add_u32_def
      CBB_add_u32le_def CBB_add_u64_def CBB_add_u64le_def CBB_add_u8_length_prefixed_def
      CBB_add_u16_length_prefixed_def CBB_add_u24_length_prefixed_def,
      (erule marks_tested [rotated], assumption, rule error_bit)+)

lemma run_failed:
  "failed cbb \<Longrightarrow> run_calls alloc cs cbb = (oks, t) \<Longrightarrow> oks = replicate (length cs) False \<and> failed t"
proof (induction cs arbitrary: cbb oks)
  case (Cons c cs)
  from call_refused [OF Cons.prems(1)] obtain u where u: "call alloc c cbb = (False, u)" "failed u" by blast
  with Cons.prems(2) Cons.IH [OF u(2)] show ?case by (auto split: prod.splits)
qed simp

lemma finish_failed: "failed cbb \<Longrightarrow> fst (CBB_finish alloc d cbb out) = None"
  using failed_flush [of cbb alloc d] by (auto simp: CBB_finish_def)

theorem first_failure:
  assumes "calls_open alloc cs cbb" "run_calls alloc cs cbb = (oks, t)"
  shows "\<exists>n \<le> length cs. oks = replicate n True @ replicate (length cs - n) False \<and> (n < length cs \<longrightarrow> failed t)"
  using assms
proof (induction cs arbitrary: cbb oks)
  case (Cons c cs)
  obtain ok u where u: "call alloc c cbb = (ok, u)" by fastforce
  obtain oks' where r: "run_calls alloc cs u = (oks', t)" "oks = ok # oks'"
    using Cons.prems(2) u by (auto split: prod.splits)
  show ?case
  proof (cases ok)
    case True
    with Cons.prems(1) u have "calls_open alloc cs u" by simp
    from Cons.IH [OF this r(1)] obtain n where "n \<le> length cs"
      "oks' = replicate n True @ replicate (length cs - n) False" "n < length cs \<longrightarrow> failed t" by blast
    with r(2) True show ?thesis by (intro exI [of _ "Suc n"]) simp
  next
    case False
    with Cons.prems(1) u have "failed u" by (intro call_marks [of c cbb alloc]) simp_all
    from run_failed [OF this r(1)] r(2) False show ?thesis by (intro exI [of _ 0]) simp
  qed
qed simp

end
