(* ===== verification/SetOf.thy ===== *)
theory SetOf
  imports Stack CBB
begin

text \<open>
  \<open>CBB_flush_asn1_set_of\<close> of \<open>crypto/bytestring/cbb.c\<close>: the elements that were written into the contents
  of a SET OF are brought into the order of DER. It reads the contents back with the parser, sorts copies
  of the elements, takes the contents off the builder and writes them again.
\<close>

section \<open>Definitions\<close>

text \<open>\<open>memcmp\<close> gives the sign of the first difference; \<open>qsort\<close> uses no more of it.\<close>

fun OPENSSL_memcmp :: "bytes \<Rightarrow> bytes \<Rightarrow> int" where
  "OPENSSL_memcmp (a # as) (b # bs) = (if a = b then OPENSSL_memcmp as bs else uint a - uint b)"
| "OPENSSL_memcmp _ _ = 0"

definition compare_set_of_element :: "CBS \<Rightarrow> CBS \<Rightarrow> int" where
  "compare_set_of_element a b =
     (let a_len = CBS_len a; b_len = CBS_len b;
          min_len = (if a_len < b_len then a_len else b_len);
          ret = OPENSSL_memcmp (take min_len a) (take min_len b)
      in if ret \<noteq> 0 then ret else if a_len = b_len then 0 else if a_len < b_len then - 1 else 1)"

text \<open>The pointers \<open>qsort\<close> passes are never NULL.\<close>

definition compare_pointers :: "CBS option \<Rightarrow> CBS option \<Rightarrow> int" where
  "compare_pointers a b = (case (a, b) of (Some a, Some b) \<Rightarrow> compare_set_of_element a b | _ \<Rightarrow> 0)"

definition sizeof_CBS :: nat where "sizeof_CBS = 16"

text \<open>The number of elements, and the elements of the copy.\<close>

function count_elements :: "CBS \<Rightarrow> nat \<Rightarrow> nat option" where
  "count_elements cbs num_children =
     (if CBS_len cbs = 0 then Some num_children
      else case CBS_get_any_asn1_element cbs of
        (None, _) \<Rightarrow> None
      | (Some _, t) \<Rightarrow> count_elements t (num_children + 1))"
  by pat_completeness auto
termination
proof (relation "measure (\<lambda>(cbs, n). length cbs)", goal_cases)
  case (2 cbs n)
  then show ?case
    by (cases cbs rule: element_cases) auto
qed simp

declare count_elements.simps [simp del]

fun read_children :: "nat \<Rightarrow> CBS \<Rightarrow> CBS list option" where
  "read_children 0 cbs = Some []"
| "read_children (Suc n) cbs =
     (case CBS_get_any_asn1_element cbs of
        (None, _) \<Rightarrow> None
      | (Some (child, _, _), t) \<Rightarrow> map_option ((#) child) (read_children n t))"

text \<open>\<open>cbb->base->len = cbb->offset + cbb->pending_len_len\<close>\<close>

definition cbb_rewind :: "nat \<Rightarrow> CBB \<Rightarrow> CBB" where
  "cbb_rewind d cbb = cbb\<lparr>base := map_option (\<lambda>b. b\<lparr>buf := take (cbb_start d cbb) (buf b)\<rparr>) (base cbb)\<rparr>"

type_synonym cbs_qsort = "(CBS option \<Rightarrow> CBS option \<Rightarrow> int) \<Rightarrow> CBS option list \<Rightarrow> CBS option list"

text \<open>The outer \<open>None\<close> is a failed assertion.\<close>

definition CBB_flush_asn1_set_of :: "(nat \<Rightarrow> bool) \<Rightarrow> cbs_qsort \<Rightarrow> nat \<Rightarrow> CBB \<Rightarrow> (unit, CBB) outcome option" where
  "CBB_flush_asn1_set_of alloc qsort d cbb =
     (case CBB_flush alloc d cbb of
        (None, cbb) \<Rightarrow> Some (None, cbb)
      | (Some _, cbb) \<Rightarrow>
          (case (CBB_data d cbb, CBB_len d cbb) of
             (Some data, Some buf_len) \<Rightarrow>
               (case count_elements (CBS_init data buf_len) 0 of
                  None \<Rightarrow> Some (None, cbb)
                | Some num_children \<Rightarrow>
                    if num_children < 2 then Some (Some (), cbb)
                    else if num_children > (2 ^ 64 - 1) div sizeof_CBS then Some (None, cbb)
                    else
                      (case (OPENSSL_memdup alloc data, OPENSSL_malloc alloc (of_nat (num_children * sizeof_CBS))) of
                         (Some copy, Some _) \<Rightarrow>
                           (case read_children num_children (CBS_init copy buf_len) of
                              None \<Rightarrow> Some (None, cbb)
                            | Some elements \<Rightarrow>
                                (let elements = map the (qsort compare_pointers (map Some elements))
                                 in case write_all (CBB_add_bytes alloc d) elements (cbb_rewind d cbb) of
                                      (None, cbb) \<Rightarrow> Some (None, cbb)
                                    | (Some _, cbb) \<Rightarrow>
                                        if CBB_len d cbb = Some buf_len then Some (Some (), cbb) else None))
                       | _ \<Rightarrow> Some (None, cbb)))
           | _ \<Rightarrow> None))"

section \<open>The order\<close>

lemma compare_Nil: "compare_set_of_element [] b = (if b = [] then 0 else - 1)"
  "compare_set_of_element a [] = (if a = [] then 0 else 1)"
  by (simp_all add: compare_set_of_element_def CBS_len_def)

lemma compare_Cons:
  "compare_set_of_element (x # a) (y # b) = (if x = y then compare_set_of_element a b else uint x - uint y)"
proof -
  have "uint x = uint y \<longleftrightarrow> x = y" by (rule word_uint_eq_iff [symmetric])
  then show ?thesis by (simp add: compare_set_of_element_def CBS_len_def Let_def)
qed

text \<open>It is the lexicographic order, in which a prefix comes first.\<close>

lemma compare_order: "compare_set_of_element a b \<le> 0 \<longleftrightarrow> lexordp_eq a b"
proof (induction a arbitrary: b)
  case (Cons x a)
  show ?case
  proof (cases b)
    case b: (Cons y b')
    have "x < y \<longleftrightarrow> uint x < uint y" "x = y \<longleftrightarrow> uint x = uint y" "y < x \<longleftrightarrow> uint y < uint x"
      by (simp_all only: word_less_def word_uint_eq_iff)
    then show ?thesis unfolding b compare_Cons using Cons.IH [of b'] by (cases "x = y") auto
  qed (simp add: compare_Nil)
qed (simp add: compare_Nil)

lemma compare_swap: "compare_set_of_element a b = - compare_set_of_element b a"
proof (induction a arbitrary: b)
  case (Cons x a)
  show ?case
  proof (cases b)
    case b: (Cons y b')
    show ?thesis unfolding b using Cons.IH [of b'] by (simp add: compare_Cons)
  qed (simp add: compare_Nil)
qed (simp add: compare_Nil)

interpretation set_of_order: total_cmp "\<lambda>_. True" compare_pointers
proof
  fix a b c :: CBS
  show "compare_pointers (Some a) (Some b) < 0 \<longleftrightarrow> compare_pointers (Some b) (Some a) > 0"
    using compare_swap [of a b] by (simp add: compare_pointers_def)
  show "compare_pointers (Some a) (Some c) \<le> 0"
    if "compare_pointers (Some a) (Some b) \<le> 0" "compare_pointers (Some b) (Some c) \<le> 0"
    using that lexordp_eq_trans [of a b c] by (simp add: compare_pointers_def compare_order)
qed

text \<open>What a sort makes of elements.\<close>

definition arranged :: "cbs_qsort \<Rightarrow> bytes list \<Rightarrow> bytes list" where
  "arranged qsort es = map the (qsort compare_pointers (map Some es))"

lemma sorted_children:
  assumes "sorts (\<lambda>_. True) qsort"
  shows "mset (arranged qsort es) = mset es" "sorted_wrt lexordp_eq (arranged qsort es)"
proof -
  have "list_all (accepted (\<lambda>_. True)) (map Some es)" by (simp add: list_all_iff accepted_def)
  then have q: "mset (qsort compare_pointers (map Some es)) = mset (map Some es)"
    "ascending (\<lambda>_. True) compare_pointers (qsort compare_pointers (map Some es))"
    using assms(1) set_of_order.total_cmp_axioms unfolding sorts_def by blast+
  then have "mset (map the (qsort compare_pointers (map Some es))) = mset (map the (map Some es))"
    by (simp only: mset_map)
  then show "mset (arranged qsort es) = mset es" by (simp add: arranged_def comp_def)
  have "set (qsort compare_pointers (map Some es)) = Some ` set es" using arg_cong [OF q(1), of set_mset] by simp
  then have "\<forall>x \<in> set (qsort compare_pointers (map Some es)). \<exists>y. x = Some y" by auto
  have le: "lexordp_eq (the x) (the y)" if x: "x \<in> set (qsort compare_pointers (map Some es))"
    "y \<in> set (qsort compare_pointers (map Some es))" and c: "compare_pointers x y \<le> 0" for x y
  proof -
    obtain a b where "x = Some a" "y = Some b"
      using x \<open>\<forall>x \<in> set (qsort compare_pointers (map Some es)). \<exists>y. x = Some y\<close> by blast
    with c show ?thesis by (simp add: compare_pointers_def compare_order)
  qed
  have "sorted_wrt (\<lambda>x y. compare_pointers x y \<le> 0) (qsort compare_pointers (map Some es))"
    using q(2) by (simp add: ascending_def)
  then show "sorted_wrt lexordp_eq (arranged qsort es)"
    unfolding arranged_def sorted_wrt_map by (rule sorted_wrt_mono_rel [rotated]) (rule le)
qed

section \<open>The elements\<close>

definition der_elements :: "bytes list \<Rightarrow> bool" where
  "der_elements es \<longleftrightarrow> list_all (\<lambda>e. \<exists>tag c. length c < 2 ^ 32 \<and> e = der_element tag c) es"

lemma count_elements_inv:
  "count_elements s n = Some m \<Longrightarrow> \<exists>es. der_elements es \<and> s = concat es \<and> m = n + length es"
proof (induction s n arbitrary: m rule: count_elements.induct)
  case (1 s n)
  show ?case
  proof (cases "s = []")
    case True
    with "1.prems" show ?thesis
      by (intro exI [of _ "[]"]) (simp add: count_elements.simps CBS_len_def der_elements_def)
  next
    case False
    show ?thesis
    proof (cases s rule: element_cases)
      case fail
      with "1.prems" False show ?thesis by (simp add: count_elements.simps CBS_len_def)
    next
      case (ok tag c t)
      with "1.prems" False have "count_elements t (n + 1) = Some m"
        by (simp add: count_elements.simps [of "der_element tag c @ t"] CBS_len_def)
      moreover have "CBS_len s \<noteq> 0" using False by (simp add: CBS_len_def)
      ultimately obtain es where "der_elements es" "t = concat es" "m = n + 1 + length es"
        using "1.IH" [OF _ ok(3) [symmetric] refl] by blast
      with ok show ?thesis by (intro exI [of _ "der_element tag c # es"]) (auto simp: der_elements_def)
    qed
  qed
qed

lemma read_element:
  assumes "der_elements (e # es)"
  obtains tag hl where "CBS_get_any_asn1_element (e @ t) = (Some (e, tag, hl), t)" "e \<noteq> []" "der_elements es"
proof -
  obtain tag c where "length c < 2 ^ 32" "e = der_element tag c" "der_elements es"
    using assms by (auto simp: der_elements_def)
  moreover from this have "CBS_get_any_asn1_element (e @ t) = (Some (e, tag, length (der_header tag c)), t)"
    unfolding cbs_get_any_asn1_element_DER_iff by (intro exI [of _ c]) simp
  ultimately show ?thesis using that by simp
qed

lemma count_elements_concat: "der_elements es \<Longrightarrow> count_elements (concat es) n = Some (n + length es)"
proof (induction es arbitrary: n)
  case Nil
  then show ?case by (simp add: count_elements.simps CBS_len_def)
next
  case (Cons e es)
  obtain tag hl where "CBS_get_any_asn1_element (e @ concat es) = (Some (e, tag, hl), concat es)" "e \<noteq> []" "der_elements es"
    by (rule read_element [OF Cons.prems])
  with Cons.IH [of "n + 1"] show ?case by (simp add: count_elements.simps [of "e @ concat es"] CBS_len_def)
qed

lemma read_children_concat: "der_elements es \<Longrightarrow> read_children (length es) (concat es) = Some es"
proof (induction es)
  case (Cons e es)
  obtain tag hl where "CBS_get_any_asn1_element (e @ concat es) = (Some (e, tag, hl), concat es)" "der_elements es"
    by (rule read_element [OF Cons.prems])
  with Cons.IH show ?case by simp
qed simp

section \<open>The builder\<close>

text \<open>The contents at depth \<open>d\<close> are replaced by \<open>z\<close>.\<close>

fun replace_at :: "nat \<Rightarrow> bytes \<Rightarrow> bytes \<times> stack \<Rightarrow> bytes \<times> stack" where
  "replace_at 0 z (c, ks) = (z, [])"
| "replace_at (Suc d) z (c, (k, c') # ks) = (case replace_at d z (c', ks) of (c'', ks') \<Rightarrow> (c, (k, c'') # ks'))"
| "replace_at (Suc d) z (c, []) = (c, [])"

definition contents_at :: "nat \<Rightarrow> bytes \<times> stack \<Rightarrow> bytes" where
  "contents_at d s = (case stack_at d s of (x, y) \<Rightarrow> collapse x y)"

lemma replace_at_layout:
  "d \<le> length ks \<Longrightarrow> replace_at d z (c, ks) = (c', ks') \<Longrightarrow>
   layout c' ks' = before d (c, ks) @ z \<and> frames off c' ks' = take d (frames off c ks) \<and>
   (kinds_ok ks \<longrightarrow> kinds_ok ks') \<and> length ks' = d \<and> write_at d bs [] (c', ks') = replace_at d (z @ bs) (c, ks)"
proof (induction d arbitrary: off c ks c' ks')
  case (Suc d)
  then obtain k c1 ks1 where ks: "ks = (k, c1) # ks1" by (cases ks) auto
  obtain c2 ks2 where w: "replace_at d z (c1, ks1) = (c2, ks2)" by fastforce
  from Suc.prems ks have "d \<le> length ks1" by auto
  from Suc.IH [OF this w, where off = "off + length c + prefix_len k"] Suc.prems show ?case
    by (auto simp: ks w)
qed auto

lemma replace_at_contents:
  "d \<le> length ks \<Longrightarrow> replace_at d (contents_at d (c, ks)) (c, ks) = write_at d [] [] (c, ks)"
proof (induction d arbitrary: c ks)
  case (Suc d)
  then obtain k c1 ks1 where ks: "ks = (k, c1) # ks1" by (cases ks) auto
  with Suc show ?case by (simp add: contents_at_def)
qed (simp add: contents_at_def)

lemma replace_at_write_at:
  "d \<le> length ks \<Longrightarrow> replace_at d z (write_at d [] [] (c, ks)) = replace_at d z (c, ks)"
proof (induction d arbitrary: c ks)
  case (Suc d)
  then obtain k c1 ks1 where ks: "ks = (k, c1) # ks1" by (cases ks) auto
  with Suc show ?case by (cases "write_at d [] [] (c1, ks1)") (metis (no_types, lifting) Suc_le_mono case_prod_conv length_Cons replace_at.simps(2) write_at.simps(2))
qed simp

text \<open>Where the contents of an object start.\<close>

lemma frames_start:
  "d < length ks \<Longrightarrow> offset (frames off c ks ! d) + pending_len_len (frames off c ks ! d) = off + length (before (Suc d) (c, ks))"
proof (induction d arbitrary: off c ks)
  case 0
  then show ?case by (cases ks) auto
next
  case (Suc d)
  then obtain k c1 ks1 where ks: "ks = (k, c1) # ks1" by (cases ks) auto
  with Suc show ?case by simp
qed

lemma cbb_start_before:
  assumes "models cbb (c, ks)" "d \<le> length ks"
  shows "cbb_start d cbb = length (before d (c, ks))"
proof (cases d)
  case (Suc d')
  have "children cbb = frames 0 c ks" using assms(1) by (auto simp: models_def)
  with Suc assms(2) frames_start [of d' ks 0 c] show ?thesis by (simp add: cbb_start_def)
qed (simp add: cbb_start_def)

lemma contents_flushed:
  assumes "length ks = d"
  shows "layout c ks = before d (c, ks) @ contents_at d (c, ks)"
proof -
  obtain x where "stack_at d (c, ks) = (x, [])" "layout c ks = before d (c, ks) @ x" by (rule flushed_layout [OF assms])
  then show ?thesis by (simp add: contents_at_def)
qed

text \<open>On an object without children: its contents, and what is left when they are taken off.\<close>

lemma flushed_object:
  assumes m: "models cbb (c, ks)" and d: "length ks = d"
  shows "CBB_data d cbb = Some (contents_at d (c, ks))" "CBB_len d cbb = Some (length (contents_at d (c, ks)))"
    "models (cbb_rewind d cbb) (replace_at d [] (c, ks))" "grows_cbb cbb (cbb_rewind d cbb)"
proof -
  obtain b where b: "base cbb = Some b" "buffer_ok b" "buf b = layout c ks" "children cbb = frames 0 c ks" "kinds_ok ks"
    using m by (auto simp: models_def)
  have st: "cbb_start d cbb = length (before d (c, ks))" using cbb_start_before [OF m] d by simp
  have l: "buf b = before d (c, ks) @ contents_at d (c, ks)" using contents_flushed [OF d] b(3) by simp
  show "CBB_data d cbb = Some (contents_at d (c, ks))" "CBB_len d cbb = Some (length (contents_at d (c, ks)))"
    using b(1,4) d by (simp_all add: CBB_data_def CBB_len_def st l)
  obtain c' ks' where r: "replace_at d [] (c, ks) = (c', ks')" by fastforce
  note rl = replace_at_layout [OF _ r, of 0]
  have "buffer_ok (b\<lparr>buf := before d (c, ks)\<rparr>)" using b(2) l by (simp add: buffer_ok_def)
  moreover have "layout c' ks' = before d (c, ks)" "frames 0 c' ks' = frames 0 c ks" "kinds_ok ks'" using rl d b(5) by simp_all
  ultimately show "models (cbb_rewind d cbb) (replace_at d [] (c, ks))"
    using b(1,4) l by (simp add: models_def r cbb_rewind_def st)
  show "grows_cbb cbb (cbb_rewind d cbb)" using b(1) by (simp add: grows_cbb_def cbb_rewind_def)
qed

text \<open>Writing several strings.\<close>

lemma write_bytes_sound:
  assumes "list_all (\<lambda>e. length e < 2 ^ 64) es" "models cbb (c, ks)" "length ks = d"
    and "write_all (CBB_add_bytes alloc d) es cbb = (Some (), cbb')"
  shows "models cbb' (write_at d (concat es) [] (c, ks)) \<and> grows_cbb cbb cbb'"
  using assms
proof (induction es arbitrary: cbb c ks)
  case Nil
  obtain x where a: "stack_at d (c, ks) = (x, [])" by (rule flushed_layout [OF Nil(3)])
  have "write_at d [] [] (c, ks) = (c, ks)" using Nil(3)
  proof (induction d arbitrary: c ks)
    case (Suc d)
    then obtain k c1 ks1 where "ks = (k, c1) # ks1" by (cases ks) auto
    with Suc show ?case by simp
  qed simp
  moreover have "grows_cbb cbb cbb" using Nil(2) by (auto simp: grows_cbb_def models_def)
  ultimately show ?case using Nil by simp
next
  case (Cons e es)
  obtain cbb1 where w: "CBB_add_bytes alloc d e cbb = (Some (), cbb1)" "write_all (CBB_add_bytes alloc d) es cbb1 = (Some (), cbb')"
    using Cons.prems(4) by (auto simp: andthen_eq_Some)
  have e: "length e < 2 ^ 64" "list_all (\<lambda>e. length e < 2 ^ 64) es" using Cons.prems(1) by simp_all
  obtain c1 ks1 where s: "write_at d e [] (c, ks) = (c1, ks1)" by fastforce
  have d: "d \<le> length ks" using Cons.prems(3) by simp
  obtain x y where a: "stack_at d (c, ks) = (x, y)" by fastforce
  have l: "length ks1 = d" using layout_write_at [OF d a s, of 0] by simp
  note m1 = implements_sound(3,4) [OF implements_add_bytes [OF e(1)] Cons.prems(2) d w(1)]
  have m2: "models cbb1 (c1, ks1)" using m1(1) by (simp add: s)
  have "write_at d (concat es) [] (c1, ks1) = write_at d (e @ concat es) [] (c, ks)"
    using write_at_write_at [OF d, of "concat es" "[]" e c] by (simp add: s)
  with Cons.IH [OF e(2) m2 l w(2)] m1(2) show ?case by (auto intro: grows_cbb_trans)
qed

lemma write_bytes_complete:
  assumes "list_all (\<lambda>e. length e < 2 ^ 64) es" "models cbb (c, ks)" "length ks = d"
    and "fits_cbb alloc cbb (length (layout c ks) + length (concat es))"
  shows "\<exists>cbb'. write_all (CBB_add_bytes alloc d) es cbb = (Some (), cbb')"
  using assms
proof (induction es arbitrary: cbb c ks)
  case (Cons e es)
  have e: "length e < 2 ^ 64" "list_all (\<lambda>e. length e < 2 ^ 64) es" using Cons.prems(1) by simp_all
  obtain c1 ks1 where s: "write_at d e [] (c, ks) = (c1, ks1)" by fastforce
  have d: "d \<le> length ks" using Cons.prems(3) by simp
  obtain x where a: "stack_at d (c, ks) = (x, [])" "layout c ks = before d (c, ks) @ x" by (rule flushed_layout [OF Cons.prems(3)])
  note lw = layout_write_at [OF d a(1) s, of 0]
  have l: "length ks1 = d" "layout c1 ks1 = layout c ks @ e" using lw a(2) by simp_all
  have "fits_cbb alloc cbb (length (layout c1 ks1))"
    by (rule fits_cbb_le [OF Cons.prems(4)]) (simp add: l(2))
  then obtain cbb1 where w: "CBB_add_bytes alloc d e cbb = (Some (), cbb1)"
    using implements_complete [OF implements_add_bytes [OF e(1), of alloc d] Cons.prems(2) d] a(1) s by auto
  note m1 = implements_sound(3,4) [OF implements_add_bytes [OF e(1)] Cons.prems(2) d w]
  have m2: "models cbb1 (c1, ks1)" using m1(1) by (simp add: s)
  have "fits_cbb alloc cbb1 (length (layout c1 ks1) + length (concat es))"
    using fits_cbb_grows [OF m1(2) Cons.prems(4)] by (simp add: l(2) add.assoc)
  from Cons.IH [OF e(2) m2 l(1) this] w show ?case by auto
qed simp

lemma contents_replaced: "d \<le> length ks \<Longrightarrow> contents_at d (replace_at d z (c, ks)) = z"
proof (induction d arbitrary: c ks)
  case (Suc d)
  then obtain k c1 ks1 where ks: "ks = (k, c1) # ks1" by (cases ks) auto
  obtain c2 ks2 where w: "replace_at d z (c1, ks1) = (c2, ks2)" by fastforce
  with Suc ks show ?case using Suc.IH [of ks1 c1] by (simp add: contents_at_def)
qed (simp add: contents_at_def)

section \<open>The contents are brought into order\<close>

lemma length_concat_mset: "mset es' = mset es \<Longrightarrow> length (concat es') = length (concat es)"
  by (simp add: length_concat sum_mset_sum_list [symmetric])

text \<open>What the function does after the flush: \<open>(c, ks)\<close> has no open children at depth \<open>d\<close>.\<close>

definition after_flush :: "(nat \<Rightarrow> bool) \<Rightarrow> cbs_qsort \<Rightarrow> nat \<Rightarrow> CBB \<Rightarrow> bytes \<Rightarrow> (unit, CBB) outcome option" where
  "after_flush alloc qsort d cbb data =
     (case count_elements data 0 of
        None \<Rightarrow> Some (None, cbb)
      | Some n \<Rightarrow>
          if n < 2 then Some (Some (), cbb)
          else if n > (2 ^ 64 - 1) div 16 then Some (None, cbb)
          else if OPENSSL_memdup alloc data = None \<or> OPENSSL_malloc alloc (of_nat (n * 16)) = None then Some (None, cbb)
          else (case read_children n data of
             None \<Rightarrow> Some (None, cbb)
           | Some es \<Rightarrow>
               (case write_all (CBB_add_bytes alloc d) (arranged qsort es) (cbb_rewind d cbb) of
                  (None, cbb) \<Rightarrow> Some (None, cbb)
                | (Some _, cbb) \<Rightarrow> if CBB_len d cbb = Some (length data) then Some (Some (), cbb) else None)))"

lemma memdup_copy: "OPENSSL_memdup alloc data = Some copy \<Longrightarrow> copy = data"
  by (auto simp: OPENSSL_memdup_def split: if_splits option.splits)

lemma flush_set_of_eq:
  assumes "CBB_flush alloc d cbb = (Some (), cbb1)" "models cbb1 (c, ks)" "length ks = d"
  shows "CBB_flush_asn1_set_of alloc qsort d cbb = after_flush alloc qsort d cbb1 (contents_at d (c, ks))"
proof -
  define x where "x = contents_at d (c, ks)"
  have i: "CBS_init x (length x) = x" by (simp add: CBS_init_def)
  note fo = flushed_object(1,2) [OF assms(2,3), folded x_def]
  have start: "CBB_flush_asn1_set_of alloc qsort d cbb = (case count_elements x 0 of
      None \<Rightarrow> Some (None, cbb1)
    | Some n \<Rightarrow> if n < 2 then Some (Some (), cbb1) else if n > (2 ^ 64 - 1) div sizeof_CBS then Some (None, cbb1)
        else (case (OPENSSL_memdup alloc x, OPENSSL_malloc alloc (of_nat (n * sizeof_CBS))) of
          (Some copy, Some _) \<Rightarrow> (case read_children n (CBS_init copy (length x)) of
              None \<Rightarrow> Some (None, cbb1)
            | Some es \<Rightarrow> (case write_all (CBB_add_bytes alloc d) (arranged qsort es) (cbb_rewind d cbb1) of
                (None, cbb) \<Rightarrow> Some (None, cbb)
              | (Some _, cbb) \<Rightarrow> if CBB_len d cbb = Some (length x) then Some (Some (), cbb) else None))
        | _ \<Rightarrow> Some (None, cbb1)))"
    unfolding CBB_flush_asn1_set_of_def assms(1) arranged_def Let_def by (simp add: fo i)
  show ?thesis
  proof (cases "OPENSSL_memdup alloc x")
    case None
    then show ?thesis unfolding start after_flush_def x_def [symmetric] sizeof_CBS_def
      by (cases "count_elements x 0") simp_all
  next
    case (Some copy)
    then have "copy = x" by (rule memdup_copy)
    then show ?thesis unfolding start after_flush_def x_def [symmetric] sizeof_CBS_def Some
      by (cases "count_elements x 0"; cases "OPENSSL_malloc alloc (of_nat (the (count_elements x 0) * 16))") (simp_all add: i)
  qed
qed

lemma after_flush_cases:
  assumes q: "sorts (\<lambda>_. True) qsort" and m: "models cbb (c, ks)" and d: "length ks = d"
  shows "after_flush alloc qsort d cbb (contents_at d (c, ks)) \<noteq> None"
    and "after_flush alloc qsort d cbb (contents_at d (c, ks)) = Some (Some (), cbb') \<Longrightarrow> \<exists>es es'. der_elements es \<and>
      contents_at d (c, ks) = concat es \<and> mset es' = mset es \<and> sorted_wrt lexordp_eq es' \<and>
      models cbb' (replace_at d (concat es') (c, ks)) \<and> grows_cbb cbb cbb'"
proof -
  let ?x = "contents_at d (c, ks)"
  have dl: "d \<le> length ks" using d by simp
  obtain b where b: "base cbb = Some b" "buffer_ok b" "buf b = layout c ks" using m by (auto simp: models_def)
  have x: "length ?x < 2 ^ 64" using b contents_flushed [OF d, of c] by (simp add: buffer_ok_def)
  obtain c0 ks0 where r: "replace_at d [] (c, ks) = (c0, ks0)" by fastforce
  note rl = replace_at_layout [OF dl r]
  have m0: "models (cbb_rewind d cbb) (c0, ks0)" and g0: "grows_cbb cbb (cbb_rewind d cbb)"
    using flushed_object(3,4) [OF m d] by (simp_all add: r)
  have written: "models cbb2 (replace_at d (concat es') (c, ks)) \<and> grows_cbb cbb cbb2 \<and> CBB_len d cbb2 = Some (length (concat es'))"
    if l: "length (concat es') < 2 ^ 64" and w: "write_all (CBB_add_bytes alloc d) es' (cbb_rewind d cbb) = (Some (), cbb2)"
    for es' cbb2
  proof -
    have "length e < 2 ^ 64" if "e \<in> set es'" for e
      using l split_list [OF that] by auto
    then have es: "list_all (\<lambda>e. length e < 2 ^ 64) es'" by (simp add: list_all_iff)
    have "length ks0 = d" using rl by blast
    from write_bytes_sound [OF es m0 this w] rl
    have m2: "models cbb2 (replace_at d (concat es') (c, ks))" "grows_cbb (cbb_rewind d cbb) cbb2" by simp_all
    obtain c2 ks2 where r2: "replace_at d (concat es') (c, ks) = (c2, ks2)" by fastforce
    have "length ks2 = d" using replace_at_layout [OF dl r2] by blast
    from flushed_object(2) [OF m2(1) [unfolded r2] this] contents_replaced [OF dl, of "concat es'" c] r2
    have "CBB_len d cbb2 = Some (length (concat es'))" by simp
    with m2 g0 show ?thesis by (auto intro: grows_cbb_trans)
  qed
  have same: "replace_at d ?x (c, ks) = (c, ks)"
  proof -
    have "write_at d [] [] (c, ks) = (c, ks)" using d
    proof (induction d arbitrary: c ks)
      case (Suc d)
      then obtain k c1 ks1 where "ks = (k, c1) # ks1" by (cases ks) auto
      with Suc show ?case by simp
    qed simp
    with replace_at_contents [OF dl, of c] show ?thesis by simp
  qed
  show "after_flush alloc qsort d cbb ?x \<noteq> None"
  proof (cases "count_elements ?x 0")
    case (Some n)
    then obtain es where es: "der_elements es" "?x = concat es" "n = length es" using count_elements_inv by force
    have rd: "read_children n ?x = Some es" using read_children_concat [OF es(1)] es(2,3) by simp
    have l: "length (concat (arranged qsort es)) = length ?x"
      using length_concat_mset [OF sorted_children(1) [OF q, of es]] es(2) by simp
    show ?thesis
      using Some rd written [of "arranged qsort es"] l x
      by (auto simp: after_flush_def split: prod.split option.split)
  qed (simp add: after_flush_def)
  show "\<exists>es es'. der_elements es \<and> ?x = concat es \<and> mset es' = mset es \<and> sorted_wrt lexordp_eq es' \<and>
      models cbb' (replace_at d (concat es') (c, ks)) \<and> grows_cbb cbb cbb'"
    if a: "after_flush alloc qsort d cbb ?x = Some (Some (), cbb')"
  proof -
    obtain n where n: "count_elements ?x 0 = Some n" using a by (auto simp: after_flush_def split: option.splits)
    then obtain es where es: "der_elements es" "?x = concat es" "n = length es" using count_elements_inv by force
    have rd: "read_children n ?x = Some es" using read_children_concat [OF es(1)] es(2,3) by simp
    show ?thesis
    proof (cases "n < 2")
      case True
      then have "cbb' = cbb" using a n by (simp add: after_flush_def)
      moreover have "sorted_wrt lexordp_eq es" using True es(3) by (cases es rule: remdups_adj.cases) simp_all
      moreover have "grows_cbb cbb cbb" using b(1) by (simp add: grows_cbb_def)
      ultimately show ?thesis using es m same by (intro exI [of _ es]) simp
    next
      case False
      have l: "length (concat (arranged qsort es)) = length ?x"
        using length_concat_mset [OF sorted_children(1) [OF q, of es]] es(2) by simp
      have "write_all (CBB_add_bytes alloc d) (arranged qsort es) (cbb_rewind d cbb) = (Some (), cbb')"
        using a n rd False by (auto simp: after_flush_def split: if_splits prod.splits option.splits)
      with written [OF _ this] l x sorted_children [OF q, of es] es show ?thesis
        by (intro exI [of _ es] exI [of _ "arranged qsort es"]) simp
    qed
  qed
qed

lemma flush_set_of_sound:
  assumes q: "sorts (\<lambda>_. True) qsort" and m: "models cbb (c, ks)" and d: "d \<le> length ks"
  shows "CBB_flush_asn1_set_of alloc qsort d cbb \<noteq> None"
    and "CBB_flush_asn1_set_of alloc qsort d cbb = Some (Some (), cbb') \<Longrightarrow>
      all_closable (snd (stack_at d (c, ks))) \<and> grows_cbb cbb cbb' \<and>
      (\<exists>es es'. der_elements es \<and> contents_at d (c, ks) = concat es \<and> mset es' = mset es \<and>
        sorted_wrt lexordp_eq es' \<and> models cbb' (replace_at d (concat es') (c, ks)))"
proof -
  obtain r cbb1 where f: "CBB_flush alloc d cbb = (r, cbb1)" by fastforce
  have fails: "CBB_flush_asn1_set_of alloc qsort d cbb = Some (None, cbb1)" if "r = None"
    using f that by (simp add: CBB_flush_asn1_set_of_def)
  obtain c1 ks1 where w: "write_at d [] [] (c, ks) = (c1, ks1)" by fastforce
  obtain x y where a: "stack_at d (c, ks) = (x, y)" by fastforce
  have l: "length ks1 = d" using layout_write_at [OF d a w, of 0] by simp
  have st: "contents_at d (c1, ks1) = contents_at d (c, ks)"
    using layout_write_at [OF d a w, of 0] a by (simp add: contents_at_def)
  have rep: "replace_at d z (c1, ks1) = replace_at d z (c, ks)" for z
    using replace_at_write_at [OF d, of z c] by (simp add: w)
  have ok: "all_closable (snd (stack_at d (c, ks)))" "models cbb1 (c1, ks1)" "grows_cbb cbb cbb1"
    "CBB_flush_asn1_set_of alloc qsort d cbb = after_flush alloc qsort d cbb1 (contents_at d (c1, ks1))" if "r = Some ()"
  proof -
    have s: "CBB_flush alloc d cbb = (Some (), cbb1)" using f that by simp
    show "all_closable (snd (stack_at d (c, ks)))" "models cbb1 (c1, ks1)" "grows_cbb cbb cbb1"
      using CBB_flush_sound [OF m d s] by (simp_all add: w)
    then show "CBB_flush_asn1_set_of alloc qsort d cbb = after_flush alloc qsort d cbb1 (contents_at d (c1, ks1))"
      using flush_set_of_eq [OF s _ l] by simp
  qed
  have r: "r = None \<or> r = Some ()" by (cases r) simp_all
  show "CBB_flush_asn1_set_of alloc qsort d cbb \<noteq> None"
    using r fails ok after_flush_cases(1) [OF q _ l] by force
  assume e: "CBB_flush_asn1_set_of alloc qsort d cbb = Some (Some (), cbb')"
  then have "r = Some ()" using r fails by auto
  note ok = ok [OF this]
  obtain es es' where x: "der_elements es" "contents_at d (c, ks) = concat es" "mset es' = mset es"
    "sorted_wrt lexordp_eq es'" "models cbb' (replace_at d (concat es') (c, ks))" "grows_cbb cbb1 cbb'"
    using after_flush_cases(2) [OF q ok(2) l e [unfolded ok(4)], unfolded st rep] by blast
  have "grows_cbb cbb cbb'" by (rule grows_cbb_trans [OF ok(3) x(6)])
  with x(1-5) ok(1) show "all_closable (snd (stack_at d (c, ks))) \<and> grows_cbb cbb cbb' \<and>
      (\<exists>es es'. der_elements es \<and> contents_at d (c, ks) = concat es \<and> mset es' = mset es \<and>
        sorted_wrt lexordp_eq es' \<and> models cbb' (replace_at d (concat es') (c, ks)))"
    by blast
qed

text \<open>With memory it succeeds on every sequence of elements.\<close>

lemma flush_set_of_complete:
  assumes q: "sorts (\<lambda>_. True) qsort" and m: "models cbb (c, ks)" and d: "d \<le> length ks"
    and al: "\<forall>n. alloc n" and es: "der_elements es" "contents_at d (c, ks) = concat es" "length es < 2 ^ 60"
    and cl: "all_closable (snd (stack_at d (c, ks)))"
    and f: "fits_cbb alloc cbb (length (before d (c, ks)) + length (concat es))"
  shows "\<exists>cbb'. CBB_flush_asn1_set_of alloc qsort d cbb = Some (Some (), cbb')"
proof -
  obtain c1 ks1 where w: "write_at d [] [] (c, ks) = (c1, ks1)" by fastforce
  obtain x y where a: "stack_at d (c, ks) = (x, y)" by fastforce
  note lw = layout_write_at [OF d a w, of 0]
  have l: "length ks1 = d" using lw by simp
  have st: "contents_at d (c1, ks1) = concat es" using lw a es(2) by (simp add: contents_at_def)
  have lay: "layout c1 ks1 = before d (c, ks) @ concat es" using lw a es(2) by (simp add: contents_at_def)
  then have "fits_cbb alloc cbb (length (case write_at d [] [] (c, ks) of (c, ks) \<Rightarrow> layout c ks))"
    using f by (simp add: w)
  from CBB_flush_complete [OF m d cl this] obtain cbb1 where s: "CBB_flush alloc d cbb = (Some (), cbb1)" by blast
  have m1: "models cbb1 (c1, ks1)" and g1: "grows_cbb cbb cbb1" using CBB_flush_sound [OF m d s] by (simp_all add: w)
  have e: "CBB_flush_asn1_set_of alloc qsort d cbb = after_flush alloc qsort d cbb1 (concat es)"
    using flush_set_of_eq [OF s m1 l, of qsort] by (simp add: st)
  have cnt: "count_elements (concat es) 0 = Some (length es)" using count_elements_concat [OF es(1), of 0] by simp
  show ?thesis
  proof (cases "length es < 2")
    case True
    then show ?thesis unfolding e after_flush_def cnt by simp
  next
    case False
    obtain c0 ks0 where r: "replace_at d [] (c1, ks1) = (c0, ks0)" by fastforce
    note rl = replace_at_layout [OF _ r, of 0]
    have m0: "models (cbb_rewind d cbb1) (c0, ks0)" and g0: "grows_cbb cbb1 (cbb_rewind d cbb1)"
      using flushed_object(3,4) [OF m1 l] by (simp_all add: r)
    have l0: "length ks0 = d" using rl l by simp
    have b: "before d (c1, ks1) = before d (c, ks)"
      using contents_flushed [OF l, of c1] lay st by simp
    have len: "length (layout c0 ks0) + length (concat (arranged qsort es)) = length (before d (c, ks)) + length (concat es)"
      using rl l length_concat_mset [OF sorted_children(1) [OF q, of es]] by (simp add: b)
    have fit: "fits_cbb alloc (cbb_rewind d cbb1) (length (layout c0 ks0) + length (concat (arranged qsort es)))"
      unfolding len by (rule fits_cbb_grows [OF grows_cbb_trans [OF g1 g0] f])
    have "length (concat es) < 2 ^ 64" using f by (auto simp: fits_cbb_def fits_def split: option.splits)
    then have "length (concat (arranged qsort es)) < 2 ^ 64"
      using length_concat_mset [OF sorted_children(1) [OF q, of es]] by simp
    then have "length u < 2 ^ 64" if "u \<in> set (arranged qsort es)" for u
      using split_list [OF that] by auto
    then have "list_all (\<lambda>u. length u < 2 ^ 64) (arranged qsort es)" by (simp add: list_all_iff)
    from write_bytes_complete [OF this m0 l0 fit] obtain cbb2 where
      wr: "write_all (CBB_add_bytes alloc d) (arranged qsort es) (cbb_rewind d cbb1) = (Some (), cbb2)" by blast
    have "concat es \<noteq> []" using False es(1) by (cases es) (auto simp: der_elements_def)
    then have mem: "OPENSSL_memdup alloc (concat es) \<noteq> None" "OPENSSL_malloc alloc n \<noteq> None" for n
      using al by (simp_all add: OPENSSL_memdup_def OPENSSL_malloc_def Let_def)
    have "after_flush alloc qsort d cbb1 (concat es) =
        (if CBB_len d cbb2 = Some (length (concat es)) then Some (Some (), cbb2) else None)"
      using False es(3) mem read_children_concat [OF es(1)] wr unfolding after_flush_def cnt by simp
    with flush_set_of_sound(1) [OF q m d, of alloc] show ?thesis unfolding e by (auto split: if_splits)
  qed
qed

text \<open>The order determines the contents: the same elements, written in any order, give the same bytes.\<close>

lemma arranged_unique:
  fixes es fs :: "bytes list"
  assumes "mset es = mset fs" "sorted_wrt lexordp_eq es" "sorted_wrt lexordp_eq fs"
  shows "es = fs"
  using assms
proof (induction es arbitrary: fs)
  case (Cons e es)
  then obtain f fs' where fs: "fs = f # fs'" by (cases fs) auto
  have "e \<in> set fs" "f \<in> set (e # es)" using Cons.prems(1) fs by (metis list.set_intros(1) mset_eq_setD)+
  then have "lexordp_eq e f" "lexordp_eq f e"
    using Cons.prems(2,3) fs lexordp_eq_refl by auto
  then have "e = f" by (rule lexordp_eq_antisym)
  with Cons fs show ?case by simp
qed simp

end
