(* ===== verification/ASN1_String.thy ===== *)
theory ASN1_String
  imports Mem
begin

text \<open>
  \<open>ASN1_STRING\<close> and the functions of \<open>crypto/asn1/asn1_lib.c\<close> that make, fill and copy one. The types of
  strings and times are all this record, told apart by \<open>str_type\<close>.
\<close>

section \<open>Definitions\<close>

text \<open>\<open>ASN1_STRING\<close>; \<open>str_data\<close> is the whole buffer, with the byte after the contents.\<close>

record asn1_string =
  str_length :: int
  str_type :: int
  str_data :: "bytes option"
  str_flags :: int

definition sizeof_ASN1_STRING :: u64 where "sizeof_ASN1_STRING = 24"

definition ASN1_STRING_type_new :: "(nat \<Rightarrow> bool) \<Rightarrow> int \<Rightarrow> asn1_string option" where
  "ASN1_STRING_type_new alloc type =
     (if OPENSSL_malloc alloc sizeof_ASN1_STRING = None then None
      else Some \<lparr>str_length = 0, str_type = type, str_data = None, str_flags = 0\<rparr>)"

text \<open>
  \<open>ASN1_STRING_set\<close> for a \<open>len\<close> that is not negative: the bytes \<open>src\<close> are copied, with a zero after
  them, into the buffer, which is made larger first when it has to be. The outer \<open>None\<close> is undefined
  behaviour: \<open>len + 1\<close> is computed in \<open>int\<close>, and overflows for the largest of them.
\<close>

definition int_max :: int where "int_max = 2 ^ 31 - 1"

definition ASN1_STRING_set :: "(nat \<Rightarrow> bool) \<Rightarrow> asn1_string \<Rightarrow> bytes \<Rightarrow> (unit, asn1_string) outcome option" where
  "ASN1_STRING_set alloc str src =
     (let len = int (length src)
      in if str_length str \<le> len \<or> str_data str = None then
           (if len + 1 > int_max then None
            else if OPENSSL_malloc alloc (of_int (len + 1)) = None then Some (None, str)
            else Some (Some (), str\<lparr>str_length := len, str_data := Some (src @ [0])\<rparr>))
         else
           Some (Some (), str\<lparr>str_length := len,
              str_data := map_option (\<lambda>buf. memcpy buf 0 (src @ [0])) (str_data str)\<rparr>))"

text \<open>
  \<open>ASN1_STRING_set\<close> without data: the buffer is made large enough for \<open>len\<close> bytes and one more, and keeps
  what is in it.
\<close>

definition resize :: "nat \<Rightarrow> bytes \<Rightarrow> bytes" where
  "resize n b = take n b @ replicate (n - length b) 0"

definition ASN1_STRING_set_len :: "(nat \<Rightarrow> bool) \<Rightarrow> asn1_string \<Rightarrow> nat \<Rightarrow> (unit, asn1_string) outcome option" where
  "ASN1_STRING_set_len alloc str len =
     (if str_length str \<le> int len \<or> str_data str = None then
        (if int len + 1 > int_max then None
         else if OPENSSL_malloc alloc (of_nat (len + 1)) = None then Some (None, str)
         else Some (Some (), str\<lparr>str_length := int len,
             str_data := Some (resize (len + 1) (case str_data str of None \<Rightarrow> [] | Some b \<Rightarrow> b))\<rparr>))
      else Some (Some (), str\<lparr>str_length := int len\<rparr>))"

text \<open>\<open>ASN1_STRING_copy\<close> of a string with the contents \<open>src\<close>, as long as its length says.\<close>

definition ASN1_STRING_copy ::
  "(nat \<Rightarrow> bool) \<Rightarrow> asn1_string \<Rightarrow> asn1_string option \<Rightarrow> (unit, asn1_string) outcome option" where
  "ASN1_STRING_copy alloc dst str =
     (case str of
        None \<Rightarrow> Some (None, dst)
      | Some str \<Rightarrow>
          map_option (\<lambda>r. andthen r (\<lambda>_ dst. (Some (), dst\<lparr>str_flags := str_flags str\<rparr>)))
            (ASN1_STRING_set alloc (dst\<lparr>str_type := str_type str\<rparr>)
              (take (nat (str_length str)) (case str_data str of None \<Rightarrow> [] | Some b \<Rightarrow> b))))"

section \<open>Lemmas\<close>

text \<open>The contents of a string, if it has that many bytes and the zero after them.\<close>

definition has_text :: "asn1_string \<Rightarrow> bytes \<Rightarrow> bool" where
  "has_text d b \<longleftrightarrow> (\<exists>rest. str_data d = Some (b @ 0 # rest)) \<and> str_length d = int (length b)"

text \<open>A string whose buffer is as the functions above leave it: none, or longer than the length.\<close>

definition str_ok :: "asn1_string \<Rightarrow> bool" where
  "str_ok d \<longleftrightarrow> 0 \<le> str_length d \<and>
     (case str_data d of None \<Rightarrow> True | Some b \<Rightarrow> str_length d < int (length b))"

lemma memcpy_0: "length src \<le> length buf \<Longrightarrow> memcpy buf 0 src = src @ drop (length src) buf"
  by (simp add: memcpy_def)

lemma ASN1_STRING_set_text:
  assumes "str_ok str" "ASN1_STRING_set alloc str src = Some (Some (), d)"
  shows "has_text d src" "str_type d = str_type str" "str_flags d = str_flags str" "str_ok d"
  using assms
  by (auto simp: ASN1_STRING_set_def Let_def has_text_def str_ok_def memcpy_0 split: if_splits option.splits)

lemma ASN1_STRING_set_defined:
  "int (length src) < int_max \<Longrightarrow> \<exists>r d. ASN1_STRING_set alloc str src = Some (r, d)"
  by (simp add: ASN1_STRING_set_def Let_def)

end
