(* ===== verification/ASN1_Values.thy ===== *)
theory ASN1_Values
  imports CBB_ASN1
begin

text \<open>
  The values of \<open>cbs.c\<close> and \<open>cbb.c\<close> against one specification: \<open>der_int\<close> is the content of a DER
  \<open>INTEGER\<close>, the shortest two's-complement big-endian form. The readers accept exactly it (and the
  range of their C type), the writers produce it, so that each pair is a \<open>serializer\<close>.
\<close>

section \<open>Two's complement\<close>

definition tc_val :: "bytes \<Rightarrow> int" where
  "tc_val bs = int (be_val bs) - (if bs \<noteq> [] \<and> 128 \<le> uint (hd bs) then 256 ^ length bs else 0)"

function der_int :: "int \<Rightarrow> bytes" where
  "der_int x = (if - 128 \<le> x \<and> x < 128 then [of_int x] else der_int (x div 256) @ [of_int x])"
  by pat_completeness auto
termination
proof (relation "measure (\<lambda>x. nat \<bar>x\<bar>)")
  fix x :: int
  assume "\<not> (- 128 \<le> x \<and> x < 128)"
  then have "\<bar>x div 256\<bar> < \<bar>x\<bar>" by linarith
  then show "(x div 256, x) \<in> measure (\<lambda>x. nat \<bar>x\<bar>)" by simp
qed simp

declare der_int.simps [simp del]

lemma der_int_step:
  "\<not> (- 128 \<le> x \<and> x < 128) \<Longrightarrow> der_int x = der_int (x div 256) @ [of_int x]"
  by (subst der_int.simps) (simp only: if_False)

text \<open>The minimality rule of DER: the first nine bits are neither all zeros nor all ones.\<close>

fun minimal :: "bytes \<Rightarrow> bool" where
  "minimal [] = False"
| "minimal [b] = True"
| "minimal (a # b # bs) =
     (\<not> (uint a = 0 \<and> uint b < 128) \<and> \<not> (uint a = 255 \<and> 128 \<le> uint b))"

lemma uint_u8: "0 \<le> uint (b :: u8)" "uint (b :: u8) < 256"
  using unsigned_less [of b, where ?'a = int] by simp_all

lemma tc_val_snoc: "bs \<noteq> [] \<Longrightarrow> tc_val (bs @ [b]) = 256 * tc_val bs + uint b"
  by (simp add: tc_val_def)

lemma tc_val_single: "tc_val [b] = (if uint b < 128 then uint b else uint b - 256)"
  by (simp add: tc_val_def be_val_Cons)

lemma of_int_tc: "(of_int (256 * m + uint b) :: u8) = b"
proof -
  have "uint (of_int (256 * m + uint b) :: u8) = (256 * m + uint b) mod 256"
    by (simp only: uint_word_of_int_eq take_bit_eq_mod) simp
  also have "\<dots> = uint b" using uint_u8 [of b] by simp
  finally show ?thesis by (simp only: word_uint_eq_iff)
qed

lemma minimal_snoc:
  "bs \<noteq> [] \<Longrightarrow> minimal (bs @ [b]) \<longleftrightarrow>
     (if length bs = 1 then \<not> (- 128 \<le> tc_val (bs @ [b]) \<and> tc_val (bs @ [b]) < 128) else minimal bs)"
proof (cases bs rule: minimal.cases)
  case (2 a)
  have "tc_val [a, b] = 256 * tc_val [a] + uint b" using tc_val_snoc [of "[a]" b] by simp
  moreover have "\<not> (p = 0 \<and> q < 128) \<and> \<not> (p = 255 \<and> 128 \<le> q) \<longleftrightarrow>
      \<not> (- 128 \<le> 256 * (if p < 128 then p else p - 256) + q \<and>
         256 * (if p < 128 then p else p - 256) + q < 128)"
    if "0 \<le> p" "p < 256" "0 \<le> q" "q < 256" for p q :: int
  proof -
    have "p = 0 \<or> 0 < p \<and> p < 128 \<or> p = 255 \<or> 128 \<le> p \<and> p < 255"
      using that by arith
    then show ?thesis using that by (elim disjE) auto
  qed
  from this [OF uint_u8 [of a] uint_u8 [of b]]
  have "minimal [a, b] \<longleftrightarrow> \<not> (- 128 \<le> 256 * tc_val [a] + uint b \<and> 256 * tc_val [a] + uint b < 128)"
    by (simp only: minimal.simps tc_val_single)
  ultimately show ?thesis by (simp add: 2)
qed simp_all

lemma minimal_range:
  "minimal bs \<Longrightarrow> 2 \<le> length bs \<Longrightarrow> \<not> (- 128 \<le> tc_val bs \<and> tc_val bs < 128)"
proof (induction bs rule: rev_induct)
  case (snoc b bs)
  then have "bs \<noteq> []" by auto
  show ?case
  proof (cases "length bs = 1")
    case True
    with snoc.prems(1) minimal_snoc [OF \<open>bs \<noteq> []\<close>, of b] show ?thesis by simp
  next
    case False
    with snoc \<open>bs \<noteq> []\<close> have "\<not> (- 128 \<le> tc_val bs \<and> tc_val bs < 128)"
      by (auto simp: minimal_snoc Suc_le_eq neq_Nil_conv)
    with uint_u8 [of b] show ?thesis unfolding tc_val_snoc [OF \<open>bs \<noteq> []\<close>] by linarith
  qed
qed simp

lemma der_int_tc_val: "minimal bs \<Longrightarrow> der_int (tc_val bs) = bs"
proof (induction bs rule: rev_induct)
  case (snoc b bs)
  show ?case
  proof (cases "bs = []")
    case True
    have "- 128 \<le> tc_val [b] \<and> tc_val [b] < 128"
      using uint_u8 [of b] unfolding tc_val_single by (split if_split) linarith
    moreover have "of_int (tc_val [b]) = b"
      using of_int_tc [of "if uint b < 128 then 0 else -1" b] by (auto simp: tc_val_single)
    ultimately show ?thesis by (subst der_int.simps) (simp add: True)
  next
    case False
    have "2 \<le> length (bs @ [b])" using False by (cases bs) auto
    then have r: "\<not> (- 128 \<le> tc_val (bs @ [b]) \<and> tc_val (bs @ [b]) < 128)"
      using minimal_range [OF snoc.prems] by simp
    have m: "minimal bs" using snoc.prems False minimal_snoc [OF False, of b]
      by (cases bs rule: minimal.cases) (auto split: if_splits)
    have "tc_val (bs @ [b]) div 256 = tc_val bs" "of_int (tc_val (bs @ [b])) = b"
      using uint_u8 [of b] by (simp_all only: tc_val_snoc [OF False] of_int_tc)
    then show ?thesis by (simp only: der_int_step [OF r] snoc.IH [OF m])
  qed
qed simp

lemma tc_val_der_int: "tc_val (der_int x) = x \<and> minimal (der_int x)"
proof (induction x rule: der_int.induct)
  case (1 x)
  have u: "uint (of_int x :: u8) = x mod 256"
    by (simp add: uint_word_of_int_eq take_bit_eq_mod)
  show ?case
  proof (cases "- 128 \<le> x \<and> x < 128")
    case True
    have "x mod 256 = (if 0 \<le> x then x else x + 256)"
    proof (cases "0 \<le> x")
      case False
      then have "(x + 256) mod 256 = x + 256" using True by (intro mod_pos_pos_trivial) simp_all
      with False show ?thesis by simp
    qed (use True in simp)
    with True u show ?thesis by (simp add: der_int.simps tc_val_single)
  next
    case False
    then have d: "der_int x = der_int (x div 256) @ [of_int x]" by (rule der_int_step)
    from 1 [OF False] have ih: "tc_val (der_int (x div 256)) = x div 256" "minimal (der_int (x div 256))" by simp_all
    then have ne: "der_int (x div 256) \<noteq> []" by (cases "der_int (x div 256)") auto
    have t: "tc_val (der_int x) = x" unfolding d tc_val_snoc [OF ne] ih(1) u by simp
    with False minimal_snoc [OF ne, of "of_int x"] ih(2) d show ?thesis by (auto split: if_splits)
  qed
qed

lemma der_int_iff: "bs = der_int x \<longleftrightarrow> minimal bs \<and> tc_val bs = x"
  using der_int_tc_val tc_val_der_int by metis

lemma der_int_nonempty [simp]: "der_int x \<noteq> []"
  using tc_val_der_int [of x] by (cases "der_int x") auto

lemma der_int_inj: "der_int x = der_int y \<longleftrightarrow> x = y"
  by (metis tc_val_der_int)

section \<open>The readers\<close>

lemma uint_less_128: "unat (b :: u8) < 128 \<longleftrightarrow> uint b < 128"
  unfolding unat_eq_nat_uint by arith

lemma and_80: "b AND 0x80 \<noteq> (0 :: u8) \<longleftrightarrow> 128 \<le> uint b"
  by (simp add: and_80_eq_0 uint_less_128 not_less)

text \<open>The three checks that both readers make are those of \<open>minimal\<close>.\<close>

lemma minimal_iff:
  "minimal data \<longleftrightarrow> data \<noteq> [] \<and>
     \<not> (length data > 1 \<and> data ! 0 = 0 \<and> data ! 1 AND 0x80 = 0) \<and>
     \<not> (length data > 1 \<and> data ! 0 = 0xff \<and> data ! 1 AND 0x80 \<noteq> 0)"
proof -
  have "uint a = 0 \<longleftrightarrow> a = 0" "uint a = 255 \<longleftrightarrow> a = 0xff" "128 \<le> uint a \<longleftrightarrow> a AND 0x80 \<noteq> 0" "uint a < 128 \<longleftrightarrow> a AND 0x80 = 0"
    for a :: u8
    using and_80 [of a] by (auto simp: word_uint_eq_iff [of a])
  then show ?thesis by (cases data rule: minimal.cases) auto
qed

lemma tc_val_nonneg: "data \<noteq> [] \<Longrightarrow> 0 \<le> tc_val data \<longleftrightarrow> data ! 0 AND 0x80 = 0"
proof -
  assume d: "data \<noteq> []"
  have "int (be_val data) < int (256 ^ length data)" using be_val_less [of data] by (simp only: of_nat_less_iff)
  then have "int (be_val data) < 256 ^ length data" by simp
  moreover have "data ! 0 AND 0x80 = 0 \<longleftrightarrow> \<not> 128 \<le> uint (hd data)"
    using and_80 [of "data ! 0"] d by (auto simp: hd_conv_nth)
  ultimately show ?thesis using d by (simp add: tc_val_def)
qed

lemma asn1_uint64_loop_eq:
  "asn1_uint64_loop v bs =
     (if unat v * 256 ^ length bs + be_val bs < 2 ^ 64
      then Some (of_nat (unat v * 256 ^ length bs + be_val bs)) else None)"
proof (induction v bs rule: asn1_uint64_loop.induct)
  case (1 out)
  then show ?case using unsigned_less [of out, where ?'a = nat] by (simp add: be_val_def)
next
  case (2 out b data)
  have split: "unat out * 256 ^ length (b # data) + be_val (b # data) =
      (unat out * 256 + unat b) * 256 ^ length data + be_val data"
    by (simp add: be_val_Cons algebra_simps)
  show ?case
  proof (cases "drop_bit 56 out = 0")
    case True
    then have o: "unat out < 2 ^ 56" by (simp add: drop_bit_eq_0_u64)
    have b: "unat (ucast b :: u64) = unat b" by (simp add: unat_ucast_up)
    then have "unat (push_bit 8 out OR ucast b) = unat out * 256 + unat b"
      using unat_shift_or [of "ucast b :: u64" 8 out] o unat_u8_less [of b] by (simp del: unat_u8_less)
    with 2 True show ?thesis unfolding split by simp
  next
    case False
    then have "2 ^ 56 \<le> unat out" by (simp add: drop_bit_eq_0_u64)
    then have "2 ^ 56 * 256 \<le> (unat out * 256 + unat b) * 256 ^ length data"
      by (metis add_increasing2 le_add1 mult_le_mono1 mult_le_mono nat_mult_1_right one_le_numeral
          one_le_power trans_le_add1)
    with False show ?thesis unfolding split by simp
  qed
qed

lemma tc_val_pos: "0 \<le> tc_val data \<Longrightarrow> data \<noteq> [] \<Longrightarrow> tc_val data = int (be_val data)"
  using and_80 [of "data ! 0"] tc_val_nonneg [of data] by (auto simp: tc_val_def hd_conv_nth)

lemma length_der_int: "- (128 * 256 ^ k) \<le> x \<Longrightarrow> x < 128 * 256 ^ k \<Longrightarrow> length (der_int x) \<le> Suc k"
proof (induction k arbitrary: x)
  case 0
  then show ?case by (simp add: der_int.simps)
next
  case (Suc k)
  then have "- (128 * 256 ^ k) \<le> x div 256" "x div 256 < 128 * 256 ^ k" by simp_all
  from Suc.IH [OF this] show ?case
    by (cases "- 128 \<le> x \<and> x < 128") (simp_all add: der_int_step der_int.simps [of x])
qed

lemma tc_val_range:
  "bs \<noteq> [] \<Longrightarrow> - (128 * 256 ^ (length bs - 1)) \<le> tc_val bs \<and> tc_val bs < 128 * 256 ^ (length bs - 1)"
proof (induction bs rule: rev_induct)
  case (snoc b bs)
  show ?case
  proof (cases "bs = []")
    case True
    obtain p where "uint b = p" "0 \<le> p" "p < 256" using uint_u8 [of b] by blast
    with True show ?thesis by (auto simp: tc_val_single)
  next
    case False
    obtain p where "uint b = p" "0 \<le> p" "p < 256" using uint_u8 [of b] by blast
    moreover obtain n where "length bs = Suc n" using False by (cases bs) auto
    ultimately show ?thesis using snoc False by (simp add: tc_val_snoc)
  qed
qed simp

theorem CBS_get_asn1_uint64_iff:
  "CBS_get_asn1_uint64 s = (Some v, t) \<longleftrightarrow> s = der_element CBS_ASN1_INTEGER (der_int (uint v)) @ t"
proof
  assume "CBS_get_asn1_uint64 s = (Some v, t)"
  then obtain data where d: "length data < 2 ^ 32" "s = der_element CBS_ASN1_INTEGER data @ t"
    and c: "data \<noteq> []" "data ! 0 AND 0x80 = 0"
      "\<not> (data ! 0 = 0 \<and> length data > 1 \<and> data ! 1 AND 0x80 = 0)"
    and l: "asn1_uint64_loop 0 data = Some v"
    by (auto simp: CBS_get_asn1_uint64_def andthen_eq_Some CBS_get_asn1_iff Let_def CBS_len_def split: if_splits)
  have m: "minimal data" using c by (auto simp: minimal_iff)
  from l have "be_val data < 2 ^ 64" "v = of_nat (be_val data)"
    by (auto simp: asn1_uint64_loop_eq split: if_splits)
  then have "uint v = int (be_val data)" by (simp add: unsigned_of_nat take_bit_nat_eq_self)
  then have "uint v = tc_val data" using c by (simp add: tc_val_pos tc_val_nonneg)
  with der_int_tc_val [OF m] d show "s = der_element CBS_ASN1_INTEGER (der_int (uint v)) @ t" by simp
next
  assume s: "s = der_element CBS_ASN1_INTEGER (der_int (uint v)) @ t"
  define data where "data = der_int (uint v)"
  have t: "tc_val data = uint v" and m: "minimal data" using tc_val_der_int by (simp_all add: data_def)
  have v: "uint v < 2 ^ 64" using unsigned_less [of v, where ?'a = int] by simp
  moreover have "- (128 * 256 ^ 8) \<le> uint v" by (rule order_trans [of _ 0]) simp_all
  ultimately have "length data \<le> Suc 8" unfolding data_def by (intro length_der_int) simp_all
  then have g: "CBS_get_asn1 s CBS_ASN1_INTEGER = (Some data, t)" by (simp add: CBS_get_asn1_iff s data_def)
  have c: "data \<noteq> []" "data ! 0 AND 0x80 = 0"
    "\<not> (data ! 0 = 0 \<and> length data > 1 \<and> data ! 1 AND 0x80 = 0)"
    using m tc_val_nonneg [of data] by (auto simp: minimal_iff t)
  then have "uint v = int (be_val data)" using tc_val_pos [of data] t by simp
  then have "unat v = be_val data" by (simp only: unat_eq_nat_uint nat_int)
  then have "asn1_uint64_loop 0 data = Some v"
    using unsigned_less [of v, where ?'a = nat] by (simp add: asn1_uint64_loop_eq flip: \<open>unat v = be_val data\<close>)
  with g c show "CBS_get_asn1_uint64 s = (Some v, t)"
    by (auto simp: CBS_get_asn1_uint64_def Let_def CBS_len_def)
qed

text \<open>The \<open>int64_t\<close> that is assembled byte by byte.\<close>

lemma foldl_update:
  "n \<le> length u \<Longrightarrow> foldl (\<lambda>u i. u[i := f i]) u [0..<n] = map f [0..<n] @ drop n u"
proof (induction n)
  case (Suc n)
  then have "drop n u = u ! n # drop (Suc n) u" by (simp add: Cons_nth_drop_Suc)
  with Suc show ?case by (simp add: list_update_append)
qed simp

lemma le_val_replicate_ff: "int (le_val (replicate n 0xff)) = 256 ^ n - 1"
  by (induction n) simp_all

lemma le_val_replicate_0: "le_val (replicate n 0) = 0"
  by (induction n) simp_all

lemma int64_assembled:
  assumes "data \<noteq> []" "length data \<le> 8"
  defines "u \<equiv> foldl (\<lambda>u i. u[i := data ! (length data - i - 1)])
    (replicate 8 (if data ! 0 AND 0x80 \<noteq> 0 then 0xff else 0)) [0..<length data]"
  shows "word_of_le u = of_int (tc_val data)"
proof -
  define b :: u8 where "b = (if data ! 0 AND 0x80 \<noteq> 0 then 0xff else 0)"
  have r: "rev data = map (\<lambda>i. data ! (length data - i - 1)) [0..<length data]"
    by (rule nth_equalityI) (simp_all add: rev_nth)
  have "u = rev data @ replicate (8 - length data) b"
    using assms(2) by (simp add: u_def foldl_update b_def r)
  then have "int (le_val u) = int (be_val data) + 256 ^ length data * int (le_val (replicate (8 - length data) b))"
    by (simp add: le_val_append le_val_rev)
  moreover have "256 ^ length data * (256 ^ (8 - length data) - 1) = (2 ^ 64 :: int) - 256 ^ length data"
    using assms(2) by (simp add: right_diff_distrib flip: power_add)
  moreover have "data ! 0 AND 0x80 \<noteq> 0 \<longleftrightarrow> 128 \<le> uint (hd data)"
    using assms(1) by (simp add: and_80 hd_conv_nth)
  ultimately have "int (le_val u) = tc_val data + (if data ! 0 AND 0x80 \<noteq> 0 then 2 ^ 64 else 0)"
    using assms(1) by (simp add: tc_val_def b_def le_val_replicate_ff le_val_replicate_0)
  then have "of_int (int (le_val u)) = (of_int (tc_val data) :: u64)"
    by (auto simp: word_of_int_eq_iff take_bit_eq_mod)
  then show ?thesis by (simp add: word_of_le_def)
qed

lemma CBS_get_asn1_int64_eq:
  "CBS_get_asn1_int64 s = andthen (CBS_get_asn1 s CBS_ASN1_INTEGER) (\<lambda>data t.
     if minimal data \<and> length data \<le> 8 then (Some (of_int (tc_val data)), t) else (None, t))"
  unfolding CBS_get_asn1_int64_def
proof (rule andthen_cong [OF refl])
  fix data t :: bytes
  let ?c1 = "length data = 0 \<or> length data > 8"
  let ?c2 = "length data > 1 \<and> data ! 0 = 0 \<and> data ! 1 AND 0x80 = 0"
  let ?c3 = "length data > 1 \<and> data ! 0 = 0xff \<and> data ! 1 AND 0x80 \<noteq> 0"
  have m: "minimal data \<and> length data \<le> 8 \<longleftrightarrow> \<not> ?c1 \<and> \<not> ?c2 \<and> \<not> ?c3" by (auto simp: minimal_iff)
  show "(let len = CBS_len data in
       if len = 0 \<or> len > 8 then (None, t)
       else if len > 1 \<and> data ! 0 = 0 \<and> data ! 1 AND 0x80 = 0 then (None, t)
       else if len > 1 \<and> data ! 0 = 0xff \<and> data ! 1 AND 0x80 \<noteq> 0 then (None, t)
       else
         let is_negative = data ! 0 AND 0x80 \<noteq> 0;
             u = replicate 8 (if is_negative then 0xff else 0);
             u = foldl (\<lambda>u i. u[i := data ! (len - i - 1)]) u [0..<len]
         in (Some (word_of_le u), t)) =
    (if minimal data \<and> length data \<le> 8 then (Some (of_int (tc_val data)), t) else (None, t))"
  proof (cases ?c1)
    case True
    then show ?thesis unfolding m by (simp add: CBS_len_def)
  next
    case False
    then have d: "data \<noteq> []" "length data \<le> 8" by auto
    from False show ?thesis
      unfolding m Let_def CBS_len_def int64_assembled [OF d] by simp
  qed
qed

theorem CBS_get_asn1_int64_iff:
  "CBS_get_asn1_int64 s = (Some v, t) \<longleftrightarrow> s = der_element CBS_ASN1_INTEGER (der_int (sint v)) @ t"
proof
  assume "CBS_get_asn1_int64 s = (Some v, t)"
  then obtain data where d: "length data < 2 ^ 32" "s = der_element CBS_ASN1_INTEGER data @ t"
    and c: "length data \<le> 8" and m: "minimal data"
    and v: "v = of_int (tc_val data)"
    by (auto simp: CBS_get_asn1_int64_eq andthen_eq_Some CBS_get_asn1_iff split: if_splits)
  have ne: "data \<noteq> []" using m by auto
  have "(256 :: int) ^ (length data - 1) \<le> 256 ^ 7" using c by (intro power_increasing) simp_all
  then have "- (2 ^ 63) \<le> tc_val data" "tc_val data < 2 ^ 63"
    using tc_val_range [OF ne] by simp_all
  then have "sint v = tc_val data" by (simp add: v sint_sbintrunc' signed_take_bit_int_eq_self)
  with der_int_tc_val [OF m] d show "s = der_element CBS_ASN1_INTEGER (der_int (sint v)) @ t" by simp
next
  assume s: "s = der_element CBS_ASN1_INTEGER (der_int (sint v)) @ t"
  define data where "data = der_int (sint v)"
  have t: "tc_val data = sint v" and m: "minimal data" using tc_val_der_int by (simp_all add: data_def)
  have "- (2 ^ 63) \<le> sint v" "sint v < 2 ^ 63"
    using sint_greater_eq [of v] sint_less [of v] by simp_all
  then have l: "length data \<le> Suc 7" unfolding data_def by (intro length_der_int) simp_all
  then have g: "CBS_get_asn1 s CBS_ASN1_INTEGER = (Some data, t)" by (simp add: CBS_get_asn1_iff s data_def)
  have "of_int (tc_val data) = v" by (simp add: t)
  with g l m show "CBS_get_asn1_int64 s = (Some v, t)" by (simp add: CBS_get_asn1_int64_eq)
qed

definition der_bool :: "bool \<Rightarrow> bytes" where
  "der_bool v = [if v then 0xff else 0]"

theorem CBS_get_asn1_bool_iff:
  "CBS_get_asn1_bool s = (Some v, t) \<longleftrightarrow> s = der_element CBS_ASN1_BOOLEAN (der_bool v) @ t"
proof
  assume "CBS_get_asn1_bool s = (Some v, t)"
  then obtain data where "s = der_element CBS_ASN1_BOOLEAN data @ t" "length data = 1"
    "data ! 0 = 0 \<or> data ! 0 = 0xff" "v = (data ! 0 \<noteq> 0)"
    by (auto simp: CBS_get_asn1_bool_def andthen_eq_Some CBS_get_asn1_iff Let_def CBS_len_def split: if_splits)
  then show "s = der_element CBS_ASN1_BOOLEAN (der_bool v) @ t"
    by (cases data) (auto simp: der_bool_def)
next
  assume s: "s = der_element CBS_ASN1_BOOLEAN (der_bool v) @ t"
  have "length (der_bool v) < 2 ^ 32" by (simp add: der_bool_def)
  then have "CBS_get_asn1 s CBS_ASN1_BOOLEAN = (Some (der_bool v), t)" by (simp add: CBS_get_asn1_iff s)
  then show "CBS_get_asn1_bool s = (Some v, t)"
    by (auto simp: CBS_get_asn1_bool_def CBS_len_def der_bool_def Let_def)
qed

section \<open>The writers\<close>

lemma be_bytes_Cons: "be_bytes (Suc n) v = of_nat (v div 256 ^ n) # be_bytes n v"
proof (induction n arbitrary: v)
  case (Suc n)
  have "be_bytes (Suc (Suc n)) v = be_bytes (Suc n) (v div 256) @ [of_nat v]" by (rule be_bytes.simps)
  also have "\<dots> = of_nat (v div 256 div 256 ^ n) # be_bytes n (v div 256) @ [of_nat v]"
    by (simp only: Suc append_Cons)
  also have "\<dots> = of_nat (v div 256 ^ Suc n) # be_bytes (Suc n) v"
    by (simp only: be_bytes.simps div_mult2_eq [symmetric] power_Suc)
  finally show ?case .
qed simp

lemma byte_at: "ucast (drop_bit (8 * n) v AND 0xff :: u64) = (of_nat (unat v div 256 ^ n) :: u8)"
proof -
  have m: "(0xff :: u64) = mask 8" by (simp add: mask_eq_exp_minus_1)
  have p: "(2 :: nat) ^ (8 * n) = 256 ^ n" by (simp add: power_mult)
  show ?thesis
    by (simp add: m word_unat_eq_iff unsigned_ucast_eq unat_and_mask_mod unat_drop_bit_div p take_bit_eq_mod)
qed

text \<open>The content octets that \<open>CBB_add_asn1_uint64\<close> writes in its loop.\<close>

fun uint_octets :: "u64 \<Rightarrow> nat \<Rightarrow> bool \<Rightarrow> bytes" where
  "uint_octets v 0 started = []"
| "uint_octets v (Suc n) started =
     (let b = of_nat (unat v div 256 ^ n) :: u8 in
      if \<not> started \<and> b = 0 then uint_octets v n started
      else (if \<not> started \<and> b AND 0x80 \<noteq> 0 then [0] else []) @ b # uint_octets v n True)"

lemma asn1_uint64_bytes_eq:
  "asn1_uint64_bytes alloc d v n started =
     (\<lambda>cbb. andthen (add_u8s alloc d (uint_octets v n started) cbb)
        (\<lambda>_ cbb. (Some (started \<or> uint_octets v n started \<noteq> []), cbb)))"
proof (induction n arbitrary: started)
  case (Suc n)
  show ?case
    by (rule ext) (simp add: byte_at Suc Let_def andthen_assoc write_all_fun)
qed (rule ext, simp add: write_all_fun)

lemma uint_octets_started: "uint_octets v n True = be_bytes n (unat v)"
  by (induction n) (simp_all add: be_bytes_Cons Let_def del: be_bytes.simps(2))

lemma be_val_Cons_bytes:
  "be_val (of_nat (v div 256 ^ n) # be_bytes n v) = v mod 256 ^ Suc n"
  using be_val_be_bytes [of "Suc n" v] by (simp only: be_bytes_Cons)

lemma uint_octets_unstarted:
  "(if uint_octets v n False = [] then unat v mod 256 ^ n = 0
    else minimal (uint_octets v n False) \<and> tc_val (uint_octets v n False) = int (unat v mod 256 ^ n))"
proof (induction n)
  case (Suc n)
  let ?b = "of_nat (unat v div 256 ^ n) :: u8"
  have be: "be_val (?b # be_bytes n (unat v)) = unat v mod 256 ^ Suc n" by (rule be_val_Cons_bytes)
  show ?case
  proof (cases "?b = 0")
    case True
    then have "unat v mod 256 ^ Suc n = unat v mod 256 ^ n"
      using be by (simp only: be_val_Cons unsigned_0 be_val_be_bytes)
    with True Suc show ?thesis by (simp only: uint_octets.simps Let_def) simp
  next
    case False
    show ?thesis
    proof (cases "?b AND 0x80 = 0")
      case b: True
      then have "uint_octets v (Suc n) False = ?b # be_bytes n (unat v)"
        using False by (simp add: uint_octets_started Let_def)
      moreover have "uint ?b < 128" "uint ?b \<noteq> 0"
        using b False and_80 [of ?b] by (simp_all only: uint_0_iff not_False_eq_True) auto
      then have "minimal (?b # be_bytes n (unat v))" "tc_val (?b # be_bytes n (unat v)) = int (unat v mod 256 ^ Suc n)"
        using be by (cases "be_bytes n (unat v)"; auto simp: tc_val_def)+
      ultimately show ?thesis by simp
    next
      case b: False
      then have "uint_octets v (Suc n) False = 0 # ?b # be_bytes n (unat v)"
        using False by (simp add: uint_octets_started Let_def)
      moreover have "128 \<le> uint ?b" using b and_80 [of ?b] by simp
      then have "minimal (0 # ?b # be_bytes n (unat v))"
        "tc_val (0 # ?b # be_bytes n (unat v)) = int (unat v mod 256 ^ Suc n)"
        using be be_val_Cons [of 0 "?b # be_bytes n (unat v)"] by (auto simp: tc_val_def)
      ultimately show ?thesis by simp
    qed
  qed
qed (simp add: write_all_fun)

lemma implements_uint64:
  "implements alloc d (CBB_add_asn1_uint64 alloc d v) True
     (der_element CBS_ASN1_INTEGER (der_int (uint v))) []"
proof -
  let ?o = "uint_octets v 8 False"
  define bs where "bs = (if ?o = [] then [0] else ?o)"
  have v: "unat v mod 256 ^ 8 = unat v" using unsigned_less [of v, where ?'a = nat] by simp
  have "minimal bs \<and> tc_val bs = uint v"
    using uint_octets_unstarted [of v 8] v by (auto simp: bs_def tc_val_single unsigned_eq_0_iff split: if_splits)
  then have bs: "bs = der_int (uint v)" by (simp add: der_int_iff)
  have "CBB_add_asn1_uint64 alloc d v = (\<lambda>cbb. andthen (CBB_add_asn1 alloc d CBS_ASN1_INTEGER cbb)
      (\<lambda>_ cbb. andthen (add_u8s alloc (Suc d) bs cbb) (\<lambda>_. CBB_flush alloc d)))"
    by (rule ext)
      (auto simp: CBB_add_asn1_uint64_def asn1_uint64_bytes_eq andthen_assoc bs_def write_all_fun andthen_unit
        intro!: andthen_cong)
  moreover have "bs \<noteq> []" by (simp add: bs_def)
  moreover have "length bs \<le> Suc 8"
  proof -
    have "- (128 * 256 ^ 8) \<le> uint v" by (rule order_trans [of _ 0]) simp_all
    then show ?thesis using unsigned_less [of v, where ?'a = int] unfolding bs
      by (intro length_der_int) simp_all
  qed
  ultimately show ?thesis
    using implements_element [OF implements_add_u8s, of bs alloc d CBS_ASN1_INTEGER] by (simp add: bs)
qed

text \<open>The negative half of \<open>CBB_add_asn1_int64\<close>: dropping sign octets keeps the value.\<close>

lemma tc_val_drop_sign: "128 \<le> uint b \<Longrightarrow> tc_val (0xff # b # r) = tc_val (b # r)"
  using be_val_Cons [of "0xff" "b # r"] by (simp add: tc_val_def)

lemma skip_sign_bytes_le: "skip_sign_bytes bs start \<le> start"
  by (induction bs start rule: skip_sign_bytes.induct) auto

lemma skip_sign_bytes_value:
  "start < length bs \<Longrightarrow> tc_val (rev (take (Suc start) bs)) < 0 \<Longrightarrow>
   minimal (rev (take (Suc (skip_sign_bytes bs start)) bs)) \<and>
   tc_val (rev (take (Suc (skip_sign_bytes bs start)) bs)) = tc_val (rev (take (Suc start) bs))"
proof (induction start)
  case 0
  then show ?case by (cases bs) auto
next
  case (Suc s)
  define r where "r = rev (take s bs)"
  have t1: "rev (take (Suc s) bs) = bs ! s # r" using Suc.prems by (simp add: r_def take_Suc_conv_app_nth)
  have t2: "rev (take (Suc (Suc s)) bs) = bs ! Suc s # bs ! s # r"
    using Suc.prems t1 by (simp add: take_Suc_conv_app_nth [of "Suc s"])
  have neg: "128 \<le> uint (bs ! Suc s)"
    using Suc.prems(2) tc_val_nonneg [of "bs ! Suc s # bs ! s # r"] and_80 [of "bs ! Suc s"] unfolding t2
    by (simp only: nth_Cons_0 list.distinct not_less [symmetric] not_False_eq_True) blast
  show ?case
  proof (cases "bs ! Suc s = 0xff \<and> bs ! s AND 0x80 \<noteq> 0")
    case True
    then have "tc_val (rev (take (Suc (Suc s)) bs)) = tc_val (rev (take (Suc s) bs))"
      unfolding t1 t2 using tc_val_drop_sign [of "bs ! s" r] by (simp add: and_80)
    with True Suc show ?thesis by simp
  next
    case False
    have "uint (bs ! Suc s) = 255 \<longleftrightarrow> bs ! Suc s = 0xff" by (simp add: word_uint_eq_iff [of "bs ! Suc s"])
    with False neg have "minimal (bs ! Suc s # bs ! s # r)" by (simp add: and_80)
    moreover have "skip_sign_bytes bs (Suc s) = Suc s" using False by auto
    ultimately show ?thesis using t2 by simp
  qed
qed

lemma add_bytes_down_eq:
  "n \<le> length bs \<Longrightarrow> add_bytes_down alloc d bs n = add_u8s alloc d (rev (take n bs))"
proof (induction n)
  case (Suc n)
  then show ?case
    by (intro ext) (simp add: take_Suc_conv_app_nth write_all_fun)
qed (rule ext, simp add: write_all_fun)

lemma le_bytes_rev: "rev (map (\<lambda>i. ucast (drop_bit (8 * i) v)) [0..<8]) = be_bytes 8 (unat (v :: u64))"
  by (rule nth_equalityI) (simp_all add: nth_be_bytes rev_nth less_imp_diff_less)

lemma tc_val_be_bytes: "tc_val (be_bytes 8 (unat (v :: u64))) = sint v"
proof -
  have v: "unat v < 2 ^ 64" "uint v < 2 ^ 64"
    using unsigned_less [of v, where ?'a = nat] unsigned_less [of v, where ?'a = int] by simp_all
  have "(8 :: nat) = Suc 7" by simp
  then have "hd (be_bytes 8 (unat v)) = of_nat (unat v div 256 ^ 7)" "be_bytes 8 (unat v) \<noteq> []"
    by (simp_all only: be_bytes_Cons list.sel list.distinct not_False_eq_True)
  moreover have "uint (of_nat (unat v div 256 ^ 7) :: u8) = int (unat v div 256 ^ 7)"
    using v by (simp add: unsigned_of_nat take_bit_nat_eq_self)
  moreover have "128 \<le> unat v div 256 ^ 7 \<longleftrightarrow> \<not> unat v < 2 ^ 63" by auto
  moreover have "unat v < 2 ^ 63 \<longleftrightarrow> uint v < 2 ^ 63"
    unfolding unat_eq_nat_uint by (subst nat_less_iff) simp_all
  ultimately show ?thesis
    using v(1) by (simp add: tc_val_def sint_eq_uint be_val_be_bytes del: of_nat_div)
qed

lemma implements_int64:
  "implements alloc d (CBB_add_asn1_int64 alloc d v) True
     (der_element CBS_ASN1_INTEGER (der_int (sint v))) []"
proof (cases "sint v \<ge> 0")
  case True
  then have "sint v = uint v"
    using sint_eq_uint [of v] unsigned_less [of v, where ?'a = int] by (auto split: if_splits)
  with True show ?thesis using implements_uint64 [of alloc d v] by (simp add: CBB_add_asn1_int64_def [abs_def])
next
  case False
  define bs where "bs = map (\<lambda>i. ucast (drop_bit (8 * i) v) :: u8) [0..<8]"
  define start where "start = skip_sign_bytes bs 7"
  define c where "c = rev (take (start + 1) bs)"
  have l: "length bs = 8" "start \<le> 7" using skip_sign_bytes_le by (simp_all add: bs_def start_def)
  have r: "rev (take (Suc 7) bs) = be_bytes 8 (unat v)"
    using le_bytes_rev [of v] l by (simp add: bs_def)
  then have t: "tc_val (rev (take (Suc 7) bs)) = sint v" by (simp only: tc_val_be_bytes)
  then have "minimal c \<and> tc_val c = sint v"
    using skip_sign_bytes_value [of 7 bs] False l by (simp add: c_def start_def)
  then have c: "c = der_int (sint v)" by (simp add: der_int_iff)
  have "CBB_add_asn1_int64 alloc d v = (\<lambda>cbb. andthen (CBB_add_asn1 alloc d CBS_ASN1_INTEGER cbb)
      (\<lambda>_ cbb. andthen (add_u8s alloc (Suc d) c cbb) (\<lambda>_. CBB_flush alloc d)))"
    using False l
    by (intro ext) (simp add: CBB_add_asn1_int64_def Let_def add_bytes_down_eq c_def
        flip: bs_def start_def del: upt_Suc add_bytes_down.simps)
  moreover have "length c \<le> 8" using l by (simp add: c_def)
  moreover have "c \<noteq> []" by (simp add: c)
  ultimately show ?thesis
    using implements_element [OF implements_add_u8s, of c alloc d CBS_ASN1_INTEGER] by (simp add: c)
qed

lemma implements_octet_string:
  "length c < 2 ^ 64 \<Longrightarrow> implements alloc d (CBB_add_asn1_octet_string alloc d c) (length c \<le> 0xfffffffe)
     (der_element CBS_ASN1_OCTETSTRING c) []"
  using implements_element [OF implements_add_bytes, of c alloc d CBS_ASN1_OCTETSTRING]
  by (simp add: CBB_add_asn1_octet_string_def [abs_def])

lemma implements_bool:
  "implements alloc d (CBB_add_asn1_bool alloc d v) True (der_element CBS_ASN1_BOOLEAN (der_bool (v \<noteq> 0))) []"
  using implements_element [OF implements_add_u8 [of alloc "Suc d" "if v \<noteq> 0 then 0xff else 0"], of CBS_ASN1_BOOLEAN]
  by (simp add: CBB_add_asn1_bool_def [abs_def] der_bool_def)

section \<open>Readers and writers together\<close>

interpretation asn1_uint64: serializer CBB_add_asn1_uint64 CBS_get_asn1_uint64
  "\<lambda>v. der_element CBS_ASN1_INTEGER (der_int (uint v))" "\<lambda>_. True" "\<lambda>_. True"
  by unfold_locales (auto simp: CBS_get_asn1_uint64_iff implements_uint64)

interpretation asn1_int64: serializer CBB_add_asn1_int64 CBS_get_asn1_int64
  "\<lambda>v. der_element CBS_ASN1_INTEGER (der_int (sint v))" "\<lambda>_. True" "\<lambda>_. True"
  by unfold_locales (auto simp: CBS_get_asn1_int64_iff implements_int64)

text \<open>The C function takes an \<open>int\<close>; a client passes 0 or 1.\<close>

definition add_bool :: "(nat \<Rightarrow> bool) \<Rightarrow> nat \<Rightarrow> bool \<Rightarrow> CBB \<Rightarrow> (unit, CBB) outcome" where
  "add_bool alloc d v = CBB_add_asn1_bool alloc d (of_bool v)"

interpretation asn1_bool: serializer add_bool CBS_get_asn1_bool
  "\<lambda>v. der_element CBS_ASN1_BOOLEAN (der_bool v)" "\<lambda>_. True" "\<lambda>_. True"
proof
  show "implements alloc d (add_bool alloc d v) True (der_element CBS_ASN1_BOOLEAN (der_bool v)) []" for alloc d v
    using implements_bool [of alloc d 1] implements_bool [of alloc d 0]
    by (cases v) (simp_all add: add_bool_def)
qed (auto simp: CBS_get_asn1_bool_iff)

text \<open>The writer stops one short of the largest length that the reader takes.\<close>

interpretation octet_string: reading_writer CBB_add_asn1_octet_string
  "\<lambda>s. CBS_get_asn1 s CBS_ASN1_OCTETSTRING" "der_element CBS_ASN1_OCTETSTRING"
  "\<lambda>c. length c \<le> 0xfffffffe" "\<lambda>c. length c < 2 ^ 32" "\<lambda>c. length c < 2 ^ 64"
  by unfold_locales (auto simp: implements_octet_string)

end
