(* ===== verification/Unicode.thy ===== *)
theory Unicode
  imports ASN1_Values
begin

text \<open>
  The character encodings of \<open>crypto/bytestring/unicode.c\<close>: UTF-8, Latin-1, UCS-2 and UTF-32. Each
  reader and writer pair is proved to be a \<open>serializer\<close> for one specification of the encoding, with
  the valid code points of \<open>is_valid_code_point\<close>; UTF-8 therefore accepts no overlong forms.
\<close>

section \<open>Definitions\<close>

definition is_valid_code_point :: "u32 \<Rightarrow> bool" where
  "is_valid_code_point v \<longleftrightarrow>
     \<not> (v > 0x10ffff \<or> v AND 0xfffe = 0xfffe \<or> v \<ge> 0xfdd0 \<and> v \<le> 0xfdef \<or> v \<ge> 0xd800 \<and> v \<le> 0xdfff)"

definition BOTTOM_BITS :: "nat \<Rightarrow> u8" where
  "BOTTOM_BITS n = push_bit n 1 - 1"

definition TOP_BITS :: "nat \<Rightarrow> u8" where
  "TOP_BITS n = NOT (BOTTOM_BITS (8 - n))"

text \<open>The loop over the continuation bytes.\<close>

fun utf8_tail :: "nat \<Rightarrow> u32 \<Rightarrow> CBS \<Rightarrow> (u32, CBS) outcome" where
  "utf8_tail 0 v cbs = (Some v, cbs)"
| "utf8_tail (Suc n) v cbs =
     andthen (CBS_get_u8 cbs) (\<lambda>c cbs.
       if c AND TOP_BITS 2 \<noteq> TOP_BITS 1 then (None, cbs)
       else utf8_tail n (push_bit 6 v OR ucast (c AND BOTTOM_BITS 6)) cbs)"

definition cbs_get_utf8 :: "CBS \<Rightarrow> (u32, CBS) outcome" where
  "cbs_get_utf8 cbs =
     andthen (CBS_get_u8 cbs) (\<lambda>c cbs.
       if c \<le> 0x7f then (Some (ucast c), cbs)
       else
         let lead =
           (if c AND TOP_BITS 3 = TOP_BITS 2 then Some (ucast (c AND BOTTOM_BITS 5), 1, 0x80)
            else if c AND TOP_BITS 4 = TOP_BITS 3 then Some (ucast (c AND BOTTOM_BITS 4), 2, 0x800)
            else if c AND TOP_BITS 5 = TOP_BITS 4 then Some (ucast (c AND BOTTOM_BITS 3), 3, 0x10000)
            else None)
         in case lead of
              None \<Rightarrow> (None, cbs)
            | Some (v, len, lower_bound) \<Rightarrow>
                andthen (utf8_tail len v cbs) (\<lambda>v cbs.
                  if \<not> is_valid_code_point v \<or> v < lower_bound then (None, cbs) else (Some v, cbs)))"

definition cbs_get_latin1 :: "CBS \<Rightarrow> (u32, CBS) outcome" where
  "cbs_get_latin1 cbs = andthen (CBS_get_u8 cbs) (\<lambda>c cbs. (Some (ucast c), cbs))"

definition cbs_get_ucs2_be :: "CBS \<Rightarrow> (u32, CBS) outcome" where
  "cbs_get_ucs2_be cbs =
     andthen (CBS_get_u16 cbs) (\<lambda>c cbs.
       if \<not> is_valid_code_point (ucast c) then (None, cbs) else (Some (ucast c), cbs))"

definition cbs_get_utf32_be :: "CBS \<Rightarrow> (u32, CBS) outcome" where
  "cbs_get_utf32_be cbs =
     andthen (CBS_get_u32 cbs) (\<lambda>out cbs. if is_valid_code_point out then (Some out, cbs) else (None, cbs))"

definition cbb_get_utf8_len :: "u32 \<Rightarrow> nat" where
  "cbb_get_utf8_len u = (if u \<le> 0x7f then 1 else if u \<le> 0x7ff then 2 else if u \<le> 0xffff then 3 else 4)"

definition cbb_add_utf8 :: "(nat \<Rightarrow> bool) \<Rightarrow> nat \<Rightarrow> u32 \<Rightarrow> CBB \<Rightarrow> (unit, CBB) outcome" where
  "cbb_add_utf8 alloc d u cbb =
     (if \<not> is_valid_code_point u then (None, cbb)
      else if u \<le> 0x7f then CBB_add_u8 alloc d (ucast u) cbb
      else if u \<le> 0x7ff then
        andthen (CBB_add_u8 alloc d (TOP_BITS 2 OR ucast (drop_bit 6 u)) cbb) (\<lambda>_.
          CBB_add_u8 alloc d (TOP_BITS 1 OR (ucast u AND BOTTOM_BITS 6)))
      else if u \<le> 0xffff then
        andthen (CBB_add_u8 alloc d (TOP_BITS 3 OR ucast (drop_bit 12 u)) cbb) (\<lambda>_ cbb.
        andthen (CBB_add_u8 alloc d (TOP_BITS 1 OR (ucast (drop_bit 6 u) AND BOTTOM_BITS 6)) cbb) (\<lambda>_.
          CBB_add_u8 alloc d (TOP_BITS 1 OR (ucast u AND BOTTOM_BITS 6))))
      else if u \<le> 0x10ffff then
        andthen (CBB_add_u8 alloc d (TOP_BITS 4 OR ucast (drop_bit 18 u)) cbb) (\<lambda>_ cbb.
        andthen (CBB_add_u8 alloc d (TOP_BITS 1 OR (ucast (drop_bit 12 u) AND BOTTOM_BITS 6)) cbb) (\<lambda>_ cbb.
        andthen (CBB_add_u8 alloc d (TOP_BITS 1 OR (ucast (drop_bit 6 u) AND BOTTOM_BITS 6)) cbb) (\<lambda>_.
          CBB_add_u8 alloc d (TOP_BITS 1 OR (ucast u AND BOTTOM_BITS 6)))))
      else (None, cbb))"

definition cbb_add_latin1 :: "(nat \<Rightarrow> bool) \<Rightarrow> nat \<Rightarrow> u32 \<Rightarrow> CBB \<Rightarrow> (unit, CBB) outcome" where
  "cbb_add_latin1 alloc d u cbb = (if u \<le> 0xff then CBB_add_u8 alloc d (ucast u) cbb else (None, cbb))"

definition cbb_add_ucs2_be :: "(nat \<Rightarrow> bool) \<Rightarrow> nat \<Rightarrow> u32 \<Rightarrow> CBB \<Rightarrow> (unit, CBB) outcome" where
  "cbb_add_ucs2_be alloc d u cbb =
     (if u \<le> 0xffff \<and> is_valid_code_point u then CBB_add_u16 alloc d (ucast u) cbb else (None, cbb))"

definition cbb_add_utf32_be :: "(nat \<Rightarrow> bool) \<Rightarrow> nat \<Rightarrow> u32 \<Rightarrow> CBB \<Rightarrow> (unit, CBB) outcome" where
  "cbb_add_utf32_be alloc d u cbb =
     (if is_valid_code_point u then CBB_add_u32 alloc d u cbb else (None, cbb))"

section \<open>Bits as arithmetic\<close>

definition code_point :: "nat \<Rightarrow> bool" where
  "code_point n \<longleftrightarrow>
     n \<le> 0x10ffff \<and> n mod 0x10000 < 0xfffe \<and> \<not> (0xfdd0 \<le> n \<and> n \<le> 0xfdef) \<and> \<not> (0xd800 \<le> n \<and> n \<le> 0xdfff)"

lemma is_valid_code_point_iff: "is_valid_code_point v \<longleftrightarrow> code_point (unat v)"
proof -
  have m: "(0xfffe :: u32) = push_bit 1 (mask 15)" by (simp add: mask_eq_exp_minus_1)
  have "v AND 0xfffe = push_bit 1 (drop_bit 1 (v AND mask 16))"
    unfolding m by (rule bit_word_eqI)
      (simp only: bit_and_iff bit_push_bit_iff bit_mask_iff bit_drop_bit_eq comp_def, auto)
  moreover have "unat (v AND mask 16) = unat v mod 2 ^ 16" by (rule unat_and_mask_mod)
  then have "unat (push_bit 1 (drop_bit 1 (v AND mask 16))) = unat v mod 2 ^ 16 div 2 * 2"
  proof -
    assume u: "unat (v AND mask 16) = unat v mod 2 ^ 16"
    have "unat v mod 2 ^ 16 div 2 * 2 < 2 ^ 32"
      by (rule le_less_trans [of _ "unat v mod 2 ^ 16"]) (simp_all add: less_trans [OF mod_less_divisor])
    then show ?thesis
      by (simp only: unat_push_bit unat_drop_bit_div u) simp
  qed
  ultimately have "v AND 0xfffe = 0xfffe \<longleftrightarrow> unat v mod 2 ^ 16 div 2 * 2 = 0xfffe"
    by (simp add: word_unat_eq_iff)
  also have "\<dots> \<longleftrightarrow> \<not> unat v mod 0x10000 < 0xfffe"
  proof -
    have "unat v mod 0x10000 < 0x10000" by simp
    then show ?thesis by auto
  qed
  finally show ?thesis
    unfolding is_valid_code_point_def code_point_def by (auto simp: word_le_nat_alt word_less_nat_alt)
qed

lemma BOTTOM_BITS_eq: "BOTTOM_BITS n = mask n"
  by (simp add: BOTTOM_BITS_def mask_eq_exp_minus_1)

lemma AND_TOP_BITS: "n \<le> 8 \<Longrightarrow> c AND TOP_BITS n = push_bit (8 - n) (drop_bit (8 - n) c)"
  unfolding TOP_BITS_def BOTTOM_BITS_eq by (rule bit_word_eqI) (auto simp: bit_simps)

lemma TOP_BITS_values:
  "TOP_BITS 1 = 128" "TOP_BITS 2 = 192" "TOP_BITS 3 = 224" "TOP_BITS 4 = 240" "TOP_BITS 5 = 248"
  by (simp_all add: TOP_BITS_def BOTTOM_BITS_def)

lemma unat_AND_TOP_BITS: "n \<le> 8 \<Longrightarrow> unat (c AND TOP_BITS n) = unat c div 2 ^ (8 - n) * 2 ^ (8 - n)"
proof -
  assume n: "n \<le> 8"
  have "unat c div 2 ^ (8 - n) * 2 ^ (8 - n) \<le> unat c" by (rule div_times_less_eq_dividend)
  also have "\<dots> < 2 ^ 8" using unsigned_less [of c, where ?'a = nat] by simp
  finally show ?thesis
    by (simp only: AND_TOP_BITS [OF n] unat_push_bit unat_drop_bit_div) simp
qed

text \<open>The tests on the leading bits of a byte.\<close>

lemma lead_tests:
  "c AND TOP_BITS 2 = TOP_BITS 1 \<longleftrightarrow> unat c div 64 = 2"
  "c AND TOP_BITS 3 = TOP_BITS 2 \<longleftrightarrow> unat c div 32 = 6"
  "c AND TOP_BITS 4 = TOP_BITS 3 \<longleftrightarrow> unat c div 16 = 14"
  "c AND TOP_BITS 5 = TOP_BITS 4 \<longleftrightarrow> unat c div 8 = 30"
  using unat_AND_TOP_BITS [of 2 c] unat_AND_TOP_BITS [of 3 c] unat_AND_TOP_BITS [of 4 c] unat_AND_TOP_BITS [of 5 c]
  unfolding TOP_BITS_values word_unat_eq_iff by simp_all

lemma unat_AND_BOTTOM_BITS: "unat (c AND BOTTOM_BITS n) = unat c mod 2 ^ n"
  by (simp add: BOTTOM_BITS_eq unat_and_mask_mod)

lemma unat_ucast_BOTTOM_BITS: "unat (ucast (c AND BOTTOM_BITS n) :: u32) = unat c mod 2 ^ n"
  by (simp add: unat_ucast_up unat_AND_BOTTOM_BITS)

section \<open>UTF-8\<close>

definition utf8 :: "nat \<Rightarrow> bytes" where
  "utf8 n =
     (if n < 0x80 then [of_nat n]
      else if n < 0x800 then [of_nat (192 + n div 64), of_nat (128 + n mod 64)]
      else if n < 0x10000 then
        [of_nat (224 + n div 4096), of_nat (128 + n div 64 mod 64), of_nat (128 + n mod 64)]
      else
        [of_nat (240 + n div 262144), of_nat (128 + n div 4096 mod 64),
         of_nat (128 + n div 64 mod 64), of_nat (128 + n mod 64)])"

lemma utf8_tail_Suc:
  "unat v < 2 ^ 26 \<Longrightarrow> utf8_tail (Suc n) v s =
     (case s of [] \<Rightarrow> (None, [])
      | c # s \<Rightarrow> if unat c div 64 = 2 then utf8_tail n (of_nat (unat v * 64 + unat c mod 64)) s else (None, s))"
proof -
  assume v: "unat v < 2 ^ 26"
  have "unat (push_bit 6 v OR ucast (c AND BOTTOM_BITS 6)) = unat v * 64 + unat c mod 64" for c :: u8
  proof -
    have "unat v * 64 + unat c mod 64 < 2 ^ 32" using v mod_less_divisor [of 64 "unat c"] by simp
    then show ?thesis
      using unat_shift_or [of "ucast (c AND BOTTOM_BITS 6) :: u32" 6 v]
      by (simp add: unat_ucast_BOTTOM_BITS)
  qed
  then have "push_bit 6 v OR ucast (c AND BOTTOM_BITS 6) = of_nat (unat v * 64 + unat c mod 64)" for c :: u8
    by (metis of_nat_unat ucast_id)
  then show ?thesis by (cases s) (auto simp: lead_tests [unfolded One_nat_def])
qed

lemma digit_div: "m < 64 \<Longrightarrow> (k * 64 + m) div 64 = k" "m < 64 \<Longrightarrow> (k * 64 + m) mod 64 = (m :: nat)"
  by simp_all

lemma unat_eqD: "unat (c :: u8) = n \<Longrightarrow> of_nat n = c"
  by (metis of_nat_unat ucast_id)

abbreviation digits64 :: "nat \<Rightarrow> nat list \<Rightarrow> nat" where
  "digits64 v ms \<equiv> foldl (\<lambda>a m. a * 64 + m) v ms"

abbreviation continuation :: "nat list \<Rightarrow> bytes" where
  "continuation ms \<equiv> map (\<lambda>m. of_nat (128 + m)) ms"

lemma room_for_digit: "(a + 1) * 64 ^ Suc n \<le> 2 ^ 32 \<Longrightarrow> a < (2 :: nat) ^ 26"
proof -
  assume a: "(a + 1) * 64 ^ Suc n \<le> 2 ^ 32"
  have "(a + 1) * 64 ^ Suc 0 \<le> (a + 1) * 64 ^ Suc n"
    by (intro mult_le_mono2 power_increasing) simp_all
  also note a
  finally show ?thesis by simp
qed

lemma room_after_digit:
  "(a + 1) * 64 ^ Suc n \<le> k \<Longrightarrow> m < 64 \<Longrightarrow> (a * 64 + m + 1) * 64 ^ n \<le> (k :: nat)"
proof -
  assume a: "(a + 1) * 64 ^ Suc n \<le> k" and "m < 64"
  then have "(a * 64 + m + 1) * 64 ^ n \<le> ((a + 1) * 64) * 64 ^ n" by (intro mult_le_mono1) simp
  also have "\<dots> = (a + 1) * 64 ^ Suc n" by (simp only: power_Suc mult.assoc)
  also note a
  finally show ?thesis .
qed

lemma utf8_tail_sound:
  "utf8_tail n v s = (Some w, t) \<Longrightarrow> (unat v + 1) * 64 ^ n \<le> 2 ^ 32 \<Longrightarrow>
   \<exists>ms. length ms = n \<and> list_all (\<lambda>m. m < 64) ms \<and> s = continuation ms @ t \<and> unat w = digits64 (unat v) ms"
proof (induction n arbitrary: v s)
  case (Suc n)
  have v: "unat v < 2 ^ 26" by (rule room_for_digit [OF Suc.prems(2)])
  from Suc.prems(1) obtain c s' where s: "s = c # s'" and c: "unat c div 64 = 2"
    and r: "utf8_tail n (of_nat (unat v * 64 + unat c mod 64)) s' = (Some w, t)"
    unfolding utf8_tail_Suc [OF v] by (auto split: list.splits if_splits)
  have m: "unat c mod 64 < 64" by simp
  then have u: "unat (of_nat (unat v * 64 + unat c mod 64) :: u32) = unat v * 64 + unat c mod 64"
    using v by (simp add: unat_of_nat del: of_nat_add of_nat_mult)
  have "(unat (of_nat (unat v * 64 + unat c mod 64) :: u32) + 1) * 64 ^ n \<le> 2 ^ 32"
    unfolding u by (rule room_after_digit [OF Suc.prems(2) m])
  from Suc.IH [OF r this, unfolded u] obtain ms where ms: "length ms = n" "list_all (\<lambda>m. m < 64) ms"
    "s' = continuation ms @ t" "unat w = digits64 (unat v * 64 + unat c mod 64) ms" by blast
  have "unat c = 128 + unat c mod 64" using c mult_div_mod_eq [of 64 "unat c"] by simp
  then have "of_nat (128 + unat c mod 64) = c" by (rule unat_eqD)
  with ms m s show ?case by (intro exI [of _ "unat c mod 64 # ms"]) simp
qed simp

lemma utf8_tail_complete:
  "length ms = n \<Longrightarrow> list_all (\<lambda>m. m < 64) ms \<Longrightarrow> (unat v + 1) * 64 ^ n \<le> 2 ^ 32 \<Longrightarrow>
   utf8_tail n v (continuation ms @ t) = (Some (of_nat (digits64 (unat v) ms)), t)"
proof (induction n arbitrary: v ms)
  case (Suc n)
  from Suc.prems obtain m ms' where ms: "ms = m # ms'" "m < 64" "length ms' = n" "list_all (\<lambda>m. m < 64) ms'"
    by (cases ms) auto
  have v: "unat v < 2 ^ 26" by (rule room_for_digit [OF Suc.prems(3)])
  then have u: "unat (of_nat (unat v * 64 + m) :: u32) = unat v * 64 + m"
    using ms(2) by (simp add: unat_of_nat del: of_nat_add of_nat_mult)
  have "(unat (of_nat (unat v * 64 + m) :: u32) + 1) * 64 ^ n \<le> 2 ^ 32"
    unfolding u by (rule room_after_digit [OF Suc.prems(3) ms(2)])
  note ih = Suc.IH [OF ms(3,4) this, unfolded u]
  have c: "unat (of_nat (128 + m) :: u8) = 128 + m" using ms(2) by (simp del: of_nat_add)
  have "utf8_tail (Suc n) v (of_nat (128 + m) # continuation ms' @ t) =
      utf8_tail n (of_nat (unat v * 64 + m)) (continuation ms' @ t)"
  proof -
    have "(128 + m) div 64 = 2" "(128 + m) mod 64 = m" using digit_div [OF ms(2), of 2] by simp_all
    then show ?thesis unfolding utf8_tail_Suc [OF v] list.case c by simp
  qed
  with ih ms(1) show ?case by (simp del: of_nat_add of_nat_mult)
qed simp

text \<open>The classes of the first byte.\<close>

definition utf8_lead :: "nat \<Rightarrow> (nat \<times> nat \<times> nat) option" where
  "utf8_lead c =
     (if c div 32 = 6 then Some (c mod 32, 1, 0x80)
      else if c div 16 = 14 then Some (c mod 16, 2, 0x800)
      else if c div 8 = 30 then Some (c mod 8, 3, 0x10000) else None)"

lemma utf8_lead_Some:
  assumes l: "utf8_lead c = Some (k, n, lb)"
  shows "n = 1 \<and> lb = 0x80 \<and> c = 192 + k \<and> k < 32 \<or> n = 2 \<and> lb = 0x800 \<and> c = 224 + k \<and> k < 16 \<or>
    n = 3 \<and> lb = 0x10000 \<and> c = 240 + k \<and> k < 8"
proof -
  note d = div_mult_mod_eq [of c 32] div_mult_mod_eq [of c 16] div_mult_mod_eq [of c 8]
  consider "c div 32 = 6" | "c div 32 \<noteq> 6" "c div 16 = 14" | "c div 32 \<noteq> 6" "c div 16 \<noteq> 14" "c div 8 = 30"
    using l by (auto simp: utf8_lead_def split: if_splits)
  then show ?thesis
  proof cases
    case 1
    then have "k = c mod 32" "n = 1" "lb = 0x80" using l by (simp_all add: utf8_lead_def)
    moreover from this have "c = 192 + k" using 1 d(1) by linarith
    ultimately show ?thesis by simp
  next
    case 2
    then have "k = c mod 16" "n = 2" "lb = 0x800" using l by (simp_all add: utf8_lead_def)
    moreover from this have "c = 224 + k" using 2 d(2) by linarith
    ultimately show ?thesis by simp
  next
    case 3
    then have "k = c mod 8" "n = 3" "lb = 0x10000" using l by (simp_all add: utf8_lead_def)
    moreover from this have "c = 240 + k" using 3 d(3) by linarith
    ultimately show ?thesis by simp
  qed
qed

lemma cbs_get_utf8_Cons:
  "cbs_get_utf8 (c # s) =
     (if unat c < 128 then (Some (of_nat (unat c)), s)
      else case utf8_lead (unat c) of
        None \<Rightarrow> (None, s)
      | Some (v, len, lower_bound) \<Rightarrow>
          andthen (utf8_tail len (of_nat v) s) (\<lambda>w s.
            if \<not> code_point (unat w) \<or> unat w < lower_bound then (None, s) else (Some w, s)))"
proof -
  have c: "c \<le> 0x7f \<longleftrightarrow> unat c < 128" by (auto simp: word_le_nat_alt)
  have v: "ucast (c AND BOTTOM_BITS n) = (of_nat (unat c mod 2 ^ n) :: u32)" for n
    by (metis unat_ucast_BOTTOM_BITS of_nat_unat ucast_id)
  have w: "(ucast c :: u32) = of_nat (unat c)" by simp
  show ?thesis
    unfolding cbs_get_utf8_def CBS_get_u8_Cons andthen_simps c lead_tests is_valid_code_point_iff v Let_def
      utf8_lead_def w
    by (simp add: word_less_nat_alt)
qed

lemma cbs_get_utf8_Nil: "cbs_get_utf8 [] = (None, [])"
  by (simp add: cbs_get_utf8_def)

lemma utf8_2:
  assumes "m < 64" "0x80 \<le> digits64 k [m]" "k < 32"
  shows "utf8 (digits64 k [m]) = of_nat (192 + k) # continuation [m]"
  using assms by (simp add: utf8_def del: of_nat_add)

lemma div_4096: "n div 4096 = n div 64 div (64 :: nat)"
  and div_262144: "n div 262144 = n div 64 div 64 div (64 :: nat)"
  by (simp_all flip: div_mult2_eq)

lemma utf8_3:
  assumes m: "m1 < 64" "m2 < 64" and "0x800 \<le> digits64 k [m1, m2]" "k < 16"
  shows "utf8 (digits64 k [m1, m2]) = of_nat (224 + k) # continuation [m1, m2]"
proof -
  let ?n = "(k * 64 + m1) * 64 + m2"
  have d: "?n div 4096 = k" "?n div 64 mod 64 = m1" "?n mod 64 = m2"
    unfolding div_4096 digit_div(1) [OF m(2)] digit_div(2) [OF m(2)] digit_div(1) [OF m(1)]
      digit_div(2) [OF m(1)] by (rule refl)+
  have "\<not> ?n < 0x80" "\<not> ?n < 0x800" "?n < 0x10000" using assms by simp_all
  then show ?thesis unfolding utf8_def foldl.simps by (simp only: d if_False if_True list.map)
qed

lemma utf8_4:
  assumes m: "m1 < 64" "m2 < 64" "m3 < 64" and "0x10000 \<le> digits64 k [m1, m2, m3]"
  shows "utf8 (digits64 k [m1, m2, m3]) = of_nat (240 + k) # continuation [m1, m2, m3]"
proof -
  let ?n = "((k * 64 + m1) * 64 + m2) * 64 + m3"
  have d: "?n div 262144 = k" "?n div 4096 mod 64 = m1" "?n div 64 mod 64 = m2" "?n mod 64 = m3"
    unfolding div_4096 div_262144 digit_div(1) [OF m(3)] digit_div(2) [OF m(3)] digit_div(1) [OF m(2)]
      digit_div(2) [OF m(2)] digit_div(1) [OF m(1)] digit_div(2) [OF m(1)] by (rule refl)+
  have "\<not> ?n < 0x80" "\<not> ?n < 0x800" "\<not> ?n < 0x10000" using assms by simp_all
  then show ?thesis unfolding utf8_def foldl.simps by (simp only: d if_False list.map)
qed

lemma cbs_get_utf8_sound:
  assumes "cbs_get_utf8 s = (Some v, t)"
  shows "code_point (unat v) \<and> s = utf8 (unat v) @ t"
proof -
  obtain c s' where s: "s = c # s'" using assms by (cases s) (auto simp: cbs_get_utf8_Nil)
  note g = assms [unfolded s cbs_get_utf8_Cons]
  show ?thesis
  proof (cases "unat c < 128")
    case True
    then have "v = of_nat (unat c)" "t = s'" using g by simp_all
    then have "unat v = unat c" by (simp add: unat_ucast_up)
    with True s \<open>t = s'\<close> show ?thesis by (simp add: utf8_def code_point_def unat_eqD)
  next
    case False
    with g obtain k n lb where l: "utf8_lead (unat c) = Some (k, n, lb)"
      and tl: "utf8_tail n (of_nat k) s' = (Some v, t)" and cp: "code_point (unat v)" "lb \<le> unat v"
      by (auto simp: andthen_eq_Some split: option.splits if_splits)
    have k: "unat (of_nat k :: u32) = k" "(k + 1) * 64 ^ n \<le> 2 ^ 32"
      using l by (auto simp: utf8_lead_def unat_of_nat split: if_splits)
    from utf8_tail_sound [OF tl] k obtain ms where ms: "length ms = n" "list_all (\<lambda>m. m < 64) ms"
      "s' = continuation ms @ t" "unat v = digits64 k ms" by auto
    have "utf8 (unat v) = c # continuation ms"
    proof -
      from utf8_lead_Some [OF l] consider "n = 1" "lb = 0x80" "unat c = 192 + k" "k < 32"
        | "n = 2" "lb = 0x800" "unat c = 224 + k" "k < 16"
        | "n = 3" "lb = 0x10000" "unat c = 240 + k" by blast
      then show ?thesis
      proof cases
        case 1
        then obtain m where m: "ms = [m]" using ms(1) by (auto simp: length_Suc_conv)
        have "utf8 (digits64 k [m]) = of_nat (192 + k) # continuation [m]"
          by (rule utf8_2) (use 1 ms cp(2) m in simp_all)
        then show ?thesis by (simp only: ms(4) m unat_eqD [OF 1(3)])
      next
        case 2
        then obtain m1 m2 where m: "ms = [m1, m2]" using ms(1) by (auto simp: length_Suc_conv numeral_2_eq_2)
        have "utf8 (digits64 k [m1, m2]) = of_nat (224 + k) # continuation [m1, m2]"
          by (rule utf8_3) (use 2 ms cp(2) m in simp_all)
        then show ?thesis by (simp only: ms(4) m unat_eqD [OF 2(3)])
      next
        case 3
        then obtain m1 m2 m3 where m: "ms = [m1, m2, m3]" using ms(1) by (auto simp: length_Suc_conv numeral_3_eq_3)
        have "utf8 (digits64 k [m1, m2, m3]) = of_nat (240 + k) # continuation [m1, m2, m3]"
          by (rule utf8_4) (use 3 ms cp(2) m in simp_all)
        then show ?thesis by (simp only: ms(4) m unat_eqD [OF 3(3)])
      qed
    qed
    with ms(3) cp(1) s show ?thesis by simp
  qed
qed

lemma utf8_lead_lead:
  "k < 32 \<Longrightarrow> utf8_lead (192 + k) = Some (k, 1, 0x80)"
  "k < 16 \<Longrightarrow> utf8_lead (224 + k) = Some (k, 2, 0x800)"
  "k < 8 \<Longrightarrow> utf8_lead (240 + k) = Some (k, 3, 0x10000)"
proof -
  have d: "m < d \<Longrightarrow> (q * d + m) div d = q" "m < d \<Longrightarrow> (q * d + m) mod d = m" for q d m :: nat
    by simp_all
  show "k < 32 \<Longrightarrow> utf8_lead (192 + k) = Some (k, 1, 0x80)"
    using d [of k 32 6] by (simp add: utf8_lead_def)
  show "k < 16 \<Longrightarrow> utf8_lead (224 + k) = Some (k, 2, 0x800)"
    using d [of k 16 14] d [of k 32 7] by (simp add: utf8_lead_def)
  show "k < 8 \<Longrightarrow> utf8_lead (240 + k) = Some (k, 3, 0x10000)"
    using d [of k 8 30] d [of k 16 15] d [of k 32 7] d [of "16 + k" 32 7]
    by (simp add: utf8_lead_def)
qed

lemma digits64_split:
  "\<exists>k m. n = k * 64 + m \<and> m < (64 :: nat)"
  by (rule exI [of _ "n div 64"], rule exI [of _ "n mod 64"]) simp

lemma utf8_lead_byte:
  assumes n: "n < 0x110000" "0x80 \<le> n"
  shows "\<exists>lead k len lb ms. utf8_lead lead = Some (k, len, lb) \<and> 128 \<le> lead \<and> lead < 256 \<and>
    length ms = len \<and> list_all (\<lambda>m. m < 64) ms \<and> n = digits64 k ms \<and> lb \<le> n \<and>
    utf8 n = of_nat lead # continuation ms"
proof -
  obtain k1 m1 where 1: "n = k1 * 64 + m1" "m1 < 64" using digits64_split by blast
  obtain k2 m2 where 2: "k1 = k2 * 64 + m2" "m2 < 64" using digits64_split by blast
  obtain k3 m3 where 3: "k2 = k3 * 64 + m3" "m3 < 64" using digits64_split by blast
  consider "n < 0x800" | "0x800 \<le> n" "n < 0x10000" | "0x10000 \<le> n" by linarith
  then show ?thesis
  proof cases
    case c: 1
    have k: "k1 < 32" using c 1 by linarith
    have e: "n = digits64 k1 [m1]" using 1 by simp
    have u: "utf8 n = of_nat (192 + k1) # continuation [m1]"
      unfolding e by (rule utf8_2) (use n k 1 in simp_all)
    show ?thesis
      by (rule exI [of _ "192 + k1"], rule exI [of _ k1], rule exI [of _ 1], rule exI [of _ "0x80"], rule exI [of _ "[m1]"],
          intro conjI utf8_lead_lead k e u n)
        (use k 1 in simp_all)
  next
    case c: 2
    have k: "k2 < 16" using c 1 2 by linarith
    have e: "n = digits64 k2 [m2, m1]" using 1 2 by simp
    have u: "utf8 n = of_nat (224 + k2) # continuation [m2, m1]"
      unfolding e by (rule utf8_3) (use c(1) k 1(2) 2(2) e in simp_all)
    show ?thesis
      by (rule exI [of _ "224 + k2"], rule exI [of _ k2], rule exI [of _ 2], rule exI [of _ "0x800"],
          rule exI [of _ "[m2, m1]"], intro conjI utf8_lead_lead k e u c)
        (use k 1(2) 2(2) in simp_all)
  next
    case c: 3
    have k: "k3 < 8" using n 1 2 3 by linarith
    have e: "n = digits64 k3 [m3, m2, m1]" using 1 2 3 by simp
    have u: "utf8 n = of_nat (240 + k3) # continuation [m3, m2, m1]"
      unfolding e by (rule utf8_4) (use c k 1(2) 2(2) 3(2) e in simp_all)
    show ?thesis
      by (rule exI [of _ "240 + k3"], rule exI [of _ k3], rule exI [of _ 3], rule exI [of _ "0x10000"],
          rule exI [of _ "[m3, m2, m1]"], intro conjI utf8_lead_lead k e u c)
        (use k 1(2) 2(2) 3(2) in simp_all)
  qed
qed

lemma cbs_get_utf8_complete:
  assumes "code_point (unat v)"
  shows "cbs_get_utf8 (utf8 (unat v) @ t) = (Some v, t)"
proof (cases "unat v < 0x80")
  case True
  have v: "of_nat (unat v) = v" by (metis of_nat_unat ucast_id)
  have b: "unat (of_nat (unat v) :: u8) = unat v" using True by (simp only: unat_of_nat_u8) simp
  show ?thesis
    using True by (simp only: utf8_def if_True append_Cons append_Nil cbs_get_utf8_Cons b v)
next
  case False
  have v: "of_nat (unat v) = v" by (metis of_nat_unat ucast_id)
  have "unat v < 0x110000" using assms by (simp add: code_point_def)
  with False obtain lead k len lb ms where l: "utf8_lead lead = Some (k, len, lb)"
    "128 \<le> lead" "lead < 256" and ms: "length ms = len" "list_all (\<lambda>m. m < 64) ms"
    and n: "unat v = digits64 k ms" "lb \<le> unat v" and u: "utf8 (unat v) = of_nat lead # continuation ms"
    using utf8_lead_byte [of "unat v"] by auto
  have k: "unat (of_nat k :: u32) = k" "(k + 1) * 64 ^ len \<le> 2 ^ 32"
    using l by (auto simp: utf8_lead_def unat_of_nat split: if_splits)
  have c: "unat (of_nat lead :: u8) = lead" using l(3) by simp
  have "utf8_tail len (of_nat k) (continuation ms @ t) = (Some v, t)"
    using utf8_tail_complete [OF ms, of "of_nat k" t] k n(1) v by simp
  then show ?thesis
    unfolding u append_Cons cbs_get_utf8_Cons c l(1) using l(2) assms n(2) by simp
qed

subsection \<open>Writing\<close>

lemma or_byte:
  "unat x < 2 ^ j \<Longrightarrow> unat a * 2 ^ j + unat x < 256 \<Longrightarrow> push_bit j a OR x = (of_nat (unat a * 2 ^ j + unat x) :: u8)"
  using unat_shift_or [of x j a] by (simp add: word_unat_eq_iff del: of_nat_add of_nat_mult)

lemma unat_low_byte: "unat (ucast (drop_bit k u) :: u8) = unat (u :: u32) div 2 ^ k mod 256"
  by (simp add: unsigned_ucast_eq unat_drop_bit_div take_bit_eq_mod)

lemma continuation_byte:
  "TOP_BITS 1 OR (ucast (drop_bit k u) AND BOTTOM_BITS 6) = of_nat (128 + unat (u :: u32) div 2 ^ k mod 64)"
proof -
  have t: "TOP_BITS 1 = push_bit 6 2" by (simp add: TOP_BITS_values [simplified])
  have "unat (ucast (drop_bit k u) AND BOTTOM_BITS 6 :: u8) = unat u div 2 ^ k mod 256 mod 64"
    by (simp only: unat_AND_BOTTOM_BITS unat_low_byte) simp
  also have "\<dots> = unat u div 2 ^ k mod 64" by (simp add: mod_mod_cancel)
  finally have m: "unat (ucast (drop_bit k u) AND BOTTOM_BITS 6 :: u8) = unat u div 2 ^ k mod 64" .
  have "unat u div 2 ^ k mod 64 < 64" by simp
  then show ?thesis
    unfolding t using or_byte [of "ucast (drop_bit k u) AND BOTTOM_BITS 6" 6 2]
    by (simp only: m) (simp del: of_nat_add)
qed

lemma lead_bytes:
  "unat (u :: u32) div 64 < 32 \<Longrightarrow> TOP_BITS 2 OR ucast (drop_bit 6 u) = of_nat (192 + unat u div 64)"
  "unat u div 4096 < 16 \<Longrightarrow> TOP_BITS 3 OR ucast (drop_bit 12 u) = of_nat (224 + unat u div 4096)"
  "unat u div 262144 < 8 \<Longrightarrow> TOP_BITS 4 OR ucast (drop_bit 18 u) = of_nat (240 + unat u div 262144)"
proof -
  have t: "TOP_BITS 2 = push_bit 5 6" "TOP_BITS 3 = push_bit 4 14" "TOP_BITS 4 = push_bit 3 30"
    by (simp_all add: TOP_BITS_values)
  show "unat u div 64 < 32 \<Longrightarrow> TOP_BITS 2 OR ucast (drop_bit 6 u) = of_nat (192 + unat u div 64)"
    unfolding t using or_byte [of "ucast (drop_bit 6 u)" 5 6] unat_low_byte [of 6 u] by (simp del: of_nat_add)
  show "unat u div 4096 < 16 \<Longrightarrow> TOP_BITS 3 OR ucast (drop_bit 12 u) = of_nat (224 + unat u div 4096)"
    unfolding t using or_byte [of "ucast (drop_bit 12 u)" 4 14] unat_low_byte [of 12 u] by (simp del: of_nat_add)
  show "unat u div 262144 < 8 \<Longrightarrow> TOP_BITS 4 OR ucast (drop_bit 18 u) = of_nat (240 + unat u div 262144)"
    unfolding t using or_byte [of "ucast (drop_bit 18 u)" 3 30] unat_low_byte [of 18 u] by (simp del: of_nat_add)
qed

lemma cbb_add_utf8_eq:
  "cbb_add_utf8 alloc d u cbb =
     (if code_point (unat u) then add_u8s alloc d (utf8 (unat u)) cbb else (None, cbb))"
proof (cases "code_point (unat u)")
  case True
  then have n: "unat u < 0x110000" by (simp add: code_point_def)
  have c0: "TOP_BITS 1 OR (ucast u AND BOTTOM_BITS 6) = of_nat (128 + unat u mod 64)"
    using continuation_byte [of 0 u] by simp
  have b: "ucast u = (of_nat (unat u) :: u8)" by simp
  have le: "u \<le> 0x7f \<longleftrightarrow> unat u < 0x80" "u \<le> 0x7ff \<longleftrightarrow> unat u < 0x800" "u \<le> 0xffff \<longleftrightarrow> unat u < 0x10000"
    "u \<le> 0x10ffff" using n by (auto simp: word_le_nat_alt)
  consider "unat u < 0x80" | "0x80 \<le> unat u" "unat u < 0x800" | "0x800 \<le> unat u" "unat u < 0x10000"
    | "0x10000 \<le> unat u" by linarith
  then show ?thesis
  proof cases
    case 1
    then show ?thesis
      unfolding cbb_add_utf8_def is_valid_code_point_iff le b using True
      by (simp add: utf8_def write_all_fun andthen_unit)
  next
    case 2
    then have "unat u div 64 < 32" by simp
    note l = lead_bytes(1) [OF this]
    show ?thesis
      unfolding cbb_add_utf8_def is_valid_code_point_iff le l c0 using True 2
      by (simp add: utf8_def write_all_fun andthen_unit del: of_nat_add)
  next
    case 3
    then have "unat u div 4096 < 16" by simp
    note l = lead_bytes(2) [OF this]
    show ?thesis
      unfolding cbb_add_utf8_def is_valid_code_point_iff le l c0 continuation_byte using True 3
      by (simp add: utf8_def write_all_fun andthen_unit del: of_nat_add)
  next
    case 4
    then have "unat u div 262144 < 8" using n by simp
    note l = lead_bytes(3) [OF this]
    show ?thesis
      unfolding cbb_add_utf8_def is_valid_code_point_iff le l c0 continuation_byte using True 4 le(4)
      by (simp add: utf8_def write_all_fun andthen_unit del: of_nat_add)
  qed
qed (simp add: cbb_add_utf8_def is_valid_code_point_iff)

lemma utf8_nonempty [simp]: "utf8 n \<noteq> []"
  by (simp add: utf8_def)

text \<open>A guarded write: refused when the guard fails.\<close>

lemma implements_guard:
  "implements alloc d f True bs [] \<Longrightarrow> implements alloc d (\<lambda>cbb. if ok then f cbb else (None, cbb)) ok bs []"
  by (cases ok) (auto simp: implements_def)

interpretation utf8_codec: serializer cbb_add_utf8 cbs_get_utf8 "\<lambda>u. utf8 (unat u)"
  "\<lambda>u. code_point (unat u)" "\<lambda>_. True"
proof
  show "implements alloc d (cbb_add_utf8 alloc d v) (code_point (unat v)) (utf8 (unat v)) []" for alloc d v
    using implements_guard [OF implements_add_u8s] by (simp add: cbb_add_utf8_eq [abs_def])
qed (auto simp: cbs_get_utf8_complete dest: cbs_get_utf8_sound)

lemma cbb_get_utf8_len_eq: "cbb_get_utf8_len u = length (utf8 (unat u))"
  by (auto simp: cbb_get_utf8_len_def utf8_def word_le_nat_alt)

section \<open>The other encodings\<close>

interpretation latin1_codec: serializer cbb_add_latin1 cbs_get_latin1 "\<lambda>u. [ucast u]"
  "\<lambda>u. unat u \<le> 0xff" "\<lambda>_. True"
proof
  have g: "u \<le> 0xff \<longleftrightarrow> unat u \<le> 0xff" for u :: u32 by (simp add: word_le_nat_alt)
  show "implements alloc d (cbb_add_latin1 alloc d v) (unat v \<le> 0xff) [ucast v] []" for alloc d v
    using implements_guard [OF implements_add_u8] by (simp add: cbb_add_latin1_def [abs_def] g)
  show "unat v \<le> 0xff \<Longrightarrow> cbs_get_latin1 ([ucast v] @ s) = (Some v, s)" for v s
    by (simp add: cbs_get_latin1_def word_unat_eq_iff unsigned_ucast_eq unsigned_take_bit_eq take_bit_nat_eq_self)
  show "unat v \<le> 0xff \<and> s = [ucast v] @ t" if "cbs_get_latin1 s = (Some v, t)" for s v t
  proof -
    from that obtain c where "s = c # t" "v = ucast c"
      by (auto simp: cbs_get_latin1_def andthen_eq_Some CBS_get_u8_iff)
    moreover have "unat c \<le> 255" using unat_u8_less [of c] by linarith
    moreover have "ucast (ucast c :: u32) = c"
      by (rule bit_word_eqI) (auto simp: bit_simps)
    ultimately show ?thesis by (simp add: unat_ucast_up)
  qed
qed simp

interpretation ucs2_codec: serializer cbb_add_ucs2_be cbs_get_ucs2_be "\<lambda>u. be_bytes 2 (unat u)"
  "\<lambda>u. unat u \<le> 0xffff \<and> code_point (unat u)" "\<lambda>_. True"
proof
  have g: "u \<le> 0xffff \<longleftrightarrow> unat u \<le> 0xffff" for u :: u32 by (simp add: word_le_nat_alt)
  have c: "unat (ucast v :: u16) = unat v" if "unat v \<le> 0xffff" for v :: u32
    using that by (simp add: unsigned_ucast_eq take_bit_nat_eq_self)
  show "implements alloc d (cbb_add_ucs2_be alloc d v) (unat v \<le> 0xffff \<and> code_point (unat v))
      (be_bytes 2 (unat v)) []" for alloc d v
  proof (cases "unat v \<le> 0xffff")
    case True
    with implements_guard [OF u16_writer.op_implements [where v = "ucast v"], of alloc d "code_point (unat v)"] show ?thesis
      by (simp add: cbb_add_ucs2_be_def [abs_def] g c is_valid_code_point_iff)
  next
    case False
    then show ?thesis by (simp add: cbb_add_ucs2_be_def [abs_def] g implements_def)
  qed
  show "unat v \<le> 0xffff \<and> code_point (unat v) \<Longrightarrow> cbs_get_ucs2_be (be_bytes 2 (unat v) @ s) = (Some v, s)" for v s
  proof -
    assume v: "unat v \<le> 0xffff \<and> code_point (unat v)"
    then have "CBS_get_u16 (be_bytes 2 (unat v) @ s) = (Some (ucast v), s)" by (simp add: CBS_get_u16_iff c)
    moreover have "(ucast (ucast v :: u16) :: u32) = v" using v by (simp add: word_unat_eq_iff unat_ucast_up c)
    ultimately show ?thesis using v by (simp add: cbs_get_ucs2_be_def is_valid_code_point_iff)
  qed
  show "(unat v \<le> 0xffff \<and> code_point (unat v)) \<and> s = be_bytes 2 (unat v) @ t"
    if "cbs_get_ucs2_be s = (Some v, t)" for s v t
  proof -
    from that obtain w :: u16 where w: "s = be_bytes 2 (unat w) @ t" "v = ucast w" "is_valid_code_point v"
      by (auto simp: cbs_get_ucs2_be_def andthen_eq_Some CBS_get_u16_iff split: if_splits)
    have "unat w < 2 ^ 16" using unsigned_less [of w, where ?'a = nat] by simp
    with w show ?thesis by (simp add: unat_ucast_up is_valid_code_point_iff)
  qed
qed (simp flip: length_0_conv)

interpretation utf32_codec: serializer cbb_add_utf32_be cbs_get_utf32_be "\<lambda>u. be_bytes 4 (unat u)"
  "\<lambda>u. code_point (unat u)" "\<lambda>_. True"
proof
  show "implements alloc d (cbb_add_utf32_be alloc d v) (code_point (unat v)) (be_bytes 4 (unat v)) []" for alloc d v
    using implements_guard [OF u32_writer.op_implements]
    by (simp add: cbb_add_utf32_be_def [abs_def] is_valid_code_point_iff)
  show "code_point (unat v) \<Longrightarrow> cbs_get_utf32_be (be_bytes 4 (unat v) @ s) = (Some v, s)" for v s
    using u32_codec.rd_enc [of v s] by (simp add: cbs_get_utf32_be_def is_valid_code_point_iff)
qed (auto simp: cbs_get_utf32_be_def andthen_eq_Some CBS_get_u32_iff is_valid_code_point_iff split: if_splits
    simp flip: length_0_conv)

end
