(* ===== verification/String_Table.thy ===== *)
theory String_Table
  imports Stack
begin

text \<open>
  The string table of \<open>crypto/asn1/a_strnid.c\<close>: which types and lengths an ASN.1 string may have for
  an object identifier. A standard part is searched with \<open>bsearch\<close>, entries added by the program are
  in a stack sorted by identifier; this is a client of the stack, and its comparison function is an
  instance of the contract \<open>total_cmp\<close>. The pointer that \<open>ASN1_STRING_TABLE_get\<close> returns is one into
  the standard part or to the entry in a slot of the stack.
\<close>

section \<open>Definitions\<close>

definition B_ASN1_PRINTABLESTRING :: u64 where "B_ASN1_PRINTABLESTRING = 0x0002"
definition B_ASN1_T61STRING :: u64 where "B_ASN1_T61STRING = 0x0004"
definition B_ASN1_IA5STRING :: u64 where "B_ASN1_IA5STRING = 0x0010"
definition B_ASN1_UNIVERSALSTRING :: u64 where "B_ASN1_UNIVERSALSTRING = 0x0100"
definition B_ASN1_BMPSTRING :: u64 where "B_ASN1_BMPSTRING = 0x0800"
definition B_ASN1_UTF8STRING :: u64 where "B_ASN1_UTF8STRING = 0x2000"

definition DIRSTRING_TYPE :: u64 where
  "DIRSTRING_TYPE = B_ASN1_PRINTABLESTRING OR B_ASN1_T61STRING OR B_ASN1_BMPSTRING OR B_ASN1_UTF8STRING"

definition PKCS9STRING_TYPE :: u64 where
  "PKCS9STRING_TYPE = DIRSTRING_TYPE OR B_ASN1_IA5STRING"

definition STABLE_FLAGS_MALLOC :: u64 where "STABLE_FLAGS_MALLOC = 0x01"
definition STABLE_NO_MASK :: u64 where "STABLE_NO_MASK = 0x02"

text \<open>\<open>ASN1_STRING_TABLE\<close>; \<open>int\<close> has 32 and \<open>long\<close> 64 bits.\<close>

record string_entry =
  nid :: u32
  minsize :: u64
  maxsize :: u64
  entry_mask :: u64
  flags :: u64

definition sizeof_STRING_TABLE :: u64 where "sizeof_STRING_TABLE = 40"

definition entry :: "u32 \<Rightarrow> u64 \<Rightarrow> u64 \<Rightarrow> u64 \<Rightarrow> u64 \<Rightarrow> string_entry" where
  "entry i mn mx m fl = \<lparr>nid = i, minsize = mn, maxsize = mx, entry_mask = m, flags = fl\<rparr>"

definition ub_name :: u64 where "ub_name = 32768"
definition ub_common_name :: u64 where "ub_common_name = 64"
definition ub_locality_name :: u64 where "ub_locality_name = 128"
definition ub_state_name :: u64 where "ub_state_name = 128"
definition ub_organization_name :: u64 where "ub_organization_name = 64"
definition ub_organization_unit_name :: u64 where "ub_organization_unit_name = 64"
definition ub_email_address :: u64 where "ub_email_address = 128"
definition ub_serial_number :: u64 where "ub_serial_number = 64"

definition tbl_standard :: "string_entry list" where
  "tbl_standard =
     [entry 13 1 ub_common_name DIRSTRING_TYPE 0,
      entry 14 2 2 B_ASN1_PRINTABLESTRING STABLE_NO_MASK,
      entry 15 1 ub_locality_name DIRSTRING_TYPE 0,
      entry 16 1 ub_state_name DIRSTRING_TYPE 0,
      entry 17 1 ub_organization_name DIRSTRING_TYPE 0,
      entry 18 1 ub_organization_unit_name DIRSTRING_TYPE 0,
      entry 48 1 ub_email_address B_ASN1_IA5STRING STABLE_NO_MASK,
      entry 49 1 (-1) PKCS9STRING_TYPE 0,
      entry 54 1 (-1) PKCS9STRING_TYPE 0,
      entry 55 1 (-1) DIRSTRING_TYPE 0,
      entry 99 1 ub_name DIRSTRING_TYPE 0,
      entry 100 1 ub_name DIRSTRING_TYPE 0,
      entry 101 1 ub_name DIRSTRING_TYPE 0,
      entry 105 1 ub_serial_number B_ASN1_PRINTABLESTRING STABLE_NO_MASK,
      entry 156 (-1) (-1) B_ASN1_BMPSTRING STABLE_NO_MASK,
      entry 173 1 ub_name DIRSTRING_TYPE 0,
      entry 174 (-1) (-1) B_ASN1_PRINTABLESTRING STABLE_NO_MASK,
      entry 391 1 (-1) B_ASN1_IA5STRING STABLE_NO_MASK,
      entry 417 (-1) (-1) B_ASN1_BMPSTRING STABLE_NO_MASK]"

text \<open>
  The comparison functions. The subtraction is in \<open>int\<close>; where it overflows, C leaves the result
  undefined, here it wraps. \<open>sk_table_cmp\<close> is only called on entries, never on NULL.
\<close>

definition table_cmp :: "string_entry \<Rightarrow> string_entry \<Rightarrow> int" where
  "table_cmp a b = sint (nid a - nid b)"

definition sk_table_cmp :: "unit \<Rightarrow> string_entry option \<Rightarrow> string_entry option \<Rightarrow> int" where
  "sk_table_cmp comp_func a b = (case (a, b) of (Some a, Some b) \<Rightarrow> sint (nid a - nid b) | _ \<Rightarrow> 0)"

type_synonym stable_stack = "(string_entry, unit) stack"

datatype entry_ptr = Standard nat | Added u64

text \<open>\<open>bsearch\<close> of the C library, on the standard part: the index of an entry that compares equal.\<close>

fun bsearch_standard :: "string_entry \<Rightarrow> string_entry list \<Rightarrow> nat option" where
  "bsearch_standard fnd [] = None"
| "bsearch_standard fnd (e # es) =
     (if table_cmp fnd e = 0 then Some 0 else map_option Suc (bsearch_standard fnd es))"

type_synonym qsort_fun =
  "(string_entry option \<Rightarrow> string_entry option \<Rightarrow> int) \<Rightarrow> string_entry option list \<Rightarrow> string_entry option list"

text \<open>
  The state is the static \<open>stable\<close>. The outer \<open>None\<close> is a failed assertion in the search. Only the
  field \<open>nid\<close> of \<open>fnd\<close> is initialised and read.
\<close>

definition ASN1_STRING_TABLE_get ::
  "qsort_fun \<Rightarrow> u32 \<Rightarrow> stable_stack option \<Rightarrow> (entry_ptr option \<times> stable_stack option) option" where
  "ASN1_STRING_TABLE_get qsort n stbl =
     (let fnd = entry n 0 0 0 0
      in case bsearch_standard fnd tbl_standard of
           Some i \<Rightarrow> Some (Some (Standard i), stbl)
         | None \<Rightarrow>
             (if stbl = None then Some (None, stbl)
              else
                (let stbl = sk_sort qsort sk_table_cmp stbl
                 in case sk_find sk_table_cmp stbl (Some fnd) of
                      None \<Rightarrow> None
                    | Some None \<Rightarrow> Some (None, stbl)
                    | Some (Some idx) \<Rightarrow>
                        Some (case sk_value stbl idx of None \<Rightarrow> None | Some _ \<Rightarrow> Some (Added idx), stbl))))"

definition entry_at :: "stable_stack option \<Rightarrow> entry_ptr \<Rightarrow> string_entry option" where
  "entry_at stbl p =
     (case p of
        Standard i \<Rightarrow> if i < length tbl_standard then Some (tbl_standard ! i) else None
      | Added i \<Rightarrow> sk_value stbl i)"

definition set_sizes :: "u64 \<Rightarrow> u64 \<Rightarrow> u64 \<Rightarrow> string_entry \<Rightarrow> string_entry" where
  "set_sizes mn mx m tmp =
     (let tmp = (if mn \<noteq> - 1 then tmp\<lparr>minsize := mn\<rparr> else tmp);
          tmp = (if mx \<noteq> - 1 then tmp\<lparr>maxsize := mx\<rparr> else tmp)
      in tmp\<lparr>entry_mask := m\<rparr>)"

text \<open>
  \<open>None\<close> is undefined behaviour: a store to the constant \<open>tbl_standard\<close>. Otherwise the return value
  and the static variable. The entry in a slot is changed in place.
\<close>

definition ASN1_STRING_TABLE_add ::
  "(nat \<Rightarrow> bool) \<Rightarrow> qsort_fun \<Rightarrow> u32 \<Rightarrow> u64 \<Rightarrow> u64 \<Rightarrow> u64 \<Rightarrow> u64 \<Rightarrow> stable_stack option
   \<Rightarrow> (bool \<times> stable_stack option) option" where
  "ASN1_STRING_TABLE_add alloc qsort n mn mx m fl stbl =
     (let fl = fl AND NOT STABLE_FLAGS_MALLOC;
          stbl = (if stbl = None then sk_new alloc (Some ()) else stbl)
      in if stbl = None then Some (False, None)
         else
           (case ASN1_STRING_TABLE_get qsort n stbl of
              None \<Rightarrow> None
            | Some (None, stbl) \<Rightarrow>
                (if OPENSSL_malloc alloc sizeof_STRING_TABLE = None then Some (False, stbl)
                 else
                   (let tmp = entry n (- 1) (- 1) 0 (fl OR STABLE_FLAGS_MALLOC);
                        tmp = set_sizes mn mx m tmp;
                        stbl = (case stbl of None \<Rightarrow> None | Some s \<Rightarrow> snd (sk_push alloc s (Some tmp)))
                    in Some (True, stbl)))
            | Some (Some (Standard i), stbl) \<Rightarrow> None
            | Some (Some (Added i), stbl) \<Rightarrow>
                (case (stbl, sk_value stbl i) of
                   (Some s, Some tmp) \<Rightarrow>
                     (let tmp = tmp\<lparr>flags := (flags tmp AND STABLE_FLAGS_MALLOC) OR fl\<rparr>;
                          tmp = set_sizes mn mx m tmp
                      in Some (True, Some (s\<lparr>st_data := (st_data s)[unat i := Some tmp]\<rparr>)))
                 | _ \<Rightarrow> None)))"

text \<open>The entries that are freed, and the static variable afterwards.\<close>

definition st_free :: "string_entry \<Rightarrow> string_entry list" where
  "st_free e = (if flags e AND STABLE_FLAGS_MALLOC \<noteq> 0 then [e] else [])"

definition ASN1_STRING_TABLE_cleanup :: "stable_stack option \<Rightarrow> string_entry list \<times> stable_stack option" where
  "ASN1_STRING_TABLE_cleanup stbl =
     (if stbl = None then ([], stbl) else (concat (map st_free (sk_pop_free_ex stbl)), None))"

section \<open>The table as a map\<close>

text \<open>Identifiers are not negative; on these the comparison functions order the entries.\<close>

definition valid_nid :: "string_entry \<Rightarrow> bool" where
  "valid_nid e \<longleftrightarrow> unat (nid e) < 2 ^ 31"

lemma sint_diff_small:
  fixes x y :: u32
  assumes "unat x < 2 ^ 31" "unat y < 2 ^ 31"
  shows "sint (x - y) = int (unat x) - int (unat y)"
proof -
  have "int (unat x) < int (2 ^ 31)" "int (unat y) < int (2 ^ 31)" using assms by (simp_all only: of_nat_less_iff)
  then have b: "uint x < 2 ^ 31" "uint y < 2 ^ 31" by simp_all
  then have s: "sint x = uint x" "sint y = uint y" by (simp_all add: sint_eq_uint)
  have "- (2 ^ 31) \<le> uint x - uint y" "uint x - uint y < 2 ^ 31"
    using b unsigned_greater_eq [of x, where ?'a = int] unsigned_greater_eq [of y, where ?'a = int] by linarith+
  then show ?thesis by (simp add: sint_word_ariths s signed_take_bit_int_eq_self)
qed

lemma table_cmp_diff:
  "valid_nid a \<Longrightarrow> valid_nid b \<Longrightarrow> table_cmp a b = int (unat (nid a)) - int (unat (nid b))"
  unfolding table_cmp_def valid_nid_def by (rule sint_diff_small)

lemma sk_table_cmp_eq: "sk_table_cmp c (Some a) (Some b) = table_cmp a b"
  by (simp add: sk_table_cmp_def table_cmp_def)

interpretation table: total_cmp valid_nid "sk_table_cmp c"
  by unfold_locales (simp_all add: sk_table_cmp_eq table_cmp_diff)


definition added :: "stable_stack option \<Rightarrow> string_entry list" where
  "added stbl = (case stbl of None \<Rightarrow> [] | Some s \<Rightarrow> non_null (sk_list s))"

definition all_entries :: "stable_stack option \<Rightarrow> string_entry list" where
  "all_entries stbl = tbl_standard @ added stbl"

text \<open>The entry for an identifier, whatever the order of the stack.\<close>

definition string_table :: "stable_stack option \<Rightarrow> u32 \<Rightarrow> string_entry option" where
  "string_table stbl = map_of (map (\<lambda>e. (nid e, e)) (all_entries stbl))"

definition table_ok :: "stable_stack option \<Rightarrow> bool" where
  "table_ok stbl \<longleftrightarrow>
     distinct (map nid (all_entries stbl)) \<and>
     (case stbl of None \<Rightarrow> True | Some s \<Rightarrow> stack_inv valid_nid sk_table_cmp s \<and> st_comp s = Some ())"

lemma string_table_iff:
  "distinct (map nid (all_entries stbl)) \<Longrightarrow>
     string_table stbl n = Some e \<longleftrightarrow> e \<in> set (all_entries stbl) \<and> nid e = n"
  by (auto simp: string_table_def map_of_eq_Some_iff comp_def)

lemma string_table_mset:
  assumes "mset (all_entries a) = mset (all_entries b)" "distinct (map nid (all_entries a))"
  shows "string_table a = string_table b" "distinct (map nid (all_entries b))"
proof -
  have "mset (map nid (all_entries a)) = mset (map nid (all_entries b))"
    using assms(1) by (metis mset_map)
  then show d: "distinct (map nid (all_entries b))" using assms(2) by (metis mset_eq_imp_distinct_iff)
  have "string_table a n = Some e \<longleftrightarrow> string_table b n = Some e" for n e
    using string_table_iff [OF assms(2)] string_table_iff [OF d] mset_eq_setD [OF assms(1)] by simp
  then show "string_table a = string_table b" by (metis option.exhaust ext)
qed

lemma standard_distinct: "distinct (map nid tbl_standard)" and standard_valid: "list_all valid_nid tbl_standard"
  by (simp_all add: tbl_standard_def entry_def valid_nid_def)

lemma table_ok_init: "table_ok None"
  by (simp add: table_ok_def all_entries_def added_def standard_distinct)

lemma mset_non_null: "mset xs = mset ys \<Longrightarrow> mset (non_null xs) = mset (non_null ys)"
proof -
  have n: "mset (non_null xs) = image_mset the (filter_mset (\<lambda>e. e \<noteq> None) (mset xs))" for xs :: "'a option list"
    by (induction xs rule: non_null.induct) auto
  assume "mset xs = mset ys"
  then show ?thesis by (simp add: n)
qed

lemma table_cmp_0: "valid_nid a \<Longrightarrow> valid_nid b \<Longrightarrow> table_cmp a b = 0 \<longleftrightarrow> nid a = nid b"
  by (simp only: table_cmp_diff word_unat_eq_iff right_minus_eq of_nat_eq_iff)

lemma bsearch_standard_find:
  "valid_nid fnd \<Longrightarrow> list_all valid_nid es \<Longrightarrow>
     (case bsearch_standard fnd es of
        None \<Rightarrow> \<forall>e \<in> set es. nid e \<noteq> nid fnd
      | Some i \<Rightarrow> i < length es \<and> nid (es ! i) = nid fnd)"
  by (induction es) (auto simp: table_cmp_0 split: option.splits)


subsection \<open>Looking up\<close>

lemma sk_sort_Some: "\<exists>s'. sk_sort qsort call_cmp (Some s) = Some s'"
  by (auto simp: sk_sort_def Let_def split: option.splits)

lemma non_null_set: "e \<in> set (non_null es) \<longleftrightarrow> Some e \<in> set es"
  by (induction es rule: non_null.induct) auto

lemma added_iff: "e \<in> set (added stbl) \<longleftrightarrow> (\<exists>s. stbl = Some s \<and> Some e \<in> set (sk_list s))"
  by (cases stbl) (auto simp: added_def non_null_set)

lemma valid_entry: "unat n < 2 ^ 31 \<Longrightarrow> valid_nid (entry n mn mx m fl)" and nid_entry [simp]: "nid (entry n mn mx m fl) = n"
  by (simp_all add: valid_nid_def entry_def)

lemma table_sorted:
  assumes "table_ok (Some s)" "sorts valid_nid qsort"
  obtains s' where "sk_sort qsort sk_table_cmp (Some s) = Some s'" "table_ok (Some s')"
    "string_table (Some s') = string_table (Some s)" "mset (sk_list s') = mset (sk_list s)"
proof -
  obtain s' where s': "sk_sort qsort sk_table_cmp (Some s) = Some s'" using sk_sort_Some by blast
  have inv: "stack_inv valid_nid sk_table_cmp s" and c: "st_comp s = Some ()"
    and d: "distinct (map nid (all_entries (Some s)))"
    using assms(1) by (simp_all add: table_ok_def)
  note r = sk_sort_ok [OF inv assms(2) table.total_cmp_axioms s']
  have m: "mset (all_entries (Some s)) = mset (all_entries (Some s'))"
    using mset_non_null [OF r(2)] by (simp add: all_entries_def added_def)
  from string_table_mset [OF m d] r c show ?thesis
    by (intro that [OF s']) (simp_all add: table_ok_def)
qed

lemma get_ok:
  assumes ok: "table_ok stbl" and q: "sorts valid_nid qsort" and n: "unat n < 2 ^ 31"
  obtains p stbl' where "ASN1_STRING_TABLE_get qsort n stbl = Some (p, stbl')" "table_ok stbl'"
    "string_table stbl' = string_table stbl" "Option.bind p (entry_at stbl') = string_table stbl n"
    "p = None \<longleftrightarrow> string_table stbl n = None" "stbl' = None \<longleftrightarrow> stbl = None"
    "\<And>i. p = Some (Standard i) \<Longrightarrow> n \<in> nid ` set tbl_standard"
proof -
  let ?fnd = "entry n 0 0 0 0"
  have d: "distinct (map nid (all_entries stbl))" using ok by (simp add: table_ok_def)
  note find = bsearch_standard_find [OF valid_entry [OF n] standard_valid, of 0 0 0 0]
  show ?thesis
  proof (cases "bsearch_standard ?fnd tbl_standard")
    case (Some i)
    with find have i: "i < length tbl_standard" "nid (tbl_standard ! i) = n" by simp_all
    then have "string_table stbl n = Some (tbl_standard ! i)"
      using string_table_iff [OF d] by (simp add: all_entries_def)
    with i ok Some show ?thesis
      by (intro that [of "Some (Standard i)" stbl])
        (auto simp: ASN1_STRING_TABLE_get_def Let_def entry_at_def)
  next
    case None
    with find have std: "n \<notin> nid ` set tbl_standard" by auto
    show ?thesis
    proof (cases stbl)
      case None
      with std have "string_table stbl n = None"
        using string_table_iff [OF d] by (metis (no_types, lifting) all_entries_def append_Nil2 added_def image_eqI not_Some_eq option.simps(4))
      with None std \<open>bsearch_standard ?fnd tbl_standard = None\<close> ok show ?thesis
        by (intro that [of None stbl]) (simp_all add: ASN1_STRING_TABLE_get_def Let_def)
    next
      case (Some s)
      from ok Some have "table_ok (Some s)" by simp
      then obtain s' where s': "sk_sort qsort sk_table_cmp (Some s) = Some s'" "table_ok (Some s')"
        "string_table (Some s') = string_table (Some s)"
        by (rule table_sorted [OF _ q])
      then have inv: "stack_inv valid_nid sk_table_cmp s'" and c: "st_comp s' = Some ()"
        and d': "distinct (map nid (all_entries (Some s')))" by (simp_all add: table_ok_def)
      obtain r where r: "sk_find sk_table_cmp (Some s') (Some ?fnd) = Some r"
        "first_match (\<lambda>e. sk_table_cmp () (Some ?fnd) e = 0) (sk_list s') r"
        using sk_find_inv [OF inv table.total_cmp_axioms c valid_entry [OF n]] by blast
      have acc: "\<exists>e. x = Some e \<and> (sk_table_cmp () (Some ?fnd) x = 0 \<longleftrightarrow> nid e = n)" if "x \<in> set (sk_list s')" for x
        using that inv valid_entry [OF n, of 0 0 0 0]
        by (auto simp: stack_inv_def list_all_iff accepted_def sk_table_cmp_eq table_cmp_0 split: option.splits)
      show ?thesis
      proof (cases r)
        case None
        have "string_table (Some s') n = None"
        proof (rule ccontr)
          assume "string_table (Some s') n \<noteq> None"
          then obtain e where "e \<in> set (all_entries (Some s'))" "nid e = n"
            using string_table_iff [OF d'] by blast
          with std have "Some e \<in> set (sk_list s')" by (auto simp: all_entries_def added_iff)
          with acc [OF this] r(2) None \<open>nid e = n\<close> show False by (auto simp: first_match_def)
        qed
        with None r(1) s' std \<open>bsearch_standard ?fnd tbl_standard = None\<close> Some show ?thesis
          by (intro that [of None "Some s'"]) (simp_all add: ASN1_STRING_TABLE_get_def Let_def)
      next
        case (Some idx)
        with r(2) have i: "unat idx < length (sk_list s')" "sk_table_cmp () (Some ?fnd) (sk_list s' ! unat idx) = 0"
          by (simp_all add: first_match_def)
        from acc [OF nth_mem [OF i(1)]] i(2) obtain e where e: "sk_list s' ! unat idx = Some e" "nid e = n" by blast
        have v: "sk_value (Some s') idx = Some e"
          using sk_value_eq [of s' idx] inv i e by (simp add: stack_inv_def)
        have "Some e \<in> set (sk_list s')" using e(1) i(1) nth_mem by metis
        then have "string_table (Some s') n = Some e"
          using string_table_iff [OF d'] e(2) by (simp add: all_entries_def added_iff)
        with Some r(1) s' v \<open>bsearch_standard ?fnd tbl_standard = None\<close> \<open>stbl = Some s\<close> show ?thesis
          by (intro that [of "Some (Added idx)" "Some s'"])
            (simp_all add: ASN1_STRING_TABLE_get_def Let_def entry_at_def)
      qed
    qed
  qed
qed


subsection \<open>Adding and changing entries\<close>

definition same_table :: "stable_stack option \<Rightarrow> stable_stack option \<Rightarrow> bool" where
  "same_table stbl stbl' \<longleftrightarrow> table_ok stbl' \<and> string_table stbl' = string_table stbl"

text \<open>The entry that \<open>ASN1_STRING_TABLE_add\<close> leaves for its identifier, given the one before.\<close>

definition changed_entry :: "u32 \<Rightarrow> u64 \<Rightarrow> u64 \<Rightarrow> u64 \<Rightarrow> u64 \<Rightarrow> string_entry option \<Rightarrow> string_entry" where
  "changed_entry n mn mx m fl old =
     (let fl = fl AND NOT STABLE_FLAGS_MALLOC
      in case old of
           None \<Rightarrow> entry n (if mn = - 1 then - 1 else mn) (if mx = - 1 then - 1 else mx) m (fl OR STABLE_FLAGS_MALLOC)
         | Some e \<Rightarrow>
             entry n (if mn = - 1 then minsize e else mn) (if mx = - 1 then maxsize e else mx) m
               ((flags e AND STABLE_FLAGS_MALLOC) OR fl))"

lemma string_table_upd:
  assumes "distinct (map nid (all_entries a))" "distinct (map nid (all_entries b))"
    "\<And>e. nid e \<noteq> n \<Longrightarrow> e \<in> set (all_entries b) \<longleftrightarrow> e \<in> set (all_entries a)"
    "new \<in> set (all_entries b)" "nid new = n"
  shows "string_table b = (string_table a)(n \<mapsto> new)"
proof
  fix k
  show "string_table b k = ((string_table a)(n \<mapsto> new)) k"
  proof (cases "k = n")
    case True
    then show ?thesis using string_table_iff [OF assms(2)] assms(4,5) by simp
  next
    case False
    have "string_table b k = Some e \<longleftrightarrow> string_table a k = Some e" for e
      using string_table_iff [OF assms(1)] string_table_iff [OF assms(2)] assms(3) [of e] False by auto
    with False show ?thesis by (metis fun_upd_other option.exhaust)
  qed
qed

lemma added_all_accepted:
  "list_all (accepted valid_nid) (sk_list s) \<Longrightarrow> map Some (added (Some s)) = sk_list s"
proof -
  have "list_all (accepted valid_nid) xs \<Longrightarrow> map Some (non_null xs) = xs" for xs
    by (induction xs rule: non_null.induct) (simp_all add: accepted_def)
  then show "list_all (accepted valid_nid) (sk_list s) \<Longrightarrow> ?thesis" by (simp add: added_def)
qed

text \<open>The identifiers are distinct, so that there are not more entries than identifiers.\<close>

lemma table_few:
  assumes "table_ok (Some s)"
  shows "unat (st_num s) < 2 ^ 59"
proof -
  have inv: "stack_inv valid_nid sk_table_cmp s" and d: "distinct (map nid (all_entries (Some s)))"
    using assms by (simp_all add: table_ok_def)
  then have k: "stack_ok s" "list_all (accepted valid_nid) (sk_list s)" by (simp_all add: stack_inv_def)
  let ?ns = "map nid (added (Some s))"
  have "distinct ?ns" using d by (simp add: all_entries_def)
  then have "length ?ns = card (set ?ns)" by (metis distinct_card)
  also have "\<dots> \<le> CARD(u32)" by (rule card_mono) simp_all
  also have "CARD(u32) = 2 ^ 32" by (simp add: card_word)
  finally have "length (added (Some s)) \<le> 2 ^ 32" by simp
  moreover have "length (sk_list s) = length (added (Some s))" using added_all_accepted [OF k(2)] by (metis length_map)
  ultimately show ?thesis using length_sk_list [OF k(1)] by simp
qed

lemma push_ok:
  assumes ok: "table_ok (Some s)" and n: "string_table (Some s) (nid e) = None" "valid_nid e"
  obtains (failed) k where "sk_push alloc s (Some e) = (0, Some s)" "\<not> alloc k"
  | (pushed) s' where "snd (sk_push alloc s (Some e)) = Some s'" "table_ok (Some s')"
      "string_table (Some s') = (string_table (Some s))(nid e \<mapsto> e)"
proof -
  have inv: "stack_inv valid_nid sk_table_cmp s" and c: "st_comp s = Some ()"
    and d: "distinct (map nid (all_entries (Some s)))" using ok by (simp_all add: table_ok_def)
  then have k: "stack_ok s" "list_all (accepted valid_nid) (sk_list s)" by (simp_all add: stack_inv_def)
  note few = table_few [OF ok]
  show ?thesis
  proof (rule sk_insert_ok [OF k(1), of alloc "Some e" "st_num s"])
    assume 0: "sk_insert alloc (Some s) (Some e) (st_num s) = (0, Some s)"
    with sk_insert_succeeds [OF k(1) _ few, of alloc] obtain j where "\<not> alloc j"
      by (metis fst_conv)
    with 0 show ?thesis by (intro failed) (simp add: sk_push_def)
  next
    fix s'
    assume s': "sk_insert alloc (Some s) (Some e) (st_num s) = (st_num s + 1, Some s')" "stack_ok s'"
      "sk_list s' = take (unat (st_num s)) (sk_list s) @ Some e # drop (unat (st_num s)) (sk_list s)"
      "st_comp s' = st_comp s" "\<not> st_sorted s'"
    have l: "sk_list s' = sk_list s @ [Some e]" using s'(3) length_sk_list [OF k(1)] by simp
    have inv': "stack_inv valid_nid sk_table_cmp s'"
      using s'(2,5) k n(2) by (simp add: stack_inv_def l accepted_def)
    have "map Some (added (Some s')) = map Some (added (Some s) @ [e])"
      using inv' k l by (simp add: added_all_accepted stack_inv_def)
    then have "added (Some s') = added (Some s) @ [e]" by (rule map_injective) simp
    then have a: "all_entries (Some s') = all_entries (Some s) @ [e]" by (simp add: all_entries_def)
    have "nid e \<notin> nid ` set (all_entries (Some s))"
      using string_table_iff [OF d, of "nid e"] n(1) by force
    with d a have d': "distinct (map nid (all_entries (Some s')))" by simp
    then have "string_table (Some s') = (string_table (Some s))(nid e \<mapsto> e)"
      by (intro string_table_upd [OF d d']) (auto simp: a)
    with pushed s' inv' d' c show ?thesis by (simp add: sk_push_def table_ok_def)
  qed
qed

lemma update_ok:
  assumes ok: "table_ok (Some s)" and i: "sk_value (Some s) i = Some e" and e: "nid e' = nid e"
    and std: "nid e \<notin> nid ` set tbl_standard"
  defines "s' \<equiv> s\<lparr>st_data := (st_data s)[unat i := Some e']\<rparr>"
  shows "table_ok (Some s')" "string_table (Some s') = (string_table (Some s))(nid e \<mapsto> e')"
proof -
  have inv: "stack_inv valid_nid sk_table_cmp s" and c: "st_comp s = Some ()"
    and d: "distinct (map nid (all_entries (Some s)))" using ok by (simp_all add: table_ok_def)
  then have k: "stack_ok s" "list_all (accepted valid_nid) (sk_list s)" by (simp_all add: stack_inv_def)
  have il: "unat i < length (sk_list s)" "sk_list s ! unat i = Some e"
    using i k(1) by (auto simp: sk_value_eq split: if_splits)
  have l: "sk_list s' = (sk_list s)[unat i := Some e']" and k': "stack_ok s'"
    using sk_set_ok(2,3) [OF k(1)] by (simp_all add: s'_def)
  have nth: "map_option nid (sk_list s' ! j) = map_option nid (sk_list s ! j)" for j
    using il e by (cases "j = unat i") (simp_all add: l)
  have cmp: "sk_table_cmp u x y = sk_table_cmp u x' y'" if "map_option nid x = map_option nid x'" "map_option nid y = map_option nid y'"
    for u x y x' y' using that by (cases x; cases y; cases x'; cases y') (simp_all add: sk_table_cmp_def)
  have "valid_nid e" using k(2) il by (metis accepted_def list_all_length option.simps(5))
  then have acc: "list_all (accepted valid_nid) (sk_list s')"
    using k(2) e by (auto simp: l list_all_iff accepted_def valid_nid_def dest!: set_update_subset_insert [THEN subsetD])
  have "ascending valid_nid (sk_table_cmp u) (sk_list s')" if "ascending valid_nid (sk_table_cmp u) (sk_list s)" for u
    using that acc cmp [OF nth nth]
    by (auto simp: ascending_def sorted_wrt_iff_nth_less l)
  with inv k' acc have inv': "stack_inv valid_nid sk_table_cmp s'"
    by (simp add: stack_inv_def s'_def)
  have "map Some (added (Some s')) = map Some ((added (Some s))[unat i := e'])"
    using k(2) acc l by (simp add: added_all_accepted map_update)
  then have a: "added (Some s') = (added (Some s))[unat i := e']" by (rule map_injective) simp
  have ai: "unat i < length (added (Some s))" "added (Some s) ! unat i = e"
  proof -
    have "length (sk_list s) = length (added (Some s))" using added_all_accepted [OF k(2)] by (metis length_map)
    with il show "unat i < length (added (Some s))" by simp
    with il added_all_accepted [OF k(2)] show "added (Some s) ! unat i = e" by (metis nth_map option.inject)
  qed
  have "map nid (added (Some s')) = map nid (added (Some s))"
    using ai e by (simp add: a map_update list_update_same_conv)
  then have d': "distinct (map nid (all_entries (Some s')))" using d by (simp add: all_entries_def)
  show "table_ok (Some s')" using inv' d' c by (simp add: table_ok_def s'_def)
  show "string_table (Some s') = (string_table (Some s))(nid e \<mapsto> e')"
  proof (rule string_table_upd [OF d d'])
    show "e' \<in> set (all_entries (Some s'))" using ai by (simp add: all_entries_def a set_update_memI)
    show "nid e' = nid e" by (rule e)
    fix x :: string_entry
    assume x: "nid x \<noteq> nid e"
    then have "x \<noteq> e" "x \<noteq> e'" using e by auto
    have "x \<in> set ((added (Some s))[unat i := e']) \<longleftrightarrow> x \<in> set (added (Some s))"
      using \<open>x \<noteq> e\<close> \<open>x \<noteq> e'\<close> ai(2)
      by (subst (2) id_take_nth_drop [OF ai(1)], subst upd_conv_take_nth_drop [OF ai(1)]) simp
    then show "x \<in> set (all_entries (Some s')) \<longleftrightarrow> x \<in> set (all_entries (Some s))"
      by (simp add: all_entries_def a)
  qed
qed


lemma set_sizes_entry:
  "set_sizes mn mx m (entry n (- 1) (- 1) 0 (fl AND NOT STABLE_FLAGS_MALLOC OR STABLE_FLAGS_MALLOC)) = changed_entry n mn mx m fl None"
  "nid e = n \<Longrightarrow> set_sizes mn mx m (e\<lparr>flags := (flags e AND STABLE_FLAGS_MALLOC) OR (fl AND NOT STABLE_FLAGS_MALLOC)\<rparr>) =
     changed_entry n mn mx m fl (Some e)"
  by (cases e; auto simp: set_sizes_def changed_entry_def entry_def Let_def)+

lemma nid_changed_entry [simp]: "nid (changed_entry n mn mx m fl old) = n"
  by (simp add: changed_entry_def Let_def split: option.split)

text \<open>
  What \<open>ASN1_STRING_TABLE_add\<close> does. It returns zero only when an allocation failed, and then the
  table is as before. It returns one with the table updated --- or with the table as before, when the
  push of a new entry failed: that result is not looked at.
\<close>

lemma add_ok:
  assumes ok: "table_ok stbl" and q: "sorts valid_nid qsort" and n: "unat n < 2 ^ 31"
    and std: "n \<notin> nid ` set tbl_standard"
  obtains (refused) stbl' where "ASN1_STRING_TABLE_add alloc qsort n mn mx m fl stbl = Some (False, stbl')"
      "same_table stbl stbl'" "string_table stbl n = None" "\<exists>k. \<not> alloc k"
  | (changed) stbl' where "ASN1_STRING_TABLE_add alloc qsort n mn mx m fl stbl = Some (True, stbl')" "table_ok stbl'"
      "string_table stbl' = (string_table stbl)(n \<mapsto> changed_entry n mn mx m fl (string_table stbl n))"
  | (lost) stbl' e and s :: stable_stack where "ASN1_STRING_TABLE_add alloc qsort n mn mx m fl stbl = Some (True, stbl')"
      "same_table stbl stbl'" "string_table stbl n = None" "sk_push alloc s (Some e) = (0, Some s)" "\<exists>k. \<not> alloc k"
proof -
  let ?add = "ASN1_STRING_TABLE_add alloc qsort n mn mx m fl stbl"
  define stbl1 where "stbl1 = (if stbl = None then sk_new alloc (Some ()) else stbl)"
  have s1: "table_ok stbl1 \<and> string_table stbl1 = string_table stbl" if "stbl1 \<noteq> None"
  proof (cases stbl)
    case None
    with that obtain s where s: "stbl1 = Some s" "sk_new alloc (Some ()) = Some s" by (auto simp: stbl1_def)
    with sk_new_ok [OF s(2)] have "added stbl1 = []" "stack_inv valid_nid sk_table_cmp s" "st_comp s = Some ()"
      by (simp_all add: added_def stack_inv_def)
    then show ?thesis using s None
      by (simp add: table_ok_def all_entries_def standard_distinct string_table_def added_def)
  qed (use ok in \<open>simp add: stbl1_def\<close>)
  show ?thesis
  proof (cases stbl1)
    case None
    then have "stbl = None" "?add = Some (False, None)"
      by (auto simp: stbl1_def ASN1_STRING_TABLE_add_def Let_def split: if_splits)
    moreover have "string_table None n = None"
      using std by (auto simp: string_table_def all_entries_def added_def map_of_eq_None_iff comp_def)
    moreover have "\<exists>k. \<not> alloc k"
      using None \<open>stbl = None\<close>
      by (auto simp: stbl1_def sk_new_def OPENSSL_malloc_def Let_def split: if_splits option.splits)
    ultimately show ?thesis using refused ok by (simp add: same_table_def)
  next
    case (Some s0)
    with s1 have ok1: "table_ok stbl1" and st1: "string_table stbl1 = string_table stbl" by simp_all
    obtain p stbl2 where g: "ASN1_STRING_TABLE_get qsort n stbl1 = Some (p, stbl2)" "table_ok stbl2"
      "string_table stbl2 = string_table stbl" "Option.bind p (entry_at stbl2) = string_table stbl n"
      "p = None \<longleftrightarrow> string_table stbl n = None" "stbl2 \<noteq> None" "\<And>i. p \<noteq> Some (Standard i)"
      using get_ok [OF ok1 q n] st1 Some std by (metis option.discI)
    then obtain s2 where s2: "stbl2 = Some s2" by blast
    show ?thesis
    proof (cases p)
      case None
      have none: "string_table (Some s2) n = None" using g(3,5) None s2 by simp
      let ?e = "changed_entry n mn mx m fl None"
      have v: "valid_nid ?e" using n by (simp add: valid_nid_def)
      have add: "?add = (if OPENSSL_malloc alloc sizeof_STRING_TABLE = None then Some (False, stbl2)
          else Some (True, snd (sk_push alloc s2 (Some ?e))))"
        using g(1) Some None s2
        by (simp add: ASN1_STRING_TABLE_add_def Let_def set_sizes_entry flip: stbl1_def)
      have same: "same_table stbl stbl2" using g(2,3) by (simp add: same_table_def)
      show ?thesis
      proof (cases "OPENSSL_malloc alloc sizeof_STRING_TABLE = None")
        case True
        then have "\<exists>k. \<not> alloc k" by (auto simp: OPENSSL_malloc_def Let_def split: if_splits)
        with add same refused True g(3,5) None s2 show ?thesis by simp
      next
        case False
        show ?thesis
        proof (rule push_ok [of s2 ?e alloc])
          show "table_ok (Some s2)" "string_table (Some s2) (nid ?e) = None" "valid_nid ?e"
            using g(2) s2 none v by simp_all
          fix k
          assume "sk_push alloc s2 (Some ?e) = (0, Some s2)" "\<not> alloc k"
          with lost [OF _ same _ _ exI, of s2 ?e k] add False g(3,5) None s2 show ?thesis by simp
        next
          fix s'
          assume "snd (sk_push alloc s2 (Some ?e)) = Some s'" "table_ok (Some s')"
            "string_table (Some s') = (string_table (Some s2))(nid ?e \<mapsto> ?e)"
          with add False changed [of "Some s'"] g(3,5) None s2 show ?thesis by simp
        qed
      qed
    next
      case (Some ptr)
      with g(7) obtain i where i: "p = Some (Added i)" by (cases ptr) auto
      then obtain e where e: "sk_value (Some s2) i = Some e" "string_table stbl n = Some e"
        using g(4,5) s2 by (auto simp: entry_at_def)
      have "distinct (map nid (all_entries stbl2))" using g(2) by (simp add: table_ok_def)
      then have nid: "nid e = n" using string_table_iff g(3) e(2) by metis
      let ?e = "changed_entry n mn mx m fl (Some e)"
      let ?s = "s2\<lparr>st_data := (st_data s2)[unat i := Some ?e]\<rparr>"
      have "?add = Some (True, Some ?s)"
        using g(1) \<open>stbl1 = Some s0\<close> i e(1) s2 nid
        by (simp add: ASN1_STRING_TABLE_add_def Let_def set_sizes_entry flip: stbl1_def)
      with changed [of "Some ?s"] update_ok [of s2 i e ?e] g(2,3) s2 e nid std show ?thesis by simp
    qed
  qed
qed

text \<open>An identifier of the standard part: the entry found is constant, and is written to.\<close>

lemma add_standard:
  assumes "n \<in> nid ` set tbl_standard" "unat n < 2 ^ 31"
  shows "ASN1_STRING_TABLE_add alloc qsort n mn mx m fl (Some s) = None"
proof -
  have "bsearch_standard (entry n 0 0 0 0) tbl_standard \<noteq> None"
    using bsearch_standard_find [OF valid_entry [OF assms(2)] standard_valid, of 0 0 0 0] assms(1) by (auto split: option.splits)
  then show ?thesis by (auto simp: ASN1_STRING_TABLE_add_def ASN1_STRING_TABLE_get_def Let_def)
qed

section \<open>The default mask\<close>

text \<open>
  \<open>strtoul\<close> of the C library with base 0, on a 64-bit \<open>unsigned long\<close>: the value and the rest of the
  text. A value that does not fit is replaced by the largest.
\<close>

definition digit_val :: "u8 \<Rightarrow> nat option" where
  "digit_val c =
     (if 48 \<le> c \<and> c \<le> 57 then Some (unat c - 48)
      else if 97 \<le> c \<and> c \<le> 122 then Some (unat c - 87)
      else if 65 \<le> c \<and> c \<le> 90 then Some (unat c - 55)
      else None)"

definition is_digit_in :: "nat \<Rightarrow> u8 \<Rightarrow> bool" where
  "is_digit_in b c = (case digit_val c of None \<Rightarrow> False | Some d \<Rightarrow> d < b)"

fun digits_value :: "nat \<Rightarrow> nat \<Rightarrow> bytes \<Rightarrow> nat \<times> bytes" where
  "digits_value b v [] = (v, [])"
| "digits_value b v (c # s) =
     (if is_digit_in b c then digits_value b (v * b + (case digit_val c of None \<Rightarrow> 0 | Some d \<Rightarrow> d)) s else (v, c # s))"

definition is_space :: "u8 \<Rightarrow> bool" where
  "is_space c \<longleftrightarrow> c = 32 \<or> (9 \<le> c \<and> c \<le> 13)"

definition strtoul_0 :: "bytes \<Rightarrow> u64 \<times> bytes" where
  "strtoul_0 s =
     (let t = dropWhile is_space s;
          neg = (take 1 t = [45]);
          t = (if take 1 t = [45] \<or> take 1 t = [43] then drop 1 t else t);
          hex = (take 1 t = [48] \<and> (take 1 (drop 1 t) = [120] \<or> take 1 (drop 1 t) = [88]) \<and>
                 list_ex (is_digit_in 16) (take 1 (drop 2 t)));
          b = (if hex then 16 else if take 1 t = [48] then 8 else 10);
          t = (if hex then drop 2 t else t)
      in if \<not> list_ex (is_digit_in b) (take 1 t) then (0, s)
         else
           (case digits_value b 0 t of (v, rest) \<Rightarrow>
              (if v \<ge> 2 ^ 64 then - 1 else if neg then - of_nat v else of_nat v, rest)))"

definition MASK_prefix :: bytes where "MASK_prefix = [77, 65, 83, 75, 58]"
definition nombstr_text :: bytes where "nombstr_text = [110, 111, 109, 98, 115, 116, 114]"
definition pkix_text :: bytes where "pkix_text = [112, 107, 105, 120]"
definition utf8only_text :: bytes where "utf8only_text = [117, 116, 102, 56, 111, 110, 108, 121]"
definition default_text :: bytes where "default_text = [100, 101, 102, 97, 117, 108, 116]"

text \<open>\<open>global_mask\<close> is passed and returned; \<open>p\<close> is the text before its terminator.\<close>

definition global_mask_init :: u64 where "global_mask_init = B_ASN1_UTF8STRING"

definition ASN1_STRING_set_default_mask :: "u64 \<Rightarrow> u64 \<Rightarrow> u64" where
  "ASN1_STRING_set_default_mask global_mask m = m"

definition ASN1_STRING_get_default_mask :: "u64 \<Rightarrow> u64" where
  "ASN1_STRING_get_default_mask global_mask = global_mask"

definition ASN1_STRING_set_default_mask_asc :: "u64 \<Rightarrow> bytes \<Rightarrow> bool \<times> u64" where
  "ASN1_STRING_set_default_mask_asc global_mask p =
     (case (if take 5 p = MASK_prefix then
              (if drop 5 p = [] then None
               else case strtoul_0 (drop 5 p) of (m, rest) \<Rightarrow> if rest \<noteq> [] then None else Some m)
            else if p = nombstr_text then Some (NOT (B_ASN1_BMPSTRING OR B_ASN1_UTF8STRING))
            else if p = pkix_text then Some (NOT B_ASN1_T61STRING)
            else if p = utf8only_text then Some B_ASN1_UTF8STRING
            else if p = default_text then Some 0xFFFFFFFF
            else None) of
        None \<Rightarrow> (False, global_mask)
      | Some m \<Rightarrow> (True, ASN1_STRING_set_default_mask global_mask m))"

text \<open>A text that is refused leaves the mask alone.\<close>

lemma default_mask_refused:
  "ASN1_STRING_set_default_mask_asc gm p = (False, gm') \<Longrightarrow> gm' = gm"
  by (auto simp: ASN1_STRING_set_default_mask_asc_def split: option.splits)

lemma digits_value_decimal:
  "list_all (is_digit_in b) s \<Longrightarrow>
     digits_value b v s = (foldl (\<lambda>v c. v * b + the (digit_val c)) v s, [])"
  by (induction s arbitrary: v) (auto simp: is_digit_in_def split: option.splits)

text \<open>A decimal number without a leading zero is read as the number, when it fits.\<close>

lemma strtoul_decimal:
  assumes "s \<noteq> []" "list_all (is_digit_in 10) s" "hd s \<noteq> 48"
    "foldl (\<lambda>v c. v * 10 + the (digit_val c)) 0 s < 2 ^ 64"
  shows "strtoul_0 s = (of_nat (foldl (\<lambda>v c. v * 10 + the (digit_val c)) 0 s), [])"
proof -
  obtain c t where s: "s = c # t" using assms(1) by (cases s) auto
  have d: "is_digit_in 10 c" using assms(2) s by simp
  have bad: "\<not> is_digit_in 10 x" if "x = 45 \<or> x = 43 \<or> is_space x" for x :: u8
  proof -
    have "x < 48" using that by (auto simp: is_space_def word_less_nat_alt word_le_nat_alt)
    then show ?thesis by (auto simp: is_digit_in_def digit_val_def word_less_nat_alt word_le_nat_alt)
  qed
  have "c \<noteq> 45" "c \<noteq> 43" "\<not> is_space c" "c \<noteq> 48" using bad d assms(3) s by auto
  then show ?thesis
    using assms(2,4) digits_value_decimal [OF assms(2), of 0] d by (simp add: strtoul_0_def s Let_def)
qed

text \<open>The comment names this choice \<open>nobmp\<close>; the code knows it as \<open>nombstr\<close> only.\<close>

lemma nobmp_refused: "ASN1_STRING_set_default_mask_asc gm [110, 111, 98, 109, 112] = (False, gm)"
  by (simp add: ASN1_STRING_set_default_mask_asc_def MASK_prefix_def nombstr_text_def pkix_text_def
      utf8only_text_def default_text_def)

text \<open>An example.\<close>

lemma sample_added:
  "\<exists>stbl. ASN1_STRING_TABLE_add (\<lambda>_. True) insertion_sort 5000 1 9 B_ASN1_IA5STRING 0 None = Some (True, stbl)"
  by (simp add: ASN1_STRING_TABLE_add_def ASN1_STRING_TABLE_get_def sk_new_def OPENSSL_malloc_def kMinSize_def
      sizeof_pointer_def sizeof_STACK_def tbl_standard_def table_cmp_def entry_def sk_sort_def sk_find_def
      sk_is_sorted_def search_loop.simps sizeof_STRING_TABLE_def Let_def)

end
