(* ===== verification/MBString.thy ===== *)
theory MBString
  imports ASN1_String Unicode String_Table
begin

text \<open>
  \<open>crypto/asn1/a_mbstr.c\<close>: converting a string to the smallest ASN.1 string type that a mask of
  permitted types leaves. The function reads the input twice with one of the readers of
  \<open>bytestring/unicode.c\<close>, first to find the type, then to write the characters with that type's writer
  into a byte-string builder. The lemmas relate what it returns to the list of the characters of the
  input, which \<open>read_all\<close> gives.
\<close>

section \<open>Definitions\<close>

definition MBSTRING_UTF8 :: int where "MBSTRING_UTF8 = 0x1000"
definition MBSTRING_ASC :: int where "MBSTRING_ASC = 0x1001"
definition MBSTRING_BMP :: int where "MBSTRING_BMP = 0x1002"
definition MBSTRING_UNIV :: int where "MBSTRING_UNIV = 0x1004"

definition V_ASN1_UTF8STRING :: int where "V_ASN1_UTF8STRING = 12"
definition V_ASN1_PRINTABLESTRING :: int where "V_ASN1_PRINTABLESTRING = 19"
definition V_ASN1_T61STRING :: int where "V_ASN1_T61STRING = 20"
definition V_ASN1_IA5STRING :: int where "V_ASN1_IA5STRING = 22"
definition V_ASN1_UNIVERSALSTRING :: int where "V_ASN1_UNIVERSALSTRING = 28"
definition V_ASN1_BMPSTRING :: int where "V_ASN1_BMPSTRING = 30"

text \<open>\<open>strchr\<close> also finds the terminating NUL of the string it searches.\<close>

definition strchr_found :: "bytes \<Rightarrow> u32 \<Rightarrow> bool" where
  "strchr_found s ch \<longleftrightarrow> ch \<in> set (map ucast (s @ [0]))"

text \<open>The characters \<open>'()+,-./:=?\<close>.\<close>

definition printable_punctuation :: bytes where
  "printable_punctuation = [0x27, 0x28, 0x29, 0x2b, 0x2c, 0x2d, 0x2e, 0x2f, 0x3a, 0x3d, 0x3f]"

definition is_printable :: "u32 \<Rightarrow> bool" where
  "is_printable ch =
     (if ch > 0x7f then False
      else if ch \<ge> 97 \<and> ch \<le> 122 then True
      else if ch \<ge> 65 \<and> ch \<le> 90 then True
      else if ch \<ge> 48 \<and> ch \<le> 57 then True
      else if ch = 32 \<or> strchr_found printable_punctuation ch then True
      else False)"

type_synonym decode_func = "CBS \<Rightarrow> (u32, CBS) outcome"
type_synonym encode_func = "(nat \<Rightarrow> bool) \<Rightarrow> nat \<Rightarrow> u32 \<Rightarrow> CBB \<Rightarrow> (unit, CBB) outcome"

definition decoder_of :: "int \<Rightarrow> decode_func option" where
  "decoder_of inform =
     (if inform = MBSTRING_BMP then Some cbs_get_ucs2_be
      else if inform = MBSTRING_UNIV then Some cbs_get_utf32_be
      else if inform = MBSTRING_UTF8 then Some cbs_get_utf8
      else if inform = MBSTRING_ASC then Some cbs_get_latin1
      else None)"

text \<open>The types that the character \<open>c\<close> leaves possible.\<close>

definition update_mask :: "u32 \<Rightarrow> u64 \<Rightarrow> u64" where
  "update_mask c m =
     (let m = (if m AND B_ASN1_PRINTABLESTRING \<noteq> 0 \<and> \<not> is_printable c then m AND NOT B_ASN1_PRINTABLESTRING else m);
          m = (if m AND B_ASN1_IA5STRING \<noteq> 0 \<and> c > 127 then m AND NOT B_ASN1_IA5STRING else m);
          m = (if m AND B_ASN1_T61STRING \<noteq> 0 \<and> c > 0xff then m AND NOT B_ASN1_T61STRING else m)
      in (if m AND B_ASN1_BMPSTRING \<noteq> 0 \<and> c > 0xffff then m AND NOT B_ASN1_BMPSTRING else m))"

text \<open>
  The first loop, over the rest of the input: the mask, \<open>nchar\<close> and \<open>utf8_len\<close>, or \<open>None\<close> for an error.
  A reader that succeeds consumes something; the test for that is what makes the recursion end.
\<close>

function scan_loop :: "decode_func \<Rightarrow> int \<Rightarrow> CBS \<Rightarrow> u64 \<Rightarrow> nat \<Rightarrow> nat \<Rightarrow> (u64 \<times> nat \<times> nat) option" where
  "scan_loop decode inform cbs m nchar utf8_len =
     (if CBS_len cbs = 0 then Some (m, nchar, utf8_len)
      else case decode cbs of
        (None, _) \<Rightarrow> None
      | (Some c, cbs') \<Rightarrow>
          if nchar = 0 \<and> (inform = MBSTRING_BMP \<or> inform = MBSTRING_UNIV) \<and> c = 0xfeff then None
          else
            (let m = update_mask c m
             in if m = 0 then None
                else if length cbs' < length cbs
                then scan_loop decode inform cbs' m (nchar + 1) (utf8_len + cbb_get_utf8_len c)
                else None))"
  by pat_completeness auto
termination
  by (relation "measure (\<lambda>(decode, inform, cbs, m, nchar, utf8_len). length cbs)") auto

declare scan_loop.simps [simp del]

text \<open>The type, the writer, the estimated size and the output form, in the order of preference.\<close>

definition choose_type :: "u64 \<Rightarrow> nat \<Rightarrow> nat \<Rightarrow> int \<times> encode_func \<times> nat \<times> int" where
  "choose_type m nchar utf8_len =
     (if m AND B_ASN1_PRINTABLESTRING \<noteq> 0 then (V_ASN1_PRINTABLESTRING, cbb_add_latin1, nchar, MBSTRING_ASC)
      else if m AND B_ASN1_IA5STRING \<noteq> 0 then (V_ASN1_IA5STRING, cbb_add_latin1, nchar, MBSTRING_ASC)
      else if m AND B_ASN1_T61STRING \<noteq> 0 then (V_ASN1_T61STRING, cbb_add_latin1, nchar, MBSTRING_ASC)
      else if m AND B_ASN1_BMPSTRING \<noteq> 0 then (V_ASN1_BMPSTRING, cbb_add_ucs2_be, 2 * nchar, MBSTRING_BMP)
      else if m AND B_ASN1_UNIVERSALSTRING \<noteq> 0
      then (V_ASN1_UNIVERSALSTRING, cbb_add_utf32_be, 4 * nchar, MBSTRING_UNIV)
      else (V_ASN1_UTF8STRING, cbb_add_utf8, utf8_len, MBSTRING_UTF8))"

text \<open>The second loop.\<close>

function encode_loop ::
  "(nat \<Rightarrow> bool) \<Rightarrow> decode_func \<Rightarrow> encode_func \<Rightarrow> CBS \<Rightarrow> CBB \<Rightarrow> (unit, CBB) outcome" where
  "encode_loop alloc decode encode cbs cbb =
     (if CBS_len cbs = 0 then (Some (), cbb)
      else case decode cbs of
        (None, _) \<Rightarrow> (None, cbb)
      | (Some c, cbs') \<Rightarrow>
          andthen (encode alloc 0 c cbb) (\<lambda>_ cbb.
            if length cbs' < length cbs then encode_loop alloc decode encode cbs' cbb else (None, cbb)))"
  by pat_completeness auto
termination
  by (relation "measure (\<lambda>(alloc, decode, encode, cbs, cbb). length cbs)") auto

declare encode_loop.simps [simp del]

text \<open>What \<open>out\<close> is: NULL, or a pointer to NULL, to a string, or to memory that has been freed.\<close>

datatype out_ptr = Absent | Null | Object asn1_string | Freed

text \<open>The \<open>len\<close> bytes at \<open>in\<close>, where \<open>mem\<close> is the memory there: \<open>None\<close> for a read out of bounds.\<close>

definition mb_input :: "bytes \<Rightarrow> int \<Rightarrow> bytes option" where
  "mb_input mem len =
     (let len = (if len = - 1 then sint (of_nat (OPENSSL_strnlen mem) :: u32) else len)
      in if 0 \<le> len \<and> nat len \<le> length mem then Some (take (nat len) mem) else None)"

text \<open>The contents of \<open>dest\<close>, once the type is known.\<close>

definition mb_write ::
  "(nat \<Rightarrow> bool) \<Rightarrow> out_ptr \<Rightarrow> decode_func \<Rightarrow> int \<Rightarrow> bytes \<Rightarrow> int \<times> encode_func \<times> nat \<times> int \<Rightarrow> asn1_string
   \<Rightarrow> (int \<times> out_ptr) option" where
  "mb_write alloc out decode inform src = (\<lambda>(type, encode, size_estimate, outform) dest.
     if inform = outform then
       map_option (\<lambda>r. case r of
          (None, dest) \<Rightarrow> (- 1, Object dest)
        | (Some _, dest) \<Rightarrow> (type, Object dest)) (ASN1_STRING_set alloc dest src)
     else
       (let err = Some (- 1, if out = Null then Freed else Object dest)
        in case andthen (CBB_init alloc (size_estimate + 1)) (\<lambda>_ cbb.
                andthen (encode_loop alloc decode encode src cbb) (\<lambda>_ cbb.
                andthen (CBB_add_u8 alloc 0 0 cbb) (\<lambda>_ cbb.
                CBB_finish alloc 0 cbb True))) of
             (None, _) \<Rightarrow> err
           | (Some data, _) \<Rightarrow>
               if length data < 1 \<or> length data > 2 ^ 31 - 1 then err
               else Some (type, Object (dest\<lparr>str_length := int (length data) - 1, str_data := Some data\<rparr>))))"

text \<open>The string to fill: the caller's, emptied, or a new one. \<open>None\<close> if there is no memory for it.\<close>

definition mb_dest :: "(nat \<Rightarrow> bool) \<Rightarrow> out_ptr \<Rightarrow> int \<Rightarrow> asn1_string option" where
  "mb_dest alloc out type =
     (case out of
        Object d \<Rightarrow>
          (let d = (if str_data d \<noteq> None then d\<lparr>str_length := 0, str_data := None\<rparr> else d)
           in Some (d\<lparr>str_type := type\<rparr>))
      | _ \<Rightarrow> ASN1_STRING_type_new alloc type)"

definition ASN1_mbstring_ncopy ::
  "(nat \<Rightarrow> bool) \<Rightarrow> out_ptr \<Rightarrow> bytes \<Rightarrow> int \<Rightarrow> int \<Rightarrow> u64 \<Rightarrow> u64 \<Rightarrow> u64 \<Rightarrow> (int \<times> out_ptr) option" where
  "ASN1_mbstring_ncopy alloc out mem len inform m mn mx =
     (let m = (if m = 0 then DIRSTRING_TYPE else m)
      in if len = - 1 \<and> 0 \<notin> set mem then None
         else case decoder_of inform of
           None \<Rightarrow> Some (- 1, out)
         | Some decode \<Rightarrow>
             (case mb_input mem len of
                None \<Rightarrow> None
              | Some src \<Rightarrow>
                  (case scan_loop decode inform src m 0 0 of
                     None \<Rightarrow> Some (- 1, out)
                   | Some (m, nchar, utf8_len) \<Rightarrow>
                       if sint mn > 0 \<and> nchar < unat mn then Some (- 1, out)
                       else if sint mx > 0 \<and> nchar > unat mx then Some (- 1, out)
                       else
                         (let choice = choose_type m nchar utf8_len; type = fst choice
                          in if out = Absent then Some (type, out)
                             else if out = Freed then None
                             else case mb_dest alloc out type of
                               None \<Rightarrow> Some (- 1, out)
                             | Some dest \<Rightarrow> mb_write alloc out decode inform src choice dest))))"

definition ASN1_mbstring_copy ::
  "(nat \<Rightarrow> bool) \<Rightarrow> out_ptr \<Rightarrow> bytes \<Rightarrow> int \<Rightarrow> int \<Rightarrow> u64 \<Rightarrow> (int \<times> out_ptr) option" where
  "ASN1_mbstring_copy alloc out mem len inform m = ASN1_mbstring_ncopy alloc out mem len inform m 0 0"


section \<open>The two loops\<close>

text \<open>A reader of characters, and what the loops do in terms of all the characters it reads.\<close>

definition starts_with_BOM :: "int \<Rightarrow> u32 list \<Rightarrow> bool" where
  "starts_with_BOM inform vs \<longleftrightarrow>
     (inform = MBSTRING_BMP \<or> inform = MBSTRING_UNIV) \<and> (case vs of [] \<Rightarrow> False | c # _ \<Rightarrow> c = 0xfeff)"

lemma update_mask_0 [simp]: "update_mask c 0 = 0" "fold update_mask cs 0 = 0"
  by (induction cs) (simp_all add: update_mask_def)

locale char_reader = stream_codec rd enc ok
  for rd :: decode_func and enc :: "u32 \<Rightarrow> bytes" and ok
begin

lemma read_all_step:
  "s \<noteq> [] \<Longrightarrow> read_all rd s =
     (case rd s of (None, _) \<Rightarrow> None | (Some c, t) \<Rightarrow> map_option ((#) c) (read_all rd t))"
  by (subst read_all.simps) (auto split: option.splits prod.splits dest: rd_progress)

lemma scan_loop_iff:
  "scan_loop rd inform s m n k = Some (m', n', k') \<longleftrightarrow>
     (\<exists>vs. read_all rd s = Some vs \<and> \<not> (n = 0 \<and> starts_with_BOM inform vs) \<and>
        m' = fold update_mask vs m \<and> (vs \<noteq> [] \<longrightarrow> m' \<noteq> 0) \<and> n' = n + length vs \<and>
        k' = k + sum_list (map cbb_get_utf8_len vs))"
proof (induction "length s" arbitrary: s m n k rule: less_induct)
  case less
  show ?case
  proof (cases "s = []")
    case True
    then show ?thesis
      by (subst scan_loop.simps) (auto simp: CBS_len_def starts_with_BOM_def read_all.simps)
  next
    case False
    show ?thesis
    proof (cases "rd s")
      case (Pair r t)
      show ?thesis
      proof (cases r)
        case None
        with Pair False show ?thesis
          by (subst scan_loop.simps) (simp add: CBS_len_def read_all_step)
      next
        case (Some c)
        with Pair have r: "rd s = (Some c, t)" by simp
        note t = rd_progress [OF r]
        have e: "read_all rd s = map_option ((#) c) (read_all rd t)" using r False by (simp add: read_all_step)
        show ?thesis
          using r False t less.hyps [OF t] 
          by (subst scan_loop.simps) (auto simp: CBS_len_def e starts_with_BOM_def Let_def)
      qed
    qed
  qed
qed

lemma encode_loop_eq:
  "read_all rd s = Some vs \<Longrightarrow> encode_loop alloc rd encode s cbb = write_all (encode alloc 0) vs cbb"
proof (induction "length s" arbitrary: s vs cbb rule: less_induct)
  case less
  show ?case
  proof (cases "s = []")
    case True
    with less.prems show ?thesis by (subst encode_loop.simps) (simp add: CBS_len_def read_all.simps)
  next
    case False
    with less.prems obtain c t ws where r: "rd s = (Some c, t)" "read_all rd t = Some ws" "vs = c # ws"
      by (auto simp: read_all_step split: prod.splits option.splits)
    note t = rd_progress [OF r(1)]
    from False r t less.hyps [OF t r(2)] show ?thesis
      by (subst encode_loop.simps) (simp add: CBS_len_def)
  qed
qed

end

interpretation utf8_reader: char_reader cbs_get_utf8 "\<lambda>u. utf8 (unat u)" "\<lambda>u. code_point (unat u)"
  by (rule char_reader.intro) (rule utf8_codec.stream_codec_axioms)

interpretation latin1_reader: char_reader cbs_get_latin1 "\<lambda>u. [ucast u]" "\<lambda>u. unat u \<le> 0xff"
  by (rule char_reader.intro) (rule latin1_codec.stream_codec_axioms)

interpretation ucs2_reader: char_reader cbs_get_ucs2_be "\<lambda>u. be_bytes 2 (unat u)"
    "\<lambda>u. unat u \<le> 0xffff \<and> code_point (unat u)"
  by (rule char_reader.intro) (rule ucs2_codec.stream_codec_axioms)

interpretation utf32_reader: char_reader cbs_get_utf32_be "\<lambda>u. be_bytes 4 (unat u)" "\<lambda>u. code_point (unat u)"
  by (rule char_reader.intro) (rule utf32_codec.stream_codec_axioms)

section \<open>Types and masks\<close>

text \<open>The bit of a type in a mask, and the characters a string of the type can hold.\<close>

definition type_bit :: "int \<Rightarrow> nat" where
  "type_bit type =
     (if type = V_ASN1_PRINTABLESTRING then 1 else if type = V_ASN1_IA5STRING then 4
      else if type = V_ASN1_T61STRING then 2 else if type = V_ASN1_BMPSTRING then 11
      else if type = V_ASN1_UNIVERSALSTRING then 8 else 13)"

text \<open>
  The characters of a \<open>PrintableString\<close> (X.680): letters, digits, the space and \<open>'()+,-./:=?\<close>. The code
  takes NUL for one as well.
\<close>

definition printable_characters :: string where
  "printable_characters =
     CHR 0x27 # ''ABCDEFGHIJKLMNOPQRSTUVWXYZabcdefghijklmnopqrstuvwxyz0123456789 ()+,-./:=?''"

definition printable :: "u32 \<Rightarrow> bool" where
  "printable c \<longleftrightarrow> unat c \<in> set (map of_char printable_characters)"

lemma printable_codes:
  "set (map of_char printable_characters) =
     {65..<91} \<union> {97..<123} \<union> {48..<58} \<union> {32, 39, 40, 41, 43, 44, 45, 46, 47, 58, 61, 63 :: nat}"
proof -
  have "map of_char printable_characters =
      39 # [65..<91] @ [97..<123] @ [48..<58] @ [32, 40, 41, 43, 44, 45, 46, 47, 58, 61, 63 :: nat]"
    by (simp add: printable_characters_def)
  then show ?thesis by (simp del: upt_rec_numeral) auto
qed

lemma is_printable_iff: "is_printable c \<longleftrightarrow> c = 0 \<or> printable c"
proof -
  have "strchr_found printable_punctuation c \<longleftrightarrow>
      unat c \<in> {0, 39, 40, 41, 43, 44, 45, 46, 47, 58, 61, 63}"
    by (simp add: strchr_found_def printable_punctuation_def word_unat_eq_iff disj_ac)
  then show ?thesis
    unfolding is_printable_def printable_def printable_codes
    by (auto simp: word_le_nat_alt word_less_nat_alt word_unat_eq_iff)
qed

lemma printable_low: "printable c \<Longrightarrow> unat c \<le> 0x7f"
  unfolding printable_def printable_codes by auto

definition type_holds :: "int \<Rightarrow> u32 \<Rightarrow> bool" where
  "type_holds type c \<longleftrightarrow>
     (if type = V_ASN1_PRINTABLESTRING then c = 0 \<or> printable c else if type = V_ASN1_IA5STRING then c \<le> 127
      else if type = V_ASN1_T61STRING then c \<le> 0xff else if type = V_ASN1_BMPSTRING then c \<le> 0xffff
      else True)"

definition type_encoding :: "int \<Rightarrow> u32 \<Rightarrow> bytes" where
  "type_encoding type c =
     (if type = V_ASN1_PRINTABLESTRING \<or> type = V_ASN1_IA5STRING \<or> type = V_ASN1_T61STRING then [ucast c]
      else if type = V_ASN1_BMPSTRING then be_bytes 2 (unat c)
      else if type = V_ASN1_UNIVERSALSTRING then be_bytes 4 (unat c)
      else utf8 (unat c))"

definition string_types :: "int list" where
  "string_types = [V_ASN1_PRINTABLESTRING, V_ASN1_IA5STRING, V_ASN1_T61STRING, V_ASN1_BMPSTRING,
     V_ASN1_UNIVERSALSTRING]"

lemmas V_ASN1_defs = V_ASN1_PRINTABLESTRING_def V_ASN1_IA5STRING_def V_ASN1_T61STRING_def
  V_ASN1_BMPSTRING_def V_ASN1_UNIVERSALSTRING_def V_ASN1_UTF8STRING_def

lemmas B_ASN1_defs = B_ASN1_PRINTABLESTRING_def B_ASN1_IA5STRING_def B_ASN1_T61STRING_def
  B_ASN1_BMPSTRING_def B_ASN1_UNIVERSALSTRING_def

lemma B_ASN1_bits:
  "m AND B_ASN1_PRINTABLESTRING \<noteq> 0 \<longleftrightarrow> bit m 1" "m AND B_ASN1_IA5STRING \<noteq> 0 \<longleftrightarrow> bit m 4"
  "m AND B_ASN1_T61STRING \<noteq> 0 \<longleftrightarrow> bit m 2" "m AND B_ASN1_BMPSTRING \<noteq> 0 \<longleftrightarrow> bit m 11"
  "m AND B_ASN1_UNIVERSALSTRING \<noteq> 0 \<longleftrightarrow> bit m 8"
  by (simp_all add: B_ASN1_defs bit_iff_and_push_bit_not_eq_0)

lemma bit_clear:
  assumes "B = push_bit j (1 :: u64)"
  shows "bit (if m AND B \<noteq> 0 \<and> p then m AND NOT B else m) k \<longleftrightarrow> bit m k \<and> (k = j \<longrightarrow> \<not> p)"
proof -
  have "m AND B \<noteq> 0 \<longleftrightarrow> bit m j" by (simp add: assms bit_iff_and_push_bit_not_eq_0)
  then show ?thesis by (auto simp: assms bit_simps bit_1_iff dest: bit_imp_le_length)
qed

lemma bit_update_mask:
  "bit (update_mask c m) k \<longleftrightarrow>
     bit m k \<and> (k = 1 \<longrightarrow> is_printable c) \<and> (k = 4 \<longrightarrow> c \<le> 127) \<and> (k = 2 \<longrightarrow> c \<le> 0xff) \<and> (k = 11 \<longrightarrow> c \<le> 0xffff)"
proof -
  have B: "B_ASN1_PRINTABLESTRING = push_bit 1 1" "B_ASN1_IA5STRING = push_bit 4 1"
    "B_ASN1_T61STRING = push_bit 2 1" "B_ASN1_BMPSTRING = push_bit 11 1"
    by (simp_all add: B_ASN1_defs)
  show ?thesis
    unfolding update_mask_def Let_def
    by (simp only: bit_clear [OF B(1)] bit_clear [OF B(2)] bit_clear [OF B(3)] bit_clear [OF B(4)] not_not linorder_not_less conj_assoc)
qed

lemma bit_fold_update_mask:
  "bit (fold update_mask vs m) k \<longleftrightarrow>
     bit m k \<and> (k = 1 \<longrightarrow> list_all is_printable vs) \<and> (k = 4 \<longrightarrow> list_all (\<lambda>c. c \<le> 127) vs) \<and>
     (k = 2 \<longrightarrow> list_all (\<lambda>c. c \<le> 0xff) vs) \<and> (k = 11 \<longrightarrow> list_all (\<lambda>c. c \<le> 0xffff) vs)"
  by (induction vs arbitrary: m) (auto simp: bit_update_mask)

text \<open>After the first loop a type is left in the mask iff it was there and can hold every character.\<close>

lemma type_left:
  "type \<in> set string_types \<Longrightarrow>
     bit (fold update_mask vs m) (type_bit type) \<longleftrightarrow> bit m (type_bit type) \<and> list_all (type_holds type) vs"
  by (auto simp: string_types_def bit_fold_update_mask type_bit_def type_holds_def [abs_def] V_ASN1_defs list_all_iff
      is_printable_iff)

definition chosen_type :: "u64 \<Rightarrow> int" where
  "chosen_type m = (case find (\<lambda>type. bit m (type_bit type)) string_types of Some type \<Rightarrow> type | None \<Rightarrow> V_ASN1_UTF8STRING)"

definition type_writer :: "int \<Rightarrow> encode_func" where
  "type_writer type =
     (if type = V_ASN1_BMPSTRING then cbb_add_ucs2_be else if type = V_ASN1_UNIVERSALSTRING then cbb_add_utf32_be
      else if type = V_ASN1_UTF8STRING then cbb_add_utf8 else cbb_add_latin1)"

definition type_form :: "int \<Rightarrow> int" where
  "type_form type =
     (if type = V_ASN1_BMPSTRING then MBSTRING_BMP else if type = V_ASN1_UNIVERSALSTRING then MBSTRING_UNIV
      else if type = V_ASN1_UTF8STRING then MBSTRING_UTF8 else MBSTRING_ASC)"

definition type_size :: "int \<Rightarrow> nat \<Rightarrow> nat \<Rightarrow> nat" where
  "type_size type nchar utf8_len =
     (if type = V_ASN1_BMPSTRING then 2 * nchar else if type = V_ASN1_UNIVERSALSTRING then 4 * nchar
      else if type = V_ASN1_UTF8STRING then utf8_len else nchar)"

lemma choose_type_eq:
  "choose_type m nchar utf8_len =
     (chosen_type m, type_writer (chosen_type m), type_size (chosen_type m) nchar utf8_len, type_form (chosen_type m))"
  by (simp add: choose_type_def chosen_type_def string_types_def B_ASN1_bits type_bit_def V_ASN1_defs
      type_writer_def type_form_def type_size_def)

lemma chosen_type_cases:
  obtains "chosen_type m \<in> set string_types" "bit m (type_bit (chosen_type m))" | "chosen_type m = V_ASN1_UTF8STRING"
proof (cases "find (\<lambda>type. bit m (type_bit type)) string_types")
  case (Some type)
  with that(1) show ?thesis by (auto simp: chosen_type_def find_Some_iff)
qed (use that(2) in \<open>simp add: chosen_type_def\<close>)

text \<open>The types that would have been preferred are not in the mask.\<close>

lemma chosen_type_first:
  assumes "type \<in> set (takeWhile (\<lambda>type. type \<noteq> chosen_type m) string_types)"
  shows "\<not> bit m (type_bit type)"
  using assms by (auto simp: chosen_type_def string_types_def V_ASN1_defs split: if_splits)

section \<open>Writing the characters\<close>

context writer
begin

lemma write_all_then:
  assumes "implements alloc d g ok' bs' new"
  shows "list_all repr vs \<Longrightarrow>
     implements alloc d (\<lambda>cbb. andthen (write_all (op alloc d) vs cbb) (\<lambda>_. g)) (list_all ok vs \<and> ok')
       (concat (map enc vs) @ bs') new"
proof (induction vs)
  case (Cons v vs)
  then have "implements alloc d (op alloc d v) (ok v) (enc v) []" by (simp add: op_implements)
  from implements_andthen [OF this Cons.IH] Cons.prems show ?case by (simp add: andthen_assoc conj_assoc)
qed (use assms in simp)

end

text \<open>The characters that the writer of a type accepts.\<close>

definition type_ok :: "int \<Rightarrow> u32 \<Rightarrow> bool" where
  "type_ok type c \<longleftrightarrow>
     (if type = V_ASN1_BMPSTRING then unat c \<le> 0xffff \<and> code_point (unat c)
      else if type = V_ASN1_UNIVERSALSTRING \<or> type = V_ASN1_UTF8STRING then code_point (unat c)
      else unat c \<le> 0xff)"

lemma type_writer:
  assumes "type \<in> set (string_types @ [V_ASN1_UTF8STRING])"
  shows "writer (type_writer type) (type_encoding type) (type_ok type) (\<lambda>_. True)"
proof -
  note w = latin1_codec.writer_axioms ucs2_codec.writer_axioms utf32_codec.writer_axioms utf8_codec.writer_axioms
  from assms consider "type = V_ASN1_PRINTABLESTRING \<or> type = V_ASN1_IA5STRING \<or> type = V_ASN1_T61STRING"
    | "type = V_ASN1_BMPSTRING" | "type = V_ASN1_UNIVERSALSTRING" | "type = V_ASN1_UTF8STRING"
    by (auto simp: string_types_def)
  then show ?thesis
    by cases (use w in \<open>auto simp: type_writer_def type_encoding_def [abs_def] type_ok_def [abs_def] V_ASN1_defs\<close>)
qed

lemma transcoded:
  assumes "type \<in> set (string_types @ [V_ASN1_UTF8STRING])"
    "\<And>cbb. encode_loop alloc decode (type_writer type) src cbb = write_all (type_writer type alloc 0) vs cbb"
  shows "implements alloc 0
    (\<lambda>cbb. andthen (encode_loop alloc decode (type_writer type) src cbb) (\<lambda>_. CBB_add_u8 alloc 0 0))
    (list_all (type_ok type) vs) (concat (map (type_encoding type) vs) @ [0]) []"
  using writer.write_all_then [OF type_writer [OF assms(1)] implements_add_u8, of vs alloc 0]
  by (simp add: assms(2) list.pred_True)

section \<open>The conversion\<close>

text \<open>
  What a reader that \<open>decoder_of\<close> selects promises: the loops see its list of characters, all of them
  code points, and copying a string of its own form re-encodes it.
\<close>

lemma decoders:
  assumes "decoder_of inform = Some decode"
  obtains enc ok where "char_reader decode enc ok" "\<And>c. ok c \<Longrightarrow> code_point (unat c)"
    "\<And>type c. type \<in> set (string_types @ [V_ASN1_UTF8STRING]) \<Longrightarrow> type_form type = inform \<Longrightarrow> enc c = type_encoding type c"
proof -
  have latin1: "code_point (unat c)" if "unat c \<le> 0xff" for c :: u32
    using that by (simp add: code_point_def)
  from assms consider
      "inform = MBSTRING_BMP" "decode = cbs_get_ucs2_be" | "inform = MBSTRING_UNIV" "decode = cbs_get_utf32_be"
    | "inform = MBSTRING_UTF8" "decode = cbs_get_utf8" | "inform = MBSTRING_ASC" "decode = cbs_get_latin1"
    by (auto simp: decoder_of_def split: if_splits)
  then show ?thesis
  proof cases
    case 1
    then show ?thesis
      by (intro that [OF ucs2_reader.char_reader_axioms [folded 1]])
        (auto simp: type_form_def type_encoding_def string_types_def MBSTRING_BMP_def MBSTRING_UNIV_def
          MBSTRING_UTF8_def MBSTRING_ASC_def V_ASN1_defs)
  next
    case 2
    then show ?thesis
      by (intro that [OF utf32_reader.char_reader_axioms [folded 2]])
        (auto simp: type_form_def type_encoding_def string_types_def MBSTRING_BMP_def MBSTRING_UNIV_def
          MBSTRING_UTF8_def MBSTRING_ASC_def V_ASN1_defs)
  next
    case 3
    then show ?thesis
      by (intro that [OF utf8_reader.char_reader_axioms [folded 3]])
        (auto simp: type_form_def type_encoding_def string_types_def MBSTRING_BMP_def MBSTRING_UNIV_def
          MBSTRING_UTF8_def MBSTRING_ASC_def V_ASN1_defs)
  next
    case 4
    then show ?thesis
      by (intro that [OF latin1_reader.char_reader_axioms [folded 4]])
        (auto simp: type_form_def type_encoding_def string_types_def MBSTRING_BMP_def MBSTRING_UNIV_def
          MBSTRING_UTF8_def MBSTRING_ASC_def V_ASN1_defs latin1)
  qed
qed


text \<open>The string that holds the characters \<open>vs\<close> as \<open>type\<close>.\<close>

definition string_of :: "int \<Rightarrow> u32 list \<Rightarrow> asn1_string \<Rightarrow> bool" where
  "string_of type vs d \<longleftrightarrow>
     str_type d = type \<and> str_data d = Some (concat (map (type_encoding type) vs) @ [0]) \<and>
     str_length d = int (length (concat (map (type_encoding type) vs)))"

text \<open>The mask as the function reads it.\<close>

definition effective_mask :: "u64 \<Rightarrow> u64" where
  "effective_mask m = (if m = 0 then DIRSTRING_TYPE else m)"

text \<open>
  \<open>type\<close> is the type for \<open>vs\<close>: the first of \<open>string_types\<close> that is permitted and holds all the characters,
  and if there is none \<open>UTF8String\<close>, whether that is permitted or not.
\<close>

definition smallest_type :: "u64 \<Rightarrow> u32 list \<Rightarrow> int \<Rightarrow> bool" where
  "smallest_type m vs type \<longleftrightarrow>
     (type \<in> set string_types \<and> bit m (type_bit type) \<and> list_all (type_holds type) vs \<or>
      type = V_ASN1_UTF8STRING) \<and>
     (\<forall>t \<in> set (takeWhile (\<lambda>t. t \<noteq> type) string_types). bit m (type_bit t) \<longrightarrow> \<not> list_all (type_holds t) vs)"

lemma chosen_smallest: "smallest_type m vs (chosen_type (fold update_mask vs m))"
proof -
  let ?t = "chosen_type (fold update_mask vs m)"
  have "?t \<in> set string_types \<and> bit m (type_bit ?t) \<and> list_all (type_holds ?t) vs \<or> ?t = V_ASN1_UTF8STRING"
    by (rule chosen_type_cases [of "fold update_mask vs m"]) (use type_left in blast)+
  moreover have "\<not> list_all (type_holds t) vs" if "t \<in> set (takeWhile (\<lambda>t. t \<noteq> ?t) string_types)" "bit m (type_bit t)" for t
    using chosen_type_first [OF that(1)] type_left [OF set_takeWhileD [OF that(1), THEN conjunct1]] that(2) by blast
  ultimately show ?thesis by (simp add: smallest_type_def)
qed

text \<open>A UTF-8 encoding has at most four bytes.\<close>

lemma utf8_len_bound: "cbb_get_utf8_len c \<le> 4"
  by (simp add: cbb_get_utf8_len_def)

lemma sum_utf8_len: "sum_list (map cbb_get_utf8_len vs) \<le> 4 * length vs"
  by (induction vs) (auto simp: utf8_len_bound [THEN add_mono])

lemma type_size_bound:
  "type_size type (length vs) (sum_list (map cbb_get_utf8_len vs)) \<le> 4 * length vs"
  using sum_utf8_len [of vs] by (simp add: type_size_def)

text \<open>The conversion proper.\<close>

definition convert :: "(nat \<Rightarrow> bool) \<Rightarrow> decode_func \<Rightarrow> int \<Rightarrow> nat \<Rightarrow> bytes \<Rightarrow> bytes option" where
  "convert alloc decode type n src =
     build alloc n (\<lambda>cbb. andthen (encode_loop alloc decode (type_writer type) src cbb) (\<lambda>_. CBB_add_u8 alloc 0 0))"

lemma mb_write_eq:
  "mb_write alloc out decode inform src (choose_type m nchar utf8_len) dest =
     (let type = chosen_type m; err = Some (- 1, if out = Null then Freed else Object dest)
      in if inform = type_form type then
           map_option (\<lambda>r. case r of (None, dest) \<Rightarrow> (- 1, Object dest) | (Some _, dest) \<Rightarrow> (type, Object dest))
             (ASN1_STRING_set alloc dest src)
         else case convert alloc decode type (type_size type nchar utf8_len + 1) src of
           None \<Rightarrow> err
         | Some data \<Rightarrow>
             if length data < 1 \<or> length data > 2 ^ 31 - 1 then err
             else Some (type, Object (dest\<lparr>str_length := int (length data) - 1, str_data := Some data\<rparr>)))"
  by (simp add: mb_write_def choose_type_eq convert_def build_def andthen_assoc Let_def
      split: prod.split option.split)

lemma mb_dest_empty:
  "mb_dest alloc out type = Some dest \<Longrightarrow> str_data dest = None \<and> str_type dest = type"
  by (auto simp: mb_dest_def ASN1_STRING_type_new_def split: out_ptr.splits if_splits)

lemma mbstring_src:
  assumes "mb_input mem len = Some src" "len < 2 ^ 31"
  shows "length src < 2 ^ 31"
proof -
  have "sint (of_nat (OPENSSL_strnlen mem) :: u32) < 2 ^ 31"
    using sint_lt [of "of_nat (OPENSSL_strnlen mem) :: u32"] by simp
  with assms show ?thesis by (auto simp: mb_input_def Let_def split: if_splits)
qed

lemma char_count:
  assumes "char_reader decode enc ok" "read_all decode src = Some vs"
  shows "length vs \<le> length src" "list_all ok vs" "src = concat (map enc vs)"
proof -
  from assms(1) have s: "stream_codec decode enc ok" by (simp add: char_reader_def)
  then show "list_all ok vs" and e: "src = concat (map enc vs)"
    using stream_codec.read_all_iff [OF s] assms(2) by blast+
  have "length us \<le> length (concat (map enc us))" if "list_all ok us" for us
    using that
  proof (induction us)
    case (Cons u us)
    then have "enc u \<noteq> []" using stream_codec.enc_nonempty [OF s] by simp
    then have "0 < length (enc u)" by simp
    with Cons show ?case by (simp del: length_greater_0_conv)
  qed simp
  then show "length vs \<le> length src" using e \<open>list_all ok vs\<close> by blast
qed

text \<open>The conversion, when it succeeds, and that it succeeds when it can.\<close>

lemma convert_iff:
  assumes "char_reader decode enc ok" "read_all decode src = Some vs" "length src < 2 ^ 31"
    "type \<in> set (string_types @ [V_ASN1_UTF8STRING])" "n \<le> 4 * length vs"
  shows "convert alloc decode type (n + 1) src = Some data \<Longrightarrow>
      list_all (type_ok type) vs \<and> data = concat (map (type_encoding type) vs) @ [0]"
    "list_all (type_ok type) vs \<Longrightarrow> \<forall>k. alloc k \<Longrightarrow> length (concat (map (type_encoding type) vs)) < 2 ^ 63 \<Longrightarrow>
      convert alloc decode type (n + 1) src = Some (concat (map (type_encoding type) vs) @ [0])"
proof -
  have "4 * length vs \<le> 4 * length src" using char_count(1) [OF assms(1,2)] by simp
  with assms(3,5) have n: "n + 1 < 2 ^ 64" by simp
  note i = transcoded [OF assms(4) char_reader.encode_loop_eq [OF assms(1,2)], of alloc]
  show "convert alloc decode type (n + 1) src = Some data \<Longrightarrow>
      list_all (type_ok type) vs \<and> data = concat (map (type_encoding type) vs) @ [0]"
    unfolding convert_def by (rule build_sound [OF i n])
  assume "list_all (type_ok type) vs" "\<forall>k. alloc k" "length (concat (map (type_encoding type) vs)) < 2 ^ 63"
  then show "convert alloc decode type (n + 1) src = Some (concat (map (type_encoding type) vs) @ [0])"
    unfolding convert_def by (intro build_complete [OF i n]) simp_all
qed

lemma mbstring_sound:
  assumes r: "ASN1_mbstring_ncopy alloc out mem len inform m mn mx = Some (t, Object d)" "t \<noteq> - 1"
    and i: "mb_input mem len = Some src" "len < 2 ^ 31" and dec: "decoder_of inform = Some decode"
  shows "\<exists>vs. read_all decode src = Some vs \<and> list_all (\<lambda>c. code_point (unat c)) vs \<and>
    smallest_type (effective_mask m) vs t \<and> string_of t vs d"
proof -
  obtain enc ok where cr: "char_reader decode enc ok" and ok: "\<And>c. ok c \<Longrightarrow> code_point (unat c)"
    and same: "\<And>type c. type \<in> set (string_types @ [V_ASN1_UTF8STRING]) \<Longrightarrow> type_form type = inform \<Longrightarrow>
      enc c = type_encoding type c"
    by (rule decoders [OF dec]) blast
  from r i dec obtain m' nchar utf8_len where s: "scan_loop decode inform src (effective_mask m) 0 0 = Some (m', nchar, utf8_len)"
    by (cases "scan_loop decode inform src (effective_mask m) 0 0")
      (auto simp: ASN1_mbstring_ncopy_def effective_mask_def Let_def split: if_splits)
  then obtain vs where vs: "read_all decode src = Some vs" "m' = fold update_mask vs (effective_mask m)"
    "nchar = length vs" "utf8_len = sum_list (map cbb_get_utf8_len vs)"
    using char_reader.scan_loop_iff [OF cr] by auto
  define type where "type = chosen_type m'"
  have type: "type \<in> set (string_types @ [V_ASN1_UTF8STRING])"
    unfolding type_def by (rule chosen_type_cases [of m']) auto
  obtain dest where dest: "mb_dest alloc out type = Some dest"
    and w: "mb_write alloc out decode inform src (choose_type m' nchar utf8_len) dest = Some (t, Object d)"
    using r i dec s
    by (auto simp: ASN1_mbstring_ncopy_def Let_def choose_type_eq type_def
        simp flip: effective_mask_def split: if_splits option.splits)
  note empty = mb_dest_empty [OF dest]
  have "t = type \<and> (inform = type_form type \<and> ASN1_STRING_set alloc dest src = Some (Some (), d) \<or>
      (\<exists>data. convert alloc decode type (type_size type nchar utf8_len + 1) src = Some data \<and>
        d = dest\<lparr>str_length := int (length data) - 1, str_data := Some data\<rparr>))"
    using w r(2) unfolding mb_write_eq Let_def type_def [symmetric]
    by (auto split: if_splits option.splits prod.splits)
  then have "smallest_type (effective_mask m) vs t \<and> string_of t vs d"
  proof (elim conjE disjE exE)
    assume c: "t = type" "inform = type_form type" "ASN1_STRING_set alloc dest src = Some (Some (), d)"
    have "src = concat (map (type_encoding type) vs)"
    proof -
      have "enc = type_encoding type" using same [OF type c(2) [symmetric]] by (intro ext)
      with char_count(3) [OF cr vs(1)] show ?thesis by simp
    qed
    with c(1,3) empty have "string_of t vs d"
      by (auto simp: ASN1_STRING_set_def string_of_def Let_def split: if_splits)
    with c(1) show ?thesis using chosen_smallest vs(2) by (simp add: type_def)
  next
    fix data
    assume c: "t = type" "convert alloc decode type (type_size type nchar utf8_len + 1) src = Some data"
      "d = dest\<lparr>str_length := int (length data) - 1, str_data := Some data\<rparr>"
    have "data = concat (map (type_encoding type) vs) @ [0]"
      using convert_iff(1) [OF cr vs(1) mbstring_src [OF i] type _ c(2)] type_size_bound vs(3,4) by simp
    with c(1,3) empty have "string_of t vs d" by (simp add: string_of_def)
    with c(1) show ?thesis using chosen_smallest vs(2) by (simp add: type_def)
  qed
  moreover have "list_all (\<lambda>c. code_point (unat c)) vs"
    using char_count(2) [OF cr vs(1)] ok by (simp add: list_all_iff)
  ultimately show ?thesis using vs(1) by blast
qed

lemma type_holds_ok:
  "type_holds type c \<Longrightarrow> code_point (unat c) \<Longrightarrow> type \<in> set (string_types @ [V_ASN1_UTF8STRING]) \<Longrightarrow> type_ok type c"
  by (auto simp: type_holds_def type_ok_def string_types_def V_ASN1_defs word_le_nat_alt
      word_less_nat_alt dest: printable_low split: if_splits)

lemma length_encoding: "length (concat (map (type_encoding type) vs)) \<le> 4 * length vs"
proof (induction vs)
  case (Cons c vs)
  have "length (type_encoding type c) \<le> 4"
    using utf8_len_bound [of c] by (simp add: type_encoding_def cbb_get_utf8_len_eq)
  with Cons show ?case by simp
qed simp

text \<open>It succeeds when there is a permitted type for the characters, and memory.\<close>

lemma mbstring_complete:
  assumes dec: "decoder_of inform = Some decode" and i: "mb_input mem len = Some src" "len < 2 ^ 31"
    and len: "len \<noteq> - 1 \<or> 0 \<in> set mem"
    and rd: "read_all decode src = Some vs" and bom: "\<not> starts_with_BOM inform vs"
    and p: "p \<in> set (string_types @ [V_ASN1_UTF8STRING])" "bit (effective_mask m) (type_bit p)"
      "list_all (type_holds p) vs"
    and size: "sint mn > 0 \<longrightarrow> unat mn \<le> length vs" "sint mx > 0 \<longrightarrow> length vs \<le> unat mx"
    and out: "out = Null \<or> (\<exists>d. out = Object d)" and a: "\<forall>k. alloc k"
    and l: "4 * length vs < 2 ^ 31 - 1"
  shows "\<exists>t d. ASN1_mbstring_ncopy alloc out mem len inform m mn mx = Some (t, Object d) \<and> t \<noteq> - 1"
proof -
  obtain enc ok where cr: "char_reader decode enc ok" and ok: "\<And>c. ok c \<Longrightarrow> code_point (unat c)"
    and same: "\<And>type c. type \<in> set (string_types @ [V_ASN1_UTF8STRING]) \<Longrightarrow> type_form type = inform \<Longrightarrow>
      enc c = type_encoding type c"
    by (rule decoders [OF dec]) blast
  let ?m = "fold update_mask vs (effective_mask m)"
  define type where "type = chosen_type ?m"
  have type: "type \<in> set (string_types @ [V_ASN1_UTF8STRING])"
    unfolding type_def by (rule chosen_type_cases [of ?m]) auto
  have "bit ?m (type_bit p)"
  proof (cases "p \<in> set string_types")
    case True
    with p(2,3) show ?thesis by (simp add: type_left)
  next
    case False
    with p have "type_bit p = 13" by (auto simp: type_bit_def V_ASN1_defs)
    with p(2) show ?thesis by (simp add: bit_fold_update_mask)
  qed
  then have nz: "?m \<noteq> 0" by auto
  let ?n = "length vs" and ?u = "sum_list (map cbb_get_utf8_len vs)"
  have s: "scan_loop decode inform src (effective_mask m) 0 0 = Some (?m, ?n, ?u)"
    using char_reader.scan_loop_iff [OF cr] rd bom nz by simp
  obtain dest where dest: "mb_dest alloc out type = Some dest"
    using out a by (auto simp: mb_dest_def ASN1_STRING_type_new_def OPENSSL_malloc_def Let_def)
  have "smallest_type (effective_mask m) vs type" unfolding type_def by (rule chosen_smallest)
  then have "list_all (type_holds type) vs"
    by (auto simp: smallest_type_def type_holds_def [abs_def] V_ASN1_defs list_all_iff)
  then have "list_all (type_ok type) vs"
    using char_count(2) [OF cr rd] ok type type_holds_ok by (simp add: list_all_iff)
  moreover have e: "length (concat (map (type_encoding type) vs)) < 2 ^ 31 - 1"
    using length_encoding [of type vs] l by linarith
  then have "length (concat (map (type_encoding type) vs)) < 2 ^ 63" by simp
  ultimately have conv: "convert alloc decode type (type_size type ?n ?u + 1) src = Some (concat (map (type_encoding type) vs) @ [0])"
    using convert_iff(2) [OF cr rd mbstring_src [OF i] type type_size_bound] a by simp
  have "\<exists>d. mb_write alloc out decode inform src (choose_type ?m ?n ?u) dest = Some (type, Object d)"
  proof (cases "inform = type_form type")
    case True
    then have "enc = type_encoding type" using same [OF type] by (intro ext) simp
    then have "int (length src) + 1 \<le> int_max" using e char_count(3) [OF cr rd] by (simp add: int_max_def)
    with True a mb_dest_empty [OF dest] show ?thesis
      by (simp add: mb_write_eq Let_def ASN1_STRING_set_def OPENSSL_malloc_def flip: type_def)
  next
    case False
    with conv e show ?thesis by (auto simp: mb_write_eq Let_def simp flip: type_def)
  qed
  moreover have "type \<noteq> - 1" using type by (auto simp: string_types_def V_ASN1_defs)
  moreover have "out \<noteq> Absent" "out \<noteq> Freed" using out by auto
  ultimately show ?thesis
    using dec i(1) len s dest size
    by (auto simp: ASN1_mbstring_ncopy_def Let_def choose_type_eq not_less
        simp flip: effective_mask_def type_def)
qed


section \<open>Strings for an object identifier\<close>

text \<open>
  \<open>ASN1_STRING_set_by_NID\<close>: the string table gives the permitted types and sizes. The result is
  \<open>*out\<close>, or \<open>Null\<close> on failure, with the static table of \<open>a_strnid.c\<close> afterwards; \<open>Absent\<close> for \<open>out\<close>
  means that a local variable takes its place.
\<close>

definition ASN1_STRING_set_by_NID ::
  "(nat \<Rightarrow> bool) \<Rightarrow> qsort_fun \<Rightarrow> u64 \<Rightarrow> out_ptr \<Rightarrow> bytes \<Rightarrow> int \<Rightarrow> int \<Rightarrow> u32 \<Rightarrow> stable_stack option
   \<Rightarrow> (out_ptr \<times> stable_stack option) option" where
  "ASN1_STRING_set_by_NID alloc qsort global_mask out mem len inform n stbl =
     (let out = (if out = Absent then Null else out)
      in case ASN1_STRING_TABLE_get qsort n stbl of
           None \<Rightarrow> None
         | Some (tbl, stbl) \<Rightarrow>
             (let ret =
                (case Option.bind tbl (entry_at stbl) of
                   Some e \<Rightarrow>
                     (let m = entry_mask e;
                          m = (if flags e AND STABLE_NO_MASK = 0 then m AND global_mask else m)
                      in ASN1_mbstring_ncopy alloc out mem len inform m (minsize e) (maxsize e))
                 | None \<Rightarrow> ASN1_mbstring_copy alloc out mem len inform (DIRSTRING_TYPE AND global_mask))
              in case ret of
                   None \<Rightarrow> None
                 | Some (ret, out) \<Rightarrow> Some (if ret \<le> 0 then Null else out, stbl)))"

text \<open>How many characters the string has, when sizes are prescribed.\<close>

lemma mbstring_sizes:
  assumes "ASN1_mbstring_ncopy alloc out mem len inform m mn mx = Some (t, Object d)" "t \<noteq> - 1"
    "mb_input mem len = Some src" "decoder_of inform = Some decode" "read_all decode src = Some vs"
  shows "sint mn > 0 \<Longrightarrow> unat mn \<le> length vs" "sint mx > 0 \<Longrightarrow> length vs \<le> unat mx"
    "vs \<noteq> [] \<Longrightarrow> fold update_mask vs (effective_mask m) \<noteq> 0"
proof -
  obtain enc ok where cr: "char_reader decode enc ok" by (rule decoders [OF assms(4)]) blast
  have "(sint mn > 0 \<longrightarrow> unat mn \<le> length vs) \<and> (sint mx > 0 \<longrightarrow> length vs \<le> unat mx) \<and>
      (vs \<noteq> [] \<longrightarrow> fold update_mask vs (effective_mask m) \<noteq> 0)"
  proof (cases "scan_loop decode inform src (effective_mask m) 0 0")
    case None
    with assms show ?thesis
      by (auto simp: ASN1_mbstring_ncopy_def Let_def simp flip: effective_mask_def split: if_splits)
  next
    case (Some r)
    obtain m' n k where r: "r = (m', n, k)" by (cases r)
    with Some have "n = length vs" "vs \<noteq> [] \<longrightarrow> fold update_mask vs (effective_mask m) \<noteq> 0"
      using char_reader.scan_loop_iff [OF cr] assms(5) by auto
    with Some r assms show ?thesis
      by (auto simp: ASN1_mbstring_ncopy_def Let_def not_less simp flip: effective_mask_def split: if_splits)
  qed
  then show "sint mn > 0 \<Longrightarrow> unat mn \<le> length vs" "sint mx > 0 \<Longrightarrow> length vs \<le> unat mx"
    "vs \<noteq> [] \<Longrightarrow> fold update_mask vs (effective_mask m) \<noteq> 0" by simp_all
qed

text \<open>A country name, for one: a \<open>PrintableString\<close> of two characters, whatever the mask in force.\<close>

lemma country_get: "ASN1_STRING_TABLE_get qsort 14 stbl = Some (Some (Standard 1), stbl)"
  by (simp add: ASN1_STRING_TABLE_get_def tbl_standard_def entry_def table_cmp_def Let_def)

lemma country_entry: "entry_at stbl (Standard 1) = Some (entry 14 2 2 B_ASN1_PRINTABLESTRING STABLE_NO_MASK)"
  by (simp add: entry_at_def tbl_standard_def)

lemma country_string:
  assumes "ASN1_STRING_set_by_NID alloc qsort gm out mem len inform 14 stbl = Some (Object d, stbl')"
    "mb_input mem len = Some src" "len < 2 ^ 31" "decoder_of inform = Some decode"
  shows "\<exists>a b. read_all decode src = Some [a, b] \<and>
    (str_type d = V_ASN1_PRINTABLESTRING \<and> list_all (\<lambda>c. c = 0 \<or> printable c) [a, b] \<and> str_data d = Some [ucast a, ucast b, 0] \<and>
       str_length d = 2)"
proof -
  let ?e = "entry 14 2 2 B_ASN1_PRINTABLESTRING STABLE_NO_MASK"
  obtain t where r: "ASN1_mbstring_ncopy alloc (if out = Absent then Null else out) mem len inform
      B_ASN1_PRINTABLESTRING 2 2 = Some (t, Object d)" "t \<noteq> - 1"
    using assms(1) country_entry
    by (auto simp: ASN1_STRING_set_by_NID_def country_get Let_def entry_def STABLE_NO_MASK_def split: option.splits if_splits)
  from mbstring_sound [OF r assms(2,3,4)] obtain vs where vs: "read_all decode src = Some vs"
    "smallest_type (effective_mask B_ASN1_PRINTABLESTRING) vs t" "string_of t vs d" by blast
  note z = mbstring_sizes [OF r assms(2,4) vs(1)]
  have "length vs = 2" using z(1,2) by simp
  then obtain a b where ab: "vs = [a, b]" by (auto simp: numeral_2_eq_2 length_Suc_conv)
  have m: "bit (effective_mask B_ASN1_PRINTABLESTRING) k \<longleftrightarrow> k = 1" for k
    by (auto simp: effective_mask_def B_ASN1_PRINTABLESTRING_def bit_2_iff)
  obtain k where "bit (fold update_mask vs (effective_mask B_ASN1_PRINTABLESTRING)) k"
    using z(3) ab by (metis bit_0_eq bit_eqI bot_apply bot_bool_def list.distinct(1))
  then have p: "list_all (\<lambda>c. c = 0 \<or> printable c) vs"
    by (auto simp: bit_fold_update_mask m is_printable_iff [abs_def])
  have "t = V_ASN1_PRINTABLESTRING"
  proof (rule ccontr)
    assume "t \<noteq> V_ASN1_PRINTABLESTRING"
    then have "\<not> list_all (type_holds V_ASN1_PRINTABLESTRING) vs"
      using vs(2) m by (auto simp: smallest_type_def string_types_def type_bit_def)
    with p show False by (simp add: type_holds_def [abs_def])
  qed
  with vs(1,3) ab p show ?thesis by (simp add: string_of_def type_encoding_def)
qed

text \<open>The same input, as the examples use it.\<close>

lemma sample_decoder: "decoder_of MBSTRING_UTF8 = Some cbs_get_utf8"
  by (simp add: decoder_of_def MBSTRING_UTF8_def MBSTRING_BMP_def MBSTRING_UNIV_def)

lemma sample_input: "mb_input [72, 105] 2 = Some [72, 105]"
  by (simp add: mb_input_def)

lemma sample_read: "read_all cbs_get_utf8 [72, 105] = Some [72, 105]"
  by code_simp

lemma sample_string_types:
  "type_holds V_ASN1_UTF8STRING c" "bit (effective_mask B_ASN1_UTF8STRING) (type_bit V_ASN1_UTF8STRING)"
  "type_holds V_ASN1_PRINTABLESTRING 72" "type_holds V_ASN1_PRINTABLESTRING 105"
  "bit (effective_mask B_ASN1_PRINTABLESTRING) (type_bit V_ASN1_PRINTABLESTRING)"
  by code_simp+

lemma sample_printable:
  assumes "mx = 0 \<or> mx = 2"
  shows "\<exists>t d. ASN1_mbstring_ncopy (\<lambda>_. True) Null [72, 105] 2 MBSTRING_UTF8 B_ASN1_PRINTABLESTRING mx mx = Some (t, Object d) \<and>
    t \<noteq> - 1"
proof (rule mbstring_complete [OF sample_decoder sample_input _ _ sample_read])
  show "V_ASN1_PRINTABLESTRING \<in> set (string_types @ [V_ASN1_UTF8STRING])" by (simp add: string_types_def)
qed (use assms in \<open>auto simp: sample_string_types starts_with_BOM_def MBSTRING_UTF8_def MBSTRING_BMP_def MBSTRING_UNIV_def\<close>)

lemma sample_country:
  "\<exists>d. ASN1_STRING_set_by_NID (\<lambda>_. True) insertion_sort 0 Absent [72, 105] 2 MBSTRING_UTF8 14 None = Some (Object d, None)"
proof -
  obtain t d where r: "ASN1_mbstring_ncopy (\<lambda>_. True) Null [72, 105] 2 MBSTRING_UTF8 B_ASN1_PRINTABLESTRING 2 2 =
      Some (t, Object d)" "t \<noteq> - 1"
    using sample_printable [of 2] by blast
  obtain vs where "smallest_type (effective_mask B_ASN1_PRINTABLESTRING) vs t"
    using mbstring_sound [OF r sample_input _ sample_decoder] by auto
  then have "t > 0" by (auto simp: smallest_type_def string_types_def V_ASN1_defs)
  with r country_entry show ?thesis
    by (simp add: ASN1_STRING_set_by_NID_def country_get Let_def entry_def STABLE_NO_MASK_def)
qed

text \<open>The terminating NUL of the string that \<open>strchr\<close> searches is found as well.\<close>

lemma NUL_is_printable: "is_printable 0"
  by code_simp

text \<open>A mask that permits only \<open>NumericString\<close> gives a \<open>UTF8String\<close>.\<close>

lemma utf8_unpermitted: "fst (choose_type 1 nchar utf8_len) = V_ASN1_UTF8STRING" "\<not> bit (1 :: u64) (type_bit V_ASN1_UTF8STRING)"
  by code_simp+

end
