(* ===== verification/Time_Support.thy ===== *)
theory Time_Support
  imports Prelude "HOL-Library.Signed_Division"
begin

text \<open>
  \<open>crypto/asn1/time_support.c\<close>: calendar arithmetic on \<open>struct tm\<close>. The conversions to and from Julian
  day numbers are closed formulas over truncated divisions (\<open>sdiv\<close>); they are proved against a calendar
  that is written down by its rules: leap years, lengths of months, and the number of a day as the
  days of the years, the months and the month before it.
\<close>

section \<open>Definitions\<close>

text \<open>The fields of \<open>struct tm\<close> the code uses; \<open>int\<close> has 32 bits and \<open>long\<close> 64.\<close>

record tm =
  tm_sec :: int
  tm_min :: int
  tm_hour :: int
  tm_mday :: int
  tm_mon :: int
  tm_year :: int

definition SECS_PER_DAY :: int where "SECS_PER_DAY = 24 * 60 * 60"

definition fits_int :: "int \<Rightarrow> bool" where
  "fits_int x \<longleftrightarrow> - (2 ^ 31) \<le> x \<and> x < 2 ^ 31"

text \<open>The conversion of a \<open>long\<close> to an \<open>int\<close> keeps the lower 32 bits.\<close>

definition to_int :: "int \<Rightarrow> int" where
  "to_int x = sint (of_int x :: u32)"

text \<open>\<open>gmtime_r\<close> is a parameter: the fields of a \<open>time_t\<close>, or NULL.\<close>

definition OPENSSL_gmtime :: "(int \<Rightarrow> tm option) \<Rightarrow> int \<Rightarrow> tm option" where
  "OPENSSL_gmtime gmtime_r time = gmtime_r time"

text \<open>
  All of \<open>date_to_julian\<close> is computed in \<open>int\<close>. In this theory the outer \<open>None\<close> is a signed overflow,
  which has no defined result.
\<close>

definition date_to_julian :: "int \<Rightarrow> int \<Rightarrow> int \<Rightarrow> int option" where
  "date_to_julian y m d =
     (let c = (m - 14) sdiv 12;
          years = 1461 * (y + 4800 + c);
          months = 367 * (m - 2 - 12 * c);
          centuries = 3 * ((y + 4900 + c) sdiv 100);
          a = years sdiv 4 + months sdiv 12;
          b = a - centuries sdiv 4
      in if list_all fits_int [m - 14, y + 4800, y + 4800 + c, years, m - 2, 12 * c, m - 2 - 12 * c, months,
              y + 4900, y + 4900 + c, centuries, a, b, b + d, b + d - 32075]
         then Some (b + d - 32075) else None)"

text \<open>\<open>julian_to_date\<close>: year, month and day.\<close>

definition julian_to_date :: "int \<Rightarrow> int \<times> int \<times> int" where
  "julian_to_date jd =
     (let L = jd + 68569;
          n = (4 * L) sdiv 146097;
          L = L - (146097 * n + 3) sdiv 4;
          i = (4000 * (L + 1)) sdiv 1461001;
          L = L - (1461 * i) sdiv 4 + 31;
          j = (80 * L) sdiv 2447;
          d = L - (2447 * j) sdiv 80;
          L = j sdiv 11;
          m = j + 2 - 12 * L;
          y = 100 * (n - 49) + i + L
      in (y, m, d))"

text \<open>
  \<open>julian_adj\<close>: the inner \<open>None\<close> is the return value zero. \<open>offset_day\<close> and \<open>offset_hms\<close> are \<open>int\<close>, the
  product of \<open>offset_day\<close> and \<open>SECS_PER_DAY\<close> as well.
\<close>

definition julian_adj :: "tm \<Rightarrow> int \<Rightarrow> int \<Rightarrow> (int \<times> int) option option" where
  "julian_adj tm off_day offset_sec =
     (let offset_day = to_int (offset_sec sdiv SECS_PER_DAY);
          prod = offset_day * SECS_PER_DAY;
          offset_hms = to_int (offset_sec - prod);
          offset_day' = offset_day + off_day;
          time_hms = tm_hour tm * 3600 + tm_min tm * 60 + tm_sec tm;
          hms = offset_hms + time_hms;
          (offset_day'', hms') =
            (if hms \<ge> SECS_PER_DAY then (offset_day' + 1, hms - SECS_PER_DAY)
             else if hms < 0 then (offset_day' - 1, hms + SECS_PER_DAY)
             else (offset_day', hms))
      in if \<not> list_all fits_int [prod, offset_day', tm_hour tm * 3600, tm_min tm * 60,
              tm_hour tm * 3600 + tm_min tm * 60, time_hms, hms, offset_day'', tm_year tm + 1900, tm_mon tm + 1]
         then None
         else
           (case date_to_julian (tm_year tm + 1900) (tm_mon tm + 1) (tm_mday tm) of
              None \<Rightarrow> None
            | Some time_jd \<Rightarrow>
                (let time_jd = time_jd + offset_day''
                 in Some (if time_jd < 0 then None else Some (time_jd, hms')))))"

definition OPENSSL_gmtime_adj :: "tm \<Rightarrow> int \<Rightarrow> int \<Rightarrow> (unit, tm) outcome option" where
  "OPENSSL_gmtime_adj tm off_day offset_sec =
     (case julian_adj tm off_day offset_sec of
        None \<Rightarrow> None
      | Some None \<Rightarrow> Some (None, tm)
      | Some (Some (time_jd, time_sec)) \<Rightarrow>
          (case julian_to_date time_jd of (time_year, time_month, time_day) \<Rightarrow>
             if time_year < 1900 \<or> time_year > 9999 then Some (None, tm)
             else
               Some (Some (),
                 tm\<lparr>tm_year := time_year - 1900, tm_mon := time_month - 1, tm_mday := time_day,
                    tm_hour := time_sec sdiv 3600, tm_min := (time_sec sdiv 60) smod 60,
                    tm_sec := time_sec smod 60\<rparr>)))"

text \<open>\<open>OPENSSL_gmtime_diff\<close>: \<open>*out_days\<close> and \<open>*out_secs\<close>.\<close>

definition OPENSSL_gmtime_diff :: "tm \<Rightarrow> tm \<Rightarrow> (int \<times> int) option option" where
  "OPENSSL_gmtime_diff frm to =
     (case julian_adj frm 0 0 of
        None \<Rightarrow> None
      | Some None \<Rightarrow> Some None
      | Some (Some (from_jd, from_sec)) \<Rightarrow>
          (case julian_adj to 0 0 of
             None \<Rightarrow> None
           | Some None \<Rightarrow> Some None
           | Some (Some (to_jd, to_sec)) \<Rightarrow>
               (let diff_day = to_jd - from_jd;
                    diff_sec = to_sec - from_sec;
                    (diff_day, diff_sec) =
                      (if diff_day > 0 \<and> diff_sec < 0 then (diff_day - 1, diff_sec + SECS_PER_DAY)
                       else (diff_day, diff_sec));
                    (diff_day, diff_sec) =
                      (if diff_day < 0 \<and> diff_sec > 0 then (diff_day + 1, diff_sec - SECS_PER_DAY)
                       else (diff_day, diff_sec))
                in Some (Some (to_int diff_day, diff_sec)))))"


section \<open>The calendar\<close>

definition leap :: "int \<Rightarrow> bool" where
  "leap y \<longleftrightarrow> 4 dvd y \<and> (\<not> 100 dvd y \<or> 400 dvd y)"

definition days_in_month :: "int \<Rightarrow> int \<Rightarrow> int" where
  "days_in_month y m =
     (if m = 2 then (if leap y then 29 else 28) else if m \<in> {4, 6, 9, 11} then 30 else 31)"

definition valid_date :: "int \<Rightarrow> int \<Rightarrow> int \<Rightarrow> bool" where
  "valid_date y m d \<longleftrightarrow> 1 \<le> m \<and> m \<le> 12 \<and> 1 \<le> d \<and> d \<le> days_in_month y m"

text \<open>The days before the year \<open>y\<close>, from the year 0 on, and before the month \<open>m\<close> of it.\<close>

definition year_start :: "int \<Rightarrow> int" where
  "year_start y = 365 * y + (y + 3) div 4 - (y + 99) div 100 + (y + 399) div 400"

definition month_start :: "int \<Rightarrow> int \<Rightarrow> int" where
  "month_start y m = (\<Sum>k \<leftarrow> [1..m - 1]. days_in_month y k)"

definition day_number :: "int \<Rightarrow> int \<Rightarrow> int \<Rightarrow> int" where
  "day_number y m d = year_start y + month_start y m + d"

lemma year_start_0: "year_start 0 = 0"
  by (simp add: year_start_def)

lemma div_split: "x = k * a + r \<Longrightarrow> k \<noteq> 0 \<Longrightarrow> x div k = a + r div k" for x :: int
  using div_mult_self1 [of k r a] by (metis add.commute mult.commute)

lemma div_round_up:
  fixes c :: int
  assumes "c > 1"
  shows "(y + c) div c = (y + (c - 1)) div c + (if c dvd y then 1 else 0)"
proof -
  have 1: "(y + c) div c = y div c + 1" using div_add_self2 [of c y] assms by linarith
  have y: "y = c * (y div c) + y mod c" by simp
  have m: "0 \<le> y mod c" "y mod c < c" using assms by simp_all
  show ?thesis
  proof (cases "c dvd y")
    case True
    have "(y + (c - 1)) div c = y div c + (c - 1) div c"
      by (rule div_split) (use True assms in auto)
    with 1 True assms show ?thesis by simp
  next
    case False
    then have "y mod c \<noteq> 0" by (simp add: dvd_eq_mod_eq_0)
    with m have "(y mod c - 1) div c = 0" by simp
    moreover have "(y + (c - 1)) div c = y div c + 1 + (y mod c - 1) div c"
      by (rule div_split) (use y assms in \<open>simp_all add: algebra_simps\<close>)
    ultimately show ?thesis using 1 False by simp
  qed
qed

lemma leap_days:
  fixes k a b c :: int
  assumes "q \<Longrightarrow> p" "r \<Longrightarrow> q"
  shows "k + (a + (if p then 1 else 0)) - (b + (if q then 1 else 0)) + (c + (if r then 1 else 0)) =
    k + a - b + c + (if p \<and> (\<not> q \<or> r) then 1 else 0)"
  by (cases p; cases q; cases r) (use assms in simp_all)

lemma year_start_Suc: "year_start (y + 1) = year_start y + (if leap y then 366 else 365)"
proof -
  have e: "y + 1 + 3 = y + 4" "y + 1 + 99 = y + 100" "y + 1 + 399 = y + 400" by linarith+
  define a b c where abc: "a = (y + 3) div 4" "b = (y + 99) div 100" "c = (y + 399) div 400"
  have "(y + 4) div 4 = a + (if 4 dvd y then 1 else 0)" "(y + 100) div 100 = b + (if 100 dvd y then 1 else 0)"
    "(y + 400) div 400 = c + (if 400 dvd y then 1 else 0)"
    using div_round_up [of 4 y] div_round_up [of 100 y] div_round_up [of 400 y] unfolding abc by simp_all
  then have "year_start (y + 1) = 365 * (y + 1) + (a + (if 4 dvd y then 1 else 0)) -
      (b + (if 100 dvd y then 1 else 0)) + (c + (if 400 dvd y then 1 else 0))"
    unfolding year_start_def e by (simp only:)
  also have "\<dots> = 365 * (y + 1) + a - b + c + (if leap y then 1 else 0)"
    unfolding leap_def
  proof (rule leap_days)
    show "100 dvd y \<Longrightarrow> 4 dvd y" by (rule dvd_trans [of 4 100]) simp_all
    show "400 dvd y \<Longrightarrow> 100 dvd y" by (rule dvd_trans [of 100 400]) simp_all
  qed
  finally show ?thesis by (simp add: year_start_def abc)
qed

lemma month_starts:
  "month_start y 1 = 0" "month_start y 2 = 31" "month_start y 3 = 59 + (if leap y then 1 else 0)"
  "month_start y 4 = 90 + (if leap y then 1 else 0)" "month_start y 5 = 120 + (if leap y then 1 else 0)"
  "month_start y 6 = 151 + (if leap y then 1 else 0)" "month_start y 7 = 181 + (if leap y then 1 else 0)"
  "month_start y 8 = 212 + (if leap y then 1 else 0)" "month_start y 9 = 243 + (if leap y then 1 else 0)"
  "month_start y 10 = 273 + (if leap y then 1 else 0)" "month_start y 11 = 304 + (if leap y then 1 else 0)"
  "month_start y 12 = 334 + (if leap y then 1 else 0)"
  by (simp_all add: month_start_def upto.simps days_in_month_def)

text \<open>The months are counted from March in the formulas: \<open>mar y m\<close> days are between the first of both.\<close>

definition month_offset :: "int \<Rightarrow> int" where
  "month_offset m = (if m \<ge> 3 then (367 * (m - 2)) div 12 - 30 else (367 * (m + 10)) div 12 - 30)"

text \<open>The year that starts on the first of March.\<close>

lemma day_number_march:
  assumes "1 \<le> m" "m \<le> 12"
  shows "day_number y m d = year_start (if m \<ge> 3 then y + 1 else y) - 306 + month_offset m + d"
proof -
  have "m \<in> {1, 2, 3, 4, 5, 6, 7, 8, 9, 10, 11, 12}" using assms by simp presburger
  then show ?thesis
    using year_start_Suc [of y]
    by (auto simp: day_number_def month_starts month_offset_def)
qed

text \<open>In centuries, years and the days since the first of March, as the formulas compute it.\<close>

lemma year_start_century:
  assumes "0 \<le> i" "i < 100"
  shows "year_start (100 * (n - 49) + i + 1) - 306 + 1721060 + 68569 =
    (146097 * n + 3) div 4 + (1461 * i) div 4"
proof -
  define c where "c = n - 49"
  have q: "(100 * c + i + 1 + 3) div 4 = (25 * c + 1) + i div 4"
    "(100 * c + i + 1 + 99) div 100 = (c + 1) + i div 100" "(100 * (c + 4) + i) div 100 = (c + 4) + i div 100"
    "(146097 * n + 3) div 4 = 36524 * n + (n + 3) div 4" "(1461 * i) div 4 = 365 * i + i div 4"
    "(n + 3) div 4 = 12 + (c + 4) div 4"
    by (rule div_split; simp add: c_def)+
  have e: "100 * c + i + 1 + 399 = 100 * (c + 4) + i" by simp
  have "(100 * c + i + 1 + 399) div 400 = (100 * (c + 4) + i) div 100 div 4"
    unfolding e by (simp only: zdiv_zmult2_eq [symmetric]) simp
  moreover have "i div 100 = 0" using assms by simp
  ultimately have s: "year_start (100 * c + i + 1) =
      365 * (100 * c + i + 1) + (25 * c + 1 + i div 4) - (c + 1) + (c + 4) div 4"
    unfolding year_start_def using q(1-3) by (simp only: add_0_right)
  have n: "100 * (n - 49) = 100 * c" "n = c + 49" by (simp_all add: c_def)
  define u v where uv: "u = i div 4" "v = (c + 4) div 4"
  have r: "(146097 * n + 3) div 4 = 36524 * n + (12 + v)" "(1461 * i) div 4 = 365 * i + u"
    using q(4-6) by (simp_all only: uv)
  have y: "year_start (100 * (n - 49) + i + 1) = 365 * (100 * c + i + 1) + (25 * c + 1 + u) - (c + 1) + v"
    using s by (simp only: uv n(1))
  show ?thesis by (simp only: r y) (simp add: n(2))
qed

text \<open>The day of the month from the days since the first of March, for all the days of a year.\<close>

definition march_day_ok :: "int \<Rightarrow> bool" where
  "march_day_ok k =
     (let j = (80 * (k + 31)) div 2447;
          d = k + 31 - (2447 * j) div 80;
          m = j + 2 - 12 * (j div 11)
      in 0 \<le> j \<and> 1 \<le> m \<and> m \<le> 12 \<and> j div 11 = (if m \<ge> 3 then 0 else 1) \<and> month_offset m + d = k + 1 \<and> 1 \<le> d \<and>
         (if k = 365 then m = 2 \<and> d = 29
          else d \<le> (if m = 2 then 28 else if m = 4 \<or> m = 6 \<or> m = 9 \<or> m = 11 then 30 else 31)))"

lemma march_days_ok: "list_all march_day_ok [0..365]"
  by code_simp

lemma div_bounds:
  fixes x c :: int
  assumes "0 < c"
  shows "c * (x div c) \<le> x" "x < c * (x div c) + c"
  using assms mult_div_mod_eq [of c x] pos_mod_sign [of c x] pos_mod_bound [of c x] by linarith+

lemma sdiv_nonneg: "0 \<le> x \<Longrightarrow> 0 < c \<Longrightarrow> x sdiv c = x div c" for x c :: int
  by (cases "x = 0") (simp_all add: signed_divide_int_def)

text \<open>The century of a day, and the day in it; the year in the century, and the day in it.\<close>

lemma century_bounds:
  fixes L n q :: int
  assumes "146097 * n \<le> 4 * L" "4 * L < 146097 * n + 146097" "4 * q \<le> 146097 * n + 3" "146097 * n + 3 < 4 * q + 4"
  shows "0 \<le> L - q" "L - q \<le> 36524" "L - q = 36524 \<Longrightarrow> 4 * q = 146097 * n"
  using assms by linarith+

lemma year_bounds:
  fixes L i q q' :: int
  assumes "0 \<le> L" "L \<le> 36524" "1461001 * i \<le> 4000 * (L + 1)" "4000 * (L + 1) < 1461001 * i + 1461001"
    "4 * q \<le> 1461 * i" "1461 * i < 4 * q + 4" "4 * q' \<le> 1461 * (i + 1)" "1461 * (i + 1) < 4 * q' + 4"
  shows "0 \<le> i" "i \<le> 99" "0 \<le> L - q" "L < q'" "L - q \<le> 365" "L - q = 365 \<Longrightarrow> 1461 * (i + 1) = 4 * q'"
    "i = 99 \<Longrightarrow> L - q = 365 \<Longrightarrow> L = 36524"
proof -
  show i: "0 \<le> i"
  proof (rule ccontr)
    assume "\<not> 0 \<le> i"
    then have "1461001 * i \<le> 1461001 * (- 1)" by (intro mult_left_mono) simp_all
    with assms(1,4) show False by simp
  qed
  show i': "i \<le> 99"
  proof (rule ccontr)
    assume "\<not> i \<le> 99"
    then have "1461001 * 100 \<le> 1461001 * i" by (intro mult_left_mono) simp_all
    with assms(2,3) show False by simp
  qed
  show q: "0 \<le> L - q" 
  proof (cases "i = 0")
    case False
    with i assms(3,5) show ?thesis by simp
  qed (use assms(1,5) in simp)
  show q': "L < q'" using assms(4,8) i' by simp
  show "L - q \<le> 365" using q' assms(6,7) by simp
  show "L - q = 365 \<Longrightarrow> 1461 * (i + 1) = 4 * q'" using q' assms(6,7) by simp
  show "i = 99 \<Longrightarrow> L - q = 365 \<Longrightarrow> L = 36524" using assms(5,6) by simp
qed

lemma leap_next_year:
  assumes "0 \<le> i" "i \<le> 99" "1461 * (i + 1) = 4 * q" "i = 99 \<Longrightarrow> 4 * r = 146097 * n"
  shows "leap (100 * (n - 49) + i + 1)"
proof -
  have "i + 1 = 4 * q - 4 * (365 * (i + 1))" using assms(3) by simp
  then have 4: "4 dvd i + 1" by (metis dvd_diff dvd_triv_left)
  show ?thesis
  proof (cases "i = 99")
    case True
    have "n = 4 * r - 4 * (36524 * n)" using assms(4) [OF True] by simp
    then have "4 dvd n" by (metis dvd_diff dvd_triv_left)
    then obtain c where "n = 4 * c" by blast
    with True have "100 * (n - 49) + i + 1 = 400 * (c - 12)" by simp
    moreover have "4 dvd 400 * (c - 12)" by (rule dvd_mult2) simp
    ultimately show ?thesis by (simp only: leap_def dvd_triv_left simp_thms)
  next
    case False
    then have "\<not> 100 dvd i + 1" using assms(1,2) zdvd_not_zless [of "i + 1" 100] by auto
    moreover have "100 dvd 100 * (n - 49) + (i + 1) \<longleftrightarrow> 100 dvd i + 1" by (rule dvd_add_right_iff) simp
    ultimately have "\<not> 100 dvd 100 * (n - 49) + (i + 1)" by blast
    moreover have "4 dvd 100 * (n - 49) + (i + 1)"
    proof -
      have "4 dvd 100 * (n - 49)" by (rule dvd_mult2) simp
      then show ?thesis using 4 by (rule dvd_add)
    qed
    ultimately show ?thesis by (simp only: leap_def add.assoc simp_thms)
  qed
qed

lemma julian_to_date_ok:
  assumes "0 \<le> jd" "julian_to_date jd = (y, m, d)"
  shows "valid_date y m d" "day_number y m d + 1721059 = jd"
proof -
  define L where "L = jd + 68569"
  define n where "n = (4 * L) div 146097"
  define q where "q = (146097 * n + 3) div 4"
  define i where "i = (4000 * (L - q + 1)) div 1461001"
  define r where "r = (1461 * i) div 4"
  define k where "k = L - q - r"
  define j where "j = (80 * (k + 31)) div 2447"
  have L: "0 \<le> L" using assms(1) by (simp add: L_def)
  have p: "0 < (146097 :: int)" "0 < (4 :: int)" "0 < (1461001 :: int)" by simp_all
  note cb = century_bounds [OF div_bounds [OF p(1), of "4 * L", folded n_def]
      div_bounds [OF p(2), of "146097 * n + 3", folded q_def]]
  note yb = year_bounds [OF cb(1,2) div_bounds [OF p(3), of "4000 * (L - q + 1)", folded i_def]
      div_bounds [OF p(2), of "1461 * i", folded r_def] div_bounds [OF p(2), of "1461 * (i + 1)"]]
  have n: "0 \<le> n" using L by (simp add: n_def)
  have k: "0 \<le> k" "k \<le> 365" using yb by (simp_all add: k_def)
  have ok: "march_day_ok k"
    using march_days_ok k by (simp add: list_all_iff)
  then have j: "0 \<le> j" unfolding march_day_ok_def Let_def j_def by blast
  have 1: "jd + 68569 = L" by (simp only: L_def)
  have 2: "(4 * L) sdiv 146097 = n" unfolding n_def by (rule sdiv_nonneg) (use L in simp_all)
  have 3: "(146097 * n + 3) sdiv 4 = q" unfolding q_def by (rule sdiv_nonneg) (use n in simp_all)
  have 4: "(4000 * (L - q + 1)) sdiv 1461001 = i" unfolding i_def by (rule sdiv_nonneg) (use cb in simp_all)
  have 5: "(1461 * i) sdiv 4 = r" unfolding r_def by (rule sdiv_nonneg) (use yb in simp_all)
  have 6: "L - q - r + 31 = k + 31" by (simp only: k_def)
  have 7: "(80 * (k + 31)) sdiv 2447 = j" unfolding j_def by (rule sdiv_nonneg) (use k in simp_all)
  have 8: "(2447 * j) sdiv 80 = (2447 * j) div 80" "j sdiv 11 = j div 11" by (rule sdiv_nonneg; use j in simp)+
  have y: "y = 100 * (n - 49) + i + j div 11" and m: "m = j + 2 - 12 * (j div 11)" and d: "d = k + 31 - (2447 * j) div 80"
    using assms(2) unfolding julian_to_date_def Let_def 1 2 3 4 5 6 7 8 by (simp_all only: prod.inject)
  have s: "j div 11 = (if m \<ge> 3 then 0 else 1)" "1 \<le> m" "m \<le> 12" "month_offset m + d = k + 1" "1 \<le> d"
    "if k = 365 then m = 2 \<and> d = 29
     else d \<le> (if m = 2 then 28 else if m = 4 \<or> m = 6 \<or> m = 9 \<or> m = 11 then 30 else 31)"
    using ok unfolding march_day_ok_def Let_def j_def [symmetric] m [symmetric] d [symmetric] by blast+
  have y1: "(if m \<ge> 3 then y + 1 else y) = 100 * (n - 49) + i + 1" using y s(1) by (simp split: if_splits)
  have "year_start (100 * (n - 49) + i + 1) - 306 + 1721060 + 68569 = q + r"
    using year_start_century [of i n] yb(1,2) by (simp only: q_def r_def)
  then show "day_number y m d + 1721059 = jd"
    using day_number_march [OF s(2,3), of y d] s(4) y1 1 by (simp add: k_def)
  have "leap y" if "k = 365"
  proof -
    have "1461 * (i + 1) = 4 * ((1461 * (i + 1)) div 4)" using yb(6) that by (simp only: k_def)
    moreover have "4 * q = 146097 * n" if "i = 99"
      using cb(3) yb(7) \<open>k = 365\<close> that by (simp only: k_def)
    ultimately have "leap (100 * (n - 49) + i + 1)" using leap_next_year [of i _ q n] yb(1,2) by blast
    moreover have "m = 2" using s(6) that by simp
    ultimately show ?thesis using y1 by simp
  qed
  with s(2,3,5,6) show "valid_date y m d" by (auto simp: valid_date_def days_in_month_def split: if_splits)
qed

text \<open>The formula gives the number of the day, as long as no intermediate result overflows.\<close>

lemma months_div: "m \<in> {1..12} \<Longrightarrow> (m - 14) sdiv 12 = (if m \<ge> 3 then 0 else - 1)" for m :: int
proof -
  assume "m \<in> {1..12}"
  then have "m \<in> {1, 2, 3, 4, 5, 6, 7, 8, 9, 10, 11, 12}" by simp presburger
  then show ?thesis by (auto simp: signed_divide_int_def)
qed

lemma date_to_julian_eq:
  assumes "1 \<le> m" "m \<le> 12" "- 4799 \<le> y" "y \<le> 1000000" "\<bar>d\<bar> \<le> 1000000"
  shows "date_to_julian y m d = Some (day_number y m d + 1721059)"
proof -
  define c where "c = (m - 14) sdiv 12"
  have c: "c = (if m \<ge> 3 then 0 else - 1)" using months_div [of m] assms by (simp add: c_def)
  define n where "n = (y + 4900 + c) div 100"
  define i where "i = (y + 4900 + c) mod 100"
  have i: "0 \<le> i" "i < 100" by (simp_all add: i_def)
  have y: "y + 4900 + c = 100 * n + i" by (simp add: n_def i_def)
  have ny: "0 \<le> y + 4800 + c" using assms(3) c by (simp split: if_splits)
  then have n: "0 \<le> n" by (simp add: n_def)
  define u where "u = (1461 * (y + 4800 + c)) div 4"
  define w where "w = (367 * (m - 2 - 12 * c)) div 12"
  define v where "v = (3 * n) div 4"
  have mm: "1 \<le> m - 2 - 12 * c" "m - 2 - 12 * c \<le> 12" using c assms(1,2) by (simp_all split: if_splits)
  have s1: "(1461 * (y + 4800 + c)) sdiv 4 = u" unfolding u_def by (rule sdiv_nonneg) (use ny in simp_all)
  have s2: "(367 * (m - 2 - 12 * c)) sdiv 12 = w" unfolding w_def by (rule sdiv_nonneg) (use mm in simp_all)
  have s3: "(y + 4900 + c) sdiv 100 = n" unfolding n_def by (rule sdiv_nonneg) (use ny in simp_all)
  have s4: "(3 * n) sdiv 4 = v" unfolding v_def by (rule sdiv_nonneg) (use n in simp_all)
  have u: "u = 36525 * (n - 1) + (1461 * i) div 4"
    unfolding u_def by (rule div_split) (use y in simp_all)
  have q: "(146097 * n + 3) div 4 = 36524 * n + (n + 3) div 4" by (rule div_split) simp_all
  have v: "v + (n + 3) div 4 = n" unfolding v_def by presburger
  have yc: "(if m \<ge> 3 then y + 1 else y) = 100 * (n - 49) + i + 1" using y c by (simp split: if_splits)
  have w: "month_offset m = w - 30" unfolding month_offset_def w_def c by (simp add: algebra_simps)
  have "day_number y m d = year_start (100 * (n - 49) + i + 1) - 306 + (w - 30) + d"
    using day_number_march [OF assms(1,2), of y d] yc w by simp
  moreover have "year_start (100 * (n - 49) + i + 1) - 306 + 1721060 + 68569 = 36524 * n + (n + 3) div 4 + (1461 * i) div 4"
    using year_start_century [of i n] i q by simp
  ultimately have r: "u + w - v + d - 32075 = day_number y m d + 1721059"
    using u v by simp
  have "0 \<le> 1461 * (y + 4800 + c)" "1461 * (y + 4800 + c) \<le> 1461 * 1004800"
    using ny assms(4) c by (simp_all split: if_splits)
  moreover from this have "0 \<le> u" "u \<le> 400000000" unfolding u_def by simp_all
  moreover have "0 \<le> w" "w \<le> 367" using mm by (simp_all add: w_def)
  moreover have "n \<le> 10049" using y i assms(4) c by (simp split: if_splits)
  moreover from this n have "0 \<le> v" "v \<le> 10049" by (simp_all add: v_def)
  ultimately have "list_all fits_int [m - 14, y + 4800, y + 4800 + c, 1461 * (y + 4800 + c), m - 2, 12 * c,
      m - 2 - 12 * c, 367 * (m - 2 - 12 * c), y + 4900, y + 4900 + c, 3 * n, u + w, u + w - v, u + w - v + d,
      u + w - v + d - 32075]"
    using assms c n mm by (auto simp: fits_int_def split: if_splits)
  then show ?thesis
    unfolding date_to_julian_def Let_def c_def [symmetric] s1 s2 s3 s4 by (simp only: if_True r)
qed

section \<open>Adding to and subtracting times\<close>

definition valid_tm :: "tm \<Rightarrow> bool" where
  "valid_tm t \<longleftrightarrow>
     valid_date (tm_year t + 1900) (tm_mon t + 1) (tm_mday t) \<and> 0 \<le> tm_hour t \<and> tm_hour t \<le> 23 \<and>
     0 \<le> tm_min t \<and> tm_min t \<le> 59 \<and> 0 \<le> tm_sec t \<and> tm_sec t \<le> 59"

text \<open>The seconds from the beginning of the year 0, less a day, without leap seconds.\<close>

definition seconds :: "tm \<Rightarrow> int" where
  "seconds t =
     86400 * day_number (tm_year t + 1900) (tm_mon t + 1) (tm_mday t) + 3600 * tm_hour t + 60 * tm_min t + tm_sec t"

lemma year_start_mono: "a \<le> b \<Longrightarrow> year_start a \<le> year_start b"
proof (induction b rule: int_ge_induct)
  case (step b)
  then show ?case using year_start_Suc [of b] by (simp split: if_splits)
qed simp

lemma month_cases: "1 \<le> m \<Longrightarrow> m \<le> 12 \<Longrightarrow> m \<in> {1, 2, 3, 4, 5, 6, 7, 8, 9, 10, 11, 12}" for m :: int
  by simp presburger

lemma day_in_year:
  assumes "valid_date y m d"
  shows "year_start y < day_number y m d" "day_number y m d \<le> year_start (y + 1)"
proof -
  have v: "1 \<le> m" "m \<le> 12" "1 \<le> d" "d \<le> days_in_month y m" using assms by (simp_all add: valid_date_def)
  have "0 \<le> month_start y m" "month_start y m + days_in_month y m \<le> (if leap y then 366 else 365)"
    using month_cases [OF v(1,2)] by (auto simp: month_starts days_in_month_def)
  with v show "year_start y < day_number y m d" "day_number y m d \<le> year_start (y + 1)"
    by (simp_all add: day_number_def year_start_Suc)
qed

lemma year_from_day:
  assumes "valid_date y m d"
  shows "y < a \<longleftrightarrow> day_number y m d \<le> year_start a"
  using day_in_year [OF assms] year_start_mono [of "y + 1" a] year_start_mono [of a y] by linarith

lemma days_in_month_le: "days_in_month y m \<le> 31"
  by (simp add: days_in_month_def)

lemma to_int_fits: "fits_int x \<Longrightarrow> to_int x = x"
  unfolding to_int_def fits_int_def by (simp add: signed_of_int signed_take_bit_int_eq_self)

lemma smod_day: "x sdiv 86400 * 86400 = x - x smod 86400" for x :: int
  by (rule minus_smod_eq_sdiv_mult [symmetric])

lemma smod_day_bound: "- 86400 < x smod 86400" "x smod 86400 < 86400" for x :: int
proof -
  have "\<bar>x smod 86400\<bar> < 86400" by (simp add: signed_modulo_int_def abs_mult abs_sgn_eq)
  then show "- 86400 < x smod 86400" "x smod 86400 < 86400" by linarith+
qed

text \<open>The time that \<open>julian_adj\<close> computes, split into the day and the seconds in it.\<close>

definition target :: "tm \<Rightarrow> int \<Rightarrow> int \<Rightarrow> int" where
  "target t off_day offset_sec = seconds t + 86400 * off_day + offset_sec"

lemma div_mod_eq:
  fixes a b T :: int
  assumes "T = 86400 * a + b" "0 \<le> b" "b < 86400"
  shows "T div 86400 = a" "T mod 86400 = b"
  using assms by simp_all

lemma julian_adj_eq:
  assumes t: "valid_tm t" "- 6699 \<le> tm_year t" "tm_year t \<le> 990000"
    and o: "\<bar>off_day\<bar> \<le> 2000000000" "\<bar>offset_sec\<bar> \<le> 2 ^ 31 - 1"
  shows "julian_adj t off_day offset_sec =
    Some (if target t off_day offset_sec div 86400 + 1721059 < 0 then None
          else Some (target t off_day offset_sec div 86400 + 1721059, target t off_day offset_sec mod 86400))"
proof -
  let ?y = "tm_year t + 1900" let ?m = "tm_mon t + 1"
  define D where "D = day_number ?y ?m (tm_mday t)"
  define od where "od = offset_sec sdiv 86400"
  define os where "os = offset_sec smod 86400"
  define th where "th = tm_hour t * 3600 + tm_min t * 60 + tm_sec t"
  define T where "T = target t off_day offset_sec"
  have d: "1 \<le> ?m" "?m \<le> 12" "1 \<le> tm_mday t" "tm_mday t \<le> 31"
    using t(1) days_in_month_le [of ?y ?m] by (simp_all add: valid_tm_def valid_date_def)
  have h: "0 \<le> tm_hour t" "tm_hour t \<le> 23" "0 \<le> tm_min t" "tm_min t \<le> 59" "0 \<le> tm_sec t" "tm_sec t \<le> 59"
    using t(1) by (simp_all add: valid_tm_def)
  have jd: "date_to_julian ?y ?m (tm_mday t) = Some (D + 1721059)"
    unfolding D_def by (rule date_to_julian_eq) (use d t in simp_all)
  have e: "od * 86400 = offset_sec - os" unfolding od_def os_def by (rule smod_day)
  have b: "- 86400 < os" "os < 86400" unfolding os_def by (rule smod_day_bound)+
  have "\<bar>od\<bar> = \<bar>offset_sec\<bar> div 86400"
    by (cases "offset_sec = 0") (simp_all add: od_def signed_divide_int_def abs_mult abs_sgn_eq)
  moreover have "\<bar>offset_sec\<bar> div 86400 \<le> (2 ^ 31 - 1) div 86400" using o(2) by (rule zdiv_mono1) simp
  ultimately have od: "- 24855 \<le> od" "od \<le> 24855" by simp_all
  have hb: "0 \<le> th" "th < 86400" using h by (simp_all add: th_def)
  have i: "to_int od = od" "to_int (offset_sec - od * 86400) = os"
    using od e b by (simp_all add: to_int_fits fits_int_def)
  have T: "T = 86400 * (D + od + off_day) + (os + th)"
    using e by (simp add: T_def target_def seconds_def D_def th_def)
  have ob: "- 2000000000 \<le> off_day" "off_day \<le> 2000000000" using o(1) by simp_all
  have fits: "list_all fits_int [od * 86400, od + off_day, tm_hour t * 3600, tm_min t * 60,
      tm_hour t * 3600 + tm_min t * 60, th, os + th, od + off_day + 1, od + off_day - 1, od + off_day, ?y, ?m]"
    using ob od h d t(2,3) hb b by (simp add: fits_int_def)
  have eq: "julian_adj t off_day offset_sec =
      (let (od', hms') = (if os + th \<ge> 86400 then (od + off_day + 1, os + th - 86400)
             else if os + th < 0 then (od + off_day - 1, os + th + 86400) else (od + off_day, os + th))
       in Some (if D + 1721059 + od' < 0 then None else Some (D + 1721059 + od', hms')))"
    using fits by (simp add: julian_adj_def SECS_PER_DAY_def od_def [symmetric] i jd th_def [symmetric] Let_def)
  consider (up) "os + th \<ge> 86400" | (down) "os + th < 0" | (same) "0 \<le> os + th" "os + th < 86400" by linarith
  then show ?thesis
  proof cases
    case up
    then have "T div 86400 = D + od + off_day + 1" "T mod 86400 = os + th - 86400"
      using div_mod_eq [of T "D + od + off_day + 1" "os + th - 86400"] T b hb by simp_all
    with up show ?thesis unfolding T_def [symmetric] eq by (simp add: algebra_simps)
  next
    case down
    then have "T div 86400 = D + od + off_day - 1" "T mod 86400 = os + th + 86400"
      using div_mod_eq [of T "D + od + off_day - 1" "os + th + 86400"] T b hb by simp_all
    with down show ?thesis unfolding T_def [symmetric] eq by (simp add: algebra_simps)
  next
    case same
    then have "T div 86400 = D + od + off_day" "T mod 86400 = os + th"
      using div_mod_eq [of T "D + od + off_day" "os + th"] T by simp_all
    with same show ?thesis unfolding T_def [symmetric] eq by (simp add: algebra_simps)
  qed
qed

text \<open>The times from the beginning of 1900 to the end of 9999.\<close>

definition in_range :: "int \<Rightarrow> bool" where
  "in_range T \<longleftrightarrow> 86400 * (year_start 1900 + 1) \<le> T \<and> T < 86400 * (year_start 10000 + 1)"

lemma year_starts: "year_start 1900 = 693961" "year_start 10000 = 3652425"
  by (simp_all add: year_start_def)

lemma in_range_day: "in_range T \<longleftrightarrow> year_start 1900 < T div 86400 \<and> T div 86400 \<le> year_start 10000"
proof -
  define q where "q = T div 86400"
  have "86400 * q \<le> T" "T < 86400 * q + 86400" using div_bounds [of 86400 T] by (simp_all add: q_def)
  then show ?thesis unfolding in_range_def q_def [symmetric] by auto
qed

text \<open>A time of a day, from the seconds in it.\<close>

lemma split_seconds:
  fixes s :: int
  assumes "0 \<le> s" "s < 86400"
  shows "0 \<le> s sdiv 3600" "s sdiv 3600 \<le> 23" "0 \<le> (s sdiv 60) smod 60" "(s sdiv 60) smod 60 \<le> 59"
    "0 \<le> s smod 60" "s smod 60 \<le> 59" "3600 * (s sdiv 3600) + 60 * ((s sdiv 60) smod 60) + s smod 60 = s"
proof -
  have smod_nonneg: "x smod c = x mod c" if "0 \<le> x" "0 < c" for x c :: int
    using that by (cases "x = 0") (simp_all add: signed_modulo_int_def)
  define q where "q = s div 60"
  have q: "s = 60 * q + s mod 60" "0 \<le> q" "q < 1440" using assms by (simp_all add: q_def)
  have "s div 3600 = q div 60" unfolding q_def using zdiv_zmult2_eq [of 60 s 60] by simp
  then have e: "s sdiv 3600 = q div 60" "(s sdiv 60) smod 60 = q mod 60" "s smod 60 = s mod 60"
    using assms q(2) by (simp_all add: sdiv_nonneg smod_nonneg q_def)
  have m: "60 * (q div 60) + q mod 60 = q" by simp
  have b: "0 \<le> q div 60" "q div 60 \<le> 23" using q(2,3) by simp_all
  show "0 \<le> s sdiv 3600" "s sdiv 3600 \<le> 23" unfolding e by (rule b)+
  show "0 \<le> (s sdiv 60) smod 60" "(s sdiv 60) smod 60 \<le> 59" "0 \<le> s smod 60" "s smod 60 \<le> 59"
    unfolding e by simp_all
  show "3600 * (s sdiv 3600) + 60 * ((s sdiv 60) smod 60) + s smod 60 = s"
    unfolding e using m q(1) by linarith
qed

lemma gmtime_adj:
  assumes "valid_tm t" "- 6699 \<le> tm_year t" "tm_year t \<le> 990000"
    and "\<bar>off_day\<bar> \<le> 2000000000" "\<bar>offset_sec\<bar> \<le> 2 ^ 31 - 1"
  shows "\<not> in_range (target t off_day offset_sec) \<Longrightarrow> OPENSSL_gmtime_adj t off_day offset_sec = Some (None, t)"
    and "in_range (target t off_day offset_sec) \<Longrightarrow> \<exists>t'. OPENSSL_gmtime_adj t off_day offset_sec = Some (Some (), t') \<and>
      valid_tm t' \<and> seconds t' = target t off_day offset_sec \<and> 0 \<le> tm_year t' \<and> tm_year t' \<le> 8099"
proof -
  define T where "T = target t off_day offset_sec"
  define jd hms where "jd = T div 86400 + 1721059" and "hms = T mod 86400"
  obtain y m d where y: "julian_to_date jd = (y, m, d)" by (metis prod_cases3)
  have adj: "julian_adj t off_day offset_sec = Some (if jd < 0 then None else Some (jd, hms))"
    using julian_adj_eq [OF assms] by (simp add: T_def jd_def hms_def)
  have h: "0 \<le> hms" "hms < 86400" and T: "T = 86400 * (jd - 1721059) + hms" by (simp_all add: hms_def jd_def)
  define t' where "t' = t\<lparr>tm_year := y - 1900, tm_mon := m - 1, tm_mday := d,
    tm_hour := hms sdiv 3600, tm_min := (hms sdiv 60) smod 60, tm_sec := hms smod 60\<rparr>"
  have eq: "OPENSSL_gmtime_adj t off_day offset_sec =
      Some (if jd < 0 \<or> y < 1900 \<or> y > 9999 then (None, t) else (Some (), t'))"
    by (simp add: OPENSSL_gmtime_adj_def adj y t'_def)
  have range: "in_range T \<longleftrightarrow> \<not> (jd < 0 \<or> y < 1900 \<or> y > 9999)"
    and date: "jd \<ge> 0 \<Longrightarrow> valid_date y m d \<and> day_number y m d = jd - 1721059"
  proof -
    have date: "valid_date y m d \<and> day_number y m d = jd - 1721059" if "jd \<ge> 0"
      using julian_to_date_ok [OF that] by (auto simp: y)
    then show "jd \<ge> 0 \<Longrightarrow> valid_date y m d \<and> day_number y m d = jd - 1721059" .
    show "in_range T \<longleftrightarrow> \<not> (jd < 0 \<or> y < 1900 \<or> y > 9999)"
    proof (cases "jd < 0")
      case True
      then show ?thesis by (simp add: in_range_day year_starts jd_def)
    next
      case False
      then have v: "valid_date y m d" "day_number y m d = T div 86400" using date by (simp_all add: jd_def)
      show ?thesis
        using False year_from_day [OF v(1), of 1900] year_from_day [OF v(1), of 10000]
        unfolding in_range_day v(2) by auto
    qed
  qed
  show "\<not> in_range (target t off_day offset_sec) \<Longrightarrow> OPENSSL_gmtime_adj t off_day offset_sec = Some (None, t)"
    unfolding T_def [symmetric] range eq by simp
  show "\<exists>t'. OPENSSL_gmtime_adj t off_day offset_sec = Some (Some (), t') \<and>
      valid_tm t' \<and> seconds t' = target t off_day offset_sec \<and> 0 \<le> tm_year t' \<and> tm_year t' \<le> 8099"
    if "in_range (target t off_day offset_sec)"
  proof (intro exI conjI)
    have r: "\<not> (jd < 0 \<or> y < 1900 \<or> y > 9999)" using that by (simp add: T_def [symmetric] range)
    then have v: "valid_date y m d" "day_number y m d = jd - 1721059" using date by simp_all
    show "OPENSSL_gmtime_adj t off_day offset_sec = Some (Some (), t')" using r eq by simp
    show "valid_tm t'" using v(1) split_seconds [OF h] by (simp add: valid_tm_def t'_def)
    show "seconds t' = target t off_day offset_sec"
      using v(2) T split_seconds(7) [OF h] unfolding T_def [symmetric] by (simp add: seconds_def t'_def)
    show "0 \<le> tm_year t'" "tm_year t' \<le> 8099" using r by (simp_all add: t'_def)
  qed
qed

text \<open>A time is determined by its seconds.\<close>

lemma month_start_Suc: "1 \<le> m \<Longrightarrow> month_start y (m + 1) = month_start y m + days_in_month y m"
  by (simp add: month_start_def upto_rec2 [of 1 m])

lemma days_in_month_pos: "0 < days_in_month y m"
  by (simp add: days_in_month_def)

lemma month_start_mono:
  assumes "m + 1 \<le> m'" "1 \<le> m"
  shows "month_start y m + days_in_month y m \<le> month_start y m'"
  using assms(1)
proof (induction m' rule: int_ge_induct)
  case base
  show ?case using month_start_Suc [OF assms(2)] by simp
next
  case (step k)
  then show ?case using month_start_Suc [of k y] days_in_month_pos [of y k] assms(2) by simp
qed

lemma day_number_inj:
  assumes "valid_date y m d" "valid_date y' m' d'" "day_number y m d = day_number y' m' d'"
  shows "y = y' \<and> m = m' \<and> d = d'"
proof -
  have "y < y' + 1" "y' < y + 1"
    using year_from_day [OF assms(1), of "y' + 1"] year_from_day [OF assms(2), of "y + 1"]
      day_in_year [OF assms(1)] day_in_year [OF assms(2)] assms(3) by simp_all
  then have y: "y = y'" by simp
  have b: "1 \<le> m" "m \<le> 12" "1 \<le> d" "d \<le> days_in_month y m" "1 \<le> m'" "m' \<le> 12" "1 \<le> d'" "d' \<le> days_in_month y m'"
    using assms(1,2) by (simp_all add: valid_date_def y)
  have e: "month_start y m + d = month_start y m' + d'" using assms(3) by (simp add: day_number_def y)
  consider "m < m'" | "m' < m" | "m = m'" by linarith
  then have "m = m'"
    using month_start_mono [of m m' y] month_start_mono [of m' m y] b e by cases simp_all
  with y e show ?thesis by simp
qed

lemma digits_inj:
  fixes k a b a' b' :: int
  assumes "k * a + b = k * a' + b'" "0 \<le> b" "b < k" "0 \<le> b'" "b' < k"
  shows "a = a' \<and> b = b'"
proof -
  have "(b + k * a) div k = a" "(b' + k * a') div k = a'" using assms(2-5) by simp_all
  moreover have "b + k * a = b' + k * a'" using assms(1) by simp
  ultimately have "a = a'" by metis
  with assms(1) show ?thesis by simp
qed

lemma seconds_inj:
  assumes "valid_tm t" "valid_tm t'" "seconds t = seconds t'"
  shows "t = t'"
proof -
  let ?D = "\<lambda>t. day_number (tm_year t + 1900) (tm_mon t + 1) (tm_mday t)"
  have s: "seconds t = 86400 * ?D t + (3600 * tm_hour t + (60 * tm_min t + tm_sec t))" for t
    by (simp add: seconds_def)
  have h: "0 \<le> tm_hour t \<and> tm_hour t \<le> 23 \<and> 0 \<le> tm_min t \<and> tm_min t \<le> 59 \<and> 0 \<le> tm_sec t \<and> tm_sec t \<le> 59"
    if "valid_tm t" for t using that by (simp add: valid_tm_def)
  note h = h [OF assms(1)] h [OF assms(2)]
  have d: "?D t = ?D t' \<and> 3600 * tm_hour t + (60 * tm_min t + tm_sec t) = 3600 * tm_hour t' + (60 * tm_min t' + tm_sec t')"
    by (rule digits_inj [of 86400]) (use assms(3) h in \<open>simp_all add: s\<close>)
  then have e: "tm_hour t = tm_hour t' \<and> 60 * tm_min t + tm_sec t = 60 * tm_min t' + tm_sec t'"
    by (intro digits_inj [of 3600]) (use h in simp_all)
  then have "tm_min t = tm_min t' \<and> tm_sec t = tm_sec t'"
    by (intro digits_inj [of 60]) (use h in simp_all)
  moreover have "tm_year t + 1900 = tm_year t' + 1900 \<and> tm_mon t + 1 = tm_mon t' + 1 \<and> tm_mday t = tm_mday t'"
    using assms(1,2) d by (intro day_number_inj) (simp_all add: valid_tm_def)
  moreover note e
  ultimately show ?thesis by (simp add: tm.equality)
qed

lemma target_eq: "target t a b = seconds t + (86400 * a + b)"
  by (simp add: target_def)

lemma seconds_bounds:
  assumes "valid_tm t"
  shows "a \<le> tm_year t + 1900 \<longleftrightarrow> 86400 * (year_start a + 1) \<le> seconds t"
    and "tm_year t + 1900 < a \<longleftrightarrow> seconds t < 86400 * (year_start a + 1)"
proof -
  define D where "D = day_number (tm_year t + 1900) (tm_mon t + 1) (tm_mday t)"
  define h where "h = 3600 * tm_hour t + 60 * tm_min t + tm_sec t"
  have "0 \<le> h" "h < 86400" using assms by (simp_all add: h_def valid_tm_def)
  moreover have "seconds t = 86400 * D + h" by (simp add: seconds_def D_def h_def)
  moreover have "tm_year t + 1900 < a \<longleftrightarrow> D \<le> year_start a"
    unfolding D_def using assms by (intro year_from_day) (simp add: valid_tm_def)
  ultimately show "tm_year t + 1900 < a \<longleftrightarrow> seconds t < 86400 * (year_start a + 1)" by auto
  then show "a \<le> tm_year t + 1900 \<longleftrightarrow> 86400 * (year_start a + 1) \<le> seconds t" by auto
qed

lemma in_range_year: "valid_tm t \<Longrightarrow> in_range (seconds t) \<longleftrightarrow> 0 \<le> tm_year t \<and> tm_year t \<le> 8099"
  using seconds_bounds(1) [of t 1900] seconds_bounds(2) [of t 10000] unfolding in_range_def by auto

text \<open>Adding an offset and adding the opposite offset.\<close>

lemma gmtime_adj_back:
  assumes "valid_tm t" "0 \<le> tm_year t" "tm_year t \<le> 8099"
    and "\<bar>off_day\<bar> \<le> 2000000000" "\<bar>offset_sec\<bar> \<le> 2 ^ 31 - 1"
    and "OPENSSL_gmtime_adj t off_day offset_sec = Some (Some (), t')"
  shows "OPENSSL_gmtime_adj t' (- off_day) (- offset_sec) = Some (Some (), t)"
proof -
  have y: "- 6699 \<le> tm_year t" "tm_year t \<le> 990000" using assms(2,3) by simp_all
  have "in_range (target t off_day offset_sec)"
    using gmtime_adj(1) [OF assms(1) y assms(4,5)] assms(6) by auto
  from gmtime_adj(2) [OF assms(1) y assms(4,5) this] assms(6)
  have t': "valid_tm t'" "seconds t' = target t off_day offset_sec" "0 \<le> tm_year t'" "tm_year t' \<le> 8099" by auto
  have b: "- 6699 \<le> tm_year t'" "tm_year t' \<le> 990000" "\<bar>- off_day\<bar> \<le> 2000000000" "\<bar>- offset_sec\<bar> \<le> 2 ^ 31 - 1"
    using t'(3,4) assms(4,5) by simp_all
  have e: "target t' (- off_day) (- offset_sec) = seconds t" by (simp add: target_def t'(2))
  have r: "in_range (target t' (- off_day) (- offset_sec))" unfolding e using in_range_year [OF assms(1)] assms(2,3) by simp
  from gmtime_adj(2) [OF t'(1) b r] obtain t'' where
    "OPENSSL_gmtime_adj t' (- off_day) (- offset_sec) = Some (Some (), t'')" "valid_tm t''" "seconds t'' = seconds t"
    unfolding e by blast
  with seconds_inj [of t'' t] assms(1) show ?thesis by simp
qed

text \<open>The difference of two times of the years 0 to 9999: days and seconds have the same sign.\<close>

lemma gmtime_diff:
  assumes "valid_tm frm" "- 1900 \<le> tm_year frm" "tm_year frm \<le> 8099"
    and "valid_tm to" "- 1900 \<le> tm_year to" "tm_year to \<le> 8099"
  obtains days secs where "OPENSSL_gmtime_diff frm to = Some (Some (days, secs))"
    "86400 * days + secs = seconds to - seconds frm" "\<bar>secs\<bar> < 86400"
    "0 < days \<Longrightarrow> 0 \<le> secs" "days < 0 \<Longrightarrow> secs \<le> 0"
proof -
  define q where "q t = seconds t div 86400" for t
  define r where "r t = seconds t mod 86400" for t
  have adj: "julian_adj t 0 0 = Some (Some (q t + 1721059, r t)) \<and> 0 \<le> q t \<and> q t \<le> 3652425"
    if t: "valid_tm t" "- 1900 \<le> tm_year t" "tm_year t \<le> 8099" for t
  proof -
    have "0 \<le> seconds t" "seconds t < 86400 * 3652426"
      using seconds_bounds(1) [OF t(1), of 0] seconds_bounds(2) [OF t(1), of 10000] t(2,3)
      by (simp_all add: year_start_0 year_starts)
    then have "0 \<le> q t" "q t \<le> 3652425" by (simp_all add: q_def)
    then show ?thesis
      using julian_adj_eq [of t 0 0] t by (simp add: target_def q_def r_def)
  qed
  have s: "seconds t = 86400 * q t + r t" "0 \<le> r t" "r t < 86400" for t by (simp_all add: q_def r_def)
  define a b where "a = q to - q frm" and "b = r to - r frm"
  have qr: "q to = q frm + a" "r to = r frm + b" by (simp_all add: a_def b_def)
  have ab: "86400 * a + b = seconds to - seconds frm" "- 86400 < b" "b < 86400"
    using s [of to] s [of frm] by (simp_all add: a_def b_def)
  have "fits_int a" "fits_int (a - 1)" "fits_int (a + 1)"
    using adj [OF assms(1-3)] adj [OF assms(4-6)] by (simp_all add: a_def fits_int_def)
  then have i: "to_int a = a" "to_int (a - 1) = a - 1" "to_int (a + 1) = a + 1" by (simp_all add: to_int_fits)
  have eq: "OPENSSL_gmtime_diff frm to = Some (Some
      (if 0 < a \<and> b < 0 then (a - 1, b + 86400) else if a < 0 \<and> b > 0 then (a + 1, b - 86400) else (a, b)))"
    using adj [OF assms(1-3)] adj [OF assms(4-6)] i unfolding qr
    by (simp add: OPENSSL_gmtime_diff_def SECS_PER_DAY_def)
  consider (up) "0 < a" "b < 0" | (down) "a < 0" "b > 0" | (same) "\<not> (0 < a \<and> b < 0)" "\<not> (a < 0 \<and> b > 0)" by linarith
  then show ?thesis
  proof cases
    case up
    show ?thesis by (rule that [of "a - 1" "b + 86400"]) (use up eq ab in simp_all)
  next
    case down
    show ?thesis by (rule that [of "a + 1" "b - 86400"]) (use down eq ab in simp_all)
  next
    case same
    show ?thesis by (rule that [of a b]) (use same eq ab in auto)
  qed
qed

text \<open>
  The offset in seconds is a \<open>long\<close>, but its days are multiplied in \<open>int\<close>: from 24856 days on, some 68 years,
  the product overflows, whatever the time.
\<close>

lemma gmtime_adj_overflow:
  assumes "24856 * 86400 \<le> offset_sec" "offset_sec < 2 ^ 31 * 86400"
  shows "OPENSSL_gmtime_adj t off_day offset_sec = None"
proof -
  define od where "od = offset_sec sdiv 86400"
  have "od = offset_sec div 86400" unfolding od_def by (rule sdiv_nonneg) (use assms in simp_all)
  moreover have "24856 * 86400 div 86400 \<le> offset_sec div 86400" by (rule zdiv_mono1) (use assms in simp_all)
  ultimately have od: "24856 \<le> od" "od < 2 ^ 31" using assms(2) by simp_all
  then have "to_int od = od" by (simp add: to_int_fits fits_int_def)
  moreover have "\<not> fits_int (od * 86400)" using od by (simp add: fits_int_def)
  ultimately have "julian_adj t off_day offset_sec = None"
    by (simp add: julian_adj_def SECS_PER_DAY_def od_def [symmetric] Let_def)
  then show ?thesis by (simp add: OPENSSL_gmtime_adj_def)
qed

end
