(* ===== verification/ASN1_Time.thy ===== *)
theory ASN1_Time
  imports ASN1_String Time_Support
begin

text \<open>
  \<open>crypto/asn1/a_utctm.c\<close>, \<open>a_gentm.c\<close> and \<open>a_time.c\<close>: times in the two ASN.1 string types. UTCTime has two
  digits for the year, GeneralizedTime four and an optional fraction of a second. The parsers are shown
  to accept a grammar that is written down independently of them, and what the writers write is read
  back as the same time.
\<close>

section \<open>Definitions\<close>

definition V_ASN1_UTCTIME :: int where "V_ASN1_UTCTIME = 23"
definition V_ASN1_GENERALIZEDTIME :: int where "V_ASN1_GENERALIZEDTIME = 24"

text \<open>
  A parser returns a value or an error: the string is rejected (return value zero), or the code does
  what C leaves undefined: it reads what is not there, or an \<open>int\<close> overflows. The \<open>struct tm\<close> is written
  field by field, on the error paths too; its pointer may be NULL.
\<close>

datatype parse_error = Undefined | Rejected

type_synonym 'a parsed = "(parse_error + 'a) \<times> tm option"

definition and_then :: "'a parsed \<Rightarrow> ('a \<Rightarrow> tm option \<Rightarrow> 'b parsed) \<Rightarrow> 'b parsed" where
  "and_then r k = (case r of (Inl e, tm) \<Rightarrow> (Inl e, tm) | (Inr x, tm) \<Rightarrow> k x tm)"

lemma and_then_simps [simp, code_unfold]:
  "and_then (Inl e, tm) k = (Inl e, tm)"
  "and_then (Inr x, tm) k = k x tm"
  by (simp_all add: and_then_def)

text \<open>\<open>a[o]\<close>\<close>

definition char_at :: "bytes \<Rightarrow> nat \<Rightarrow> parse_error + u8" where
  "char_at a k = (if k < length a then Inr (a ! k) else Inl Undefined)"

definition is_digit :: "u8 \<Rightarrow> bool" where "is_digit c \<longleftrightarrow> 48 \<le> c \<and> c \<le> 57"

definition digit_value :: "u8 \<Rightarrow> int" where "digit_value c = uint c - 48"

text \<open>The test for \<open>Z\<close>, \<open>+\<close> and \<open>-\<close>.\<close>

definition is_zone_start :: "u8 \<Rightarrow> bool" where "is_zone_start c \<longleftrightarrow> c = 90 \<or> c = 43 \<or> c = 45"

text \<open>Two digits of a field of the date or the time: the position is checked against the length.\<close>

definition field_digit :: "bytes \<Rightarrow> int \<Rightarrow> nat \<Rightarrow> parse_error + u8" where
  "field_digit a l k =
     (case char_at a k of
        Inl e \<Rightarrow> Inl e
      | Inr c \<Rightarrow> if \<not> is_digit c then Inl Rejected else if int (k + 1) > l then Inl Rejected else Inr c)"

definition two_digits :: "bytes \<Rightarrow> int \<Rightarrow> nat \<Rightarrow> parse_error + int" where
  "two_digits a l k =
     (case field_digit a l k of
        Inl e \<Rightarrow> Inl e
      | Inr c \<Rightarrow>
          (case field_digit a l (k + 1) of
             Inl e \<Rightarrow> Inl e
           | Inr c' \<Rightarrow> Inr (digit_value c * 10 + digit_value c')))"

text \<open>
  The loop over the fields, for the rest \<open>is\<close> of the indices: \<open>mn\<close> and \<open>mx\<close> are the tables \<open>min\<close> and \<open>max\<close>,
  \<open>secs\<close> is the index of the seconds, and \<open>set_field\<close> is the \<open>switch\<close>. Without seconds the loop ends early.
\<close>

fun time_fields ::
  "int list \<Rightarrow> int list \<Rightarrow> nat \<Rightarrow> (nat \<Rightarrow> int \<Rightarrow> tm \<Rightarrow> tm) \<Rightarrow> bytes \<Rightarrow> int \<Rightarrow> nat list \<Rightarrow> nat \<Rightarrow> tm option \<Rightarrow> nat parsed" where
  "time_fields mn mx secs set_field a l [] k tm = (Inr k, tm)"
| "time_fields mn mx secs set_field a l (i # is) k tm =
     (case char_at a k of
        Inl e \<Rightarrow> (Inl e, tm)
      | Inr c \<Rightarrow>
          if i = secs \<and> is_zone_start c then (Inr k, map_option (\<lambda>t. t\<lparr>tm_sec := 0\<rparr>) tm)
          else
            (case two_digits a l k of
               Inl e \<Rightarrow> (Inl e, tm)
             | Inr n \<Rightarrow>
                 if n < mn ! i \<or> n > mx ! i then (Inl Rejected, tm)
                 else time_fields mn mx secs set_field a l is (k + 2) (map_option (set_field i n) tm)))"

text \<open>A field of the offset from UTC: its position has been checked before.\<close>

definition offset_field :: "int \<Rightarrow> int \<Rightarrow> bytes \<Rightarrow> nat \<Rightarrow> parse_error + int" where
  "offset_field mn mx a k =
     (case char_at a k of
        Inl e \<Rightarrow> Inl e
      | Inr c \<Rightarrow>
          if \<not> is_digit c then Inl Rejected
          else (case char_at a (k + 1) of
             Inl e \<Rightarrow> Inl e
           | Inr c' \<Rightarrow>
               if \<not> is_digit c' then Inl Rejected
               else
                 (let n = digit_value c * 10 + digit_value c'
                  in if n < mn \<or> n > mx then Inl Rejected else Inr n)))"

text \<open>
  The offset after the sign at position \<open>k\<close>, whose hours have the index \<open>i\<close> in the tables. It is subtracted
  from the time if there is one to change.
\<close>

definition time_offset ::
  "int list \<Rightarrow> int list \<Rightarrow> nat \<Rightarrow> bytes \<Rightarrow> int \<Rightarrow> nat \<Rightarrow> tm option \<Rightarrow> nat parsed" where
  "time_offset mn mx i a l k tm =
     (case char_at a k of
        Inl e \<Rightarrow> (Inl e, tm)
      | Inr c \<Rightarrow>
          (let offsign = (if c = 45 then 1 else - 1); k = k + 1
           in if int (k + 4) > l then (Inl Rejected, tm)
              else
                (case offset_field (mn ! i) (mx ! i) a k of
                   Inl e \<Rightarrow> (Inl e, tm)
                 | Inr hours \<Rightarrow>
                     (case offset_field (mn ! (i + 1)) (mx ! (i + 1)) a (k + 2) of
                        Inl e \<Rightarrow> (Inl e, tm)
                      | Inr minutes \<Rightarrow>
                          (case tm of
                             None \<Rightarrow> (Inr (k + 4), None)
                           | Some t \<Rightarrow>
                               (let offset = hours * 3600 + minutes * 60
                                in if offset = 0 then (Inr (k + 4), tm)
                                   else (case OPENSSL_gmtime_adj t 0 (offset * offsign) of
                                      None \<Rightarrow> (Inl Undefined, tm)
                                    | Some (None, t) \<Rightarrow> (Inl Rejected, Some t)
                                    | Some (Some _, t) \<Rightarrow> (Inr (k + 4), Some t))))))))"

definition utctime_min :: "int list" where "utctime_min = [0, 1, 1, 0, 0, 0, 0, 0]"
definition utctime_max :: "int list" where "utctime_max = [99, 12, 31, 23, 59, 59, 12, 59]"

definition utctime_set_field :: "nat \<Rightarrow> int \<Rightarrow> tm \<Rightarrow> tm" where
  "utctime_set_field i n t =
     (if i = 0 then t\<lparr>tm_year := if n < 50 then n + 100 else n\<rparr>
      else if i = 1 then t\<lparr>tm_mon := n - 1\<rparr>
      else if i = 2 then t\<lparr>tm_mday := n\<rparr>
      else if i = 3 then t\<lparr>tm_hour := n\<rparr>
      else if i = 4 then t\<lparr>tm_min := n\<rparr>
      else if i = 5 then t\<lparr>tm_sec := n\<rparr>
      else t)"

text \<open>The data of the string; a NULL is not read without being undefined.\<close>

definition time_data :: "asn1_string \<Rightarrow> bytes" where
  "time_data d = (case str_data d of None \<Rightarrow> [] | Some a \<Rightarrow> a)"

definition at_end :: "int \<Rightarrow> nat \<Rightarrow> tm option \<Rightarrow> unit parsed" where
  "at_end l k tm = (if int k = l then Inr () else Inl Rejected, tm)"

definition asn1_utctime_to_tm :: "tm option \<Rightarrow> asn1_string \<Rightarrow> unit parsed" where
  "asn1_utctime_to_tm tm d =
     (let l = str_length d; a = time_data d
      in if str_type d \<noteq> V_ASN1_UTCTIME then (Inl Rejected, tm)
         else if l < 11 then (Inl Rejected, tm)
         else
           and_then (time_fields utctime_min utctime_max 5 utctime_set_field a l [0..<6] 0 tm) (\<lambda>k tm.
           (case char_at a k of
              Inl e \<Rightarrow> (Inl e, tm)
            | Inr c \<Rightarrow>
                if c = 90 then at_end l (k + 1) tm
                else if c = 43 \<or> c = 45 then
                  and_then (time_offset utctime_min utctime_max 6 a l k tm) (\<lambda>k tm. at_end l k tm)
                else at_end l k tm)))"

definition ASN1_UTCTIME_check :: "asn1_string \<Rightarrow> parse_error + unit" where
  "ASN1_UTCTIME_check d = fst (asn1_utctime_to_tm None d)"

definition generalizedtime_min :: "int list" where "generalizedtime_min = [0, 0, 1, 1, 0, 0, 0, 0, 0]"
definition generalizedtime_max :: "int list" where "generalizedtime_max = [99, 99, 12, 31, 23, 59, 59, 12, 59]"

definition generalizedtime_set_field :: "nat \<Rightarrow> int \<Rightarrow> tm \<Rightarrow> tm" where
  "generalizedtime_set_field i n t =
     (if i = 0 then t\<lparr>tm_year := n * 100 - 1900\<rparr>
      else if i = 1 then t\<lparr>tm_year := tm_year t + n\<rparr>
      else if i = 2 then t\<lparr>tm_mon := n - 1\<rparr>
      else if i = 3 then t\<lparr>tm_mday := n\<rparr>
      else if i = 4 then t\<lparr>tm_hour := n\<rparr>
      else if i = 5 then t\<lparr>tm_min := n\<rparr>
      else if i = 6 then t\<lparr>tm_sec := n\<rparr>
      else t)"

text \<open>The digits of a fraction: the loop reads a character before it checks the position.\<close>

fun skip_digits :: "bytes \<Rightarrow> int \<Rightarrow> nat \<Rightarrow> parse_error + nat" where
  "skip_digits [] l k = Inl Undefined"
| "skip_digits (c # cs) l k = (if is_digit c \<and> int k \<le> l then skip_digits cs l (k + 1) else Inr k)"

definition skip_fraction :: "bytes \<Rightarrow> int \<Rightarrow> nat \<Rightarrow> parse_error + nat" where
  "skip_fraction a l k =
     (case char_at a k of
        Inl e \<Rightarrow> Inl e
      | Inr c \<Rightarrow>
          if c \<noteq> 46 then Inr k
          else if int (k + 1) > l then Inl Rejected
          else (case skip_digits (drop (k + 1) a) l (k + 1) of
             Inl e \<Rightarrow> Inl e
           | Inr k' \<Rightarrow> if k' = k + 1 then Inl Rejected else Inr k'))"

definition asn1_generalizedtime_to_tm :: "tm option \<Rightarrow> asn1_string \<Rightarrow> unit parsed" where
  "asn1_generalizedtime_to_tm tm d =
     (let l = str_length d; a = time_data d
      in if str_type d \<noteq> V_ASN1_GENERALIZEDTIME then (Inl Rejected, tm)
         else if l < 13 then (Inl Rejected, tm)
         else
           and_then (time_fields generalizedtime_min generalizedtime_max 6 generalizedtime_set_field a l [0..<7] 0 tm)
             (\<lambda>k tm.
           and_then (skip_fraction a l k, tm) (\<lambda>k tm.
           (case char_at a k of
              Inl e \<Rightarrow> (Inl e, tm)
            | Inr c \<Rightarrow>
                if c = 90 then at_end l (k + 1) tm
                else if c = 43 \<or> c = 45 then
                  and_then (time_offset generalizedtime_min generalizedtime_max 7 a l k tm) (\<lambda>k tm. at_end l k tm)
                else if c \<noteq> 0 then (Inl Rejected, tm)
                else at_end l k tm))))"

definition ASN1_GENERALIZEDTIME_check :: "asn1_string \<Rightarrow> parse_error + unit" where
  "ASN1_GENERALIZEDTIME_check d = fst (asn1_generalizedtime_to_tm None d)"

definition ASN1_TIME_check :: "asn1_string \<Rightarrow> parse_error + unit" where
  "ASN1_TIME_check t =
     (if str_type t = V_ASN1_GENERALIZEDTIME then ASN1_GENERALIZEDTIME_check t
      else if str_type t = V_ASN1_UTCTIME then ASN1_UTCTIME_check t
      else Inl Rejected)"

definition asn1_time_to_tm :: "(int \<Rightarrow> tm option) \<Rightarrow> int \<Rightarrow> tm \<Rightarrow> asn1_string option \<Rightarrow> unit parsed" where
  "asn1_time_to_tm gmtime_r now tm t =
     (case t of
        None \<Rightarrow> (case OPENSSL_gmtime gmtime_r now of Some tm' \<Rightarrow> (Inr (), Some tm') | None \<Rightarrow> (Inl Rejected, Some tm))
      | Some t \<Rightarrow>
          if str_type t = V_ASN1_UTCTIME then asn1_utctime_to_tm (Some tm) t
          else if str_type t = V_ASN1_GENERALIZEDTIME then asn1_generalizedtime_to_tm (Some tm) t
          else (Inl Rejected, Some tm))"

section \<open>The parsers accept a grammar\<close>

text \<open>Two digits, and what can follow the time: nothing, the letter Z or an offset of hours and minutes.\<close>

definition d2 :: "int \<Rightarrow> bytes" where
  "d2 n = [of_int (48 + n div 10), of_int (48 + n mod 10)]"

datatype zone = Nowhere | Zulu | Ahead int int | Behind int int

fun zone_text :: "zone \<Rightarrow> bytes" where
  "zone_text Nowhere = []"
| "zone_text Zulu = [90]"
| "zone_text (Ahead h m) = 43 # d2 h @ d2 m"
| "zone_text (Behind h m) = 45 # d2 h @ d2 m"

fun zone_ok :: "zone \<Rightarrow> bool" where
  "zone_ok Nowhere \<longleftrightarrow> True"
| "zone_ok Zulu \<longleftrightarrow> True"
| "zone_ok (Ahead h m) \<longleftrightarrow> 0 \<le> h \<and> h \<le> 12 \<and> 0 \<le> m \<and> m \<le> 59"
| "zone_ok (Behind h m) \<longleftrightarrow> 0 \<le> h \<and> h \<le> 12 \<and> 0 \<le> m \<and> m \<le> 59"

fun zone_secs :: "zone \<Rightarrow> int" where
  "zone_secs Nowhere = 0"
| "zone_secs Zulu = 0"
| "zone_secs (Ahead h m) = 3600 * h + 60 * m"
| "zone_secs (Behind h m) = - (3600 * h + 60 * m)"

lemma length_d2 [simp]: "length (d2 n) = 2"
  by (simp add: d2_def)

definition d2_ok :: "int \<Rightarrow> bool" where
  "d2_ok n \<longleftrightarrow> list_all is_digit (d2 n) \<and> digit_value (d2 n ! 0) * 10 + digit_value (d2 n ! 1) = n"

lemma d2_all: "list_all d2_ok [0..99]"
  by code_simp

lemma d2_digits:
  assumes "0 \<le> n" "n \<le> 99"
  obtains c c' where "d2 n = [c, c']" "is_digit c" "is_digit c'" "digit_value c * 10 + digit_value c' = n"
proof -
  have "d2_ok n" using d2_all assms by (simp add: list_all_iff)
  then show ?thesis using that [of "d2 n ! 0" "d2 n ! 1"] by (simp add: d2_ok_def d2_def)
qed

lemma digits_d2:
  assumes "is_digit c" "is_digit c'"
  shows "[c, c'] = d2 (digit_value c * 10 + digit_value c')" "0 \<le> digit_value c * 10 + digit_value c'"
    "digit_value c * 10 + digit_value c' \<le> 99"
proof -
  define x y where "x = digit_value c" and "y = digit_value c'"
  have b: "0 \<le> x" "x \<le> 9" "0 \<le> y" "y \<le> 9"
    using assms by (simp_all add: x_def y_def digit_value_def is_digit_def word_le_def)
  have e: "c = of_int (48 + x)" "c' = of_int (48 + y)" by (simp_all add: x_def y_def digit_value_def)
  have "(x * 10 + y) div 10 = x" "(x * 10 + y) mod 10 = y" using b by simp_all
  then show "[c, c'] = d2 (x * 10 + y)" unfolding e d2_def by simp
  show "0 \<le> x * 10 + y" "x * 10 + y \<le> 99" using b by simp_all
qed

lemma not_digits [simp]: "\<not> is_digit 0" "\<not> is_digit 46" "\<not> is_digit 90" "\<not> is_digit 43" "\<not> is_digit 45"
  by (simp_all add: is_digit_def)

lemma digit_no_zone: "is_digit c \<Longrightarrow> \<not> is_zone_start c"
  by (auto simp: is_zone_start_def)

text \<open>Reading a terminated text: the character at a position is the first one of the rest of the text.\<close>

lemma char_at_drop:
  assumes "drop k b = s" "k \<le> length b"
  shows "char_at (b @ 0 # rest) k = Inr (case s of [] \<Rightarrow> 0 | c # _ \<Rightarrow> c)"
proof (cases "k < length b")
  case True
  then have "s = b ! k # drop (Suc k) b" using assms(1) by (metis Cons_nth_drop_Suc)
  with True show ?thesis by (simp add: char_at_def nth_append)
qed (use assms in \<open>simp add: char_at_def nth_append\<close>)

lemma drop_step:
  assumes "drop k b = p @ s" "k \<le> length b"
  shows "drop (k + length p) b = s" "k + length p \<le> length b"
proof -
  have "drop (length p) (drop k b) = s" by (simp add: assms(1))
  then show "drop (k + length p) b = s" by (simp add: add.commute)
  have "length (drop k b) = length p + length s" by (simp add: assms(1))
  with assms(2) show "k + length p \<le> length b" by simp
qed

lemma two_digits_eq:
  assumes "drop k b = s" "k \<le> length b"
  shows "two_digits (b @ 0 # rest) (int (length b)) k =
    (case s of c # c' # _ \<Rightarrow> if is_digit c \<and> is_digit c' then Inr (digit_value c * 10 + digit_value c') else Inl Rejected
     | _ \<Rightarrow> Inl Rejected)"
proof -
  have f: "field_digit (b @ 0 # rest) (int (length b)) j =
      (case t of [] \<Rightarrow> Inl Rejected | c # _ \<Rightarrow> if is_digit c then Inr c else Inl Rejected)"
    if t: "drop j b = t" "j \<le> length b" for j t
  proof -
    have "\<not> int (j + 1) > int (length b)" if "t \<noteq> []" using t that by auto
    then show ?thesis using char_at_drop [OF t] by (cases t) (simp_all add: field_digit_def)
  qed
  show ?thesis
  proof (cases s)
    case Nil
    with f [OF assms] show ?thesis by (simp add: two_digits_def)
  next
    case (Cons c s')
    have "drop (k + 1) b = s'" "k + 1 \<le> length b"
      using drop_step [of k b "[c]" s'] assms Cons by simp_all
    from f [OF this] f [OF assms] Cons show ?thesis
      by (simp add: two_digits_def split: list.split)
  qed
qed

lemma two_digits_d2:
  assumes "drop k b = d2 n @ s" "k \<le> length b" "0 \<le> n" "n \<le> 99"
  shows "two_digits (b @ 0 # rest) (int (length b)) k = Inr n"
proof -
  obtain c c' where "d2 n = [c, c']" "is_digit c" "is_digit c'" "digit_value c * 10 + digit_value c' = n"
    using d2_digits [OF assms(3,4)] .
  with two_digits_eq [OF assms(1,2)] show ?thesis by simp
qed

lemma two_digits_inv:
  assumes "two_digits (b @ 0 # rest) (int (length b)) k = Inr n" "k \<le> length b"
  obtains s where "drop k b = d2 n @ s" "0 \<le> n" "n \<le> 99"
proof -
  obtain c c' s where s: "drop k b = c # c' # s" "is_digit c" "is_digit c'" "n = digit_value c * 10 + digit_value c'"
    using assms(1) unfolding two_digits_eq [OF refl assms(2)] by (auto split: list.splits if_splits)
  show ?thesis by (rule that [of s]) (use s digits_d2 [OF s(2,3)] in simp_all)
qed

lemma two_digits_defined: "k \<le> length b \<Longrightarrow> two_digits (b @ 0 # rest) (int (length b)) k \<noteq> Inl Undefined"
  by (simp add: two_digits_eq [OF refl] split: list.split)

text \<open>The fields that are read, for their indices.\<close>

definition field_ok :: "int list \<Rightarrow> int list \<Rightarrow> nat \<Rightarrow> int \<Rightarrow> bool" where
  "field_ok mn mx i n \<longleftrightarrow> 0 \<le> n \<and> n \<le> 99 \<and> mn ! i \<le> n \<and> n \<le> mx ! i"

definition set_fields :: "(nat \<Rightarrow> int \<Rightarrow> tm \<Rightarrow> tm) \<Rightarrow> nat list \<Rightarrow> int list \<Rightarrow> tm \<Rightarrow> tm" where
  "set_fields set_field is ns t = foldl (\<lambda>t (i, n). set_field i n t) t (zip is ns)"

lemma time_fields_read:
  assumes "list_all2 (field_ok mn mx) is ns" "drop k b = concat (map d2 ns) @ s" "k \<le> length b"
  shows "time_fields mn mx secs f (b @ 0 # rest) (int (length b)) (is @ js) k tm =
    time_fields mn mx secs f (b @ 0 # rest) (int (length b)) js (k + 2 * length ns)
      (map_option (set_fields f is ns) tm)"
  using assms
proof (induction arbitrary: k tm rule: list_all2_induct)
  case Nil
  then show ?case by (simp add: set_fields_def option.map_ident)
next
  case (Cons i "is" n ns)
  have n: "0 \<le> n" "n \<le> 99" "\<not> (n < mn ! i \<or> n > mx ! i)" using Cons.hyps by (simp_all add: field_ok_def)
  have d: "drop k b = d2 n @ concat (map d2 ns) @ s" using Cons.prems by simp
  obtain c c' where c: "d2 n = [c, c']" "is_digit c" using d2_digits [OF n(1,2)] by metis
  have "drop (k + 2) b = concat (map d2 ns) @ s" "k + 2 \<le> length b"
    using drop_step [OF d Cons.prems(2)] by simp_all
  note IH = Cons.IH [OF this]
  have "time_fields mn mx secs f (b @ 0 # rest) (int (length b)) ((i # is) @ js) k tm =
      time_fields mn mx secs f (b @ 0 # rest) (int (length b)) (is @ js) (k + 2) (map_option (f i n) tm)"
    using char_at_drop [OF d Cons.prems(2), of rest] two_digits_d2 [OF d Cons.prems(2) n(1,2), of rest] n(3) c
      digit_no_zone [OF c(2)] by simp
  then show ?case unfolding IH by (simp add: set_fields_def option.map_comp comp_def)
qed

lemma time_fields_inv:
  assumes "time_fields mn mx secs f (b @ 0 # rest) (int (length b)) is k None = (Inr k', tm)" "k \<le> length b"
  obtains js ks ns s where "is = js @ ks" "list_all2 (field_ok mn mx) js ns" "drop k b = concat (map d2 ns) @ s"
    "k' = k + 2 * length ns" "tm = None" "ks = [] \<or> hd ks = secs \<and> s \<noteq> [] \<and> is_zone_start (hd s)"
  using assms
proof (induction "is" arbitrary: k thesis)
  case Nil
  show ?case by (rule Nil.prems(1) [of "[]" "[]" "[]" "drop k b"]) (use Nil.prems(2) in simp_all)
next
  case (Cons i "is")
  obtain c where c: "char_at (b @ 0 # rest) k = Inr c" "c = (case drop k b of [] \<Rightarrow> 0 | c # _ \<Rightarrow> c)"
    using char_at_drop [OF refl Cons.prems(3)] by simp
  show ?case
  proof (cases "i = secs \<and> is_zone_start c")
    case True
    then have "drop k b \<noteq> []" "hd (drop k b) = c" using c(2) by (auto simp: is_zone_start_def split: list.splits)
    with True Cons.prems(2) c(1) have "k' = k" "tm = None" "drop k b \<noteq> []" "is_zone_start (hd (drop k b))" by simp_all
    with True show ?thesis by (intro Cons.prems(1) [of "[]" "i # is" "[]" "drop k b"]) simp_all
  next
    case False
    with Cons.prems(2) c(1) obtain n where n: "two_digits (b @ 0 # rest) (int (length b)) k = Inr n"
      "\<not> (n < mn ! i \<or> n > mx ! i)"
      "time_fields mn mx secs f (b @ 0 # rest) (int (length b)) is (k + 2) None = (Inr k', tm)"
      by (auto split: sum.splits if_splits)
    obtain s where s: "drop k b = d2 n @ s" "0 \<le> n" "n \<le> 99" by (rule two_digits_inv [OF n(1) Cons.prems(3)])
    have d: "drop (k + 2) b = s" "k + 2 \<le> length b" using drop_step [OF s(1) Cons.prems(3)] by simp_all
    show ?thesis
    proof (rule Cons.IH [OF _ n(3) d(2)])
      fix js ks ns s'
      assume r: "is = js @ ks" "list_all2 (field_ok mn mx) js ns" "drop (k + 2) b = concat (map d2 ns) @ s'"
        "k' = k + 2 + 2 * length ns" "tm = None" "ks = [] \<or> hd ks = secs \<and> s' \<noteq> [] \<and> is_zone_start (hd s')"
      have "field_ok mn mx i n" using s n(2) by (simp add: field_ok_def)
      then show ?thesis
        by (intro Cons.prems(1) [of "i # js" ks "n # ns" s']) (use r s d in simp_all)
    qed
  qed
qed

lemma time_fields_defined:
  "k \<le> length b \<Longrightarrow> fst (time_fields mn mx secs f (b @ 0 # rest) (int (length b)) is k None) \<noteq> Inl Undefined"
proof (induction "is" arbitrary: k)
  case (Cons i "is")
  obtain c where c: "char_at (b @ 0 # rest) k = Inr c" using char_at_drop [OF refl Cons.prems] by simp
  show ?case
  proof (cases "two_digits (b @ 0 # rest) (int (length b)) k")
    case (Inl e)
    then show ?thesis using c two_digits_defined [OF Cons.prems, of rest] by (auto split: if_splits)
  next
    case (Inr n)
    obtain s where s: "drop k b = d2 n @ s" by (rule two_digits_inv [OF Inr Cons.prems])
    have "k + 2 \<le> length b" using drop_step [OF s Cons.prems] by simp
    with Cons.IH [of "k + 2"] Inr c show ?thesis by simp
  qed
qed simp

text \<open>What follows the fields.\<close>

lemma offset_field_eq:
  assumes "k \<le> length b"
  shows "offset_field mn mx (b @ 0 # rest) k =
    (case two_digits (b @ 0 # rest) (int (length b)) k of
       Inl e \<Rightarrow> Inl e | Inr n \<Rightarrow> if n < mn \<or> n > mx then Inl Rejected else Inr n)"
proof (cases "drop k b")
  case Nil
  then show ?thesis using char_at_drop [OF Nil assms] by (simp add: offset_field_def two_digits_eq [OF Nil assms])
next
  case (Cons c s)
  have "drop (k + 1) b = s" "k + 1 \<le> length b" using drop_step [of k b "[c]" s] Cons assms by simp_all
  from char_at_drop [OF this] char_at_drop [OF Cons assms] show ?thesis
    by (cases s) (simp_all add: offset_field_def two_digits_eq [OF Cons assms] Let_def)
qed

definition subtract_zone :: "zone \<Rightarrow> tm option \<Rightarrow> unit parsed" where
  "subtract_zone z tm =
     (case tm of
        None \<Rightarrow> (Inr (), None)
      | Some t \<Rightarrow>
          if zone_secs z = 0 then (Inr (), tm)
          else (case OPENSSL_gmtime_adj t 0 (- zone_secs z) of
             None \<Rightarrow> (Inl Undefined, tm)
           | Some (None, t) \<Rightarrow> (Inl Rejected, Some t)
           | Some (Some _, t) \<Rightarrow> (Inr (), Some t)))"

text \<open>The tables agree on the hours and minutes of the offset, at \<open>i\<close>.\<close>

definition offset_tables :: "int list \<Rightarrow> int list \<Rightarrow> nat \<Rightarrow> bool" where
  "offset_tables mn mx i \<longleftrightarrow> mn ! i = 0 \<and> mx ! i = 12 \<and> mn ! (i + 1) = 0 \<and> mx ! (i + 1) = 59"

lemma time_offset_read:
  assumes t: "offset_tables mn mx i" and z: "z = Ahead h m \<or> z = Behind h m" "zone_ok z"
    and d: "drop k b = zone_text z @ s" "k \<le> length b"
  shows "time_offset mn mx i (b @ 0 # rest) (int (length b)) k tm =
    and_then (subtract_zone z tm) (\<lambda>_ tm. (Inr (k + 5), tm))"
proof -
  define c :: u8 where "c = (if z = Ahead h m then 43 else 45)"
  have zt: "zone_text z = [c] @ d2 h @ d2 m" and c: "c = 45 \<longleftrightarrow> z = Behind h m" using z(1) by (auto simp: c_def)
  have hm: "0 \<le> h" "h \<le> 12" "0 \<le> m" "m \<le> 59" using z by auto
  have d0: "drop k b = c # d2 h @ d2 m @ s" using d(1) zt by simp
  have d1: "drop (k + 1) b = d2 h @ d2 m @ s" "k + 1 \<le> length b" using drop_step [of k b "[c]"] d zt by simp_all
  have d2: "drop (k + 3) b = d2 m @ s" "k + 3 \<le> length b"
    using drop_step [OF d1] by (simp_all add: numeral_3_eq_3)
  have d3: "k + 5 \<le> length b" using drop_step [OF d2] by simp
  have h: "offset_field 0 12 (b @ 0 # rest) (Suc k) = Inr h"
    using offset_field_eq [OF d1(2)] two_digits_d2 [OF d1] hm by simp
  have m: "offset_field 0 59 (b @ 0 # rest) (k + 3) = Inr m"
    using offset_field_eq [OF d2(2)] two_digits_d2 [OF d2] hm by simp
  have e: "(h * 3600 + m * 60) * (if c = 45 then 1 else - 1) = - zone_secs z"
    "h * 3600 + m * 60 = 0 \<longleftrightarrow> zone_secs z = 0"
    using z(1) c by (auto simp: algebra_simps)
  have k: "Suc (Suc (Suc k)) = k + 3" "Suc (k + 4) = k + 5" "k + 1 + 2 = k + 3" "k + 1 + 4 = k + 5" "k + 1 = Suc k" by simp_all
  have Suc5: "Suc k + 4 = k + 5" by simp
  have "time_offset mn mx i (b @ 0 # rest) (int (length b)) k tm =
      (case tm of None \<Rightarrow> (Inr (k + 5), None)
       | Some t \<Rightarrow> if h * 3600 + m * 60 = 0 then (Inr (k + 5), tm)
           else (case OPENSSL_gmtime_adj t 0 ((h * 3600 + m * 60) * (if c = 45 then 1 else - 1)) of
             None \<Rightarrow> (Inl Undefined, tm) | Some (None, t) \<Rightarrow> (Inl Rejected, Some t)
           | Some (Some _, t) \<Rightarrow> (Inr (k + 5), Some t)))"
    using t d3 char_at_drop [OF d0 d(2), of rest] h m
    unfolding time_offset_def offset_tables_def Let_def by (simp add: k Suc5 split: option.split prod.split)
  then show ?thesis unfolding e
    by (simp add: subtract_zone_def split: option.split prod.split)
qed

lemma time_offset_inv:
  assumes t: "offset_tables mn mx i" and k: "drop k b = c # s" "k \<le> length b" "c = 43 \<or> c = 45"
    and r: "time_offset mn mx i (b @ 0 # rest) (int (length b)) k None = (Inr k', tm)"
  obtains z s' where "zone_ok z" "drop k b = zone_text z @ s'" "z \<noteq> Nowhere" "k' = k + length (zone_text z)" "tm = None"
proof -
  have d1: "drop (k + 1) b = s" "k + 1 \<le> length b" using drop_step [of k b "[c]"] k by simp_all
  obtain h where h: "offset_field 0 12 (b @ 0 # rest) (k + 1) = Inr h"
    using r t char_at_drop [OF k(1,2), of rest]
    by (auto simp: time_offset_def offset_tables_def Let_def split: sum.splits if_splits)
  from offset_field_eq [OF d1(2)] h have h': "two_digits (b @ 0 # rest) (int (length b)) (k + 1) = Inr h" "0 \<le> h" "h \<le> 12"
    by (auto split: sum.splits if_splits)
  obtain u where u: "drop (k + 1) b = d2 h @ u" by (rule two_digits_inv [OF h'(1) d1(2)])
  have d2: "drop (k + 3) b = u" "k + 3 \<le> length b"
    using drop_step [OF u d1(2)] by (simp_all add: numeral_3_eq_3)
  obtain m where m: "offset_field 0 59 (b @ 0 # rest) (k + 3) = Inr m" "k' = k + 5" "tm = None"
    using r t char_at_drop [OF k(1,2), of rest] h
    by (auto simp: time_offset_def offset_tables_def Let_def numeral_3_eq_3 split: sum.splits if_splits)
  from offset_field_eq [OF d2(2)] m(1) have m': "two_digits (b @ 0 # rest) (int (length b)) (k + 3) = Inr m" "0 \<le> m" "m \<le> 59"
    by (auto split: sum.splits if_splits)
  obtain v where v: "drop (k + 3) b = d2 m @ v" by (rule two_digits_inv [OF m'(1) d2(2)])
  have b: "drop k b = c # d2 h @ d2 m @ v" using k(1) u v d1(1) d2(1) by simp
  show ?thesis
  proof (cases "c = 43")
    case True
    then show ?thesis by (intro that [of "Ahead h m" v]) (use b h' m' m in simp_all)
  next
    case False
    then show ?thesis by (intro that [of "Behind h m" v]) (use b h' m' m k(3) in simp_all)
  qed
qed

lemma time_offset_defined:
  assumes "offset_tables mn mx i" "k < length b"
  shows "fst (time_offset mn mx i (b @ 0 # rest) (int (length b)) k None) \<noteq> Inl Undefined"
proof -
  have n: "offset_field lo hi (b @ 0 # rest) j \<noteq> Inl Undefined" if "j \<le> length b" for lo hi j
    using two_digits_defined [OF that, of rest] by (auto simp: offset_field_eq [OF that] split: sum.split)
  obtain c where "char_at (b @ 0 # rest) k = Inr c" using char_at_drop [OF refl, of k b rest] assms(2) by simp
  then show ?thesis
    using n [of "k + 1"] n [of "k + 3"] assms(2)
    by (auto simp: time_offset_def Let_def numeral_3_eq_3 split: sum.split)
qed

text \<open>The end of a string; in a GeneralizedTime, \<open>strict\<close>, no other character may be there.\<close>

definition zone_part :: "bool \<Rightarrow> int list \<Rightarrow> int list \<Rightarrow> nat \<Rightarrow> bytes \<Rightarrow> int \<Rightarrow> nat \<Rightarrow> tm option \<Rightarrow> unit parsed" where
  "zone_part strict mn mx i a l k tm =
     (case char_at a k of
        Inl e \<Rightarrow> (Inl e, tm)
      | Inr c \<Rightarrow>
          if c = 90 then at_end l (k + 1) tm
          else if c = 43 \<or> c = 45 then and_then (time_offset mn mx i a l k tm) (\<lambda>k tm. at_end l k tm)
          else if strict \<and> c \<noteq> 0 then (Inl Rejected, tm)
          else at_end l k tm)"

lemma zone_text_start: "z \<noteq> Nowhere \<Longrightarrow> zone_text z \<noteq> [] \<and> is_zone_start (hd (zone_text z))"
  by (cases z) (auto simp: is_zone_start_def)

lemma zone_part_read:
  assumes t: "offset_tables mn mx i" and z: "zone_ok z" and d: "drop k b = zone_text z" "k \<le> length b"
  shows "zone_part strict mn mx i (b @ 0 # rest) (int (length b)) k tm = subtract_zone z tm"
proof -
  have l: "length b = k + length (zone_text z)"
    using drop_step [of k b "zone_text z" "[]"] d by simp
  note c = char_at_drop [OF d]
  show ?thesis
  proof (cases z)
    case (Ahead h m)
    then have "zone_part strict mn mx i (b @ 0 # rest) (int (length b)) k tm =
        and_then (and_then (subtract_zone z tm) (\<lambda>_ tm. (Inr (k + 5), tm))) (\<lambda>k tm. at_end (int (length b)) k tm)"
      using c time_offset_read [OF t, of z h m k b "[]" rest tm] d z by (simp add: zone_part_def)
    also have "\<dots> = subtract_zone z tm"
      using l Ahead by (cases "subtract_zone z tm"; cases "fst (subtract_zone z tm)") (simp_all add: at_end_def)
    finally show ?thesis .
  next
    case (Behind h m)
    then have "zone_part strict mn mx i (b @ 0 # rest) (int (length b)) k tm =
        and_then (and_then (subtract_zone z tm) (\<lambda>_ tm. (Inr (k + 5), tm))) (\<lambda>k tm. at_end (int (length b)) k tm)"
      using c time_offset_read [OF t, of z h m k b "[]" rest tm] d z by (simp add: zone_part_def)
    also have "\<dots> = subtract_zone z tm"
      using l Behind by (cases "subtract_zone z tm"; cases "fst (subtract_zone z tm)") (simp_all add: at_end_def)
    finally show ?thesis .
  qed (use c l in \<open>auto simp: zone_part_def subtract_zone_def at_end_def split: option.split\<close>)
qed

lemma zone_part_inv:
  assumes t: "offset_tables mn mx i" and k: "k \<le> length b"
    and r: "fst (zone_part strict mn mx i (b @ 0 # rest) (int (length b)) k None) = Inr ()"
  obtains z where "zone_ok z" "drop k b = zone_text z"
proof -
  note c = char_at_drop [OF refl k, of rest]
  have nil: "drop (length b) b = []" by simp
  consider (over) "drop k b = []" | (zulu) s where "drop k b = 90 # s"
    | (offset) c s where "drop k b = c # s" "c = 43 \<or> c = 45"
    | (other) c s where "drop k b = c # s" "c \<noteq> 90" "c \<noteq> 43" "c \<noteq> 45"
    by (cases "drop k b") auto
  then show ?thesis
  proof cases
    case over
    then show ?thesis by (intro that [of Nowhere]) simp_all
  next
    case zulu
    have "drop (k + 1) b = s" using drop_step [of k b "[90]" s] zulu k by simp
    moreover have "k + 1 = length b" using c zulu r by (auto simp: zone_part_def at_end_def split: if_splits)
    ultimately have "s = []" by simp
    with zulu show ?thesis by (intro that [of Zulu]) simp_all
  next
    case offset
    obtain k' tm where o: "time_offset mn mx i (b @ 0 # rest) (int (length b)) k None = (Inr k', tm)" "k' = length b"
    proof (cases "time_offset mn mx i (b @ 0 # rest) (int (length b)) k None")
      case (Pair x tm)
      show ?thesis
      proof (cases x)
        case (Inl e)
        then show ?thesis using c offset r Pair by (auto simp: zone_part_def)
      next
        case (Inr k')
        then have "k' = length b" using c offset r Pair by (auto simp: zone_part_def at_end_def split: if_splits)
        with Pair Inr that show ?thesis by simp
      qed
    qed
    obtain z s' where z: "zone_ok z" "drop k b = zone_text z @ s'" "k' = k + length (zone_text z)"
      by (rule time_offset_inv [OF t offset(1) k offset(2) o(1)])
    have "drop (k + length (zone_text z)) b = s'" using drop_step(1) [OF z(2) k] .
    then have "s' = []" using z(3) o(2) nil by simp
    with z show ?thesis by (intro that [of z]) simp_all
  next
    case other
    then have "k = length b" using c r by (auto simp: zone_part_def at_end_def split: if_splits)
    with other show ?thesis by simp
  qed
qed

lemma zone_part_defined:
  assumes "offset_tables mn mx i" "k \<le> length b"
  shows "fst (zone_part strict mn mx i (b @ 0 # rest) (int (length b)) k None) \<noteq> Inl Undefined"
proof (cases "k < length b")
  case True
  obtain x tm where x: "time_offset mn mx i (b @ 0 # rest) (int (length b)) k None = (x, tm)" by (rule prod.exhaust)
  with time_offset_defined [OF assms(1) True, of rest] have "x \<noteq> Inl Undefined" by simp
  with x char_at_drop [OF refl assms(2), of rest] show ?thesis
    by (cases x) (auto simp: zone_part_def at_end_def)
next
  case False
  then show ?thesis using char_at_drop [OF refl assms(2), of rest] assms(2) by (simp add: zone_part_def at_end_def)
qed

subsection \<open>UTCTime\<close>

text \<open>Month, day, hour, minute, the seconds if they are there, and the zone.\<close>

definition fields_text :: "int list \<Rightarrow> int option \<Rightarrow> bytes" where
  "fields_text ns s = concat (map d2 ns) @ (case s of None \<Rightarrow> [] | Some s \<Rightarrow> d2 s)"

definition clock_ok :: "int \<Rightarrow> int \<Rightarrow> int \<Rightarrow> int \<Rightarrow> int option \<Rightarrow> zone \<Rightarrow> bool" where
  "clock_ok mo d h mi s z \<longleftrightarrow>
     1 \<le> mo \<and> mo \<le> 12 \<and> 1 \<le> d \<and> d \<le> 31 \<and> 0 \<le> h \<and> h \<le> 23 \<and> 0 \<le> mi \<and> mi \<le> 59 \<and> zone_ok z \<and>
     (case s of None \<Rightarrow> z \<noteq> Nowhere | Some s \<Rightarrow> 0 \<le> s \<and> s \<le> 59)"

definition utctime_text :: "int \<Rightarrow> int \<Rightarrow> int \<Rightarrow> int \<Rightarrow> int \<Rightarrow> int option \<Rightarrow> zone \<Rightarrow> bytes" where
  "utctime_text y mo d h mi s z = fields_text [y, mo, d, h, mi] s @ zone_text z"

definition utctime_format :: "bytes \<Rightarrow> bool" where
  "utctime_format b \<longleftrightarrow> (\<exists>y mo d h mi s z. 0 \<le> y \<and> y \<le> 99 \<and> clock_ok mo d h mi s z \<and> b = utctime_text y mo d h mi s z)"

definition set_tm :: "int \<Rightarrow> int \<Rightarrow> int \<Rightarrow> int \<Rightarrow> int \<Rightarrow> int option \<Rightarrow> tm \<Rightarrow> tm" where
  "set_tm y mo d h mi s t =
     t\<lparr>tm_year := y, tm_mon := mo - 1, tm_mday := d, tm_hour := h, tm_min := mi,
       tm_sec := (case s of None \<Rightarrow> 0 | Some s \<Rightarrow> s)\<rparr>"

lemma offset_tables: "offset_tables utctime_min utctime_max 6" "offset_tables generalizedtime_min generalizedtime_max 7"
  by (simp_all add: offset_tables_def utctime_min_def utctime_max_def generalizedtime_min_def generalizedtime_max_def)

lemma upt_utctime: "[0..<6] = [0, 1, 2, 3, 4, 5 :: nat]"
  by code_simp

lemma upt_utctime5: "[0..<5] = [0, 1, 2, 3, 4 :: nat]"
  by code_simp

text \<open>The fields with or without the seconds: what the loop returns, and what follows.\<close>

lemma time_fields_text:
  assumes f: "list_all2 (field_ok mn mx) is ns" and s: "\<forall>n. s = Some n \<longrightarrow> field_ok mn mx secs n"
    and t: "drop 0 b = fields_text ns s @ u" and u: "s = None \<longrightarrow> u \<noteq> [] \<and> is_zone_start (hd u)"
  shows "time_fields mn mx secs g (b @ 0 # rest) (int (length b)) (is @ [secs]) 0 tm =
      (Inr (length (fields_text ns s)),
       map_option (\<lambda>t. case s of None \<Rightarrow> set_fields g is ns t\<lparr>tm_sec := 0\<rparr> | Some n \<Rightarrow> g secs n (set_fields g is ns t)) tm)"
    and "drop (length (fields_text ns s)) b = u" "length (fields_text ns s) \<le> length b"
proof -
  have b: "b = fields_text ns s @ u" using t by simp
  then show u': "drop (length (fields_text ns s)) b = u" "length (fields_text ns s) \<le> length b" by simp_all
  have ln: "length (concat (map d2 ns)) = 2 * length ns" by (induction ns) simp_all
  show "time_fields mn mx secs g (b @ 0 # rest) (int (length b)) (is @ [secs]) 0 tm =
      (Inr (length (fields_text ns s)),
       map_option (\<lambda>t. case s of None \<Rightarrow> set_fields g is ns t\<lparr>tm_sec := 0\<rparr> | Some n \<Rightarrow> g secs n (set_fields g is ns t)) tm)"
  proof (cases s)
    case None
    then obtain c v where cv: "u = c # v" "is_zone_start c" using u by (cases u) auto
    have d: "drop 0 b = concat (map d2 ns) @ c # v" using b None cv by (simp add: fields_text_def)
    have d': "drop (2 * length ns) b = c # v" "2 * length ns \<le> length b" using drop_step [OF d] ln by simp_all
    show ?thesis
      using time_fields_read [OF f d, of secs g rest "[secs]" tm] char_at_drop [OF d'] None cv ln
      by (simp add: fields_text_def option.map_comp comp_def)
  next
    case (Some n)
    then have n: "0 \<le> n" "n \<le> 99" "\<not> (n < mn ! secs \<or> n > mx ! secs)" using s by (auto simp: field_ok_def)
    obtain c c' where c: "d2 n = [c, c']" "is_digit c" using d2_digits [OF n(1,2)] by metis
    have d: "drop 0 b = concat (map d2 ns) @ d2 n @ u" using b Some by (simp add: fields_text_def)
    have d': "drop (2 * length ns) b = d2 n @ u" "2 * length ns \<le> length b" using drop_step [OF d] ln by simp_all
    show ?thesis
      using time_fields_read [OF f d, of secs g rest "[secs]" tm] char_at_drop [OF d'] two_digits_d2 [OF d' n(1,2)]
        Some c n(3) digit_no_zone [OF c(2)] ln
      by (simp add: fields_text_def option.map_comp comp_def)
  qed
qed

lemma asn1_utctime_to_tm_eq:
  assumes "str_data d = Some (b @ 0 # rest)" "str_length d = int (length b)" "str_type d = V_ASN1_UTCTIME" "11 \<le> length b"
  shows "asn1_utctime_to_tm tm d =
    and_then (time_fields utctime_min utctime_max 5 utctime_set_field (b @ 0 # rest) (int (length b)) [0..<6] 0 tm)
      (\<lambda>k tm. zone_part False utctime_min utctime_max 6 (b @ 0 # rest) (int (length b)) k tm)"
proof -
  have td: "time_data d = b @ 0 # rest" using assms(1) by (simp add: time_data_def)
  show ?thesis unfolding asn1_utctime_to_tm_def zone_part_def Let_def td assms(2,3) simp_thms if_False using assms(4) by simp
qed

lemma not_accepted: "r \<noteq> Inr () \<Longrightarrow> r \<noteq> Inl Undefined \<Longrightarrow> r = Inl Rejected"
  by (cases r) (auto intro: parse_error.exhaust)

lemma length_fields_text: "length (fields_text ns s) = 2 * length ns + (if s = None then 0 else 2)"
  by (induction ns) (simp_all add: fields_text_def split: option.split)

lemma length_zone_text: "z \<noteq> Nowhere \<Longrightarrow> 1 \<le> length (zone_text z)"
  by (cases z) simp_all

lemma upt_split:
  assumes "[0..<Suc n] = js @ ks" "ks = [] \<or> hd ks = n"
  shows "js = [0..<Suc n] \<or> js = [0..<n]"
proof (cases "ks = []")
  case False
  have "length js < Suc n" using arg_cong [OF assms(1), of length] False by (cases ks) simp_all
  moreover have "(js @ ks) ! length js = n" using assms(2) False by (simp add: nth_append hd_conv_nth)
  ultimately have "length js = n" by (simp add: assms(1) [symmetric] del: upt_Suc)
  then have "js = take n [0..<Suc n]" unfolding assms(1) by simp
  then show ?thesis by simp
qed (use assms in simp)

lemma utctime_read:
  assumes d: "has_text d (utctime_text y mo dd h mi s z)" "str_type d = V_ASN1_UTCTIME"
    and f: "0 \<le> y" "y \<le> 99" "clock_ok mo dd h mi s z"
  shows "asn1_utctime_to_tm tm d =
    subtract_zone z (map_option (set_tm (if y < 50 then y + 100 else y) mo dd h mi s) tm)"
proof -
  define b where "b = utctime_text y mo dd h mi s z"
  have l: "11 \<le> length b"
    using f(3) length_zone_text [of z] by (cases s) (simp_all add: b_def utctime_text_def length_fields_text clock_ok_def)
  obtain rest where rest: "str_data d = Some (b @ 0 # rest)" "str_length d = int (length b)"
    using d(1) by (auto simp: has_text_def b_def)
  note e = asn1_utctime_to_tm_eq [OF rest d(2) l]
  have f': "list_all2 (field_ok utctime_min utctime_max) [0, 1, 2, 3, 4] [y, mo, dd, h, mi]"
    "\<forall>n. s = Some n \<longrightarrow> field_ok utctime_min utctime_max 5 n"
    using f by (cases s; simp add: field_ok_def utctime_min_def utctime_max_def clock_ok_def)+
  have u: "s = None \<longrightarrow> zone_text z \<noteq> [] \<and> is_zone_start (hd (zone_text z))"
    using f(3) zone_text_start [of z] by (cases s) (simp_all add: clock_ok_def)
  have t: "drop 0 b = fields_text [y, mo, dd, h, mi] s @ zone_text z" by (simp add: b_def utctime_text_def)
  have z: "zone_ok z" using f(3) by (simp add: clock_ok_def)
  have i: "[0..<6] = [0, 1, 2, 3, 4] @ [5 :: nat]" by (simp add: upt_utctime)
  note tf = time_fields_text [OF f' t u]
  have set: "map_option (\<lambda>t. case s of None \<Rightarrow> set_fields utctime_set_field [0, 1, 2, 3, 4] [y, mo, dd, h, mi] t\<lparr>tm_sec := 0\<rparr>
      | Some n \<Rightarrow> utctime_set_field 5 n (set_fields utctime_set_field [0, 1, 2, 3, 4] [y, mo, dd, h, mi] t)) tm =
    map_option (set_tm (if y < 50 then y + 100 else y) mo dd h mi s) tm"
    by (cases tm; cases s) (simp_all add: set_fields_def utctime_set_field_def set_tm_def)
  show ?thesis
    unfolding e i tf(1) set and_then_simps by (rule zone_part_read [OF offset_tables(1) z tf(2,3)])
qed

text \<open>
  A check is the fields and then what follows them. It is decided by the texts of fields it can start with.
\<close>

lemma fields_accepted:
  assumes yes: "F \<Longrightarrow> fst (and_then (time_fields mn mx secs g (b @ 0 # rest) (int (length b)) [0..<Suc secs] 0 None) K) = Inr ()"
    and no: "\<And>ns s u. list_all2 (field_ok mn mx) [0..<secs] ns \<Longrightarrow> \<forall>n. s = Some n \<longrightarrow> field_ok mn mx secs n \<Longrightarrow>
        b = fields_text ns s @ u \<Longrightarrow> s = None \<longrightarrow> u \<noteq> [] \<and> is_zone_start (hd u) \<Longrightarrow>
        fst (K (length (fields_text ns s)) None) = Inr () \<Longrightarrow> F"
    and K: "\<And>k. k \<le> length b \<Longrightarrow> fst (K k None) \<noteq> Inl Undefined"
  shows "fst (and_then (time_fields mn mx secs g (b @ 0 # rest) (int (length b)) [0..<Suc secs] 0 None) K) =
    (if F then Inr () else Inl Rejected)"
proof (cases F)
  case False
  obtain x tm where x: "time_fields mn mx secs g (b @ 0 # rest) (int (length b)) [0..<Suc secs] 0 None = (x, tm)"
    by (rule prod.exhaust)
  show ?thesis
  proof (cases x)
    case (Inl err)
    then show ?thesis
      using False x time_fields_defined [of 0 b mn mx secs g rest "[0..<Suc secs]"]
      by (cases err) (simp_all del: upt_Suc)
  next
    case (Inr k)
    obtain js ks ns u where r: "[0..<Suc secs] = js @ ks" "list_all2 (field_ok mn mx) js ns" "drop 0 b = concat (map d2 ns) @ u"
      "k = 0 + 2 * length ns" "tm = None" "ks = [] \<or> hd ks = secs \<and> u \<noteq> [] \<and> is_zone_start (hd u)"
      by (rule time_fields_inv [OF x [unfolded Inr]]) simp
    have ln: "length (concat (map d2 ns)) = 2 * length ns" by (induction ns) simp_all
    have k: "k \<le> length b" using drop_step [OF r(3)] r(4) ln by simp
    have "fst (K k None) \<noteq> Inr ()"
    proof
      assume a: "fst (K k None) = Inr ()"
      have "js = [0..<Suc secs] \<or> js = [0..<secs] \<and> ks \<noteq> []"
        using upt_split [of secs js ks] r(1,6) by auto
      then have F
      proof
        assume "js = [0..<Suc secs]"
        then obtain ms n where m: "ns = ms @ [n]" "list_all2 (field_ok mn mx) [0..<secs] ms" "field_ok mn mx secs n"
          using r(2) by (auto simp: list_all2_append1 list_all2_Cons1)
        show ?thesis
          by (rule no [of ms "Some n" u]) (use m r(3,4) a ln in \<open>simp_all add: fields_text_def\<close>)
      next
        assume "js = [0..<secs] \<and> ks \<noteq> []"
        with r a ln show ?thesis by (intro no [of ns None u]) (simp_all add: fields_text_def)
      qed
      with False show False by simp
    qed
    from not_accepted [OF this K [OF k]] show ?thesis using False x Inr r(5) by (simp del: upt_Suc)
  qed
qed (use yes in simp)

lemma utctime_check_eq:
  assumes d: "has_text d b" "str_type d = V_ASN1_UTCTIME"
  shows "ASN1_UTCTIME_check d = (if utctime_format b then Inr () else Inl Rejected)"
proof (cases "11 \<le> length b")
  case False
  have "\<not> utctime_format b"
  proof
    assume "utctime_format b"
    then obtain y mo dd h mi s z where "clock_ok mo dd h mi s z" "b = utctime_text y mo dd h mi s z"
      by (auto simp: utctime_format_def)
    with False length_zone_text [of z] show False
      by (cases s) (simp_all add: utctime_text_def length_fields_text clock_ok_def)
  qed
  with False d show ?thesis by (simp add: ASN1_UTCTIME_check_def asn1_utctime_to_tm_def has_text_def Let_def)
next
  case True
  let ?mn = utctime_min and ?mx = utctime_max
  obtain rest where rest: "str_data d = Some (b @ 0 # rest)" "str_length d = int (length b)"
    using d(1) by (auto simp: has_text_def)
  have six: "[0..<6] = [0..<Suc 5]" by (simp add: eval_nat_numeral)
  note e = asn1_utctime_to_tm_eq [OF rest d(2) True, of None, unfolded six]
  show ?thesis
    unfolding ASN1_UTCTIME_check_def e
  proof (rule fields_accepted)
    assume "utctime_format b"
    then obtain y mo dd h mi s z where f: "0 \<le> y" "y \<le> 99" "clock_ok mo dd h mi s z" "b = utctime_text y mo dd h mi s z"
      by (auto simp: utctime_format_def)
    show "fst (and_then (time_fields ?mn ?mx 5 utctime_set_field (b @ 0 # rest) (int (length b)) [0..<Suc 5] 0 None)
        (zone_part False ?mn ?mx 6 (b @ 0 # rest) (int (length b)))) = Inr ()"
      using utctime_read [OF d(1) [unfolded f(4)] d(2) f(1-3), of None] unfolding e by (simp add: subtract_zone_def)
  next
    fix ns s u
    assume f: "list_all2 (field_ok ?mn ?mx) [0..<5] ns" "\<forall>n. s = Some n \<longrightarrow> field_ok ?mn ?mx 5 n" "b = fields_text ns s @ u"
      "s = None \<longrightarrow> u \<noteq> [] \<and> is_zone_start (hd u)"
      and r: "fst (zone_part False ?mn ?mx 6 (b @ 0 # rest) (int (length b)) (length (fields_text ns s)) None) = Inr ()"
    obtain z where z: "zone_ok z" "drop (length (fields_text ns s)) b = zone_text z"
      by (rule zone_part_inv [OF offset_tables(1) _ r]) (simp add: f(3))
    have u: "u = zone_text z" using z(2) f(3) by simp
    have n: "z \<noteq> Nowhere" if "s = None" using f(4) that u by auto
    obtain y mo dd h mi where "ns = [y, mo, dd, h, mi]" "0 \<le> y" "y \<le> 99" "clock_ok mo dd h mi s z"
      using f(1,2) z(1) n unfolding upt_utctime5
      by (cases s) (auto simp: list_all2_Cons1 field_ok_def utctime_min_def utctime_max_def clock_ok_def)
    then show "utctime_format b" using f(3) u unfolding utctime_format_def utctime_text_def by blast
  next
    show "fst (zone_part False ?mn ?mx 6 (b @ 0 # rest) (int (length b)) k None) \<noteq> Inl Undefined" if "k \<le> length b" for k
      using that by (rule zone_part_defined [OF offset_tables(1)])
  qed
qed

subsection \<open>GeneralizedTime\<close>

definition fraction_text :: "bytes option \<Rightarrow> bytes" where
  "fraction_text fr = (case fr of None \<Rightarrow> [] | Some ds \<Rightarrow> 46 # ds)"

definition fraction_ok :: "bytes option \<Rightarrow> bool" where
  "fraction_ok fr \<longleftrightarrow> (case fr of None \<Rightarrow> True | Some ds \<Rightarrow> ds \<noteq> [] \<and> list_all is_digit ds)"

definition generalizedtime_text ::
  "int \<Rightarrow> int \<Rightarrow> int \<Rightarrow> int \<Rightarrow> int \<Rightarrow> int option \<Rightarrow> bytes option \<Rightarrow> zone \<Rightarrow> bytes" where
  "generalizedtime_text y mo d h mi s fr z =
     fields_text [y div 100, y mod 100, mo, d, h, mi] s @ fraction_text fr @ zone_text z"

definition generalizedtime_format :: "bytes \<Rightarrow> bool" where
  "generalizedtime_format b \<longleftrightarrow>
     (\<exists>y mo d h mi s fr z. 0 \<le> y \<and> y \<le> 9999 \<and> clock_ok mo d h mi s z \<and> fraction_ok fr \<and> (s = None \<longrightarrow> fr = None) \<and>
        b = generalizedtime_text y mo d h mi s fr z)"

lemma skip_digits_eq:
  "int (k + length s) = l \<Longrightarrow> skip_digits (s @ 0 # rest) l k = Inr (k + length (takeWhile is_digit s))"
  by (induction s arbitrary: k) simp_all

lemma skip_fraction_eq:
  assumes "drop k b = s" "k \<le> length b"
  shows "skip_fraction (b @ 0 # rest) (int (length b)) k =
    (if s \<noteq> [] \<and> hd s = 46 then
       (if takeWhile is_digit (tl s) = [] then Inl Rejected else Inr (k + 1 + length (takeWhile is_digit (tl s))))
     else Inr k)"
proof (cases "s \<noteq> [] \<and> hd s = 46")
  case True
  then obtain s' where s: "s = 46 # s'" by (cases s) auto
  have d: "drop (k + 1) b = s'" "k + 1 \<le> length b" using drop_step [of k b "[46]" s'] assms s by simp_all
  then have "length s' = length b - (k + 1)" by auto
  with d(2) have "int (k + 1 + length s') = int (length b)" by simp
  from skip_digits_eq [OF this, of rest] char_at_drop [OF assms, of rest] d s show ?thesis
    by (simp add: skip_fraction_def)
next
  case False
  then show ?thesis using char_at_drop [OF assms, of rest] by (cases s) (auto simp: skip_fraction_def)
qed

lemma zone_text_head: "zone_text z = c # s \<Longrightarrow> \<not> is_digit c \<and> c \<noteq> 46"
  by (cases z) auto

lemma fraction_part_read:
  assumes f: "fraction_ok fr" and z: "zone_ok z"
    and d: "drop k b = fraction_text fr @ zone_text z" "k \<le> length b"
  shows "and_then (skip_fraction (b @ 0 # rest) (int (length b)) k, tm) (\<lambda>k tm.
      zone_part True generalizedtime_min generalizedtime_max 7 (b @ 0 # rest) (int (length b)) k tm) = subtract_zone z tm"
proof -
  have tz: "takeWhile is_digit (zone_text z) = []" "zone_text z \<noteq> [] \<Longrightarrow> hd (zone_text z) \<noteq> 46"
    using zone_text_head [of z] by (cases "zone_text z"; simp)+
  have "skip_fraction (b @ 0 # rest) (int (length b)) k = Inr (k + length (fraction_text fr))"
  proof (cases fr)
    case None
    then show ?thesis using skip_fraction_eq [OF d] tz(2) by (auto simp: fraction_text_def)
  next
    case (Some ds)
    then have "ds \<noteq> []" "takeWhile is_digit (ds @ zone_text z) = ds"
      using f tz(1) by (simp_all add: fraction_ok_def list_all_iff)
    with Some show ?thesis using skip_fraction_eq [OF d] by (simp add: fraction_text_def)
  qed
  with zone_part_read [OF offset_tables(2) z drop_step [OF d]] show ?thesis by simp
qed

lemma fraction_part_inv:
  assumes k: "k \<le> length b" and r: "fst (and_then (skip_fraction (b @ 0 # rest) (int (length b)) k, None) (\<lambda>k tm.
      zone_part True generalizedtime_min generalizedtime_max 7 (b @ 0 # rest) (int (length b)) k tm)) = Inr ()"
  obtains fr z where "fraction_ok fr" "zone_ok z" "drop k b = fraction_text fr @ zone_text z"
proof -
  obtain k' where k': "skip_fraction (b @ 0 # rest) (int (length b)) k = Inr k'"
    using r by (cases "skip_fraction (b @ 0 # rest) (int (length b)) k") simp_all
  have "\<exists>fr s. fraction_ok fr \<and> drop k b = fraction_text fr @ s \<and> k' = k + length (fraction_text fr)"
  proof (cases "drop k b \<noteq> [] \<and> hd (drop k b) = 46")
    case True
    then obtain s where s: "drop k b = 46 # s" by (cases "drop k b") auto
    define ds where "ds = takeWhile is_digit s"
    have "ds \<noteq> []" "k' = k + 1 + length ds"
      using k' s unfolding skip_fraction_eq [OF s k] ds_def by (simp_all split: if_splits)
    moreover have "list_all is_digit ds" by (auto simp: ds_def list_all_iff dest: set_takeWhileD)
    moreover have "s = ds @ dropWhile is_digit s" by (simp add: ds_def)
    ultimately show ?thesis
      by (intro exI [of _ "Some ds"] exI [of _ "dropWhile is_digit s"]) (simp add: fraction_ok_def fraction_text_def s)
  next
    case False
    then have "k' = k" using k' unfolding skip_fraction_eq [OF refl k] by (simp split: if_splits)
    then show ?thesis
      by (intro exI [of _ None] exI [of _ "drop k b"]) (simp add: fraction_ok_def fraction_text_def)
  qed
  then obtain fr s where f: "fraction_ok fr" "drop k b = fraction_text fr @ s" "k' = k + length (fraction_text fr)" by blast
  have d: "drop k' b = s" "k' \<le> length b" unfolding f(3) by (rule drop_step [OF f(2) k])+
  have "fst (zone_part True generalizedtime_min generalizedtime_max 7 (b @ 0 # rest) (int (length b)) k' None) = Inr ()"
    using r k' by simp
  then obtain z where "zone_ok z" "drop k' b = zone_text z" by (rule zone_part_inv [OF offset_tables(2) d(2)])
  with f d show ?thesis by (intro that [of fr z]) simp_all
qed

lemma fraction_part_defined:
  assumes "k \<le> length b"
  shows "fst (and_then (skip_fraction (b @ 0 # rest) (int (length b)) k, None) (\<lambda>k tm.
      zone_part True generalizedtime_min generalizedtime_max 7 (b @ 0 # rest) (int (length b)) k tm)) \<noteq> Inl Undefined"
proof (cases "skip_fraction (b @ 0 # rest) (int (length b)) k")
  case (Inl e)
  then show ?thesis unfolding skip_fraction_eq [OF refl assms] by (auto split: if_splits)
next
  case (Inr k')
  have "k' \<le> length b"
  proof (cases "drop k b")
    case Nil
    show ?thesis using Inr assms unfolding skip_fraction_eq [OF Nil assms] by simp
  next
    case (Cons c s)
    have "length (takeWhile is_digit s) \<le> length s" by (rule length_takeWhile_le)
    moreover have "k + 1 + length s = length b" using arg_cong [OF Cons, of length] assms by simp
    ultimately show ?thesis using Inr assms unfolding skip_fraction_eq [OF Cons assms] by (auto split: if_splits)
  qed
  with Inr zone_part_defined [OF offset_tables(2)] show ?thesis by simp
qed

lemma upt_generalizedtime: "[0..<6] = [0, 1, 2, 3, 4, 5 :: nat]" "[0..<7] = [0, 1, 2, 3, 4, 5] @ [6 :: nat]" "[0..<7] = [0..<Suc 6]"
  by (rule upt_utctime) code_simp+

lemma asn1_generalizedtime_to_tm_eq:
  assumes "str_data d = Some (b @ 0 # rest)" "str_length d = int (length b)" "str_type d = V_ASN1_GENERALIZEDTIME" "13 \<le> length b"
  shows "asn1_generalizedtime_to_tm tm d =
    and_then (time_fields generalizedtime_min generalizedtime_max 6 generalizedtime_set_field (b @ 0 # rest) (int (length b))
        [0..<7] 0 tm)
      (\<lambda>k tm. and_then (skip_fraction (b @ 0 # rest) (int (length b)) k, tm) (\<lambda>k tm.
        zone_part True generalizedtime_min generalizedtime_max 7 (b @ 0 # rest) (int (length b)) k tm))"
proof -
  have td: "time_data d = b @ 0 # rest" using assms(1) by (simp add: time_data_def)
  show ?thesis unfolding asn1_generalizedtime_to_tm_def zone_part_def Let_def td assms(2,3) simp_thms using assms(4) by simp
qed

lemma fraction_zone_start:
  "z \<noteq> Nowhere \<Longrightarrow> fraction_text None @ zone_text z \<noteq> [] \<and> is_zone_start (hd (fraction_text None @ zone_text z))"
  using zone_text_start [of z] by (simp add: fraction_text_def)

lemma length_generalizedtime_text:
  assumes "clock_ok mo dd h mi s z"
  shows "13 \<le> length (generalizedtime_text y mo dd h mi s fr z)"
  using assms length_zone_text [of z] by (cases s) (simp_all add: generalizedtime_text_def length_fields_text clock_ok_def)

lemma generalizedtime_read:
  assumes d: "has_text d (generalizedtime_text y mo dd h mi s fr z)" "str_type d = V_ASN1_GENERALIZEDTIME"
    and f: "0 \<le> y" "y \<le> 9999" "clock_ok mo dd h mi s z" "fraction_ok fr" "s = None \<longrightarrow> fr = None"
  shows "asn1_generalizedtime_to_tm tm d = subtract_zone z (map_option (set_tm (y - 1900) mo dd h mi s) tm)"
proof -
  define b where "b = generalizedtime_text y mo dd h mi s fr z"
  define c e where "c = y div 100" and "e = y mod 100"
  have ce: "0 \<le> c" "c \<le> 99" "0 \<le> e" "e \<le> 99" "c * 100 + e = y" using f(1,2) by (simp_all add: c_def e_def)
  have l: "13 \<le> length b" unfolding b_def by (rule length_generalizedtime_text [OF f(3)])
  obtain rest where rest: "str_data d = Some (b @ 0 # rest)" "str_length d = int (length b)"
    using d(1) by (auto simp: has_text_def b_def)
  note eq = asn1_generalizedtime_to_tm_eq [OF rest d(2) l]
  have f': "list_all2 (field_ok generalizedtime_min generalizedtime_max) [0, 1, 2, 3, 4, 5] [c, e, mo, dd, h, mi]"
    "\<forall>n. s = Some n \<longrightarrow> field_ok generalizedtime_min generalizedtime_max 6 n"
    using f(3) ce by (cases s; simp add: field_ok_def generalizedtime_min_def generalizedtime_max_def clock_ok_def)+
  have u: "s = None \<longrightarrow> fraction_text fr @ zone_text z \<noteq> [] \<and> is_zone_start (hd (fraction_text fr @ zone_text z))"
    using f(3,5) fraction_zone_start [of z] by (cases s) (simp_all add: clock_ok_def)
  have t: "drop 0 b = fields_text [c, e, mo, dd, h, mi] s @ fraction_text fr @ zone_text z"
    by (simp add: b_def generalizedtime_text_def c_def e_def)
  have z: "zone_ok z" using f(3) by (simp add: clock_ok_def)
  note tf = time_fields_text [OF f' t u]
  have set: "map_option (\<lambda>t. case s of
        None \<Rightarrow> set_fields generalizedtime_set_field [0, 1, 2, 3, 4, 5] [c, e, mo, dd, h, mi] t\<lparr>tm_sec := 0\<rparr>
      | Some n \<Rightarrow> generalizedtime_set_field 6 n
          (set_fields generalizedtime_set_field [0, 1, 2, 3, 4, 5] [c, e, mo, dd, h, mi] t)) tm =
    map_option (set_tm (y - 1900) mo dd h mi s) tm"
    using ce(5) by (cases tm; cases s) (auto simp: set_fields_def generalizedtime_set_field_def set_tm_def)
  show ?thesis
    unfolding eq upt_generalizedtime(2) tf(1) set and_then_simps(2) by (rule fraction_part_read [OF f(4) z tf(2,3)])
qed

lemma generalizedtime_check_eq:
  assumes d: "has_text d b" "str_type d = V_ASN1_GENERALIZEDTIME"
  shows "ASN1_GENERALIZEDTIME_check d = (if generalizedtime_format b then Inr () else Inl Rejected)"
proof (cases "13 \<le> length b")
  case False
  then have "\<not> generalizedtime_format b"
    using length_generalizedtime_text by (auto simp: generalizedtime_format_def)
  with False d show ?thesis
    by (simp add: ASN1_GENERALIZEDTIME_check_def asn1_generalizedtime_to_tm_def has_text_def Let_def)
next
  case True
  let ?mn = generalizedtime_min and ?mx = generalizedtime_max
  obtain rest where rest: "str_data d = Some (b @ 0 # rest)" "str_length d = int (length b)"
    using d(1) by (auto simp: has_text_def)
  let ?K = "\<lambda>k tm. and_then (skip_fraction (b @ 0 # rest) (int (length b)) k, tm) (\<lambda>k tm.
        zone_part True ?mn ?mx 7 (b @ 0 # rest) (int (length b)) k tm)"
  note e = asn1_generalizedtime_to_tm_eq [OF rest d(2) True, of None, unfolded upt_generalizedtime(3)]
  show ?thesis
    unfolding ASN1_GENERALIZEDTIME_check_def e
  proof (rule fields_accepted)
    assume "generalizedtime_format b"
    then obtain y mo dd h mi s fr z where f: "0 \<le> y" "y \<le> 9999" "clock_ok mo dd h mi s z" "fraction_ok fr" "s = None \<longrightarrow> fr = None"
      "b = generalizedtime_text y mo dd h mi s fr z"
      by (auto simp: generalizedtime_format_def)
    show "fst (and_then (time_fields ?mn ?mx 6 generalizedtime_set_field (b @ 0 # rest) (int (length b)) [0..<Suc 6] 0 None)
        ?K) = Inr ()"
      using generalizedtime_read [OF d(1) [unfolded f(6)] d(2) f(1-5), of None] unfolding e by (simp add: subtract_zone_def)
  next
    fix ns s u
    assume f: "list_all2 (field_ok ?mn ?mx) [0..<6] ns" "\<forall>n. s = Some n \<longrightarrow> field_ok ?mn ?mx 6 n" "b = fields_text ns s @ u"
      "s = None \<longrightarrow> u \<noteq> [] \<and> is_zone_start (hd u)"
      and r: "fst (?K (length (fields_text ns s)) None) = Inr ()"
    obtain fr z where z: "fraction_ok fr" "zone_ok z" "drop (length (fields_text ns s)) b = fraction_text fr @ zone_text z"
      by (rule fraction_part_inv [OF _ r]) (simp add: f(3))
    have u: "u = fraction_text fr @ zone_text z" using z(3) f(3) by simp
    have n: "fr = None \<and> z \<noteq> Nowhere" if "s = None"
      using f(4) that u by (cases fr) (auto simp: fraction_text_def is_zone_start_def)
    obtain c e mo dd h mi where "ns = [c, e, mo, dd, h, mi]" "0 \<le> c" "c \<le> 99" "0 \<le> e" "e \<le> 99" "clock_ok mo dd h mi s z"
      using f(1,2) z(2) n unfolding upt_generalizedtime(1)
      by (cases s) (auto simp: list_all2_Cons1 field_ok_def generalizedtime_min_def generalizedtime_max_def clock_ok_def)
    moreover from this have "(100 * c + e) div 100 = c" "(100 * c + e) mod 100 = e" "0 \<le> 100 * c + e" "100 * c + e \<le> 9999"
      by simp_all
    ultimately show "generalizedtime_format b"
      using f(3) u n z(1) unfolding generalizedtime_format_def generalizedtime_text_def
      by (intro exI [of _ "100 * c + e"] exI [of _ mo] exI [of _ dd] exI [of _ h] exI [of _ mi] exI [of _ s] exI [of _ fr]
          exI [of _ z]) auto
  next
    show "fst (?K k None) \<noteq> Inl Undefined" if "k \<le> length b" for k
      using that by (rule fraction_part_defined)
  qed
qed

end
