(* ===== verification/ASN1_Time_Set.thy ===== *)
theory ASN1_Time_Set
  imports ASN1_Time
begin

text \<open>
  \<open>crypto/asn1/a_utctm.c\<close>, \<open>a_gentm.c\<close> and \<open>a_time.c\<close>: making time strings from a \<open>time_t\<close> or from text,
  converting, comparing and subtracting them. What is made from a \<open>time_t\<close> and an offset is read back as
  the time that many seconds later.
\<close>

section \<open>Definitions\<close>

text \<open>\<open>printf\<close> of an \<open>int\<close> with a width and a leading zero, and \<open>snprintf\<close> into \<open>n\<close> bytes.\<close>

definition printf_0d :: "nat \<Rightarrow> int \<Rightarrow> bytes" where
  "printf_0d w n =
     (let ds = decimal (nat \<bar>n\<bar>)
      in if n < 0 then 45 # replicate (w - 1 - length ds) 48 @ ds else replicate (w - length ds) 48 @ ds)"

definition snprintf :: "nat \<Rightarrow> bytes \<Rightarrow> bytes" where
  "snprintf n s = take (n - 1) s @ [0]"

definition c_strlen :: "bytes \<Rightarrow> nat" where
  "c_strlen s = length (takeWhile (\<lambda>c. c \<noteq> 0) s)"

text \<open>The time that an offset from \<open>ts\<close> gives, if there is an offset.\<close>

definition adjusted :: "tm \<Rightarrow> int \<Rightarrow> int \<Rightarrow> (unit, tm) outcome option" where
  "adjusted ts offset_day offset_sec =
     (if offset_day \<noteq> 0 \<or> offset_sec \<noteq> 0 then OPENSSL_gmtime_adj ts offset_day offset_sec else Some (Some (), ts))"

text \<open>The text is written into the buffer of the string if that has 20 bytes, and into a new one otherwise.\<close>

definition write_time :: "(nat \<Rightarrow> bool) \<Rightarrow> asn1_string \<Rightarrow> bytes \<Rightarrow> int \<Rightarrow> (unit, asn1_string) outcome" where
  "write_time alloc s text type =
     (let len = 20 :: nat;
          p = (if str_data s = None \<or> (of_int (str_length s) :: u64) < of_nat len
               then (if OPENSSL_malloc alloc (of_nat len) = None then None else Some (replicate len 0))
               else str_data s)
      in case p of
           None \<Rightarrow> (None, s)
         | Some p \<Rightarrow>
             (let p = memcpy p 0 (snprintf len text)
              in (Some (), s\<lparr>str_data := Some p, str_length := int (c_strlen p), str_type := type\<rparr>)))"

definition utctime_printf :: "tm \<Rightarrow> bytes" where
  "utctime_printf ts =
     printf_0d 2 (tm_year ts smod 100) @ printf_0d 2 (tm_mon ts + 1) @ printf_0d 2 (tm_mday ts) @
     printf_0d 2 (tm_hour ts) @ printf_0d 2 (tm_min ts) @ printf_0d 2 (tm_sec ts) @ [90]"

text \<open>
  The functions that set a time: the outer \<open>None\<close> is an overflow of \<open>OPENSSL_gmtime_adj\<close>, then the result and
  the string that was given (which may be NULL) or made.
\<close>

definition ASN1_UTCTIME_adj ::
  "(nat \<Rightarrow> bool) \<Rightarrow> (int \<Rightarrow> tm option) \<Rightarrow> asn1_string option \<Rightarrow> int \<Rightarrow> int \<Rightarrow> int \<Rightarrow> (unit, asn1_string option) outcome option"
  where
  "ASN1_UTCTIME_adj alloc gmtime_r s t offset_day offset_sec =
     (case (case s of None \<Rightarrow> ASN1_STRING_type_new alloc V_ASN1_UTCTIME | Some s \<Rightarrow> Some s) of
        None \<Rightarrow> Some (None, s)
      | Some str \<Rightarrow>
          (case OPENSSL_gmtime gmtime_r t of
             None \<Rightarrow> Some (None, s)
           | Some ts \<Rightarrow>
               (case adjusted ts offset_day offset_sec of
                  None \<Rightarrow> None
                | Some (None, _) \<Rightarrow> Some (None, s)
                | Some (Some _, ts) \<Rightarrow>
                    if tm_year ts < 50 \<or> tm_year ts \<ge> 150 then Some (None, s)
                    else (case write_time alloc str (utctime_printf ts) V_ASN1_UTCTIME of
                       (None, _) \<Rightarrow> Some (None, s)
                     | (Some _, str) \<Rightarrow> Some (Some (), Some str)))))"

definition ASN1_UTCTIME_set ::
  "(nat \<Rightarrow> bool) \<Rightarrow> (int \<Rightarrow> tm option) \<Rightarrow> asn1_string option \<Rightarrow> int \<Rightarrow> (unit, asn1_string option) outcome option" where
  "ASN1_UTCTIME_set alloc gmtime_r s t = ASN1_UTCTIME_adj alloc gmtime_r s t 0 0"

definition generalizedtime_printf :: "tm \<Rightarrow> bytes" where
  "generalizedtime_printf ts =
     printf_0d 4 (tm_year ts + 1900) @ printf_0d 2 (tm_mon ts + 1) @ printf_0d 2 (tm_mday ts) @
     printf_0d 2 (tm_hour ts) @ printf_0d 2 (tm_min ts) @ printf_0d 2 (tm_sec ts) @ [90]"

definition ASN1_GENERALIZEDTIME_adj ::
  "(nat \<Rightarrow> bool) \<Rightarrow> (int \<Rightarrow> tm option) \<Rightarrow> asn1_string option \<Rightarrow> int \<Rightarrow> int \<Rightarrow> int \<Rightarrow> (unit, asn1_string option) outcome option"
  where
  "ASN1_GENERALIZEDTIME_adj alloc gmtime_r s t offset_day offset_sec =
     (case (case s of None \<Rightarrow> ASN1_STRING_type_new alloc V_ASN1_GENERALIZEDTIME | Some s \<Rightarrow> Some s) of
        None \<Rightarrow> Some (None, s)
      | Some tmps \<Rightarrow>
          (case OPENSSL_gmtime gmtime_r t of
             None \<Rightarrow> Some (None, s)
           | Some ts \<Rightarrow>
               (case adjusted ts offset_day offset_sec of
                  None \<Rightarrow> None
                | Some (None, _) \<Rightarrow> Some (None, s)
                | Some (Some _, ts) \<Rightarrow>
                    (case write_time alloc tmps (generalizedtime_printf ts) V_ASN1_GENERALIZEDTIME of
                       (None, _) \<Rightarrow> Some (None, s)
                     | (Some _, tmps) \<Rightarrow> Some (Some (), Some tmps)))))"

definition ASN1_GENERALIZEDTIME_set ::
  "(nat \<Rightarrow> bool) \<Rightarrow> (int \<Rightarrow> tm option) \<Rightarrow> asn1_string option \<Rightarrow> int \<Rightarrow> (unit, asn1_string option) outcome option" where
  "ASN1_GENERALIZEDTIME_set alloc gmtime_r s t = ASN1_GENERALIZEDTIME_adj alloc gmtime_r s t 0 0"

definition ASN1_TIME_adj ::
  "(nat \<Rightarrow> bool) \<Rightarrow> (int \<Rightarrow> tm option) \<Rightarrow> asn1_string option \<Rightarrow> int \<Rightarrow> int \<Rightarrow> int \<Rightarrow> (unit, asn1_string option) outcome option"
  where
  "ASN1_TIME_adj alloc gmtime_r s t offset_day offset_sec =
     (case OPENSSL_gmtime gmtime_r t of
        None \<Rightarrow> Some (None, s)
      | Some ts \<Rightarrow>
          (case adjusted ts offset_day offset_sec of
             None \<Rightarrow> None
           | Some (None, _) \<Rightarrow> Some (None, s)
           | Some (Some _, ts) \<Rightarrow>
               if tm_year ts \<ge> 50 \<and> tm_year ts < 150
               then ASN1_UTCTIME_adj alloc gmtime_r s t offset_day offset_sec
               else ASN1_GENERALIZEDTIME_adj alloc gmtime_r s t offset_day offset_sec))"

definition ASN1_TIME_set ::
  "(nat \<Rightarrow> bool) \<Rightarrow> (int \<Rightarrow> tm option) \<Rightarrow> asn1_string option \<Rightarrow> int \<Rightarrow> (unit, asn1_string option) outcome option" where
  "ASN1_TIME_set alloc gmtime_r s t = ASN1_TIME_adj alloc gmtime_r s t 0 0"

text \<open>The string on the stack that holds the characters \<open>str\<close> of a C string; \<open>strlen\<close> is converted to \<open>int\<close>.\<close>

definition stack_string :: "int \<Rightarrow> bytes \<Rightarrow> asn1_string" where
  "stack_string type str = \<lparr>str_length = to_int (int (length str)), str_type = type, str_data = Some (str @ [0]), str_flags = 0\<rparr>"

definition set_checked ::
  "(nat \<Rightarrow> bool) \<Rightarrow> asn1_string option \<Rightarrow> asn1_string \<Rightarrow> parse_error + unit \<Rightarrow> (unit, asn1_string option) outcome option" where
  "set_checked alloc s t check =
     (case check of
        Inl Undefined \<Rightarrow> None
      | Inl Rejected \<Rightarrow> Some (None, s)
      | Inr _ \<Rightarrow>
          (case s of
             None \<Rightarrow> Some (Some (), None)
           | Some s \<Rightarrow>
               map_option (\<lambda>r. case r of
                  (None, s) \<Rightarrow> (None, Some s)
                | (Some _, s) \<Rightarrow> (Some (), Some (s\<lparr>str_type := str_type t\<rparr>)))
                (ASN1_STRING_set alloc s (take (nat (str_length t)) (time_data t)))))"

definition ASN1_UTCTIME_set_string ::
  "(nat \<Rightarrow> bool) \<Rightarrow> asn1_string option \<Rightarrow> bytes \<Rightarrow> (unit, asn1_string option) outcome option" where
  "ASN1_UTCTIME_set_string alloc s str =
     (let t = stack_string V_ASN1_UTCTIME str in set_checked alloc s t (ASN1_UTCTIME_check t))"

definition ASN1_GENERALIZEDTIME_set_string ::
  "(nat \<Rightarrow> bool) \<Rightarrow> asn1_string option \<Rightarrow> bytes \<Rightarrow> (unit, asn1_string option) outcome option" where
  "ASN1_GENERALIZEDTIME_set_string alloc s str =
     (let t = stack_string V_ASN1_GENERALIZEDTIME str in set_checked alloc s t (ASN1_GENERALIZEDTIME_check t))"

definition ASN1_TIME_set_string ::
  "(nat \<Rightarrow> bool) \<Rightarrow> asn1_string option \<Rightarrow> bytes \<Rightarrow> (unit, asn1_string option) outcome option" where
  "ASN1_TIME_set_string alloc s str =
     (let t = stack_string V_ASN1_UTCTIME str;
          copy = (\<lambda>t. case s of
             None \<Rightarrow> Some (Some (), None)
           | Some d \<Rightarrow> map_option (\<lambda>(r, d). (r, Some d)) (ASN1_STRING_copy alloc d (Some t)))
      in case ASN1_TIME_check t of
           Inl Undefined \<Rightarrow> None
         | Inl Rejected \<Rightarrow>
             (let t = t\<lparr>str_type := V_ASN1_GENERALIZEDTIME\<rparr>
              in case ASN1_TIME_check t of
                   Inl Undefined \<Rightarrow> None
                 | Inl Rejected \<Rightarrow> Some (None, s)
                 | Inr _ \<Rightarrow> copy t)
         | Inr _ \<Rightarrow> copy t)"

text \<open>
  \<open>ASN1_TIME_to_generalizedtime\<close>: \<open>out\<close> may be NULL (\<open>None\<close>), or point to NULL or to a string. The string
  that is returned, and \<open>*out\<close> afterwards.
\<close>

definition generalizedtime_of ::
  "(nat \<Rightarrow> bool) \<Rightarrow> asn1_string \<Rightarrow> asn1_string \<Rightarrow> (unit, asn1_string) outcome option" where
  "generalizedtime_of alloc t ret =
     (if str_type t = V_ASN1_GENERALIZEDTIME then ASN1_STRING_set alloc ret (take (nat (str_length t)) (time_data t))
      else
        map_option (\<lambda>r. andthen r (\<lambda>_ ret.
          (let newlen = nat (str_length t + 2 + 1);
               str = time_data ret;
               str = memcpy str 0 (fst (OPENSSL_strlcpy (if time_data t ! 0 \<ge> 53 then [49, 57] else [50, 48]) newlen));
               str = memcpy str 0 (fst (OPENSSL_strlcat str (takeWhile (\<lambda>c. c \<noteq> 0) (time_data t)) newlen))
           in (Some (), ret\<lparr>str_data := Some str\<rparr>))))
          (if str_length t + 2 > int_max then None else ASN1_STRING_set_len alloc ret (nat (str_length t + 2))))"

definition ASN1_TIME_to_generalizedtime ::
  "(nat \<Rightarrow> bool) \<Rightarrow> asn1_string \<Rightarrow> asn1_string option option \<Rightarrow> (asn1_string, asn1_string option option) outcome option" where
  "ASN1_TIME_to_generalizedtime alloc t out =
     (case ASN1_TIME_check t of
        Inl Undefined \<Rightarrow> None
      | Inl Rejected \<Rightarrow> Some (None, out)
      | Inr _ \<Rightarrow>
          (case (case out of Some (Some r) \<Rightarrow> Some r | _ \<Rightarrow> ASN1_STRING_type_new alloc V_ASN1_GENERALIZEDTIME) of
             None \<Rightarrow> Some (None, out)
           | Some ret \<Rightarrow>
               map_option (\<lambda>r. case r of
                  (None, ret) \<Rightarrow> (None, case out of Some (Some _) \<Rightarrow> Some (Some ret) | _ \<Rightarrow> out)
                | (Some _, ret) \<Rightarrow> (Some ret, if out = None then None else Some (Some ret)))
                (generalizedtime_of alloc t ret)))"

text \<open>The comparison returns -2 on an error; \<open>stm\<close> is what the uninitialised \<open>struct tm\<close> holds.\<close>

definition ASN1_UTCTIME_cmp_time_t :: "(int \<Rightarrow> tm option) \<Rightarrow> tm \<Rightarrow> asn1_string \<Rightarrow> int \<Rightarrow> int option" where
  "ASN1_UTCTIME_cmp_time_t gmtime_r stm s t =
     (case asn1_utctime_to_tm (Some stm) s of
        (Inl Undefined, _) \<Rightarrow> None
      | (Inl Rejected, _) \<Rightarrow> Some (- 2)
      | (Inr _, None) \<Rightarrow> None
      | (Inr _, Some stm) \<Rightarrow>
          (case OPENSSL_gmtime gmtime_r t of
             None \<Rightarrow> Some (- 2)
           | Some ttm \<Rightarrow>
               (case OPENSSL_gmtime_diff ttm stm of
                  None \<Rightarrow> None
                | Some None \<Rightarrow> Some (- 2)
                | Some (Some (day, sec)) \<Rightarrow>
                    Some (if day > 0 then 1 else if day < 0 then - 1 else if sec > 0 then 1 else if sec < 0 then - 1 else 0))))"

definition ASN1_TIME_diff ::
  "(int \<Rightarrow> tm option) \<Rightarrow> int \<Rightarrow> tm \<Rightarrow> asn1_string option \<Rightarrow> asn1_string option \<Rightarrow> (int \<times> int) option option" where
  "ASN1_TIME_diff gmtime_r now tm frm to =
     (case asn1_time_to_tm gmtime_r now tm frm of
        (Inl Undefined, _) \<Rightarrow> None
      | (Inl Rejected, _) \<Rightarrow> Some None
      | (Inr _, None) \<Rightarrow> None
      | (Inr _, Some tm_from) \<Rightarrow>
          (case asn1_time_to_tm gmtime_r now tm to of
             (Inl Undefined, _) \<Rightarrow> None
           | (Inl Rejected, _) \<Rightarrow> Some None
           | (Inr _, None) \<Rightarrow> None
           | (Inr _, Some tm_to) \<Rightarrow> OPENSSL_gmtime_diff tm_from tm_to))"

section \<open>What is written\<close>

text \<open>Numbers of two and of four digits.\<close>

lemma printf_2_all: "list_all (\<lambda>n. printf_0d 2 n = d2 n) [0..99]"
  by code_simp

lemma printf_2: "0 \<le> n \<Longrightarrow> n \<le> 99 \<Longrightarrow> printf_0d 2 n = d2 n"
  using printf_2_all by (simp add: list_all_iff)

lemma decimal_100:
  assumes "100 \<le> n"
  shows "decimal n = decimal (n div 100) @ [of_nat (48 + n div 10 mod 10), of_nat (48 + n mod 10)]"
proof -
  have "n div 10 div 10 = n div 100" by (simp add: div_mult2_eq [symmetric])
  moreover have "\<not> n < 10" "\<not> n div 10 < 10" using assms by simp_all
  ultimately show ?thesis by (subst decimal.simps, subst decimal.simps [of "n div 10"]) simp
qed

lemma printf_4_small: "list_all (\<lambda>n. printf_0d 4 n = d2 0 @ d2 n) [0..99]"
  by code_simp

lemma printf_4:
  assumes "0 \<le> n" "n \<le> 9999"
  shows "printf_0d 4 n = d2 (n div 100) @ d2 (n mod 100)"
proof (cases "n < 100")
  case True
  then show ?thesis using printf_4_small assms by (simp add: list_all_iff)
next
  case False
  define k where "k = nat n"
  have k: "n = int k" "100 \<le> k" using False assms(1) by (simp_all add: k_def)
  have dec: "decimal k = decimal (k div 100) @ [of_nat (48 + k div 10 mod 10), of_nat (48 + k mod 10)]"
    by (rule decimal_100 [OF k(2)])
  have e: "n mod 100 div 10 = int (k div 10 mod 10)" "n mod 100 mod 10 = int (k mod 10)"
  proof -
    define a b where "a = k div 10 mod 10" and "b = k mod 10"
    have "k mod 100 = 10 * a + b" using mod_mult2_eq [of k 10 10] by (simp add: a_def b_def)
    then have "n mod 100 = 10 * int a + int b" using zmod_int [of k 100] by (simp add: k(1))
    moreover have "b < 10" by (simp add: b_def)
    ultimately show "n mod 100 div 10 = int (k div 10 mod 10)" "n mod 100 mod 10 = int (k mod 10)"
      unfolding a_def [symmetric] b_def [symmetric] by simp_all
  qed
  have lo: "d2 (n mod 100) = [of_nat (48 + k div 10 mod 10), of_nat (48 + k mod 10)]"
    unfolding d2_def e by simp
  have "0 \<le> n div 100" "n div 100 \<le> 99" using assms by simp_all
  then have hi: "d2 (n div 100) = printf_0d 2 (n div 100)" by (simp add: printf_2)
  have "nat (n div 100) = k div 100" by (simp add: k(1) nat_div_distrib)
  then have "printf_0d 2 (n div 100) = replicate (2 - length (decimal (k div 100))) 48 @ decimal (k div 100)"
    using assms(1) by (simp add: printf_0d_def Let_def)
  with hi lo dec show ?thesis using assms(1) by (simp add: printf_0d_def Let_def k(1))
qed

lemma d2_nonzero: "0 \<le> n \<Longrightarrow> n \<le> 99 \<Longrightarrow> 0 \<notin> set (d2 n)"
  by (rule d2_digits [of n]) auto

text \<open>The time of a valid \<open>struct tm\<close> of the years of each of the types is written as its text, in UTC.\<close>

lemma valid_tm_clock:
  assumes "valid_tm ts"
  shows "clock_ok (tm_mon ts + 1) (tm_mday ts) (tm_hour ts) (tm_min ts) (Some (tm_sec ts)) Zulu"
  using assms days_in_month_le [of "tm_year ts + 1900" "tm_mon ts + 1"]
  by (simp add: clock_ok_def valid_tm_def valid_date_def)

lemma printf_clock:
  assumes "clock_ok mo d h mi (Some s) Zulu"
  shows "printf_0d 2 mo @ printf_0d 2 d @ printf_0d 2 h @ printf_0d 2 mi @ printf_0d 2 s @ [90] =
    d2 mo @ d2 d @ d2 h @ d2 mi @ d2 s @ [90]"
  using assms by (simp add: clock_ok_def printf_2)

lemma smod_100: "0 \<le> y \<Longrightarrow> y smod 100 = y mod 100" for y :: int
  by (cases "y = 0") (simp_all add: signed_modulo_int_def)

lemma utctime_printf_eq:
  assumes "valid_tm ts" "50 \<le> tm_year ts" "tm_year ts < 150"
  shows "utctime_printf ts = utctime_text (tm_year ts mod 100) (tm_mon ts + 1) (tm_mday ts) (tm_hour ts) (tm_min ts)
    (Some (tm_sec ts)) Zulu"
proof -
  have "printf_0d 2 (tm_year ts smod 100) = d2 (tm_year ts mod 100)"
    using assms(2) by (simp add: smod_100 printf_2)
  with printf_clock [OF valid_tm_clock [OF assms(1)]] show ?thesis
    by (simp add: utctime_printf_def utctime_text_def fields_text_def)
qed

lemma generalizedtime_printf_eq:
  assumes "valid_tm ts" "- 1900 \<le> tm_year ts" "tm_year ts \<le> 8099"
  shows "generalizedtime_printf ts = generalizedtime_text (tm_year ts + 1900) (tm_mon ts + 1) (tm_mday ts) (tm_hour ts)
    (tm_min ts) (Some (tm_sec ts)) None Zulu"
proof -
  have "printf_0d 4 (tm_year ts + 1900) = d2 ((tm_year ts + 1900) div 100) @ d2 ((tm_year ts + 1900) mod 100)"
    by (rule printf_4) (use assms in simp_all)
  with printf_clock [OF valid_tm_clock [OF assms(1)]] show ?thesis
    by (simp add: generalizedtime_printf_def generalizedtime_text_def fields_text_def fraction_text_def)
qed

lemma text_nonzero:
  assumes "clock_ok mo d h mi (Some s) Zulu" "0 \<le> y" "y \<le> 9999"
  shows "0 \<notin> set (generalizedtime_text y mo d h mi (Some s) None Zulu)"
    and "y \<le> 99 \<Longrightarrow> 0 \<notin> set (utctime_text y mo d h mi (Some s) Zulu)"
  using assms
  by (simp_all add: generalizedtime_text_def utctime_text_def fields_text_def fraction_text_def clock_ok_def d2_nonzero)

text \<open>A text of less than 20 bytes is in the string afterwards, whole and terminated.\<close>

lemma c_strlen_text: "0 \<notin> set s \<Longrightarrow> c_strlen (s @ 0 # rest) = length s"
proof -
  assume "0 \<notin> set s"
  then have "takeWhile (\<lambda>c. c \<noteq> 0) (s @ 0 # rest) = s" by (subst takeWhile_append2) auto
  then show ?thesis by (simp add: c_strlen_def)
qed

lemma write_time_text:
  assumes "str_ok s" "str_length s < 2 ^ 31" "length text < 20" "0 \<notin> set text" "write_time alloc s text type = (r, d)"
  shows "r = Some () \<Longrightarrow> has_text d text \<and> str_type d = type"
    and "r = None \<longleftrightarrow> (str_data s = None \<or> str_length s < 20) \<and> OPENSSL_malloc alloc 20 = None"
proof -
  have sn: "snprintf 20 text = text @ [0]" using assms(3) by (simp add: snprintf_def)
  have l: "0 \<le> str_length s" using assms(1) by (simp add: str_ok_def)
  have c: "(of_int (str_length s) :: u64) < 20 \<longleftrightarrow> str_length s < 20"
  proof -
    have "uint (of_int (str_length s) :: u64) = str_length s"
      using l assms(2) by (simp add: uint_word_of_int)
    then show ?thesis by (simp add: word_less_def)
  qed
  show "r = None \<longleftrightarrow> (str_data s = None \<or> str_length s < 20) \<and> OPENSSL_malloc alloc 20 = None"
    using assms(5) c by (auto simp: write_time_def Let_def split: if_splits option.splits)
  assume r: "r = Some ()"
  show "has_text d text \<and> str_type d = type"
  proof (cases "str_data s = None \<or> str_length s < 20")
    case True
    then have "d = s\<lparr>str_data := Some (memcpy (replicate 20 0) 0 (text @ [0])),
        str_length := int (c_strlen (memcpy (replicate 20 0) 0 (text @ [0]))), str_type := type\<rparr>"
      using r assms(5) c sn by (auto simp: write_time_def Let_def split: if_splits)
    moreover have "memcpy (replicate 20 0) 0 (text @ [0]) = text @ 0 # replicate (20 - Suc (length text)) (0 :: u8)"
      using assms(3) by (simp add: memcpy_def)
    ultimately show ?thesis using c_strlen_text [OF assms(4)] by (simp add: has_text_def)
  next
    case False
    then obtain p where p: "str_data s = Some p" "20 \<le> str_length s" by auto
    then have "Suc (length text) \<le> length p" using assms(1,3) by (simp add: str_ok_def)
    then have m: "memcpy p 0 (text @ [0]) = text @ 0 # drop (Suc (length text)) p" by (simp add: memcpy_def)
    have "d = s\<lparr>str_data := Some (memcpy p 0 (text @ [0])), str_length := int (c_strlen (memcpy p 0 (text @ [0]))),
        str_type := type\<rparr>"
      using p assms(5) c sn by (auto simp: write_time_def Let_def split: if_splits)
    then show ?thesis unfolding m using c_strlen_text [OF assms(4)] by (simp add: has_text_def)
  qed
qed

section \<open>Setting a time\<close>

text \<open>The beginning of 1970, and what POSIX says of \<open>gmtime_r\<close> for a result: no leap seconds are counted.\<close>

definition epoch :: int where
  "epoch = seconds \<lparr>tm_sec = 0, tm_min = 0, tm_hour = 0, tm_mday = 1, tm_mon = 0, tm_year = 70\<rparr>"

definition gmtime_gives :: "(int \<Rightarrow> tm option) \<Rightarrow> int \<Rightarrow> tm \<Rightarrow> bool" where
  "gmtime_gives gmtime_r t ts \<longleftrightarrow>
     gmtime_r t = Some ts \<and> valid_tm ts \<and> seconds ts = epoch + t \<and> - 6699 \<le> tm_year ts \<and> tm_year ts \<le> 990000"

definition offset_ok :: "int \<Rightarrow> int \<Rightarrow> bool" where
  "offset_ok off_day offset_sec \<longleftrightarrow> \<bar>off_day\<bar> \<le> 2000000000 \<and> \<bar>offset_sec\<bar> \<le> 2 ^ 31 - 1"

text \<open>A string that is the time \<open>ts\<close> in UTC, in the type for its year.\<close>

definition time_string :: "asn1_string \<Rightarrow> tm \<Rightarrow> bool" where
  "time_string d ts \<longleftrightarrow> valid_tm ts \<and> 0 \<le> tm_year ts \<and> tm_year ts \<le> 8099 \<and>
     (if 50 \<le> tm_year ts \<and> tm_year ts < 150
      then str_type d = V_ASN1_UTCTIME \<and> has_text d (utctime_text (tm_year ts mod 100) (tm_mon ts + 1) (tm_mday ts) (tm_hour ts)
        (tm_min ts) (Some (tm_sec ts)) Zulu)
      else str_type d = V_ASN1_GENERALIZEDTIME \<and> has_text d (generalizedtime_text (tm_year ts + 1900) (tm_mon ts + 1)
        (tm_mday ts) (tm_hour ts) (tm_min ts) (Some (tm_sec ts)) None Zulu))"

definition usable :: "asn1_string option \<Rightarrow> bool" where
  "usable s \<longleftrightarrow> (case s of None \<Rightarrow> True | Some d \<Rightarrow> str_ok d \<and> str_length d < 2 ^ 31)"

lemma adjusted_eq:
  assumes g: "gmtime_gives gmtime_r t ts" and o: "offset_ok off_day offset_sec"
  shows "in_range (epoch + t + 86400 * off_day + offset_sec) \<Longrightarrow> \<exists>ts'. adjusted ts off_day offset_sec = Some (Some (), ts') \<and>
      valid_tm ts' \<and> seconds ts' = epoch + t + 86400 * off_day + offset_sec \<and> 0 \<le> tm_year ts' \<and> tm_year ts' \<le> 8099"
    and "\<not> in_range (epoch + t + 86400 * off_day + offset_sec) \<Longrightarrow> off_day \<noteq> 0 \<or> offset_sec \<noteq> 0 \<Longrightarrow>
      adjusted ts off_day offset_sec = Some (None, ts)"
proof -
  have t: "valid_tm ts" "- 6699 \<le> tm_year ts" "tm_year ts \<le> 990000" "seconds ts = epoch + t"
    using g by (simp_all add: gmtime_gives_def)
  have b: "\<bar>off_day\<bar> \<le> 2000000000" "\<bar>offset_sec\<bar> \<le> 2 ^ 31 - 1" using o by (simp_all add: offset_ok_def)
  have e: "target ts off_day offset_sec = epoch + t + 86400 * off_day + offset_sec" by (simp add: target_def t(4))
  note adj = gmtime_adj [OF t(1-3) b, unfolded e]
  show "\<exists>ts'. adjusted ts off_day offset_sec = Some (Some (), ts') \<and> valid_tm ts' \<and>
      seconds ts' = epoch + t + 86400 * off_day + offset_sec \<and> 0 \<le> tm_year ts' \<and> tm_year ts' \<le> 8099"
    if r: "in_range (epoch + t + 86400 * off_day + offset_sec)"
  proof (cases "off_day \<noteq> 0 \<or> offset_sec \<noteq> 0")
    case True
    then show ?thesis using adj(2) [OF r] by (simp add: adjusted_def)
  next
    case False
    then show ?thesis using in_range_year [OF t(1)] r t by (simp add: adjusted_def)
  qed
  show "adjusted ts off_day offset_sec = Some (None, ts)"
    if "\<not> in_range (epoch + t + 86400 * off_day + offset_sec)" "off_day \<noteq> 0 \<or> offset_sec \<noteq> 0"
    using adj(1) [OF that(1)] that(2) by (simp add: adjusted_def)
qed

lemma new_usable: "ASN1_STRING_type_new alloc type = Some d \<Longrightarrow> str_ok d \<and> str_length d < 2 ^ 31"
  by (auto simp: ASN1_STRING_type_new_def str_ok_def split: if_splits)

lemma length_texts:
  "length (utctime_text y mo d h mi (Some s) Zulu) = 13"
  "length (generalizedtime_text y mo d h mi (Some s) None Zulu) = 15"
  by (simp_all add: utctime_text_def generalizedtime_text_def length_fields_text fraction_text_def)

lemma write_utctime:
  assumes "str_ok s" "str_length s < 2 ^ 31" "valid_tm ts" "50 \<le> tm_year ts" "tm_year ts < 150"
    and "write_time alloc s (utctime_printf ts) V_ASN1_UTCTIME = (Some x, d)"
  shows "time_string d ts"
proof -
  have y: "0 \<le> tm_year ts mod 100" "tm_year ts mod 100 \<le> 99" by simp_all
  have "has_text d (utctime_text (tm_year ts mod 100) (tm_mon ts + 1) (tm_mday ts) (tm_hour ts)
      (tm_min ts) (Some (tm_sec ts)) Zulu) \<and> str_type d = V_ASN1_UTCTIME"
    using write_time_text(1) [OF assms(1,2) _ _ assms(6) [unfolded utctime_printf_eq [OF assms(3-5)]]]
      text_nonzero(2) [OF valid_tm_clock [OF assms(3)] y(1) _ y(2)] y by (simp add: length_texts)
  then show ?thesis using assms(3-5) by (simp add: time_string_def)
qed

lemma write_generalizedtime:
  assumes "str_ok s" "str_length s < 2 ^ 31" "valid_tm ts" "0 \<le> tm_year ts" "tm_year ts \<le> 8099"
    and "\<not> (50 \<le> tm_year ts \<and> tm_year ts < 150)"
    and "write_time alloc s (generalizedtime_printf ts) V_ASN1_GENERALIZEDTIME = (Some x, d)"
  shows "time_string d ts"
proof -
  have y: "- 1900 \<le> tm_year ts" "tm_year ts \<le> 8099" "0 \<le> tm_year ts + 1900" "tm_year ts + 1900 \<le> 9999"
    using assms(4,5) by simp_all
  have "has_text d (generalizedtime_text (tm_year ts + 1900) (tm_mon ts + 1) (tm_mday ts) (tm_hour ts)
      (tm_min ts) (Some (tm_sec ts)) None Zulu) \<and> str_type d = V_ASN1_GENERALIZEDTIME"
    using write_time_text(1) [OF assms(1,2) _ _ assms(7) [unfolded generalizedtime_printf_eq [OF assms(3) y(1,2)]]]
      text_nonzero(1) [OF valid_tm_clock [OF assms(3)] y(3,4)] by (simp add: length_texts)
  then show ?thesis using assms(3-6) by (auto simp: time_string_def)
qed

text \<open>A time in the range is set unless memory is short, and then nothing has changed.\<close>

lemma ASN1_TIME_adj_eq:
  assumes g: "gmtime_gives gmtime_r t ts" and o: "offset_ok off_day offset_sec" and s: "usable s"
    and r: "in_range (epoch + t + 86400 * off_day + offset_sec)"
  obtains d ts' where "ASN1_TIME_adj alloc gmtime_r s t off_day offset_sec = Some (Some (), Some d)" "time_string d ts'"
      "seconds ts' = epoch + t + 86400 * off_day + offset_sec"
  | "ASN1_TIME_adj alloc gmtime_r s t off_day offset_sec = Some (None, s)" "\<exists>n. \<not> alloc n"
proof -
  obtain ts' where ts': "adjusted ts off_day offset_sec = Some (Some (), ts')" "valid_tm ts'"
    "seconds ts' = epoch + t + 86400 * off_day + offset_sec" "0 \<le> tm_year ts'" "tm_year ts' \<le> 8099"
    using adjusted_eq(1) [OF g o r] by blast
  have gm: "gmtime_r t = Some ts" using g by (simp add: gmtime_gives_def)
  define type where "type = (if 50 \<le> tm_year ts' \<and> tm_year ts' < 150 then V_ASN1_UTCTIME else V_ASN1_GENERALIZEDTIME)"
  define content where "content = (if 50 \<le> tm_year ts' \<and> tm_year ts' < 150 then utctime_printf ts' else generalizedtime_printf ts')"
  define obj where "obj = (case s of None \<Rightarrow> ASN1_STRING_type_new alloc type | Some s \<Rightarrow> Some s)"
  have eq: "ASN1_TIME_adj alloc gmtime_r s t off_day offset_sec = (case obj of None \<Rightarrow> Some (None, s)
      | Some str \<Rightarrow> (case write_time alloc str content type of (None, _) \<Rightarrow> Some (None, s) | (Some _, str) \<Rightarrow> Some (Some (), Some str)))"
    by (auto simp: ASN1_TIME_adj_def ASN1_UTCTIME_adj_def ASN1_GENERALIZEDTIME_adj_def OPENSSL_gmtime_def gm ts'(1)
        type_def content_def obj_def split: option.split)
  have malloc: "\<exists>n. \<not> alloc n" if "OPENSSL_malloc alloc n = None" for n
    using that by (auto simp: OPENSSL_malloc_def Let_def split: if_splits)
  show ?thesis
  proof (cases obj)
    case None
    then have "\<exists>n. \<not> alloc n"
      by (auto simp: obj_def ASN1_STRING_type_new_def split: option.splits if_splits intro: malloc)
    with None eq that(2) show ?thesis by simp
  next
    case (Some str)
    have ok: "str_ok str" "str_length str < 2 ^ 31"
      using Some s by (auto simp: obj_def usable_def dest: new_usable split: option.splits)
    obtain x d where w: "write_time alloc str content type = (x, d)" by (rule prod.exhaust)
    show ?thesis
    proof (cases x)
      case None
      then have "OPENSSL_malloc alloc 20 = None"
        using w by (auto simp: write_time_def Let_def split: if_splits option.splits)
      with None Some w eq that(2) malloc show ?thesis by simp
    next
      case (Some y)
      then have "time_string d ts'"
        using w write_utctime [OF ok ts'(2)] write_generalizedtime [OF ok ts'(2,4,5)]
        by (auto simp: type_def content_def split: if_splits)
      with Some w eq \<open>obj = Some str\<close> that(1) ts'(3) show ?thesis by simp
    qed
  qed
qed

text \<open>The time is read back from the string.\<close>

lemma time_string_read:
  assumes "time_string d ts"
  shows "asn1_time_to_tm gmtime_r now tm (Some d) = (Inr (), Some ts)"
proof (cases "50 \<le> tm_year ts \<and> tm_year ts < 150")
  case True
  have y: "(if tm_year ts mod 100 < 50 then tm_year ts mod 100 + 100 else tm_year ts mod 100) = tm_year ts"
  proof (cases "tm_year ts < 100")
    case False
    with True have "tm_year ts mod 100 = tm_year ts - 100" using mod_pos_pos_trivial [of "tm_year ts - 100" 100] by simp
    with True show ?thesis by simp
  qed (use True in simp)
  have "asn1_utctime_to_tm (Some tm) d = subtract_zone Zulu (map_option (set_tm (tm_year ts) (tm_mon ts + 1) (tm_mday ts)
      (tm_hour ts) (tm_min ts) (Some (tm_sec ts))) (Some tm))"
    using utctime_read [of d "tm_year ts mod 100" "tm_mon ts + 1" "tm_mday ts" "tm_hour ts" "tm_min ts" "Some (tm_sec ts)" Zulu]
      assms True valid_tm_clock y by (simp add: time_string_def)
  moreover have "str_type d = V_ASN1_UTCTIME" using assms True by (simp add: time_string_def)
  ultimately show ?thesis by (simp add: asn1_time_to_tm_def subtract_zone_def set_tm_def)
next
  case False
  have "fraction_ok None" by (simp add: fraction_ok_def)
  moreover have "str_type d = V_ASN1_GENERALIZEDTIME" "valid_tm ts" "0 \<le> tm_year ts" "tm_year ts \<le> 8099"
    "has_text d (generalizedtime_text (tm_year ts + 1900) (tm_mon ts + 1)
        (tm_mday ts) (tm_hour ts) (tm_min ts) (Some (tm_sec ts)) None Zulu)"
    using assms False by (auto simp: time_string_def split: if_splits)
  ultimately show ?thesis
    using generalizedtime_read [of d "tm_year ts + 1900" "tm_mon ts + 1" "tm_mday ts" "tm_hour ts" "tm_min ts" "Some (tm_sec ts)"
        None Zulu "Some tm"] valid_tm_clock [of ts]
    by (simp add: asn1_time_to_tm_def subtract_zone_def set_tm_def V_ASN1_UTCTIME_def V_ASN1_GENERALIZEDTIME_def)
qed

text \<open>The difference of two strings is the difference of their times.\<close>

lemma time_string_diff:
  assumes "time_string a ta" "time_string b tb"
  obtains days secs where "ASN1_TIME_diff gmtime_r now tm (Some a) (Some b) = Some (Some (days, secs))"
    "86400 * days + secs = seconds tb - seconds ta" "\<bar>secs\<bar> < 86400" "0 < days \<Longrightarrow> 0 \<le> secs" "days < 0 \<Longrightarrow> secs \<le> 0"
proof -
  have y: "valid_tm ta" "- 1900 \<le> tm_year ta" "tm_year ta \<le> 8099" "valid_tm tb" "- 1900 \<le> tm_year tb" "tm_year tb \<le> 8099"
    using assms by (simp_all add: time_string_def)
  obtain days secs where d: "OPENSSL_gmtime_diff ta tb = Some (Some (days, secs))"
    "86400 * days + secs = seconds tb - seconds ta" "\<bar>secs\<bar> < 86400" "0 < days \<Longrightarrow> 0 \<le> secs" "days < 0 \<Longrightarrow> secs \<le> 0"
    by (rule gmtime_diff [OF y]) blast
  moreover have "ASN1_TIME_diff gmtime_r now tm (Some a) (Some b) = OPENSSL_gmtime_diff ta tb"
    by (simp add: ASN1_TIME_diff_def time_string_read [OF assms(1)] time_string_read [OF assms(2)])
  ultimately show ?thesis by (intro that) simp_all
qed

text \<open>Comparing with a \<open>time_t\<close>: the sign of the difference, for a UTCTime string.\<close>

lemma ASN1_UTCTIME_cmp_time_t_eq:
  assumes "time_string d ts" "50 \<le> tm_year ts" "tm_year ts < 150"
    and "gmtime_gives gmtime_r t tt" "- 1900 \<le> tm_year tt" "tm_year tt \<le> 8099"
  shows "ASN1_UTCTIME_cmp_time_t gmtime_r stm d t = Some (sgn (seconds ts - (epoch + t)))"
proof -
  have ty: "str_type d = V_ASN1_UTCTIME" using assms(1-3) by (simp add: time_string_def)
  then have rd: "asn1_utctime_to_tm (Some stm) d = (Inr (), Some ts)"
    using time_string_read [OF assms(1), of gmtime_r 0 stm] by (simp add: asn1_time_to_tm_def)
  have g: "gmtime_r t = Some tt" "valid_tm tt" "seconds tt = epoch + t" using assms(4) by (simp_all add: gmtime_gives_def)
  have y: "valid_tm ts" "- 1900 \<le> tm_year ts" "tm_year ts \<le> 8099" using assms(1) by (simp_all add: time_string_def)
  obtain days secs where d: "OPENSSL_gmtime_diff tt ts = Some (Some (days, secs))"
    "86400 * days + secs = seconds ts - seconds tt" "\<bar>secs\<bar> < 86400" "0 < days \<Longrightarrow> 0 \<le> secs" "days < 0 \<Longrightarrow> secs \<le> 0"
    by (rule gmtime_diff [OF g(2) assms(5,6) y]) blast
  have "ASN1_UTCTIME_cmp_time_t gmtime_r stm d t =
      Some (if days > 0 then 1 else if days < 0 then - 1 else if secs > 0 then 1 else if secs < 0 then - 1 else 0)"
    by (simp add: ASN1_UTCTIME_cmp_time_t_def rd OPENSSL_gmtime_def g(1) d(1))
  also have "\<dots> = Some (sgn (86400 * days + secs))"
    using d(4,5) by (auto simp: sgn_if)
  finally show ?thesis using d(2) g(3) by simp
qed

section \<open>Setting a time from text\<close>

lemma has_text_stack: "length str < 2 ^ 31 \<Longrightarrow> has_text (stack_string type str) str"
  by (simp add: has_text_def stack_string_def to_int_fits fits_int_def)

lemma stack_string_type [simp]: "str_type (stack_string type str) = type"
  by (simp add: stack_string_def)

lemma stack_check:
  assumes "length str < 2 ^ 31"
  shows "ASN1_UTCTIME_check (stack_string V_ASN1_UTCTIME str) = (if utctime_format str then Inr () else Inl Rejected)"
    and "ASN1_GENERALIZEDTIME_check (stack_string V_ASN1_GENERALIZEDTIME str) =
      (if generalizedtime_format str then Inr () else Inl Rejected)"
  by (rule utctime_check_eq generalizedtime_check_eq; rule has_text_stack [OF assms] stack_string_type)+

lemma stack_contents:
  "length str < 2 ^ 31 \<Longrightarrow> take (nat (str_length (stack_string type str))) (time_data (stack_string type str)) = str"
  by (simp add: stack_string_def time_data_def to_int_fits fits_int_def)

text \<open>
  A text is accepted if it has one of the two formats, UTCTime before GeneralizedTime, and is then the
  contents of the string.
\<close>

lemma ASN1_TIME_set_string_eq:
  assumes "str_ok s" "int (length str) < int_max" "ASN1_TIME_set_string alloc (Some s) str = Some (r, s')"
  shows "r = Some () \<Longrightarrow> \<exists>d. s' = Some d \<and> has_text d str \<and>
      (if utctime_format str then str_type d = V_ASN1_UTCTIME
       else generalizedtime_format str \<and> str_type d = V_ASN1_GENERALIZEDTIME)"
    and "\<not> utctime_format str \<Longrightarrow> \<not> generalizedtime_format str \<Longrightarrow> r = None \<and> s' = Some s"
    and "utctime_format str \<or> generalizedtime_format str \<Longrightarrow> r = None \<Longrightarrow> \<exists>n. \<not> alloc n"
proof -
  let ?U = "stack_string V_ASN1_UTCTIME str" and ?G = "stack_string V_ASN1_GENERALIZEDTIME str"
  define copy where "copy t = map_option (\<lambda>(r, d). (r, Some d)) (ASN1_STRING_copy alloc s (Some t))" for t
  have short: "length str < 2 ^ 31" using assms(2) by (simp add: int_max_def)
  have G: "?U\<lparr>str_type := V_ASN1_GENERALIZEDTIME\<rparr> = ?G" by (simp add: stack_string_def)
  have chk: "ASN1_TIME_check ?U = (if utctime_format str then Inr () else Inl Rejected)"
    "ASN1_TIME_check ?G = (if generalizedtime_format str then Inr () else Inl Rejected)"
    using stack_check [OF short] by (simp_all add: ASN1_TIME_check_def V_ASN1_UTCTIME_def V_ASN1_GENERALIZEDTIME_def)
  have eq: "Some (r, s') = (if utctime_format str then copy ?U else if generalizedtime_format str then copy ?G else Some (None, Some s))"
    using assms(3) by (auto simp: ASN1_TIME_set_string_def Let_def G chk copy_def split: if_splits)
  have ok: "str_ok (s\<lparr>str_type := ty\<rparr>)" for ty
    using assms(1) by (simp add: str_ok_def split: option.splits)
  have cp: "copy (stack_string ty str) = map_option (\<lambda>r. case r of
      (None, d) \<Rightarrow> (None, Some d) | (Some _, d) \<Rightarrow> (Some (), Some (d\<lparr>str_flags := 0\<rparr>)))
      (ASN1_STRING_set alloc (s\<lparr>str_type := ty\<rparr>) str)" for ty
  proof -
    obtain r d where "ASN1_STRING_set alloc (s\<lparr>str_type := ty\<rparr>) str = Some (r, d)"
      using ASN1_STRING_set_defined [OF assms(2)] by blast
    with stack_contents [OF short, of ty] show ?thesis
      by (simp add: copy_def ASN1_STRING_copy_def time_data_def stack_string_def andthen_def split: option.split)
  qed
  have good: "\<exists>d. s' = Some d \<and> has_text d str \<and> str_type d = ty" if "Some (r, s') = copy (stack_string ty str)" "r = Some ()" for ty
    using that(1) [symmetric] that(2) ASN1_STRING_set_text [OF ok [of ty]]
    by (auto simp: cp has_text_def split: prod.splits option.splits)
  have bad: "\<exists>n. \<not> alloc n" if "Some (r, s') = copy (stack_string ty str)" "r = None" for ty
    using that(1) [symmetric] that(2) by (auto simp: cp ASN1_STRING_set_def OPENSSL_malloc_def Let_def split: prod.splits option.splits if_splits)
  show "r = Some () \<Longrightarrow> \<exists>d. s' = Some d \<and> has_text d str \<and>
      (if utctime_format str then str_type d = V_ASN1_UTCTIME
       else generalizedtime_format str \<and> str_type d = V_ASN1_GENERALIZEDTIME)"
    using eq good by (auto split: if_splits)
  show "\<not> utctime_format str \<Longrightarrow> \<not> generalizedtime_format str \<Longrightarrow> r = None \<and> s' = Some s"
    using eq by simp
  show "utctime_format str \<or> generalizedtime_format str \<Longrightarrow> r = None \<Longrightarrow> \<exists>n. \<not> alloc n"
    using eq bad by (auto split: if_splits)
qed

section \<open>Conversion to GeneralizedTime\<close>

lemma texts_nonzero:
  assumes "0 \<le> y" "y \<le> 99" "clock_ok mo d h mi s z"
  shows "0 \<notin> set (utctime_text y mo d h mi s z)"
proof -
  have "0 \<notin> set (zone_text z)" using assms(3) by (cases z) (simp_all add: clock_ok_def d2_nonzero)
  moreover have "0 \<notin> set (fields_text [y, mo, d, h, mi] s)"
    using assms by (cases s) (simp_all add: fields_text_def clock_ok_def d2_nonzero)
  ultimately show ?thesis by (simp add: utctime_text_def)
qed

lemma centuries: "d2 19 = [49, 57]" "d2 20 = [50, 48]"
  by code_simp+

lemma first_digit:
  assumes "0 \<le> y" "y \<le> 99"
  shows "d2 y ! 0 \<ge> 53 \<longleftrightarrow> 50 \<le> y"
proof -
  have "list_all (\<lambda>y. d2 y ! 0 \<ge> 53 \<longleftrightarrow> 50 \<le> y) [0..99]" by code_simp
  then show ?thesis using assms by (simp add: list_all_iff)
qed

text \<open>Prepending two characters to a text in a buffer that has room for both and the zero.\<close>

lemma prepend_text:
  assumes "length buf \<ge> length b + 3" "0 \<notin> set b" "c \<noteq> 0" "c' \<noteq> 0"
  shows "memcpy (memcpy buf 0 (fst (OPENSSL_strlcpy [c, c'] (length b + 3)))) 0
      (fst (OPENSSL_strlcat (memcpy buf 0 (fst (OPENSSL_strlcpy [c, c'] (length b + 3)))) b (length b + 3))) =
    c # c' # b @ 0 # drop (length b + 3) buf"
proof -
  define n where "n = length b"
  have cpy: "fst (OPENSSL_strlcpy [c, c'] (n + 3)) = [c, c', 0]" by (simp add: OPENSSL_strlcpy_eq numeral_3_eq_3)
  define s1 where "s1 = memcpy buf 0 [c, c', 0]"
  have s1: "s1 = c # c' # 0 # drop 3 buf" by (simp add: s1_def memcpy_def numeral_3_eq_3)
  have l: "OPENSSL_strnlen (take (n + 3) s1) = 2" using assms(3,4) by (simp add: s1 numeral_3_eq_3)
  have cat: "fst (OPENSSL_strlcat s1 b (n + 3)) = c # c' # b @ [0]"
    using assms(3,4) by (simp add: OPENSSL_strlcat_def OPENSSL_strlcpy_eq n_def numeral_3_eq_3 s1)
  have "memcpy s1 0 (c # c' # b @ [0]) = c # c' # b @ 0 # drop (n + 3) buf"
    using assms(1) by (simp add: memcpy_def s1 n_def numeral_3_eq_3)
  then show ?thesis unfolding n_def [symmetric] cpy s1_def [symmetric] cat .
qed

lemma set_len_room:
  assumes "str_ok r" "ASN1_STRING_set_len alloc r n = Some (Some (), d)"
  shows "str_length d = int n" "str_type d = str_type r" "\<exists>buf. str_data d = Some buf \<and> n + 1 \<le> length buf"
  using assms
  by (auto simp: ASN1_STRING_set_len_def resize_def str_ok_def split: if_splits option.splits)

lemma generalizedtime_of_utctime:
  assumes t: "has_text t (utctime_text y mo d h mi s z)" "str_type t = V_ASN1_UTCTIME"
    and f: "0 \<le> y" "y \<le> 99" "clock_ok mo d h mi s z" and r: "str_ok r"
    and g: "generalizedtime_of alloc t r = Some (Some (), ret)"
  shows "has_text ret (generalizedtime_text (if y < 50 then 2000 + y else 1900 + y) mo d h mi s None z)"
    and "str_type ret = str_type r"
proof -
  define b where "b = utctime_text y mo d h mi s z"
  obtain rest where b: "str_data t = Some (b @ 0 # rest)" "str_length t = int (length b)"
    using t(1) by (auto simp: has_text_def b_def)
  have b0: "0 \<notin> set b" unfolding b_def by (rule texts_nonzero [OF f])
  have td: "time_data t = b @ 0 # rest" by (simp add: time_data_def b(1))
  have str: "takeWhile (\<lambda>c. c \<noteq> 0) (b @ 0 # rest) = b" using b0 by (subst takeWhile_append2) auto
  have hd: "time_data t ! 0 \<ge> 53 \<longleftrightarrow> \<not> y < 50"
    using first_digit [OF f(1,2)] by (auto simp: td b_def utctime_text_def fields_text_def d2_def)
  have nt: "str_type t \<noteq> V_ASN1_GENERALIZEDTIME" by (simp add: t(2) V_ASN1_UTCTIME_def V_ASN1_GENERALIZEDTIME_def)
  have n: "nat (str_length t + 2) = length b + 2" "nat (str_length t + 2 + 1) = length b + 3" by (simp_all add: b(2))
  define c where "c = (if time_data t ! 0 \<ge> 53 then [49, 57] else [50, 48 :: u8])"
  obtain e where e: "ASN1_STRING_set_len alloc r (length b + 2) = Some (Some (), e)"
    and ret: "ret = e\<lparr>str_data := Some (memcpy (memcpy (time_data e) 0 (fst (OPENSSL_strlcpy c (length b + 3)))) 0
      (fst (OPENSSL_strlcat (memcpy (time_data e) 0 (fst (OPENSSL_strlcpy c (length b + 3)))) b (length b + 3))))\<rparr>"
    using g nt unfolding generalizedtime_of_def n c_def [symmetric] Let_def
    by (auto simp: andthen_eq_Some td str split: if_splits)
  obtain buf where buf: "str_data e = Some buf" "length b + 3 \<le> length buf" "str_length e = int (length b + 2)" "str_type e = str_type r"
    using set_len_room [OF r e] by auto
  have "\<exists>x x'. c = [x, x'] \<and> x \<noteq> 0 \<and> x' \<noteq> 0" by (simp add: c_def)
  then have sd: "str_data ret = Some (c @ b @ 0 # drop (length b + 3) buf)"
    using prepend_text [OF buf(2) b0] by (auto simp: ret time_data_def buf(1))
  have "c @ b = generalizedtime_text (if y < 50 then 2000 + y else 1900 + y) mo d h mi s None z"
  proof (cases "y < 50")
    case True
    then have "(2000 + y) div 100 = 20" "(2000 + y) mod 100 = y"
      using f(1) mod_mult_self1 [of y 20 100] by (simp_all add: add.commute)
    with True hd show ?thesis
      by (simp add: c_def b_def utctime_text_def generalizedtime_text_def fields_text_def fraction_text_def centuries)
  next
    case False
    then have "(1900 + y) div 100 = 19" "(1900 + y) mod 100 = y"
      using f mod_mult_self1 [of y 19 100] by (simp_all add: add.commute)
    with False hd show ?thesis
      by (simp add: c_def b_def utctime_text_def generalizedtime_text_def fields_text_def fraction_text_def centuries)
  qed
  moreover have "length (c @ b) = length b + 2" by (simp add: c_def)
  moreover have "str_length ret = int (length b + 2)" by (simp add: ret buf(3))
  ultimately show "has_text ret (generalizedtime_text (if y < 50 then 2000 + y else 1900 + y) mo d h mi s None z)"
    using sd unfolding has_text_def by (metis append.assoc)
  show "str_type ret = str_type r" by (simp add: ret buf(4))
qed

text \<open>
  The string that is returned denotes the same time. Its type is set if it is a new string, and not if it
  is one that the caller gave.
\<close>

lemma to_generalizedtime_same:
  assumes t: "has_text t (utctime_text y mo d h mi s z)" "str_type t = V_ASN1_UTCTIME"
    and f: "0 \<le> y" "y \<le> 99" "clock_ok mo d h mi s z"
    and g: "ASN1_TIME_to_generalizedtime alloc t out = Some (Some ret, out')"
    and o: "\<And>r. out = Some (Some r) \<Longrightarrow> str_ok r \<and> str_type r = V_ASN1_GENERALIZEDTIME"
  shows "str_type ret = V_ASN1_GENERALIZEDTIME" "asn1_generalizedtime_to_tm tm ret = asn1_utctime_to_tm tm t"
proof -
  obtain r where r: "(case out of Some (Some r) \<Rightarrow> Some r | _ \<Rightarrow> ASN1_STRING_type_new alloc V_ASN1_GENERALIZEDTIME) = Some r"
      "generalizedtime_of alloc t r = Some (Some (), ret)"
    using g unfolding ASN1_TIME_to_generalizedtime_def
    by (auto split: sum.splits parse_error.splits option.split_asm prod.splits)
  have new: "str_ok r \<and> str_type r = V_ASN1_GENERALIZEDTIME" if "ASN1_STRING_type_new alloc V_ASN1_GENERALIZEDTIME = Some r"
    using that by (auto simp: ASN1_STRING_type_new_def str_ok_def split: if_splits)
  have n: "str_ok r" "str_type r = V_ASN1_GENERALIZEDTIME"
    using r(1) new o by (auto split: option.splits)
  note ret = generalizedtime_of_utctime [OF t f n(1) r(2)]
  show ty: "str_type ret = V_ASN1_GENERALIZEDTIME" using ret(2) n(2) by simp
  have "asn1_generalizedtime_to_tm tm ret =
      subtract_zone z (map_option (set_tm ((if y < 50 then 2000 + y else 1900 + y) - 1900) mo d h mi s) tm)"
    by (rule generalizedtime_read [OF ret(1) ty]) (use f in \<open>simp_all add: fraction_ok_def\<close>)
  also have "(if y < 50 then 2000 + y else 1900 + y) - 1900 = (if y < 50 then y + 100 else y)" by simp
  also have "subtract_zone z (map_option (set_tm (if y < 50 then y + 100 else y) mo d h mi s) tm) = asn1_utctime_to_tm tm t"
    by (rule utctime_read [OF t f, symmetric])
  finally show "asn1_generalizedtime_to_tm tm ret = asn1_utctime_to_tm tm t" .
qed

lemma to_generalizedtime_type_kept:
  assumes t: "has_text t (utctime_text y mo d h mi s z)" "str_type t = V_ASN1_UTCTIME"
    and f: "0 \<le> y" "y \<le> 99" "clock_ok mo d h mi s z" and r: "str_ok r"
    and g: "ASN1_TIME_to_generalizedtime alloc t (Some (Some r)) = Some (Some ret, out')"
  shows "str_type ret = str_type r"
proof -
  have "generalizedtime_of alloc t r = Some (Some (), ret)"
    using g by (auto simp: ASN1_TIME_to_generalizedtime_def split: sum.splits parse_error.splits option.splits prod.splits)
  then show ?thesis by (rule generalizedtime_of_utctime(2) [OF t f r])
qed

text \<open>A year of five digits: \<open>ASN1_GENERALIZEDTIME_set\<close> writes what \<open>ASN1_GENERALIZEDTIME_check\<close> rejects.\<close>

lemma year_10000:
  "generalizedtime_printf \<lparr>tm_sec = 0, tm_min = 0, tm_hour = 0, tm_mday = 1, tm_mon = 0, tm_year = 8100\<rparr> =
    [49, 48, 48, 48, 48, 48, 49, 48, 49, 48, 48, 48, 48, 48, 48, 90]"
  by (simp add: generalizedtime_printf_def printf_0d_def decimal.simps)

section \<open>The hypotheses on \<open>gmtime_r\<close> can be met\<close>

text \<open>A \<open>gmtime_r\<close> for the years 1900 to 9999, out of the calendar formulas.\<close>

definition gmtime_example :: "int \<Rightarrow> tm option" where
  "gmtime_example t =
     (case julian_to_date (t div 86400 + 2440588) of (y, m, d) \<Rightarrow>
        let s = t mod 86400
        in Some \<lparr>tm_sec = s smod 60, tm_min = (s sdiv 60) smod 60, tm_hour = s sdiv 3600, tm_mday = d, tm_mon = m - 1,
             tm_year = y - 1900\<rparr>)"

lemma epoch_eq: "epoch = 86400 * 719529"
  by (simp add: epoch_def seconds_def day_number_def month_starts year_start_def)

lemma gmtime_example_gives:
  assumes "in_range (epoch + t)"
  obtains ts where "gmtime_gives gmtime_example t ts" "0 \<le> tm_year ts" "tm_year ts \<le> 8099"
proof -
  obtain y m d where jd: "julian_to_date (t div 86400 + 2440588) = (y, m, d)" by (rule prod_cases3)
  define s where "s = t mod 86400"
  have s: "0 \<le> s" "s < 86400" "t = 86400 * (t div 86400) + s" by (simp_all add: s_def)
  define ts where "ts = \<lparr>tm_sec = s smod 60, tm_min = (s sdiv 60) smod 60, tm_hour = s sdiv 3600, tm_mday = d, tm_mon = m - 1,
    tm_year = y - 1900\<rparr>"
  have g: "gmtime_example t = Some ts" by (simp add: gmtime_example_def jd ts_def s_def Let_def)
  have "0 \<le> t div 86400 + 2440588"
    using assms s by (simp add: in_range_def epoch_eq year_starts)
  note date = julian_to_date_ok [OF this jd]
  have v: "valid_tm ts" using date(1) split_seconds [OF s(1,2)] by (simp add: valid_tm_def ts_def)
  have "seconds ts = 86400 * day_number y m d + (3600 * (s sdiv 3600) + 60 * ((s sdiv 60) smod 60) + s smod 60)"
    by (simp add: seconds_def ts_def)
  also have "\<dots> = epoch + t" unfolding split_seconds(7) [OF s(1,2)] using date(2) s(3) by (simp add: epoch_eq)
  finally have e: "seconds ts = epoch + t" .
  have "0 \<le> tm_year ts" "tm_year ts \<le> 8099" using in_range_year [OF v] assms e by simp_all
  with g v e show ?thesis by (intro that [of ts]) (simp_all add: gmtime_gives_def)
qed

lemma ASN1_TIME_set_string_of:
  assumes "gmtime_gives gmtime_r t ts" "in_range (epoch + t)" "usable s"
    "ASN1_TIME_set alloc gmtime_r s t = Some (Some (), Some d)"
  obtains ts' where "time_string d ts'" "seconds ts' = epoch + t"
proof -
  have o: "offset_ok 0 0" and r: "in_range (epoch + t + 86400 * 0 + 0)"
    using assms(2) by (simp_all add: offset_ok_def)
  show ?thesis
    by (rule ASN1_TIME_adj_eq [OF assms(1) o assms(3) r, of alloc])
      (use assms(4) that in \<open>simp_all add: ASN1_TIME_set_def\<close>)
qed

end
