(* ===== verification/OID.thy ===== *)
theory OID
  imports ASN1_Values
begin

text \<open>
  Object identifiers between their DER contents and dotted decimal text:
  \<open>CBB_add_asn1_oid_from_text\<close> of \<open>cbb.c\<close> and \<open>CBS_asn1_oid_to_text\<close> of \<open>cbs.c\<close>. The specification is
  a list of components with its two encodings, \<open>dotted\<close> and \<open>der_oid\<close>; the two functions are proved to
  translate exactly between them. The text characters are bytes: 46 is the dot and 48 to 57 the digits.
\<close>

section \<open>Definitions\<close>

definition add_decimal :: "(nat \<Rightarrow> bool) \<Rightarrow> nat \<Rightarrow> u64 \<Rightarrow> CBB \<Rightarrow> (unit, CBB) outcome" where
  "add_decimal alloc d v = CBB_add_bytes alloc d (decimal (unat v))"

text \<open>The loop over the components after the first.\<close>

function oid_text_loop :: "(nat \<Rightarrow> bool) \<Rightarrow> CBS \<Rightarrow> CBB \<Rightarrow> (unit, CBB) outcome" where
  "oid_text_loop alloc copy cbb =
     (if copy = [] then (Some (), cbb)
      else case parse_base128_integer copy of
        (None, _) \<Rightarrow> (None, cbb)
      | (Some v, copy') \<Rightarrow>
          andthen (CBB_add_u8 alloc 0 46 cbb) (\<lambda>_ cbb.
          andthen (add_decimal alloc 0 v cbb) (\<lambda>_. oid_text_loop alloc copy')))"
  by pat_completeness auto
termination
  by (relation "measure (\<lambda>(alloc, copy, cbb). length copy)") (auto dest: base128_codec.rd_progress sym)

declare oid_text_loop.simps [simp del]

text \<open>The text with its NUL terminator, or \<open>None\<close> for NULL.\<close>

definition CBS_asn1_oid_to_text :: "(nat \<Rightarrow> bool) \<Rightarrow> CBS \<Rightarrow> bytes option" where
  "CBS_asn1_oid_to_text alloc cbs =
     build alloc 32 (\<lambda>cbb.
       case parse_base128_integer cbs of
         (None, _) \<Rightarrow> (None, cbb)
       | (Some v, copy) \<Rightarrow>
           andthen
             (if v \<ge> 80 then
                andthen (CBB_add_bytes alloc 0 [50, 46] cbb) (\<lambda>_. add_decimal alloc 0 (v - 80))
              else
                andthen (add_decimal alloc 0 (v div 40) cbb) (\<lambda>_ cbb.
                andthen (CBB_add_u8 alloc 0 46 cbb) (\<lambda>_. add_decimal alloc 0 (v mod 40))))
             (\<lambda>_ cbb.
           andthen (oid_text_loop alloc copy cbb) (\<lambda>_ cbb.
             CBB_add_u8 alloc 0 0 cbb)))"

fun dotted_decimal_loop :: "u64 \<Rightarrow> bool \<Rightarrow> CBS \<Rightarrow> (u64, CBS) outcome" where
  "dotted_decimal_loop out seen_digit [] = (if seen_digit then Some out else None, [])"
| "dotted_decimal_loop out seen_digit (u # cbs) =
     (if u = 46 \<and> CBS_len cbs > 0 then (if seen_digit then Some out else None, cbs)
      else if u < 48 \<or> u > 57 \<or> seen_digit \<and> out = 0 \<or> out > - 1 div 10 \<or>
         out * 10 > - 1 - ucast (u - 48) then (None, cbs)
      else dotted_decimal_loop (out * 10 + ucast (u - 48)) True cbs)"

definition parse_dotted_decimal :: "CBS \<Rightarrow> (u64, CBS) outcome" where
  "parse_dotted_decimal cbs = dotted_decimal_loop 0 False cbs"

lemma dotted_decimal_loop_length: "length (snd (dotted_decimal_loop out seen s)) \<le> length s"
proof (induction out seen s rule: dotted_decimal_loop.induct)
  case (2 out seen u cbs)
  then show ?case by (auto intro: le_SucI)
qed simp

lemma parse_dotted_decimal_progress: "s \<noteq> [] \<Longrightarrow> parse_dotted_decimal s = (r, t) \<Longrightarrow> length t < length s"
proof -
  assume a: "s \<noteq> []" "parse_dotted_decimal s = (r, t)"
  then obtain u cbs where s: "s = u # cbs" by (cases s) auto
  have "length (snd (dotted_decimal_loop 0 False (u # cbs))) \<le> length cbs"
    using dotted_decimal_loop_length by auto
  with a(2) show "length t < length s" by (simp add: s parse_dotted_decimal_def)
qed

function oid_components_loop :: "(nat \<Rightarrow> bool) \<Rightarrow> nat \<Rightarrow> CBS \<Rightarrow> CBB \<Rightarrow> (unit, CBB) outcome" where
  "oid_components_loop alloc d cbs cbb =
     (if cbs = [] then (Some (), cbb)
      else case parse_dotted_decimal cbs of
        (None, _) \<Rightarrow> (None, cbb)
      | (Some a, cbs') \<Rightarrow> andthen (add_base128_integer alloc d a cbb) (\<lambda>_. oid_components_loop alloc d cbs'))"
  by pat_completeness auto
termination
  by (relation "measure (\<lambda>(alloc, d, cbs, cbb). length cbs)")
    (auto dest: parse_dotted_decimal_progress sym)

declare oid_components_loop.simps [simp del]

definition CBB_add_asn1_oid_from_text ::
  "(nat \<Rightarrow> bool) \<Rightarrow> nat \<Rightarrow> bytes \<Rightarrow> CBB \<Rightarrow> (unit, CBB) outcome" where
  "CBB_add_asn1_oid_from_text alloc d text cbb =
     andthen (CBB_flush alloc d cbb) (\<lambda>_ cbb.
       case parse_dotted_decimal text of
         (None, _) \<Rightarrow> (None, cbb)
       | (Some a, cbs) \<Rightarrow>
      (case parse_dotted_decimal cbs of
         (None, _) \<Rightarrow> (None, cbb)
       | (Some b, cbs) \<Rightarrow>
           if a > 2 \<or> a < 2 \<and> b > 39 \<or> b > - 1 - 80 then (None, cbb)
           else andthen (add_base128_integer alloc d (40 * a + b) cbb) (\<lambda>_. oid_components_loop alloc d cbs)))"

section \<open>Decimal numbers\<close>

text \<open>What follows a component: nothing at the end of the text, a dot and more text otherwise.\<close>

definition sep :: "bytes \<Rightarrow> bytes" where
  "sep t = (if t = [] then [] else 46 # t)"

lemma all_ones: "unat (- 1 :: u64) = 2 ^ 64 - 1"
  by (simp add: unsigned_minus_1_eq_mask mask_eq_exp_minus_1)

text \<open>One turn of the loop on a digit, with its overflow checks read as arithmetic.\<close>

lemma digit_step:
  fixes out :: u64 and u :: u8
  assumes "48 \<le> u" "u \<le> 57"
  defines "k \<equiv> unat u - 48"
  shows "k < 10" "u = of_nat (48 + k)"
    "out > - 1 div 10 \<or> out * 10 > - 1 - ucast (u - 48) \<longleftrightarrow> \<not> unat out * 10 + k < 2 ^ 64"
    "unat out * 10 + k < 2 ^ 64 \<Longrightarrow> unat (out * 10 + ucast (u - 48)) = unat out * 10 + k"
proof -
  have u: "48 \<le> unat u" "unat u \<le> 57" using assms(1,2) by (simp_all add: word_le_nat_alt)
  then show k: "k < 10" by (simp add: k_def)
  show "u = of_nat (48 + k)" using u by (simp add: k_def word_unat_eq_iff)
  have c: "unat (ucast (u - 48) :: u64) = k"
    using u by (simp add: unat_ucast_up unat_sub [OF assms(1)] k_def)
  have m: "unat (- 1 - ucast (u - 48) :: u64) = 2 ^ 64 - 1 - k"
  proof -
    have "ucast (u - 48) \<le> (- 1 :: u64)" by simp
    then show ?thesis by (simp only: unat_sub c all_ones)
  qed
  have d: "unat (- 1 div 10 :: u64) = (2 ^ 64 - 1) div 10"
    by (simp only: unat_div all_ones) simp
  show "out > - 1 div 10 \<or> out * 10 > - 1 - ucast (u - 48) \<longleftrightarrow> \<not> unat out * 10 + k < 2 ^ 64"
  proof (cases "unat out * 10 < 2 ^ 64")
    case True
    then have "unat (out * 10) = unat out * 10" by (simp add: unat_word_ariths)
    with True k show ?thesis by (auto simp: word_less_nat_alt d m)
  next
    case False
    then show ?thesis by (auto simp: word_less_nat_alt d)
  qed
  show "unat (out * 10 + ucast (u - 48)) = unat out * 10 + k" if "unat out * 10 + k < 2 ^ 64"
    using that by (simp add: unat_word_ariths c)
qed

lemma dotted_decimal_loop_digit:
  fixes out :: u64 and u :: u8
  assumes "48 \<le> u" "u \<le> 57"
  defines "k \<equiv> unat u - 48"
  shows "dotted_decimal_loop out seen (u # s) =
    (if seen \<and> out = 0 \<or> \<not> unat out * 10 + k < 2 ^ 64 then (None, s)
     else dotted_decimal_loop (of_nat (unat out * 10 + k)) True s)"
proof -
  have u: "\<not> u < 48" "\<not> u > 57" "u \<noteq> 46" using assms(1,2) by (auto simp: not_less)
  note d = digit_step [OF assms(1,2), folded k_def]
  have "out * 10 + ucast (u - 48) = of_nat (unat out * 10 + k)" if "unat out * 10 + k < 2 ^ 64"
    using d(4) [OF that] that by (simp add: word_unat_eq_iff unat_of_nat del: of_nat_add of_nat_mult)
  with u d(3) [of out] show ?thesis by auto
qed

lemma decimal_step:
  "k < 10 \<Longrightarrow> decimal (m * 10 + k) = (if m = 0 then [] else decimal m) @ [of_nat (48 + k)]"
  by (cases "m = 0") (subst decimal.simps; auto simp del: of_nat_add)+

declare dotted_decimal_loop.simps(2) [simp del]

lemma dotted_decimal_loop_sound:
  "dotted_decimal_loop out seen s = (Some v, t) \<Longrightarrow> seen \<or> out = 0 \<Longrightarrow>
   (if seen then decimal (unat out) else []) @ s = decimal (unat v) @ sep t"
proof (induction s arbitrary: out seen)
  case Nil
  then show ?case by (auto simp: sep_def split: if_splits)
next
  case (Cons u s)
  show ?case
  proof (cases "48 \<le> u \<and> u \<le> 57")
    case False
    with Cons.prems show ?thesis
      by (auto simp: dotted_decimal_loop.simps(2) CBS_len_def sep_def not_le split: if_splits)
  next
    case True
    then have u: "48 \<le> u" "u \<le> 57" by simp_all
    define k where "k = unat u - 48"
    note d = dotted_decimal_loop_digit [OF u, of out seen s, folded k_def]
    from Cons.prems d have l: "unat out * 10 + k < 2 ^ 64" "\<not> (seen \<and> out = 0)"
      "dotted_decimal_loop (of_nat (unat out * 10 + k)) True s = (Some v, t)"
      by (auto split: if_splits)
    have n: "unat (of_nat (unat out * 10 + k) :: u64) = unat out * 10 + k"
      using l(1) by (simp add: unat_of_nat del: of_nat_add of_nat_mult)
    have "seen \<longleftrightarrow> unat out \<noteq> 0" using l(2) Cons.prems(2) by (auto simp: unsigned_eq_0_iff)
    then have "decimal (unat out * 10 + k) = (if seen then decimal (unat out) else []) @ [u]"
      using decimal_step [of k "unat out"] digit_step(1,2) [OF u, folded k_def] by auto
    moreover have "decimal (unat out * 10 + k) @ s = decimal (unat v) @ sep t"
      using Cons.IH [OF l(3)] by (simp only: n simp_thms if_True)
    ultimately show ?thesis by simp
  qed
qed

lemma dotted_decimal_loop_complete:
  "n < 2 ^ 64 \<Longrightarrow> dotted_decimal_loop 0 False (decimal n @ s) = dotted_decimal_loop (of_nat n) True s"
proof (induction n arbitrary: s rule: decimal.induct)
  case (1 n)
  define k where "k = n mod 10"
  define m where "m = n div 10"
  have n: "n = m * 10 + k" "k < 10" by (simp_all add: k_def m_def)
  define u :: u8 where "u = of_nat (48 + k)"
  have uk: "unat u = 48 + k" using n(2) by (simp add: u_def unat_of_nat del: of_nat_add)
  then have u: "48 \<le> u" "u \<le> 57" using n(2) by (simp_all add: word_le_nat_alt)
  note d = dotted_decimal_loop_digit [OF u, unfolded uk]
  have dn: "decimal n = (if m = 0 then [] else decimal m) @ [u]"
    unfolding n(1) u_def by (rule decimal_step [OF n(2)])
  show ?case
  proof (cases "m = 0")
    case True
    with dn n d [of 0 False s] show ?thesis by simp
  next
    case False
    then have "\<not> n < 10" using n by simp
    have m: "unat (of_nat m :: u64) = m" using 1(2) n by (simp add: unat_of_nat)
    then have "(of_nat m :: u64) \<noteq> 0" using False by (metis unsigned_0)
    moreover have "dotted_decimal_loop 0 False (decimal n @ s) = dotted_decimal_loop (of_nat m) True (u # s)"
      using "1.IH" [OF \<open>\<not> n < 10\<close>, of "u # s"] 1(2) dn False n by (simp add: m_def [symmetric])
    ultimately show ?thesis using d [of "of_nat m" True s] m n 1(2) by simp
  qed
qed

theorem parse_dotted_decimal_iff:
  "parse_dotted_decimal s = (Some v, t) \<longleftrightarrow> s = decimal (unat v) @ sep t"
proof
  assume "parse_dotted_decimal s = (Some v, t)"
  then show "s = decimal (unat v) @ sep t"
    using dotted_decimal_loop_sound [of 0 False s v t] by (simp add: parse_dotted_decimal_def)
next
  assume s: "s = decimal (unat v) @ sep t"
  have "dotted_decimal_loop v True (sep t) = (Some v, t)"
    by (simp add: sep_def dotted_decimal_loop.simps(2) CBS_len_def)
  with s dotted_decimal_loop_complete [of "unat v" "sep t"] unsigned_less [of v, where ?'a = nat]
  show "parse_dotted_decimal s = (Some v, t)" by (simp add: parse_dotted_decimal_def)
qed

section \<open>Object identifiers\<close>

fun dotted :: "nat list \<Rightarrow> bytes" where
  "dotted [] = []"
| "dotted (n # ns) = decimal n @ sep (dotted ns)"

fun der_oid :: "nat list \<Rightarrow> bytes" where
  "der_oid (a # b # cs) = concat (map base128 ((40 * a + b) # cs))"
| "der_oid _ = []"

fun valid_oid :: "nat list \<Rightarrow> bool" where
  "valid_oid (a # b # cs) \<longleftrightarrow>
     a \<le> 2 \<and> (a < 2 \<longrightarrow> b \<le> 39) \<and> 40 * a + b < 2 ^ 64 \<and> list_all (\<lambda>c. c < 2 ^ 64) cs"
| "valid_oid _ \<longleftrightarrow> False"

lemma dotted_eq_Nil [simp]: "dotted ns = [] \<longleftrightarrow> ns = []"
  by (cases ns) simp_all

lemma parse_dotted:
  "n < 2 ^ 64 \<Longrightarrow> parse_dotted_decimal (dotted (n # ns)) = (Some (of_nat n), dotted ns)"
  by (simp add: parse_dotted_decimal_iff unat_of_nat)

subsection \<open>From text\<close>

lemma oid_components_loop_dotted:
  "list_all (\<lambda>c. c < 2 ^ 64) cs \<Longrightarrow>
   oid_components_loop alloc d (dotted cs) = add_u8s alloc d (concat (map base128 cs))"
proof (induction cs)
  case Nil
  then show ?case by (intro ext) (simp add: oid_components_loop.simps write_all_fun)
next
  case (Cons c cs)
  then have p: "parse_dotted_decimal (dotted (c # cs)) = (Some (of_nat c), dotted cs)"
    by (intro parse_dotted) simp
  have c: "unat (of_nat c :: u64) = c" using Cons.prems by (simp add: unat_of_nat)
  show ?case
  proof (rule ext)
    fix cbb
    have "oid_components_loop alloc d (dotted (c # cs)) cbb =
        andthen (add_base128_integer alloc d (of_nat c) cbb) (\<lambda>_. oid_components_loop alloc d (dotted cs))"
      by (subst oid_components_loop.simps) (simp add: p del: dotted.simps)
    then show "oid_components_loop alloc d (dotted (c # cs)) cbb =
        add_u8s alloc d (concat (map base128 (c # cs))) cbb"
      using Cons by (simp add: add_base128_integer_eq c write_all_append)
  qed
qed

lemma oid_components_loop_sound:
  "oid_components_loop alloc d s cbb = (Some (), cbb') \<Longrightarrow>
   \<exists>cs. list_all (\<lambda>c. c < 2 ^ 64) cs \<and> s = dotted cs"
proof (induction alloc d s cbb rule: oid_components_loop.induct)
  case (1 alloc d s cbb)
  show ?case
  proof (cases "s = []")
    case True
    then show ?thesis by (intro exI [of _ "[]"]) simp
  next
    case False
    with "1.prems" obtain a t cbb1 where p: "parse_dotted_decimal s = (Some a, t)"
      and w: "add_base128_integer alloc d a cbb = (Some (), cbb1)"
      and l: "oid_components_loop alloc d t cbb1 = (Some (), cbb')"
      by (subst (asm) oid_components_loop.simps) (auto simp: andthen_eq_Some split: prod.splits option.splits)
    from "1.IH" [OF False p [symmetric] refl w l]
    obtain cs where "list_all (\<lambda>c. c < 2 ^ 64) cs" "t = dotted cs" by blast
    moreover have "unat a < 2 ^ 64" using unsigned_less [of a, where ?'a = nat] by simp
    ultimately show ?thesis
      using p by (intro exI [of _ "unat a # cs"]) (simp add: parse_dotted_decimal_iff)
  qed
qed

lemma first_component_guard:
  fixes a b :: u64
  defines "r \<equiv> unat a \<le> 2 \<and> (unat a < 2 \<longrightarrow> unat b \<le> 39) \<and> 40 * unat a + unat b < 2 ^ 64"
  shows "a > 2 \<or> a < 2 \<and> b > 39 \<or> b > - 1 - 80 \<longleftrightarrow> \<not> r"
    and "r \<Longrightarrow> unat (40 * a + b) = 40 * unat a + unat b"
proof -
  have m: "unat (- 1 - 80 :: u64) = 2 ^ 64 - 81" by simp
  have b: "unat b < 2 ^ 64" using unsigned_less [of b, where ?'a = nat] by simp
  show "a > 2 \<or> a < 2 \<and> b > 39 \<or> b > - 1 - 80 \<longleftrightarrow> \<not> r"
    unfolding word_less_nat_alt m r_def using b by auto
  show "r \<Longrightarrow> unat (40 * a + b) = 40 * unat a + unat b"
    by (simp add: unat_word_ariths r_def)
qed

lemma oid_from_text_eq:
  assumes "valid_oid oid"
  shows "CBB_add_asn1_oid_from_text alloc d (dotted oid) =
    (\<lambda>cbb. andthen (CBB_flush alloc d cbb) (\<lambda>_. add_u8s alloc d (der_oid oid)))"
proof -
  from assms obtain a b cs where oid: "oid = a # b # cs" by (cases oid rule: valid_oid.cases) auto
  with assms have v: "a \<le> 2" "a < 2 \<longrightarrow> b \<le> 39" "40 * a + b < 2 ^ 64" "list_all (\<lambda>c. c < 2 ^ 64) cs"
    by simp_all
  have p1: "parse_dotted_decimal (dotted (a # b # cs)) = (Some (of_nat a), dotted (b # cs))"
    and p2: "parse_dotted_decimal (dotted (b # cs)) = (Some (of_nat b), dotted cs)"
    using v by (intro parse_dotted; simp)+
  have u: "unat (of_nat a :: u64) = a" "unat (of_nat b :: u64) = b" using v by (simp_all add: unat_of_nat)
  note g = first_component_guard [of "of_nat a" "of_nat b", unfolded u]
  have s: "unat (40 * of_nat a + of_nat b :: u64) = 40 * a + b" using g(2) v by blast
  have c: "\<not> (of_nat a > (2 :: u64) \<or> of_nat a < (2 :: u64) \<and> of_nat b > (39 :: u64) \<or> of_nat b > (- 1 - 80 :: u64))"
    unfolding g(1) using v by blast
  show ?thesis
    unfolding oid CBB_add_asn1_oid_from_text_def p1 p2 prod.case option.case
    by (simp only: c if_False add_base128_integer_eq s oid_components_loop_dotted [OF v(4)]
        write_all_append [symmetric] der_oid.simps list.map concat.simps)
qed

theorem implements_oid_from_text:
  "valid_oid oid \<Longrightarrow> implements alloc d (CBB_add_asn1_oid_from_text alloc d (dotted oid)) True (der_oid oid) []"
  unfolding oid_from_text_eq
  using implements_andthen [OF implements_flush implements_add_u8s, of "der_oid oid" alloc d]
  by (cases oid rule: valid_oid.cases) simp_all

theorem oid_from_text_sound:
  assumes "CBB_add_asn1_oid_from_text alloc d text cbb = (Some (), cbb')"
  shows "\<exists>oid. valid_oid oid \<and> text = dotted oid"
proof -
  obtain ra t rb u where p0: "parse_dotted_decimal text = (ra, t)" "parse_dotted_decimal t = (rb, u)"
    by fastforce
  from assms obtain a b cbb1 cbb2 where p: "parse_dotted_decimal text = (Some a, t)"
      "parse_dotted_decimal t = (Some b, u)"
    and g: "\<not> (a > 2 \<or> a < 2 \<and> b > 39 \<or> b > - 1 - 80)"
    and l: "oid_components_loop alloc d u cbb1 = (Some (), cbb2)"
    unfolding CBB_add_asn1_oid_from_text_def p0 prod.case
    by (cases ra; cases rb) (auto simp: andthen_eq_Some p0 split: if_splits)
  obtain cs where cs: "list_all (\<lambda>c. c < 2 ^ 64) cs" "u = dotted cs"
    using oid_components_loop_sound [OF l] by blast
  from p have "text = dotted (unat a # unat b # cs)" by (simp add: parse_dotted_decimal_iff cs)
  moreover have "valid_oid (unat a # unat b # cs)"
    using g cs(1) unfolding first_component_guard(1) by simp
  ultimately show ?thesis by blast
qed

subsection \<open>To text\<close>

lemma dotted_Cons: "dotted (n # ns) = decimal n @ concat (map (\<lambda>c. 46 # decimal c) ns)"
proof (induction ns arbitrary: n)
  case (Cons m ns)
  have "dotted (n # m # ns) = decimal n @ 46 # dotted (m # ns)" by (simp add: sep_def)
  with Cons [of m] show ?case by simp
qed (simp add: sep_def)

abbreviation component_text :: "(nat \<Rightarrow> bool) \<Rightarrow> u64 \<Rightarrow> CBB \<Rightarrow> (unit, CBB) outcome" where
  "component_text alloc v cbb \<equiv> andthen (CBB_add_u8 alloc 0 46 cbb) (\<lambda>_. add_decimal alloc 0 v)"

lemma oid_text_loop_read_all:
  "case read_all parse_base128_integer s of
     Some vs \<Rightarrow> oid_text_loop alloc s cbb = write_all (component_text alloc) vs cbb
   | None \<Rightarrow> fst (oid_text_loop alloc s cbb) = None"
proof (induction alloc s cbb rule: oid_text_loop.induct)
  case (1 alloc s cbb)
  show ?case
  proof (cases "s = []")
    case True
    then show ?thesis by (simp add: oid_text_loop.simps read_all.simps)
  next
    case False
    obtain r t where p: "parse_base128_integer s = (r, t)" by fastforce
    show ?thesis
    proof (cases r)
      case None
      with False p show ?thesis by (simp add: oid_text_loop.simps read_all.simps)
    next
      case (Some v)
      then have lt: "length t < length s" using p base128_codec.rd_progress by simp
      then have r: "read_all parse_base128_integer s = map_option ((#) v) (read_all parse_base128_integer t)"
        using False p Some by (subst read_all.simps) simp
      have e: "oid_text_loop alloc s cbb =
          andthen (component_text alloc v cbb) (\<lambda>_. oid_text_loop alloc t)"
        using False p Some by (subst oid_text_loop.simps) (simp add: andthen_assoc)
      have ih: "case read_all parse_base128_integer t of
          Some vs \<Rightarrow> oid_text_loop alloc t c = write_all (component_text alloc) vs c
        | None \<Rightarrow> fst (oid_text_loop alloc t c) = None"
        if "component_text alloc v cbb = (Some x, c)" for x c
        using that "1.IH" [OF False p [symmetric] Some] by (auto simp: andthen_eq_Some)
      show ?thesis
      proof (cases "component_text alloc v cbb")
        case (Pair q c)
        with ih show ?thesis
          by (cases q; cases "read_all parse_base128_integer t") (simp_all add: r e)
      qed
    qed
  qed
qed

lemma add_decimal_implements: "implements alloc d (add_decimal alloc d v) True (decimal (unat v)) []"
proof -
  have "length (decimal n) \<le> k" if "n < 10 ^ k" "0 < k" for n k
    using that
  proof (induction n arbitrary: k rule: decimal.induct)
    case (1 n)
    obtain j where k: "k = Suc j" using 1(3) by (cases k) auto
    show ?case
    proof (cases "n < 10")
      case True
      then show ?thesis by (subst decimal.simps) (simp add: k)
    next
      case False
      then have "0 < j" using 1(2) k by (cases j) auto
      moreover have "n div 10 < 10 ^ j" using 1(2) k by (simp add: less_mult_imp_div_less mult.commute)
      ultimately show ?thesis using 1(1) [OF False] False by (subst decimal.simps) (simp add: k)
    qed
  qed
  from this [of "unat v" 20] unsigned_less [of v, where ?'a = nat]
  have "length (decimal (unat v)) < 2 ^ 64" by simp
  from implements_add_bytes [OF this] show ?thesis by (simp add: add_decimal_def)
qed

lemma component_text_implements:
  "implements alloc 0 (component_text alloc v) True (46 # decimal (unat v)) []"
  using implements_andthen [OF implements_add_u8 add_decimal_implements, of alloc 0 46 v] by simp

lemma components_text_implements:
  "implements alloc 0 (\<lambda>cbb. andthen (write_all (component_text alloc) vs cbb) (\<lambda>_. CBB_add_u8 alloc 0 0))
     True (concat (map (\<lambda>v. 46 # decimal (unat v)) vs) @ [0]) []"
proof (induction vs)
  case Nil
  then show ?case using implements_add_u8 by simp
next
  case (Cons v vs)
  from implements_andthen [OF component_text_implements Cons, of v] show ?case
    by (simp add: andthen_assoc)
qed

text \<open>The first two components, which share one encoded number.\<close>

definition first_components :: "nat \<Rightarrow> nat \<times> nat" where
  "first_components n = (if 80 \<le> n then (2, n - 80) else (n div 40, n mod 40))"

lemma first_components:
  "first_components n = (a, b) \<Longrightarrow> a \<le> 2 \<and> (a < 2 \<longrightarrow> b \<le> 39) \<and> 40 * a + b = n"
  by (auto simp: first_components_def split: if_splits)

lemma first_components_valid:
  "a \<le> 2 \<Longrightarrow> a < 2 \<longrightarrow> b \<le> 39 \<Longrightarrow> first_components (40 * a + b) = (a, b)"
proof -
  assume "a \<le> 2" "a < 2 \<longrightarrow> b \<le> 39"
  moreover from \<open>a \<le> 2\<close> have "a = 0 \<or> a = 1 \<or> a = 2" by auto
  ultimately show ?thesis by (auto simp: first_components_def)
qed

lemma first_text_implements:
  assumes "first_components (unat v) = (a, b)"
  shows "implements alloc 0
    (\<lambda>cbb. if v \<ge> 80 then andthen (CBB_add_bytes alloc 0 [50, 46] cbb) (\<lambda>_. add_decimal alloc 0 (v - 80))
      else andthen (add_decimal alloc 0 (v div 40) cbb) (\<lambda>_ cbb.
           andthen (CBB_add_u8 alloc 0 46 cbb) (\<lambda>_. add_decimal alloc 0 (v mod 40))))
    True (decimal a @ 46 # decimal b) []"
proof (cases "v \<ge> 80")
  case True
  then have "unat (v - 80) = unat v - 80" "80 \<le> unat v"
    by (simp_all add: unat_sub word_le_nat_alt)
  then have "decimal a = [50]" "b = unat (v - 80)" using assms by (auto simp: first_components_def decimal.simps)
  moreover have "implements alloc 0 (CBB_add_bytes alloc 0 [50, 46]) True [50, 46] []"
    by (rule implements_add_bytes) simp
  from implements_andthen [OF this add_decimal_implements]
  have "implements alloc 0 (\<lambda>cbb. andthen (CBB_add_bytes alloc 0 [50, 46] cbb)
    (\<lambda>_. add_decimal alloc 0 (v - 80))) True ([50, 46] @ decimal (unat (v - 80))) []" by simp
  ultimately show ?thesis using True by simp
next
  case False
  then have "\<not> 80 \<le> unat v" by (simp add: word_le_nat_alt)
  moreover have "unat (v div 40) = unat v div 40" "unat (v mod 40) = unat v mod 40"
    by (simp_all add: unat_div unat_mod)
  ultimately have ab: "a = unat (v div 40)" "b = unat (v mod 40)"
    using assms by (auto simp: first_components_def)
  from implements_andthen [OF add_decimal_implements component_text_implements, of alloc "v div 40" "v mod 40"]
  show ?thesis using False by (simp add: ab)
qed

lemma read_all_base128_Cons:
  "read_all parse_base128_integer s = Some (v # vs) \<longleftrightarrow>
     (\<exists>t. parse_base128_integer s = (Some v, t) \<and> read_all parse_base128_integer t = Some vs)"
proof -
  have "s \<noteq> []" if "parse_base128_integer s = (Some v, t)" for t
    using that by (auto simp: base128_codec.rd_iff)
  then show ?thesis
    by (subst read_all.simps)
      (auto split: prod.splits option.splits dest: base128_codec.rd_progress)
qed

lemma oid_to_text_eq:
  assumes "parse_base128_integer s = (Some v, t)" "first_components (unat v) = (a, b)"
  shows "case read_all parse_base128_integer t of
      None \<Rightarrow> CBS_asn1_oid_to_text alloc s = None
    | Some vs \<Rightarrow> \<exists>op. CBS_asn1_oid_to_text alloc s = build alloc 32 op \<and>
        implements alloc 0 op True (dotted (a # b # map unat vs) @ [0]) []"
proof -
  let ?first = "\<lambda>cbb. if v \<ge> 80 then andthen (CBB_add_bytes alloc 0 [50, 46] cbb) (\<lambda>_. add_decimal alloc 0 (v - 80))
      else andthen (add_decimal alloc 0 (v div 40) cbb) (\<lambda>_ cbb.
           andthen (CBB_add_u8 alloc 0 46 cbb) (\<lambda>_. add_decimal alloc 0 (v mod 40)))"
  have e: "CBS_asn1_oid_to_text alloc s = build alloc 32 (\<lambda>cbb. andthen (?first cbb) (\<lambda>_ cbb.
      andthen (oid_text_loop alloc t cbb) (\<lambda>_. CBB_add_u8 alloc 0 0)))"
    by (simp add: CBS_asn1_oid_to_text_def assms(1))
  show ?thesis
  proof (cases "read_all parse_base128_integer t")
    case None
    have l: "fst (oid_text_loop alloc t cbb) = None" for cbb
      using oid_text_loop_read_all [where s = t and alloc = alloc and cbb = cbb] None by simp
    have "fst (andthen (?first cbb) (\<lambda>_ cbb.
        andthen (oid_text_loop alloc t cbb) (\<lambda>_. CBB_add_u8 alloc 0 0))) = None" for cbb
      by (rule andthen_fails(2), rule andthen_fails(1), rule l)
    then have "CBS_asn1_oid_to_text alloc s = None"
      unfolding e build_def by (rule andthen_fails(2) [OF andthen_fails(1)])
    with None show ?thesis by simp
  next
    case (Some vs)
    then have "oid_text_loop alloc t = write_all (component_text alloc) vs"
      using oid_text_loop_read_all [where s = t and alloc = alloc] by (intro ext) simp
    then have "CBS_asn1_oid_to_text alloc s = build alloc 32 (\<lambda>cbb. andthen (?first cbb) (\<lambda>_ cbb.
      andthen (write_all (component_text alloc) vs cbb) (\<lambda>_. CBB_add_u8 alloc 0 0)))"
      by (simp only: e)
    with implements_andthen [OF first_text_implements [OF assms(2)] components_text_implements, of alloc vs] Some
    show ?thesis by (auto simp: dotted_Cons [of a] comp_def simp del: dotted.simps)
  qed
qed

theorem oid_to_text_sound:
  assumes "CBS_asn1_oid_to_text alloc s = Some txt"
  shows "\<exists>oid. valid_oid oid \<and> s = der_oid oid \<and> txt = dotted oid @ [0]"
proof -
  obtain v t where p: "parse_base128_integer s = (Some v, t)"
  proof (cases "parse_base128_integer s")
    case (Pair r t)
    show thesis
    proof (cases r)
      case None
      with Pair assms show thesis
        by (simp add: CBS_asn1_oid_to_text_def build_def)
          (metis andthen_eq_Some fst_conv option.distinct(1) prod.collapse)
    qed (use Pair that in simp)
  qed
  obtain a b where ab: "first_components (unat v) = (a, b)" by fastforce
  obtain vs op where r: "read_all parse_base128_integer t = Some vs"
    and o: "build alloc 32 op = Some txt" "implements alloc 0 op True (dotted (a # b # map unat vs) @ [0]) []"
    using oid_to_text_eq [OF p ab, of alloc] assms by (auto split: option.splits)
  have "txt = dotted (a # b # map unat vs) @ [0]" using build_sound [OF o(2) _ o(1)] by simp
  moreover have "s = der_oid (a # b # map unat vs)"
    using p r first_components [OF ab] by (simp add: base128_codec.rd_iff base128_codec.read_all_iff comp_def)
  moreover have "valid_oid (a # b # map unat vs)"
  proof -
    have "unat c < 2 ^ 64" for c :: u64 using unsigned_less [of c, where ?'a = nat] by simp
    with first_components [OF ab] show ?thesis by (simp add: list_all_iff)
  qed
  ultimately show ?thesis by blast
qed

theorem oid_to_text_complete:
  assumes v: "valid_oid oid" and a: "\<forall>k. alloc k" and l: "length (dotted oid) + 1 < 2 ^ 64"
  shows "CBS_asn1_oid_to_text alloc (der_oid oid) = Some (dotted oid @ [0])"
proof -
  from v obtain a b cs where oid: "oid = a # b # cs" by (cases oid rule: valid_oid.cases) auto
  with v have ab: "a \<le> 2" "a < 2 \<longrightarrow> b \<le> 39" "40 * a + b < 2 ^ 64" "list_all (\<lambda>c. c < 2 ^ 64) cs" by simp_all
  define w :: u64 where "w = of_nat (40 * a + b)"
  define vs :: "u64 list" where "vs = map of_nat cs"
  have w: "unat w = 40 * a + b" using ab by (simp add: w_def unat_of_nat del: of_nat_add of_nat_mult)
  have vs: "map unat vs = cs" using ab(4) by (auto simp: vs_def list_all_iff unat_of_nat intro!: map_idI)
  have s: "der_oid oid = base128 (unat w) @ concat (map (\<lambda>v. base128 (unat v)) vs)"
    by (simp add: oid w flip: vs) (simp add: comp_def)
  have p: "parse_base128_integer (der_oid oid) = (Some w, concat (map (\<lambda>v. base128 (unat v)) vs))"
    by (simp add: base128_codec.rd_iff s)
  have r: "read_all parse_base128_integer (concat (map (\<lambda>v. base128 (unat v)) vs)) = Some vs"
    by (simp add: base128_codec.read_all_iff list_all_iff)
  obtain op where "CBS_asn1_oid_to_text alloc (der_oid oid) = build alloc 32 op"
    "implements alloc 0 op True (dotted oid @ [0]) []"
    using oid_to_text_eq [OF p, of a b alloc] first_components_valid [OF ab(1,2)] r by (auto simp: w vs oid)
  with build_complete [OF this(2)] a l show ?thesis by simp
qed

end
