(* ===== verification/Constant_Time.thy ===== *)
theory Constant_Time
  imports Prelude
begin

text \<open>
  The branch-free comparisons of \<open>crypto/internal.h\<close>. \<open>crypto_word_t\<close> is the 64-bit word of the
  target; a truth value is a mask of all ones or all zeros. \<open>value_barrier_w\<close> is an empty assembly
  statement: it returns its argument. The lemmas state that each of the functions computes the
  comparison that its name announces, for all inputs.
\<close>

type_synonym crypto_word_t = u64

section \<open>Definitions\<close>

definition CONSTTIME_TRUE_W :: crypto_word_t where
  "CONSTTIME_TRUE_W = NOT 0"

definition CONSTTIME_FALSE_W :: crypto_word_t where
  "CONSTTIME_FALSE_W = 0"

definition CONSTTIME_TRUE_8 :: u8 where
  "CONSTTIME_TRUE_8 = 0xff"

definition CONSTTIME_FALSE_8 :: u8 where
  "CONSTTIME_FALSE_8 = 0"

definition value_barrier_w :: "crypto_word_t \<Rightarrow> crypto_word_t" where
  "value_barrier_w a = a"

definition constant_time_msb_w :: "crypto_word_t \<Rightarrow> crypto_word_t" where
  "constant_time_msb_w a = 0 - drop_bit (8 * 8 - 1) a"

definition constant_time_lt_w :: "crypto_word_t \<Rightarrow> crypto_word_t \<Rightarrow> crypto_word_t" where
  "constant_time_lt_w a b = constant_time_msb_w (a XOR ((a XOR b) OR ((a - b) XOR a)))"

definition constant_time_lt_8 :: "crypto_word_t \<Rightarrow> crypto_word_t \<Rightarrow> u8" where
  "constant_time_lt_8 a b = ucast (constant_time_lt_w a b)"

definition constant_time_ge_w :: "crypto_word_t \<Rightarrow> crypto_word_t \<Rightarrow> crypto_word_t" where
  "constant_time_ge_w a b = NOT (constant_time_lt_w a b)"

definition constant_time_ge_8 :: "crypto_word_t \<Rightarrow> crypto_word_t \<Rightarrow> u8" where
  "constant_time_ge_8 a b = ucast (constant_time_ge_w a b)"

definition constant_time_is_zero_w :: "crypto_word_t \<Rightarrow> crypto_word_t" where
  "constant_time_is_zero_w a = constant_time_msb_w (NOT a AND (a - 1))"

definition constant_time_is_zero_8 :: "crypto_word_t \<Rightarrow> u8" where
  "constant_time_is_zero_8 a = ucast (constant_time_is_zero_w a)"

definition constant_time_eq_w :: "crypto_word_t \<Rightarrow> crypto_word_t \<Rightarrow> crypto_word_t" where
  "constant_time_eq_w a b = constant_time_is_zero_w (a XOR b)"

definition constant_time_eq_8 :: "crypto_word_t \<Rightarrow> crypto_word_t \<Rightarrow> u8" where
  "constant_time_eq_8 a b = ucast (constant_time_eq_w a b)"

text \<open>An \<open>int\<close> argument is sign-extended to the 64-bit word.\<close>

definition constant_time_eq_int :: "u32 \<Rightarrow> u32 \<Rightarrow> crypto_word_t" where
  "constant_time_eq_int a b = constant_time_eq_w (scast a) (scast b)"

definition constant_time_eq_int_8 :: "u32 \<Rightarrow> u32 \<Rightarrow> u8" where
  "constant_time_eq_int_8 a b = constant_time_eq_8 (scast a) (scast b)"

definition constant_time_select_w ::
  "crypto_word_t \<Rightarrow> crypto_word_t \<Rightarrow> crypto_word_t \<Rightarrow> crypto_word_t" where
  "constant_time_select_w msk a b = (value_barrier_w msk AND a) OR (value_barrier_w (NOT msk) AND b)"

definition constant_time_select_8 :: "u8 \<Rightarrow> u8 \<Rightarrow> u8 \<Rightarrow> u8" where
  "constant_time_select_8 msk a b = ucast (constant_time_select_w (ucast msk) (ucast a) (ucast b))"

definition constant_time_select_int :: "crypto_word_t \<Rightarrow> u32 \<Rightarrow> u32 \<Rightarrow> u32" where
  "constant_time_select_int msk a b = ucast (constant_time_select_w msk (scast a) (scast b))"

section \<open>Masks are truth values\<close>

text \<open>The mask of a truth value.\<close>

definition mask_w :: "bool \<Rightarrow> crypto_word_t" where
  "mask_w p = (if p then CONSTTIME_TRUE_W else CONSTTIME_FALSE_W)"

definition mask_8 :: "bool \<Rightarrow> u8" where
  "mask_8 p = (if p then CONSTTIME_TRUE_8 else CONSTTIME_FALSE_8)"

lemma not_mask_w: "NOT (mask_w p) = mask_w (\<not> p)"
  by (simp add: mask_w_def CONSTTIME_TRUE_W_def CONSTTIME_FALSE_W_def)

lemma ucast_mask_w: "ucast (mask_w p) = mask_8 p"
proof -
  have "ucast (NOT 0 :: u64) = (NOT 0 :: u8)"
    by (rule bit_word_eqI) (simp only: bit_unsigned_iff bit_not_iff bit_0_eq, simp)
  then show ?thesis
    by (simp add: mask_w_def mask_8_def CONSTTIME_TRUE_W_def CONSTTIME_FALSE_W_def CONSTTIME_TRUE_8_def
        CONSTTIME_FALSE_8_def)
qed

lemma mask_8_eq: "mask_8 p = (if p then 0xff else 0)"
  by (simp add: mask_8_def CONSTTIME_TRUE_8_def CONSTTIME_FALSE_8_def)

lemma top_bit_shift: "drop_bit 63 (a :: u64) = of_bool (bit a 63)"
proof (rule bit_word_eqI)
  fix n assume "n < LENGTH(64)"
  show "bit (drop_bit 63 a) n = bit (of_bool (bit a 63) :: u64) n"
  proof (cases n)
    case (Suc m)
    then have "\<not> bit a (63 + n)" using bit_imp_le_length [of a "63 + n"] by auto
    with Suc show ?thesis by (simp add: bit_drop_bit_eq bit_of_bool_iff)
  qed (simp add: bit_drop_bit_eq bit_of_bool_iff)
qed

lemma constant_time_msb_w_eq: "constant_time_msb_w a = mask_w (bit a 63)"
  by (simp add: constant_time_msb_w_def top_bit_shift mask_w_def CONSTTIME_TRUE_W_def CONSTTIME_FALSE_W_def)

lemma top_bit_iff: "bit (a :: u64) 63 \<longleftrightarrow> 2 ^ 63 \<le> uint a"
proof -
  obtain p where p: "uint a = p" "0 \<le> p" "p < 2 ^ 64" using uint_bounded [of a] by simp
  have "uint (drop_bit 63 a) = uint (a div 2 ^ 63)" by (simp add: drop_bit_eq_div)
  then have "uint (drop_bit 63 a) = p div 2 ^ 63" by (simp add: uint_div_distrib p)
  moreover have "p div 2 ^ 63 \<noteq> 0 \<longleftrightarrow> 2 ^ 63 \<le> p"
    using p by (simp add: zdiv_eq_0_iff not_less)
  ultimately have "drop_bit 63 a \<noteq> 0 \<longleftrightarrow> 2 ^ 63 \<le> uint a"
    by (metis p(1) uint_0_iff)
  then show ?thesis by (simp add: top_bit_shift)
qed

lemma top_bit_diff:
  "bit (a - b :: u64) 63 \<longleftrightarrow>
     (if uint b \<le> uint a then 2 ^ 63 \<le> uint a - uint b else 2 ^ 63 \<le> uint a - uint b + 2 ^ 64)"
  unfolding top_bit_iff uint_sub_if' by simp

lemma constant_time_lt_w_eq: "constant_time_lt_w a b = mask_w (a < b)"
proof -
  have "bit (a XOR ((a XOR b) OR ((a - b) XOR a))) 63 \<longleftrightarrow>
      (if bit a 63 = bit b 63 then bit (a - b) 63 else bit b 63)"
    by (auto simp: bit_xor_iff bit_or_iff)
  also have "\<dots> \<longleftrightarrow> a < b"
  proof -
    obtain p q where p: "uint a = p" "0 \<le> p" "p < 2 ^ 64" and q: "uint b = q" "0 \<le> q" "q < 2 ^ 64"
      using uint_bounded [of a] uint_bounded [of b] by simp
    show ?thesis
      unfolding top_bit_diff unfolding top_bit_iff word_less_def p q using p(2,3) q(2,3) by auto
  qed
  finally show ?thesis by (simp add: constant_time_lt_w_def constant_time_msb_w_eq)
qed

lemma constant_time_is_zero_w_eq: "constant_time_is_zero_w a = mask_w (a = 0)"
proof -
  have "bit (NOT a AND (a - 1)) 63 \<longleftrightarrow> \<not> bit a 63 \<and> bit (a - 1) 63"
    by (simp add: bit_and_iff bit_not_iff)
  also have "\<dots> \<longleftrightarrow> a = 0"
  proof -
    obtain p where "uint a = p" "0 \<le> p" "p < 2 ^ 64" using uint_bounded [of a] by simp
    then show ?thesis
      unfolding top_bit_diff unfolding top_bit_iff by (auto simp: word_uint_eq_iff split: if_splits)
  qed
  finally show ?thesis by (simp add: constant_time_is_zero_w_def constant_time_msb_w_eq)
qed

text \<open>The comparisons, as masks of the plain comparisons.\<close>

lemma constant_time_lt_8_eq: "constant_time_lt_8 a b = mask_8 (a < b)"
  by (simp add: constant_time_lt_8_def constant_time_lt_w_eq ucast_mask_w)

lemma constant_time_ge_w_eq: "constant_time_ge_w a b = mask_w (b \<le> a)"
  by (simp add: constant_time_ge_w_def constant_time_lt_w_eq not_mask_w not_less)

lemma constant_time_ge_8_eq: "constant_time_ge_8 a b = mask_8 (b \<le> a)"
  by (simp add: constant_time_ge_8_def constant_time_ge_w_eq ucast_mask_w)

lemma constant_time_is_zero_8_eq: "constant_time_is_zero_8 a = mask_8 (a = 0)"
  by (simp add: constant_time_is_zero_8_def constant_time_is_zero_w_eq ucast_mask_w)

lemma xor_eq_0: "a XOR b = 0 \<longleftrightarrow> a = (b :: u64)"
  by (auto simp: bit_eq_iff bit_xor_iff)

lemma constant_time_eq_w_eq: "constant_time_eq_w a b = mask_w (a = b)"
  by (simp add: constant_time_eq_w_def constant_time_is_zero_w_eq xor_eq_0)

lemma constant_time_eq_8_eq: "constant_time_eq_8 a b = mask_8 (a = b)"
  by (simp add: constant_time_eq_8_def constant_time_eq_w_eq ucast_mask_w)

lemma ucast_scast_u32: "ucast (scast (a :: u32) :: u64) = a"
  by (rule bit_word_eqI) (auto simp: bit_unsigned_iff bit_signed_iff)

lemma scast_u32_inj: "scast (a :: u32) = (scast b :: u64) \<longleftrightarrow> a = b"
  using ucast_scast_u32 [of a] ucast_scast_u32 [of b] by metis

lemma constant_time_eq_int_eq: "constant_time_eq_int a b = mask_w (a = b)"
  by (simp add: constant_time_eq_int_def constant_time_eq_w_eq scast_u32_inj)

lemma constant_time_eq_int_8_eq: "constant_time_eq_int_8 a b = mask_8 (a = b)"
  by (simp add: constant_time_eq_int_8_def constant_time_eq_8_eq scast_u32_inj)

lemma constant_time_select_w_mask: "constant_time_select_w (mask_w p) a b = (if p then a else b)"
  by (simp add: constant_time_select_w_def value_barrier_w_def mask_w_def CONSTTIME_TRUE_W_def
      CONSTTIME_FALSE_W_def)

lemma bit_mask_8: "bit (mask_8 p) n \<longleftrightarrow> p \<and> n < 8"
proof -
  have "(0xff :: u8) = mask 8" by (simp add: mask_eq_exp_minus_1)
  moreover have "bit (mask 8 :: u8) n \<longleftrightarrow> n < 8"
    unfolding bit_mask_iff by auto
  ultimately show ?thesis by (simp add: mask_8_eq)
qed

lemma constant_time_select_8_mask: "constant_time_select_8 (mask_8 p) a b = (if p then a else b)"
  by (rule bit_word_eqI)
    (auto simp: constant_time_select_8_def constant_time_select_w_def value_barrier_w_def bit_mask_8
      bit_unsigned_iff bit_or_iff bit_and_iff bit_not_iff)

lemma constant_time_select_int_mask: "constant_time_select_int (mask_w p) a b = (if p then a else b)"
  by (simp add: constant_time_select_int_def constant_time_select_w_mask ucast_scast_u32)

lemmas constant_time_eqs =
  constant_time_lt_w_eq constant_time_lt_8_eq constant_time_ge_w_eq constant_time_ge_8_eq
  constant_time_is_zero_w_eq constant_time_is_zero_8_eq constant_time_eq_w_eq constant_time_eq_8_eq
  constant_time_eq_int_eq constant_time_eq_int_8_eq constant_time_select_w_mask
  constant_time_select_8_mask constant_time_select_int_mask

end
