(* ===== verification/Base64.thy ===== *)
theory Base64
  imports Constant_Time
begin

text \<open>
  \<open>crypto/base64/base64.c\<close>: the one-shot and the streaming base64 encoder and decoder. A caller's
  output buffer is a byte list \<open>dst\<close> with an offset where the next byte goes (the C pointer
  \<open>out\<close>); writing keeps the bytes around. \<open>size_t\<close> lengths of existing buffers are naturals, computed
  lengths that can wrap are words.

  The specification is arithmetic: a text is a list of base-64 digits followed by \<open>k\<close> padding
  characters, and it stands for the number those digits spell; the bytes \<open>x\<close> it encodes satisfy
  \<open>be_val x = val64 ds div 4 ^ k\<close>, since each padding character stands for two unused bits.
\<close>

section \<open>Definitions\<close>

text \<open>The character constants of the source.\<close>

abbreviation "ch_nl \<equiv> 10 :: u8"
abbreviation "ch_tab \<equiv> 9 :: u8"
abbreviation "ch_cr \<equiv> 13 :: u8"
abbreviation "ch_space \<equiv> 32 :: u8"
abbreviation "ch_eq \<equiv> 61 :: u8"

definition constant_time_lt_args_8 :: "u8 \<Rightarrow> u8 \<Rightarrow> u8" where
  "constant_time_lt_args_8 a b = ucast (constant_time_msb_w (ucast a - ucast b))"

definition constant_time_in_range_8 :: "u8 \<Rightarrow> u8 \<Rightarrow> u8 \<Rightarrow> u8" where
  "constant_time_in_range_8 a mn mx = constant_time_lt_args_8 (a - mn) (mx - mn + 1)"

definition conv_bin2ascii :: "u8 \<Rightarrow> u8" where
  "conv_bin2ascii a =
     (let a = a AND 0x3f;
          ret = constant_time_select_8 (constant_time_eq_8 (ucast a) 62) 43 47;
          ret = constant_time_select_8 (constant_time_lt_args_8 a 62) (a - 52 + 48) ret;
          ret = constant_time_select_8 (constant_time_lt_args_8 a 52) (a - 26 + 97) ret
      in constant_time_select_8 (constant_time_lt_args_8 a 26) (a + 65) ret)"

definition EVP_EncodedLength :: "u64 \<Rightarrow> u64 option" where
  "EVP_EncodedLength len =
     (if len + 2 < len then None
      else let len = (len + 2) div 3 in
        if drop_bit 2 (push_bit 2 len) \<noteq> len then None
        else let len = push_bit 2 len in
          if len + 1 < len then None else Some (len + 1))"

record EVP_ENCODE_CTX =
  data_used :: nat
  ctx_data :: bytes
  eof_seen :: bool
  error_encountered :: bool

definition EVP_EncodeInit :: EVP_ENCODE_CTX where
  "EVP_EncodeInit = \<lparr>data_used = 0, ctx_data = replicate 48 0, eof_seen = False, error_encountered = False\<rparr>"

text \<open>The characters that the loop of \<open>EVP_EncodeBlock\<close> writes, an iteration per equation.\<close>

fun EncodeBlock_loop :: "bytes \<Rightarrow> bytes" where
  "EncodeBlock_loop [] = []"
| "EncodeBlock_loop (s0 # s1 # s2 # src) =
     (let l = push_bit 16 (ucast s0) OR push_bit 8 (ucast s1) OR ucast s2 :: u32 in
      [conv_bin2ascii (ucast (drop_bit 18 l)), conv_bin2ascii (ucast (drop_bit 12 l)),
       conv_bin2ascii (ucast (drop_bit 6 l)), conv_bin2ascii (ucast l)] @ EncodeBlock_loop src)"
| "EncodeBlock_loop [s0, s1] =
     (let l = push_bit 16 (ucast s0) OR push_bit 8 (ucast s1) :: u32 in
      [conv_bin2ascii (ucast (drop_bit 18 l)), conv_bin2ascii (ucast (drop_bit 12 l)),
       conv_bin2ascii (ucast (drop_bit 6 l)), ch_eq])"
| "EncodeBlock_loop [s0] =
     (let l = push_bit 16 (ucast s0) :: u32 in
      [conv_bin2ascii (ucast (drop_bit 18 l)), conv_bin2ascii (ucast (drop_bit 12 l)), ch_eq, ch_eq])"

definition EVP_EncodeBlock :: "bytes \<Rightarrow> nat \<Rightarrow> bytes \<Rightarrow> nat \<times> bytes" where
  "EVP_EncodeBlock dst off src =
     (let w = EncodeBlock_loop src in (length w, memcpy dst off (w @ [0])))"

text \<open>One full block of 48 bytes: its 64 characters, a newline, a NUL that the next write replaces.\<close>

definition encode_line :: "bytes \<Rightarrow> nat \<Rightarrow> bytes \<Rightarrow> nat \<times> bytes" where
  "encode_line dst off src =
     (let (encoded, dst) = EVP_EncodeBlock dst off src;
          dst = memcpy dst (off + encoded) [ch_nl];
          dst = memcpy dst (off + encoded + 1) [0]
      in (encoded, dst))"

text \<open>The loop over the full blocks of \<open>in\<close>; \<open>None\<close> is the early return when \<open>total\<close> wraps.\<close>

fun EncodeUpdate_loop :: "u64 \<Rightarrow> bytes \<Rightarrow> nat \<Rightarrow> bytes \<Rightarrow> u64 option \<times> bytes \<times> bytes" where
  "EncodeUpdate_loop tot dst off inp =
     (if length inp \<ge> 48 then
        let (encoded, dst) = encode_line dst off (take 48 inp);
            tot' = tot + of_nat encoded + 1
        in if tot' < tot then (None, dst, drop 48 inp)
           else EncodeUpdate_loop tot' dst (off + encoded + 1) (drop 48 inp)
      else (Some tot, dst, inp))"

declare EncodeUpdate_loop.simps [simp del]

abbreviation "INT_MAX \<equiv> 2147483647 :: nat"

text \<open>\<open>EVP_EncodeUpdate\<close> from the \<open>while\<close> loop on.\<close>

definition EncodeUpdate_rest ::
  "u64 \<Rightarrow> bytes \<Rightarrow> nat \<Rightarrow> EVP_ENCODE_CTX \<Rightarrow> bytes \<Rightarrow> (nat \<times> bytes \<times> EVP_ENCODE_CTX) option" where
  "EncodeUpdate_rest tot dst off ctx inp =
     (case EncodeUpdate_loop tot dst off inp of
        (None, dst, inp) \<Rightarrow> Some (0, dst, ctx)
      | (Some tot, dst, inp) \<Rightarrow>
          let ctx = (if inp \<noteq> [] then ctx\<lparr>ctx_data := memcpy (ctx_data ctx) 0 inp\<rparr> else ctx);
              ctx = ctx\<lparr>data_used := length inp\<rparr>;
              tot = (if unat tot > INT_MAX then 0 else tot)
          in Some (unat tot, dst, ctx))"

text \<open>The result is \<open>*out_len\<close>, the buffer and the context; \<open>None\<close> is the failed \<open>assert\<close>.\<close>

definition EVP_EncodeUpdate ::
  "EVP_ENCODE_CTX \<Rightarrow> bytes \<Rightarrow> bytes \<Rightarrow> (nat \<times> bytes \<times> EVP_ENCODE_CTX) option" where
  "EVP_EncodeUpdate ctx dst inp =
     (if inp = [] then Some (0, dst, ctx)
      else if \<not> data_used ctx < 48 then None
      else if 48 - data_used ctx > length inp then
        Some (0, dst, ctx\<lparr>ctx_data := memcpy (ctx_data ctx) (data_used ctx) inp,
                          data_used := data_used ctx + length inp\<rparr>)
      else
        let (tot, off, dst, ctx, inp) =
              (if data_used ctx \<noteq> 0 then
                 let todo = 48 - data_used ctx;
                     ctx = ctx\<lparr>ctx_data := memcpy (ctx_data ctx) (data_used ctx) (take todo inp)\<rparr>;
                     (encoded, dst) = encode_line dst 0 (ctx_data ctx)
                 in (of_nat (encoded + 1), encoded + 1, dst, ctx\<lparr>data_used := 0\<rparr>, drop todo inp)
               else (0, 0, dst, ctx, inp))
        in EncodeUpdate_rest tot dst off ctx inp)"

definition EVP_EncodeFinal :: "EVP_ENCODE_CTX \<Rightarrow> bytes \<Rightarrow> nat \<times> bytes \<times> EVP_ENCODE_CTX" where
  "EVP_EncodeFinal ctx dst =
     (if data_used ctx = 0 then (0, dst, ctx)
      else
        let (encoded, dst) = EVP_EncodeBlock dst 0 (take (data_used ctx) (ctx_data ctx));
            dst = memcpy dst encoded [ch_nl];
            encoded = encoded + 1;
            dst = memcpy dst encoded [0]
        in (encoded, dst, ctx\<lparr>data_used := 0\<rparr>))"

definition EVP_DecodedLength :: "nat \<Rightarrow> nat option" where
  "EVP_DecodedLength len = (if len mod 4 \<noteq> 0 then None else Some (len div 4 * 3))"

definition EVP_DecodeInit :: EVP_ENCODE_CTX where
  "EVP_DecodeInit = \<lparr>data_used = 0, ctx_data = replicate 48 0, eof_seen = False, error_encountered = False\<rparr>"

definition base64_ascii_to_bin :: "u8 \<Rightarrow> u8" where
  "base64_ascii_to_bin a =
     (let is_upper = constant_time_in_range_8 a 65 90;
          is_lower = constant_time_in_range_8 a 97 122;
          is_digit = constant_time_in_range_8 a 48 57;
          is_plus = constant_time_eq_8 (ucast a) 43;
          is_slash = constant_time_eq_8 (ucast a) 47;
          is_equals = constant_time_eq_8 (ucast a) 61;
          ret = 0xff;
          ret = constant_time_select_8 is_upper (a - 65) ret;
          ret = constant_time_select_8 is_lower (a - 97 + 26) ret;
          ret = constant_time_select_8 is_digit (a - 48 + 52) ret;
          ret = constant_time_select_8 is_plus 62 ret;
          ret = constant_time_select_8 is_slash 63 ret
      in constant_time_select_8 is_equals 0 ret)"

text \<open>The number of bytes written, and the buffer; \<open>None\<close> is the error return, before any write.\<close>

definition base64_decode_quad :: "bytes \<Rightarrow> nat \<Rightarrow> bytes \<Rightarrow> (nat \<times> bytes) option" where
  "base64_decode_quad dst off inp =
     (let a = base64_ascii_to_bin (inp ! 0);
          b = base64_ascii_to_bin (inp ! 1);
          c = base64_ascii_to_bin (inp ! 2);
          d = base64_ascii_to_bin (inp ! 3)
      in if a = 0xff \<or> b = 0xff \<or> c = 0xff \<or> d = 0xff then None
         else
           let v = push_bit 18 (ucast a) OR push_bit 12 (ucast b) OR push_bit 6 (ucast c) OR ucast d :: u32;
               padding_pattern =
                 push_bit 3 (of_bool (inp ! 0 = ch_eq)) OR push_bit 2 (of_bool (inp ! 1 = ch_eq)) OR
                 push_bit 1 (of_bool (inp ! 2 = ch_eq)) OR of_bool (inp ! 3 = ch_eq) :: u32
           in if padding_pattern = 0 then
                Some (3, memcpy dst off [ucast (drop_bit 16 v), ucast (drop_bit 8 v), ucast v])
              else if padding_pattern = 1 then
                Some (2, memcpy dst off [ucast (drop_bit 16 v), ucast (drop_bit 8 v)])
              else if padding_pattern = 3 then
                Some (1, memcpy dst off [ucast (drop_bit 16 v)])
              else None)"

text \<open>
  The loop of \<open>EVP_DecodeUpdate\<close> over the characters: whether it ran to the end, \<open>bytes_out\<close> (also the
  offset of \<open>out\<close>), the buffer and the context.
\<close>

fun DecodeUpdate_loop ::
  "EVP_ENCODE_CTX \<Rightarrow> bytes \<Rightarrow> nat \<Rightarrow> bytes \<Rightarrow> bool \<times> nat \<times> bytes \<times> EVP_ENCODE_CTX" where
  "DecodeUpdate_loop ctx dst bytes_out [] = (True, bytes_out, dst, ctx)"
| "DecodeUpdate_loop ctx dst bytes_out (c # inp) =
     (if c = ch_space \<or> c = ch_tab \<or> c = ch_cr \<or> c = ch_nl then DecodeUpdate_loop ctx dst bytes_out inp
      else if eof_seen ctx then (False, bytes_out, dst, ctx\<lparr>error_encountered := True\<rparr>)
      else
        let ctx = ctx\<lparr>ctx_data := (ctx_data ctx)[data_used ctx := c], data_used := data_used ctx + 1\<rparr> in
        if data_used ctx = 4 then
          case base64_decode_quad dst bytes_out (ctx_data ctx) of
            None \<Rightarrow> (False, bytes_out, dst, ctx\<lparr>error_encountered := True\<rparr>)
          | Some (num, dst) \<Rightarrow>
              let ctx = ctx\<lparr>data_used := 0\<rparr>;
                  ctx = (if num < 3 then ctx\<lparr>eof_seen := True\<rparr> else ctx)
              in DecodeUpdate_loop ctx dst (bytes_out + num) inp
        else DecodeUpdate_loop ctx dst bytes_out inp)"

text \<open>The return value, \<open>*out_len\<close>, the buffer and the context.\<close>

definition EVP_DecodeUpdate ::
  "EVP_ENCODE_CTX \<Rightarrow> bytes \<Rightarrow> bytes \<Rightarrow> int \<times> nat \<times> bytes \<times> EVP_ENCODE_CTX" where
  "EVP_DecodeUpdate ctx dst inp =
     (if error_encountered ctx then (-1, 0, dst, ctx)
      else case DecodeUpdate_loop ctx dst 0 inp of
        (False, _, dst, ctx) \<Rightarrow> (-1, 0, dst, ctx)
      | (True, bytes_out, dst, ctx) \<Rightarrow>
          if bytes_out > INT_MAX then (-1, 0, dst, ctx\<lparr>error_encountered := True\<rparr>)
          else if eof_seen ctx then (0, bytes_out, dst, ctx)
          else (1, bytes_out, dst, ctx))"

definition EVP_DecodeFinal :: "EVP_ENCODE_CTX \<Rightarrow> int \<times> nat" where
  "EVP_DecodeFinal ctx = (if error_encountered ctx \<or> data_used ctx \<noteq> 0 then (-1, 0) else (1, 0))"

text \<open>
  The loop of \<open>EVP_DecodeBase64\<close>, on what is left of the input; \<open>None\<close> is an error return, which
  leaves the bytes decoded so far in the buffer.
\<close>

fun DecodeBase64_loop :: "bytes \<Rightarrow> nat \<Rightarrow> bytes \<Rightarrow> nat option \<times> bytes" where
  "DecodeBase64_loop dst bytes_out inp =
     (if inp = [] then (Some bytes_out, dst)
      else case base64_decode_quad dst bytes_out inp of
        None \<Rightarrow> (None, dst)
      | Some (num, dst) \<Rightarrow>
          if num \<noteq> 3 \<and> length inp \<noteq> 4 then (None, dst)
          else DecodeBase64_loop dst (bytes_out + num) (drop 4 inp))"

declare DecodeBase64_loop.simps [simp del]

definition EVP_DecodeBase64 :: "bytes \<Rightarrow> nat \<Rightarrow> bytes \<Rightarrow> nat option \<times> bytes" where
  "EVP_DecodeBase64 dst max_out inp =
     (if length inp mod 4 \<noteq> 0 then (None, dst)
      else case EVP_DecodedLength (length inp) of
        None \<Rightarrow> (None, dst)
      | Some max_len \<Rightarrow> if max_out < max_len then (None, dst) else DecodeBase64_loop dst 0 inp)"

text \<open>The padding loop at the end of \<open>EVP_DecodeBlock\<close>.\<close>

function pad_nul :: "bytes \<Rightarrow> nat \<Rightarrow> nat \<times> bytes" where
  "pad_nul dst dst_len = (if dst_len mod 3 \<noteq> 0 then pad_nul (memcpy dst dst_len [0]) (dst_len + 1) else (dst_len, dst))"
  by pat_completeness auto
termination
  by (relation "measure (\<lambda>(_, n). (3 - n mod 3) mod 3)") (auto simp: mod_Suc)

declare pad_nul.simps [simp del]

definition EVP_DecodeBlock :: "bytes \<Rightarrow> bytes \<Rightarrow> int \<times> bytes" where
  "EVP_DecodeBlock dst src =
     (let src = dropWhile (\<lambda>c. c = ch_space \<or> c = ch_tab) src;
          src = rev (dropWhile (\<lambda>c. c = ch_space \<or> c = ch_tab \<or> c = ch_cr \<or> c = ch_nl) (rev src))
      in case EVP_DecodedLength (length src) of
           None \<Rightarrow> (-1, dst)
         | Some dst_len \<Rightarrow>
             if dst_len > INT_MAX then (-1, dst)
             else (case EVP_DecodeBase64 dst dst_len src of
                     (None, dst) \<Rightarrow> (-1, dst)
                   | (Some dst_len, dst) \<Rightarrow> let (n, dst) = pad_nul dst dst_len in (int n, dst)))"

section \<open>The meaning of a base64 text\<close>

text \<open>The alphabet of RFC 4648, and the number that a list of digits spells.\<close>

definition b64_char :: "nat \<Rightarrow> u8" where
  "b64_char d =
     (if d < 26 then of_nat (65 + d) else if d < 52 then of_nat (97 + (d - 26))
      else if d < 62 then of_nat (48 + (d - 52)) else if d = 62 then 43 else 47)"

definition b64_digit :: "u8 \<Rightarrow> nat option" where
  "b64_digit c =
     (let n = unat c in
      if 65 \<le> n \<and> n \<le> 90 then Some (n - 65) else if 97 \<le> n \<and> n \<le> 122 then Some (n - 97 + 26)
      else if 48 \<le> n \<and> n \<le> 57 then Some (n - 48 + 52)
      else if n = 43 then Some 62 else if n = 47 then Some 63 else None)"

definition val64 :: "nat list \<Rightarrow> nat" where
  "val64 ds = foldl (\<lambda>v d. v * 64 + d) 0 ds"

fun digits64 :: "nat \<Rightarrow> nat \<Rightarrow> nat list" where
  "digits64 0 v = []"
| "digits64 (Suc n) v = digits64 n (v div 64) @ [v mod 64]"

text \<open>The padding of \<open>n\<close> bytes, and the encoding of a byte string.\<close>

definition b64_pad :: "nat \<Rightarrow> nat" where
  "b64_pad n = (3 - n mod 3) mod 3"

definition base64 :: "bytes \<Rightarrow> bytes" where
  "base64 x =
     (let k = b64_pad (length x) in
      map b64_char (digits64 ((8 * length x + 2 * k) div 6) (be_val x * 4 ^ k)) @ replicate k ch_eq)"

text \<open>What a text decodes to: the bits of its digits, less the two that each padding character drops.\<close>

definition base64_decodes :: "bytes \<Rightarrow> bytes \<Rightarrow> bool" where
  "base64_decodes s x \<longleftrightarrow>
     (\<exists>ds k. s = map b64_char ds @ replicate k ch_eq \<and> k < 3 \<and> (\<forall>d \<in> set ds. d < 64) \<and>
        8 * length x + 2 * k = 6 * length ds \<and> be_val x = val64 ds div 4 ^ k)"

section \<open>The alphabet in constant time\<close>

lemma msb_w_small:
  assumes "unat a < 2 ^ 63" "unat b < 2 ^ 63"
  shows "constant_time_msb_w (a - b) = mask_w (a < b)"
proof -
  have less: "uint w < 2 ^ 63" if "unat w < 2 ^ 63" for w :: u64
    using that by (metis of_nat_less_iff of_nat_numeral of_nat_power uint_nat)
  obtain p where p: "uint a = p" "0 \<le> p" "p < 2 ^ 63" using less [OF assms(1)] by simp
  obtain q where q: "uint b = q" "0 \<le> q" "q < 2 ^ 63" using less [OF assms(2)] by simp
  show ?thesis
    unfolding constant_time_msb_w_eq top_bit_diff word_less_def p(1) q(1) using p(2,3) q(2,3) by auto
qed

lemma unat_ucast_u8_u64: "unat (ucast (a :: u8) :: u64) = unat a"
  using less_trans [OF unat_u8_less, of "2 ^ 64" a] by (simp add: unsigned_ucast_eq take_bit_nat_eq_self_iff)

lemma constant_time_lt_args_8_eq: "constant_time_lt_args_8 a b = mask_8 (a < b)"
proof -
  have l: "unat (ucast a :: u64) < 2 ^ 63" for a :: u8
    unfolding unat_ucast_u8_u64 using unat_u8_less [of a] by (rule less_trans) simp
  have "(ucast a :: u64) < ucast b \<longleftrightarrow> a < b"
    unfolding word_less_nat_alt unat_ucast_u8_u64 ..
  then show ?thesis
    unfolding constant_time_lt_args_8_def msb_w_small [OF l l] ucast_mask_w by simp
qed

lemma constant_time_in_range_8_eq:
  assumes "mn \<le> mx" "mx - mn < 255"
  shows "constant_time_in_range_8 a mn mx = mask_8 (mn \<le> a \<and> a \<le> mx)"
proof -
  have "a - mn < mx - mn + 1 \<longleftrightarrow> mn \<le> a \<and> a \<le> mx"
    using assms unat_u8_less [of a] unat_u8_less [of mx] unat_u8_less [of mn]
    by (auto simp: word_less_nat_alt word_le_nat_alt unat_sub_if' unat_word_ariths simp del: unat_u8_less)
  then show ?thesis by (simp add: constant_time_in_range_8_def constant_time_lt_args_8_eq)
qed

lemma ucast_u8_eq_iff: "n < 256 \<Longrightarrow> (ucast (a :: u8) :: u64) = of_nat n \<longleftrightarrow> unat a = n"
  by (simp only: word_unat_eq_iff unat_ucast_u8_u64 unat_of_nat) simp

lemma of_nat_unat_u8: "of_nat (unat c) = (c :: u8)"
  using of_nat_unat_add_u8 [of 0 c] by simp

lemma conv_bin2ascii_eq: "conv_bin2ascii a = b64_char (unat a mod 64)"
proof -
  define d where "d = unat a mod 64"
  have d: "d < 64" by (simp add: d_def)
  have "unat (a AND 0x3f) = d"
    using unat_and_mask_mod [of a 6] by (simp add: mask_eq_exp_minus_1 d_def)
  then have a: "a AND 0x3f = of_nat d" by (metis of_nat_unat_u8)
  have l: "(of_nat d :: u8) < of_nat n \<longleftrightarrow> d < n" if "n < 64" for n
    using d that by (simp add: word_less_nat_alt)
  have e: "(ucast (of_nat d :: u8) :: u64) = 62 \<longleftrightarrow> d = 62"
    using ucast_u8_eq_iff [of 62 "of_nat d"] d by simp
  have s: "n \<le> d \<Longrightarrow> (of_nat d :: u8) - of_nat n = of_nat (d - n)" for n by simp
  show ?thesis
    using l [of 62] l [of 52] l [of 26] s [of 52] s [of 26]
    by (simp add: conv_bin2ascii_def Let_def a constant_time_eqs constant_time_lt_args_8_eq e b64_char_def
        flip: d_def)
qed

lemma d64_cases:
  fixes d :: nat
  assumes "d < 64"
  obtains "d < 26" | k where "d = 26 + k" "k < 26" | k where "d = 52 + k" "k < 10" | "d = 62" | "d = 63"
proof -
  consider "d < 26" | "26 \<le> d" "d < 52" | "52 \<le> d" "d < 62" | "d = 62" | "d = 63" using assms by linarith
  then show ?thesis
    by cases (use that in \<open>auto simp: nat_le_iff_add\<close>)
qed

lemma b64_digit_iff: "b64_digit c = Some d \<longleftrightarrow> d < 64 \<and> c = b64_char d"
proof
  assume d: "b64_digit c = Some d"
  obtain n where c: "c = of_nat n" and n: "n < 256" using unat_u8_less [of c] of_nat_unat_u8 by metis
  have d': "(if 65 \<le> n \<and> n \<le> 90 then Some (n - 65) else if 97 \<le> n \<and> n \<le> 122 then Some (n - 97 + 26)
      else if 48 \<le> n \<and> n \<le> 57 then Some (n - 48 + 52)
      else if n = 43 then Some 62 else if n = 47 then Some 63 else None) = Some d"
    using d n by (simp add: b64_digit_def c)
  consider "65 \<le> n \<and> n \<le> 90" | "\<not> (65 \<le> n \<and> n \<le> 90)" "97 \<le> n \<and> n \<le> 122"
    | "\<not> (65 \<le> n \<and> n \<le> 90)" "\<not> (97 \<le> n \<and> n \<le> 122)" "48 \<le> n \<and> n \<le> 57"
    | "n = 43" | "n = 47"
    using d' by (metis option.distinct(1))
  then show "d < 64 \<and> c = b64_char d"
  proof cases
    case 1
    then have "d = n - 65" using d' by simp
    with 1 have "d < 26" "n = 65 + d" by auto
    then show ?thesis by (simp add: c b64_char_def)
  next
    case 2
    then have "d = n - 97 + 26" using d' by (simp only: if_False if_True simp_thms option.inject)
    with 2 have "\<not> d < 26" "d < 52" "n = 97 + (d - 26)" by auto
    then show ?thesis by (simp add: c b64_char_def)
  next
    case 3
    then have "d = n - 48 + 52" using d' by (simp only: if_False if_True simp_thms option.inject)
    with 3 have "\<not> d < 52" "d < 62" "n = 48 + (d - 52)" by auto
    then show ?thesis by (simp add: c b64_char_def)
  qed (use d' in \<open>simp_all add: c b64_char_def\<close>)
next
  assume d: "d < 64 \<and> c = b64_char d"
  then consider "d < 26" | k where "d = 26 + k" "k < 26" | k where "d = 52 + k" "k < 10" | "d = 62" | "d = 63"
    using d64_cases by blast
  then show "b64_digit c = Some d"
    using d by cases (simp_all add: b64_digit_def b64_char_def Let_def del: of_nat_add)
qed

lemma base64_ascii_to_bin_eq:
  "base64_ascii_to_bin c =
     (if c = ch_eq then 0 else case b64_digit c of None \<Rightarrow> 0xff | Some d \<Rightarrow> of_nat d)"
proof -
  obtain n where c: "c = of_nat n" and n: "n < 256" using unat_u8_less [of c] of_nat_unat_u8 by metis
  have l: "of_nat m \<le> (of_nat n :: u8) \<longleftrightarrow> m \<le> n" "(of_nat n :: u8) \<le> of_nat m \<longleftrightarrow> n \<le> m" if "m < 256" for m
    using n that by (simp_all add: word_le_nat_alt)
  have e: "(ucast (of_nat n :: u8) :: u64) = of_nat m \<longleftrightarrow> n = m" if "m < 256" for m
    using ucast_u8_eq_iff [of m "of_nat n"] n that by simp
  have q: "(of_nat n :: u8) = of_nat m \<longleftrightarrow> n = m" if "m < 256" for m
    using n that by (simp add: word_unat_eq_iff)
  have s: "m \<le> n \<Longrightarrow> (of_nat n :: u8) - of_nat m = of_nat (n - m)" for m by simp
  show ?thesis
    using l [of 65] l [of 90] l [of 97] l [of 122] l [of 48] l [of 57] e [of 43] e [of 47] e [of 61]
      q [of 61] s [of 65] s [of 97] s [of 48] n
    by (simp add: base64_ascii_to_bin_def Let_def constant_time_eqs constant_time_in_range_8_eq c
        b64_digit_def)
qed

lemma b64_digit_pad [simp]: "b64_digit ch_eq = None"
  by (simp add: b64_digit_def)

section \<open>Digits\<close>

lemma length_digits64 [simp]: "length (digits64 n v) = n"
  by (induction n v rule: digits64.induct) simp_all

lemma digits64_less: "d \<in> set (digits64 n v) \<Longrightarrow> d < 64"
  by (induction n v rule: digits64.induct) auto

lemma val64_Nil [simp]: "val64 [] = 0"
  by (simp add: val64_def)

lemma val64_snoc [simp]: "val64 (ds @ [d]) = val64 ds * 64 + d"
  by (simp add: val64_def)

lemma val64_append: "val64 (ds @ es) = val64 ds * 64 ^ length es + val64 es"
proof (induction es rule: rev_induct)
  case (snoc e es)
  then show ?case
    unfolding append_assoc [symmetric] val64_snoc by (simp add: algebra_simps)
qed simp

lemma val64_less: "\<forall>d \<in> set ds. d < 64 \<Longrightarrow> val64 ds < 64 ^ length ds"
proof (induction ds rule: rev_induct)
  case (snoc d ds)
  then have "(val64 ds + 1) * 64 \<le> 64 ^ length ds * 64" by (intro mult_le_mono1) simp
  with snoc.prems show ?case by (simp add: mult.commute)
qed simp

lemma digits64_val64: "\<forall>d \<in> set ds. d < 64 \<Longrightarrow> digits64 (length ds) (val64 ds) = ds"
  by (induction ds rule: rev_induct) simp_all

lemma val64_digits64: "val64 (digits64 n v) = v mod 64 ^ n"
proof (induction n v rule: digits64.induct)
  case (2 n v)
  then show ?case by (simp add: mod_mult2_eq)
qed simp

lemma digits64_append: "r < 64 ^ m \<Longrightarrow> digits64 (n + m) (v * 64 ^ m + r) = digits64 n v @ digits64 m r"
proof (induction m arbitrary: r)
  case (Suc m)
  have e: "v * 64 ^ Suc m + r = v * 64 ^ m * 64 + r" by simp
  have "(v * 64 ^ m * 64 + r) div 64 = v * 64 ^ m + r div 64" "(v * 64 ^ m * 64 + r) mod 64 = r mod 64"
    by simp_all
  moreover have "r div 64 < 64 ^ m" using Suc.prems by (simp add: less_mult_imp_div_less mult.commute)
  ultimately show ?case using Suc.IH [of "r div 64"] unfolding e by simp
qed simp

text \<open>As many digits as the bytes and the padding make up.\<close>

lemma radix_64_256: "8 * n + 2 * k = 6 * m \<Longrightarrow> 256 ^ n * 4 ^ k = (64 :: nat) ^ m"
proof -
  assume "8 * n + 2 * k = 6 * m"
  moreover have "256 ^ n * 4 ^ k = (2 :: nat) ^ (8 * n + 2 * k)"
    by (simp add: power_add power_mult)
  ultimately show ?thesis by (simp add: power_mult)
qed

lemma b64_pad_less: "b64_pad n < 3"
  by (simp add: b64_pad_def)

lemma b64_pad_dvd: "6 * ((8 * n + 2 * b64_pad n) div 6) = 8 * n + 2 * b64_pad n"
proof -
  obtain q r where n: "n = 3 * q + r" "r < 3" using mod_less_divisor [of 3 n] by (metis mult_div_mod_eq zero_less_numeral)
  from n(2) consider "r = 0" | "r = 1" | "r = 2" by linarith
  then show ?thesis by cases (simp_all add: n(1) b64_pad_def mod_Suc)
qed

lemma b64_pad_unique:
  assumes "k < 3" "8 * n + 2 * k = 6 * m"
  shows "k = b64_pad n"
proof -
  have "3 * m = 3 * n + (n + k)" using assms(2) by linarith
  then have "(3 * n + (n + k)) mod 3 = 0" by (metis mod_mult_self1_is_0)
  then have s: "(n mod 3 + k) mod 3 = 0" by (simp only: mod_mult_self4 mod_add_left_eq)
  have "n mod 3 < 3" by simp
  then consider "n mod 3 = 0" | "n mod 3 = 1" | "n mod 3 = 2" by linarith
  moreover from assms(1) have "k = 0 \<or> k = 1 \<or> k = 2" by linarith
  ultimately show ?thesis using s unfolding b64_pad_def by cases (elim disjE; simp)+
qed

lemma base64_decodes_base64: "base64_decodes (base64 x) x"
proof -
  let ?k = "b64_pad (length x)" and ?m = "(8 * length x + 2 * b64_pad (length x)) div 6"
  have m: "8 * length x + 2 * ?k = 6 * ?m" using b64_pad_dvd [of "length x"] by simp
  have "be_val x * 4 ^ ?k < 256 ^ length x * 4 ^ ?k" using be_val_less by simp
  then have "be_val x * 4 ^ ?k < 64 ^ ?m" unfolding radix_64_256 [OF m] .
  then have "be_val x = val64 (digits64 ?m (be_val x * 4 ^ ?k)) div 4 ^ ?k"
    by (simp add: val64_digits64)
  with m show ?thesis
    unfolding base64_decodes_def base64_def Let_def
    by (intro exI [of _ "digits64 ?m (be_val x * 4 ^ ?k)"] exI [of _ ?k])
      (auto simp: b64_pad_less dest: digits64_less)
qed

section \<open>The encoder\<close>

lemma conv_bin2ascii_shift: "conv_bin2ascii (ucast (drop_bit k (l :: u32))) = b64_char (unat l div 2 ^ k mod 64)"
proof -
  have "unat (ucast (drop_bit k l) :: u8) = unat l div 2 ^ k mod 256"
    by (simp add: unsigned_ucast_eq unat_drop_bit_div take_bit_eq_mod)
  then show ?thesis by (simp add: conv_bin2ascii_eq mod_mod_cancel)
qed

lemma unat_or_3_bytes:
  "unat (push_bit 16 (ucast s0) OR push_bit 8 (ucast s1) OR ucast s2 :: u32) = be_val [s0, s1, s2]"
proof -
  have u: "unat (ucast s :: u32) = unat s" for s :: u8
    using less_trans [OF unat_u8_less, of "2 ^ 32" s] by (simp add: unsigned_ucast_eq take_bit_nat_eq_self_iff)
  have b: "unat s < 256" for s :: u8 by simp
  have "unat (push_bit 8 (ucast s1) OR ucast s2 :: u32) = unat s1 * 256 + unat s2"
    using unat_shift_or [of "ucast s2 :: u32" 8 "ucast s1"] b [of s1] b [of s2] by (simp add: u del: unat_u8_less)
  moreover from this have "unat (push_bit 8 (ucast s1) OR ucast s2 :: u32) < 2 ^ 16"
    using b [of s1] b [of s2] by (simp del: unat_u8_less)
  ultimately show ?thesis
    using unat_shift_or [of "push_bit 8 (ucast s1) OR ucast s2 :: u32" 16 "ucast s0"] b [of s0] b [of s1] b [of s2]
    by (simp add: u be_val_Cons del: unat_u8_less)
qed

lemma digits64_2: "digits64 2 n = [n div 64 mod 64, n mod 64]"
  and digits64_3: "digits64 3 n = [n div 64 div 64 mod 64, n div 64 mod 64, n mod 64]"
  and digits64_4: "digits64 4 n = [n div 64 div 64 div 64 mod 64, n div 64 div 64 mod 64, n div 64 mod 64, n mod 64]"
proof -
  have e: "(2 :: nat) = Suc (Suc 0)" "(3 :: nat) = Suc (Suc (Suc 0))" "(4 :: nat) = Suc (Suc (Suc (Suc 0)))"
    by simp_all
  show "digits64 2 n = [n div 64 mod 64, n mod 64]" unfolding e(1) by simp
  show "digits64 3 n = [n div 64 div 64 mod 64, n div 64 mod 64, n mod 64]" unfolding e(2) by simp
  show "digits64 4 n = [n div 64 div 64 div 64 mod 64, n div 64 div 64 mod 64, n div 64 mod 64, n mod 64]"
    unfolding e(3) by simp
qed

lemma conv_quad:
  assumes "unat (l :: u32) = n"
  shows "[conv_bin2ascii (ucast (drop_bit 18 l)), conv_bin2ascii (ucast (drop_bit 12 l)),
      conv_bin2ascii (ucast (drop_bit 6 l)), conv_bin2ascii (ucast l)] = map b64_char (digits64 4 n)"
  unfolding digits64_4
  using conv_bin2ascii_shift [of 18 l] conv_bin2ascii_shift [of 12 l] conv_bin2ascii_shift [of 6 l]
    conv_bin2ascii_shift [of 0 l]
  by (simp add: assms flip: div_mult2_eq)

lemma base64_Cons3: "base64 (a # b # c # x) = map b64_char (digits64 4 (be_val [a, b, c])) @ base64 x"
proof -
  let ?k = "b64_pad (length x)" and ?m = "(8 * length x + 2 * b64_pad (length x)) div 6"
  have m: "8 * length x + 2 * ?k = 6 * ?m" using b64_pad_dvd [of "length x"] by simp
  have k: "b64_pad (length (a # b # c # x)) = ?k" by (simp add: b64_pad_def numeral_3_eq_3 [symmetric])
  have n: "(8 * length (a # b # c # x) + 2 * ?k) div 6 = 4 + ?m" by simp
  have "be_val x * 4 ^ ?k < 64 ^ ?m"
    using be_val_less [of x] unfolding radix_64_256 [OF m, symmetric] by simp
  moreover have "be_val (a # b # c # x) * 4 ^ ?k = be_val [a, b, c] * 64 ^ ?m + be_val x * 4 ^ ?k"
    using be_val_append [of "[a, b, c]" x] unfolding radix_64_256 [OF m, symmetric] by (simp add: algebra_simps)
  ultimately show ?thesis
    unfolding base64_def Let_def k n by (simp add: digits64_append)
qed

lemma EncodeBlock_loop_eq: "EncodeBlock_loop x = base64 x"
proof (induction x rule: EncodeBlock_loop.induct)
  case 1
  show ?case by (simp add: base64_def b64_pad_def)
next
  case (2 s0 s1 s2 src)
  then show ?case
    by (simp add: base64_Cons3 conv_quad [OF unat_or_3_bytes, simplified])
next
  case (3 s0 s1)
  define v where "v = be_val [s0, s1]"
  have l: "unat (push_bit 16 (ucast s0) OR push_bit 8 (ucast s1) :: u32) = v * 4 * 64"
    using unat_or_3_bytes [of s0 s1 0] be_val_snoc [of "[s0, s1]" 0] by (simp add: v_def)
  have "map b64_char (digits64 4 (m * 64)) = map b64_char (digits64 3 m) @ [b64_char 0]" for m
    by (simp add: digits64_3 digits64_4)
  from this [of "v * 4"] show ?case
    using conv_quad [OF l]
    by (simp add: base64_def b64_pad_def Let_def v_def [symmetric])
next
  case (4 s0)
  define v where "v = be_val [s0]"
  have l: "unat (push_bit 16 (ucast s0) :: u32) = v * 16 * 64 * 64"
    using unat_or_3_bytes [of s0 0 0] be_val_snoc [of "[s0, 0]" 0] be_val_snoc [of "[s0]" 0] by (simp add: v_def)
  have z: "map b64_char (digits64 4 (m * 64 * 64)) = map b64_char (digits64 2 m) @ [b64_char 0, b64_char 0]" for m
    by (simp add: digits64_2 digits64_4)
  have "replicate 2 ch_eq = [ch_eq, ch_eq]" by (simp add: numeral_2_eq_2)
  then show ?case
    using conv_quad [OF l, symmetric] z [of "v * 16"]
    by (simp add: base64_def b64_pad_def Let_def v_def [symmetric])
qed

lemma EVP_EncodeBlock_eq: "EVP_EncodeBlock dst off src = (length (base64 src), memcpy dst off (base64 src @ [0]))"
  by (simp add: EVP_EncodeBlock_def EncodeBlock_loop_eq Let_def)

lemma length_base64: "length (base64 x) = 4 * ((length x + 2) div 3)"
proof -
  let ?k = "b64_pad (length x)"
  obtain m where d: "(8 * length x + 2 * ?k) div 6 = m" and m: "8 * length x + 2 * ?k = 6 * m"
    using b64_pad_dvd [of "length x"] by metis
  from m have "3 * (m + ?k) = 4 * (length x + ?k)" by simp
  moreover obtain c where c: "(length x + 2) div 3 = c" by blast
  moreover have "3 * ((length x + 2) div 3) = length x + ?k"
  proof -
    define r q where "r = length x mod 3" and "q = length x div 3"
    have n: "length x = 3 * q + r" and "r < 3" by (simp_all add: r_def q_def)
    then consider "r = 0" | "r = 1" | "r = 2" by linarith
    then show ?thesis by cases (simp_all add: n b64_pad_def mod_Suc)
  qed
  moreover have "length (base64 x) = m + ?k" by (simp add: base64_def Let_def d)
  ultimately show ?thesis unfolding c by simp
qed

text \<open>\<open>EVP_EncodedLength\<close> is exact: it fails iff the buffer size does not fit a \<open>size_t\<close>.\<close>

lemma EVP_EncodedLength_Some:
  "EVP_EncodedLength len = Some r \<longleftrightarrow>
     4 * ((unat len + 2) div 3) + 1 < 2 ^ 64 \<and> unat r = 4 * ((unat len + 2) div 3) + 1"
proof -
  define n where "n = unat len"
  have n: "n < 2 ^ 64" using unsigned_less [of len, where ?'a = nat] by (simp add: n_def)
  show ?thesis
  proof (cases "n + 2 < 2 ^ 64")
    case False
    then have "(n + 2) mod 2 ^ 64 = n + 2 - 2 ^ 64" using n by (simp add: le_mod_geq)
    moreover have "n + 2 - 2 ^ 64 < n" using False by simp
    ultimately have "(n + 2) mod 2 ^ 64 < n" by (simp only:)
    then have "len + 2 < len"
      by (simp add: word_less_nat_alt unat_word_ariths flip: n_def)
    moreover have "2 ^ 64 \<le> 4 * ((n + 2) div 3)" using False by simp
    ultimately show ?thesis by (simp add: EVP_EncodedLength_def flip: n_def)
  next
    case True
    define q where "q = (n + 2) div 3"
    have q: "q < 2 ^ 63" using True unfolding q_def by (simp add: less_mult_imp_div_less)
    have l2: "unat (len + 2) = n + 2" using True by (simp add: unat_word_ariths n_def)
    then have l: "\<not> len + 2 < len" by (simp add: word_less_nat_alt n_def)
    have d: "unat ((len + 2) div 3) = q" by (simp add: unat_div_distrib l2 q_def)
    have p: "unat (push_bit 2 ((len + 2) div 3)) = q * 4 mod 2 ^ 64"
      unfolding unsigned_push_bit_eq d by (simp add: push_bit_eq_mult take_bit_eq_mod)
    have w: "drop_bit 2 (push_bit 2 ((len + 2) div 3)) \<noteq> (len + 2) div 3 \<longleftrightarrow> \<not> q * 4 < 2 ^ 64"
    proof -
      have "q * 4 mod 2 ^ 64 div 2 ^ 2 < q" if "\<not> q * 4 < 2 ^ 64"
      proof (rule less_mult_imp_div_less)
        have "q * 4 mod 2 ^ 64 < 2 ^ 64" by simp
        also have "\<dots> \<le> q * 2 ^ 2" using that by simp
        finally show "q * 4 mod 2 ^ 64 < q * 2 ^ 2" .
      qed
      moreover have "q * 4 mod 2 ^ 64 div 2 ^ 2 = q" if "q * 4 < 2 ^ 64" using that by simp
      ultimately show ?thesis unfolding word_unat_eq_iff unat_drop_bit_div p d by auto
    qed
    show ?thesis
    proof (cases "q * 4 < 2 ^ 64")
      case False
      then have "EVP_EncodedLength len = None" using w l by (simp add: EVP_EncodedLength_def Let_def)
      with False show ?thesis unfolding n_def [symmetric] q_def [symmetric] by simp
    next
      case True
      define a where "a = push_bit 2 ((len + 2) div 3)"
      have a: "unat a = q * 4" using p True by (simp add: a_def)
      have "q < 2 ^ 62" using True by simp
      then have "q * 4 + 1 < 2 ^ 64" by simp
      then have a1: "unat (a + 1) = q * 4 + 1" by (simp add: unat_word_ariths a)
      then have "\<not> a + 1 < a" by (simp add: word_less_nat_alt a)
      then have "EVP_EncodedLength len = Some (a + 1)"
        using w l True by (simp add: EVP_EncodedLength_def Let_def flip: a_def)
      then show ?thesis
        using \<open>q * 4 + 1 < 2 ^ 64\<close> a1 unfolding n_def [symmetric] q_def [symmetric]
        by (auto simp: word_unat_eq_iff mult.commute)
    qed
  qed
qed

section \<open>The decoder\<close>

text \<open>A text is made of quads, all but the last without padding.\<close>

lemma base64_decodes_Nil: "base64_decodes [] x \<longleftrightarrow> x = []"
  by (auto simp: base64_decodes_def)

lemma base64_decodes_length: "base64_decodes s x \<Longrightarrow> length s mod 4 = 0"
proof -
  assume "base64_decodes s x"
  then obtain m k where "length s = m + k" "8 * length x + 2 * k = 6 * m"
    unfolding base64_decodes_def by (metis length_append length_map length_replicate)
  then have "length s = 4 * (m - length x)" by linarith
  then show ?thesis by simp
qed

text \<open>What the four characters of a quad decode to.\<close>

definition quad_bytes :: "u8 \<Rightarrow> u8 \<Rightarrow> u8 \<Rightarrow> u8 \<Rightarrow> bytes option" where
  "quad_bytes c0 c1 c2 c3 =
     (case (b64_digit c0, b64_digit c1, b64_digit c2, b64_digit c3) of
        (Some p, Some q, Some r, Some s) \<Rightarrow> Some (be_bytes 3 (val64 [p, q, r, s]))
      | (Some p, Some q, Some r, None) \<Rightarrow> if c3 = ch_eq then Some (be_bytes 2 (val64 [p, q, r] div 4)) else None
      | (Some p, Some q, None, None) \<Rightarrow>
          if c2 = ch_eq \<and> c3 = ch_eq then Some (be_bytes 1 (val64 [p, q] div 16)) else None
      | _ \<Rightarrow> None)"

lemma unat_or_4_sextets:
  assumes "p < 64" "q < 64" "r < 64" "s < 64"
  shows "unat (push_bit 18 (ucast (of_nat p :: u8)) OR push_bit 12 (ucast (of_nat q :: u8)) OR
      push_bit 6 (ucast (of_nat r :: u8)) OR ucast (of_nat s :: u8) :: u32) = val64 [p, q, r, s]"
proof -
  have u: "unat (ucast (of_nat n :: u8) :: u32) = n" if "n < 64" for n
    using that by (simp add: unsigned_ucast_eq take_bit_eq_mod)
  define x1 :: u32 where "x1 = push_bit 6 (ucast (of_nat r :: u8)) OR ucast (of_nat s :: u8)"
  define x2 :: u32 where "x2 = push_bit 12 (ucast (of_nat q :: u8)) OR x1"
  have x1: "unat x1 = r * 64 + s"
    unfolding x1_def using unat_shift_or [of "ucast (of_nat s :: u8) :: u32" 6 "ucast (of_nat r :: u8)"] assms
    by (simp add: u)
  have l1: "unat x1 < 2 ^ 12" unfolding x1 using assms by simp
  have x2: "unat x2 = q * 4096 + r * 64 + s"
    unfolding x2_def using unat_shift_or [OF l1, of "ucast (of_nat q :: u8)"] x1 assms by (simp add: u)
  have l2: "unat x2 < 2 ^ 18" unfolding x2 using assms by simp
  show ?thesis
    using unat_shift_or [OF l2, of "ucast (of_nat p :: u8)"] x2 assms
    by (simp add: u x1_def x2_def val64_def)
qed

lemma ucast_drop_bit_u32: "ucast (drop_bit k (v :: u32)) = (of_nat (unat v div 2 ^ k) :: u8)"
  by (simp add: word_unat_eq_iff unsigned_ucast_eq unat_drop_bit_div take_bit_eq_mod)

lemma ucast_or_4_sextets:
  assumes "p < 64" "q < 64" "r < 64" "s < 64"
  shows "(ucast (push_bit 18 (ucast (of_nat p :: u8)) OR push_bit 12 (ucast (of_nat q :: u8)) OR
      push_bit 6 (ucast (of_nat r :: u8)) OR ucast (of_nat s :: u8) :: u32) :: u8) = of_nat (val64 [p, q, r, s])"
  unfolding unat_or_4_sextets [OF assms, symmetric] using ucast_drop_bit_u32 [where k = 0] by simp

lemma be_bytes_1: "be_bytes 1 v = [of_nat v]"
  and be_bytes_2: "be_bytes 2 v = [of_nat (v div 256), of_nat v]"
  and be_bytes_3: "be_bytes 3 v = [of_nat (v div 65536), of_nat (v div 256), of_nat v]"
  by (simp_all add: numeral_2_eq_2 numeral_3_eq_3 flip: div_mult2_eq)

lemma base64_ascii_to_bin_digit:
  assumes "b64_digit c = Some d"
  shows "base64_ascii_to_bin c = of_nat d" "(of_nat d :: u8) \<noteq> 0xff" "c \<noteq> ch_eq" "d < 64"
proof -
  show d: "d < 64" using assms b64_digit_iff by blast
  then have "d mod 256 \<noteq> 255" by simp
  then show "(of_nat d :: u8) \<noteq> 0xff" by (simp add: word_unat_eq_iff)
  show e: "c \<noteq> ch_eq" using assms b64_digit_pad by (metis option.distinct(1))
  show "base64_ascii_to_bin c = of_nat d" using e by (simp add: base64_ascii_to_bin_eq assms)
qed

lemma base64_ascii_to_bin_cases:
  obtains (bad) "base64_ascii_to_bin c = 0xff" "b64_digit c = None" "c \<noteq> ch_eq"
    | (pad) "c = ch_eq" "base64_ascii_to_bin c = 0"
    | (digit) d where "b64_digit c = Some d" "base64_ascii_to_bin c = of_nat d" "(of_nat d :: u8) \<noteq> 0xff"
        "c \<noteq> ch_eq" "d < 64"
  using base64_ascii_to_bin_digit [of c] that
  by (cases "c = ch_eq"; cases "b64_digit c") (auto simp: base64_ascii_to_bin_eq)

lemma base64_decode_quad_bad:
  assumes "c \<in> {c0, c1, c2, c3}" "base64_ascii_to_bin c = 0xff"
  shows "base64_decode_quad dst off (c0 # c1 # c2 # c3 # rest) = None"
  using assms by (auto simp: base64_decode_quad_def Let_def numeral_2_eq_2 numeral_3_eq_3)

lemma quad_bytes_bad:
  assumes "c \<in> {c0, c1, c2, c3}" "b64_digit c = None" "c \<noteq> ch_eq"
  shows "quad_bytes c0 c1 c2 c3 = None"
  using assms by (auto simp: quad_bytes_def split: option.splits)

lemma base64_decode_quad_eq:
  "base64_decode_quad dst off (c0 # c1 # c2 # c3 # rest) =
     map_option (\<lambda>y. (length y, memcpy dst off y)) (quad_bytes c0 c1 c2 c3)"
proof (cases "\<exists>c \<in> {c0, c1, c2, c3}. base64_ascii_to_bin c = 0xff")
  case True
  then obtain c where c: "c \<in> {c0, c1, c2, c3}" "base64_ascii_to_bin c = 0xff" by blast
  then have "b64_digit c = None \<and> c \<noteq> ch_eq"
    by (cases c rule: base64_ascii_to_bin_cases) auto
  with c show ?thesis by (simp add: base64_decode_quad_bad quad_bytes_bad)
next
  case False
  have n: "(c0 # c1 # c2 # c3 # rest) ! 2 = c2" "(c0 # c1 # c2 # c3 # rest) ! 3 = c3"
    by (simp_all add: numeral_2_eq_2 numeral_3_eq_3)
  have v0: "val64 [p, q, r, 0] div 65536 = val64 [p, q, r] div 4 div 256" "val64 [p, q, 0] div 4 div 256 = val64 [p, q] div 16"
    "val64 [p, q, r, 0] div 256 = val64 [p, q, r] div 4" "val64 [p, q, 0, 0] div 65536 = val64 [p, q] div 16"
    for p q r
    by (simp_all add: val64_def flip: div_mult2_eq)
  note unat_or_4_sextets [where s = 0, simplified, simp] unat_or_4_sextets [where s = 0 and r = 0, simplified, simp]
  show ?thesis
    by (cases c0 rule: base64_ascii_to_bin_cases; cases c1 rule: base64_ascii_to_bin_cases;
        cases c2 rule: base64_ascii_to_bin_cases; cases c3 rule: base64_ascii_to_bin_cases;
        use False in \<open>simp add: base64_decode_quad_def Let_def n quad_bytes_def
          ucast_drop_bit_u32 ucast_or_4_sextets unat_or_4_sextets v0 be_bytes_1 be_bytes_2 be_bytes_3\<close>)
qed

lemma val64_in_bytes:
  assumes "8 * n + 2 * k = 6 * length ds" "\<forall>d \<in> set ds. d < 64"
  shows "val64 ds div 4 ^ k < 256 ^ n"
proof -
  have "val64 ds < 256 ^ n * 4 ^ k"
    using val64_less [OF assms(2)] unfolding radix_64_256 [OF assms(1)] .
  then show ?thesis by (simp add: less_mult_imp_div_less)
qed

lemma base64_decodesI:
  assumes "k < 3" "\<forall>d \<in> set ds. d < 64" "8 * n + 2 * k = 6 * length ds"
    "s = map b64_char ds @ replicate k ch_eq"
  shows "base64_decodes s (be_bytes n (val64 ds div 4 ^ k))"
  unfolding base64_decodes_def using assms val64_in_bytes [OF assms(3,2)]
  by (intro exI [of _ ds] exI [of _ k]) (simp add: be_val_be_bytes)

lemma base64_decodesE:
  assumes "base64_decodes s x"
  obtains ds k where "k < 3" "\<forall>d \<in> set ds. d < 64" "8 * length x + 2 * k = 6 * length ds"
    "s = map b64_char ds @ replicate k ch_eq" "x = be_bytes (length x) (val64 ds div 4 ^ k)"
  using assms be_bytes_be_val [of x] unfolding base64_decodes_def by metis

lemma b64_digit_char: "d < 64 \<Longrightarrow> b64_digit (b64_char d) = Some d"
  by (simp add: b64_digit_iff)

lemma length_4E:
  assumes "length xs = 4"
  obtains a b c d where "xs = [a, b, c, d]"
  using assms by (auto simp: numeral_eq_Suc length_Suc_conv)

lemma length_3E:
  assumes "length xs = 3"
  obtains a b c where "xs = [a, b, c]"
  using assms by (auto simp: numeral_eq_Suc length_Suc_conv)

lemma length_2E:
  assumes "length xs = 2"
  obtains a b where "xs = [a, b]"
  using assms by (auto simp: numeral_eq_Suc length_Suc_conv)

lemma base64_decodes_quad: "base64_decodes [c0, c1, c2, c3] y \<longleftrightarrow> quad_bytes c0 c1 c2 c3 = Some y"
proof
  assume "base64_decodes [c0, c1, c2, c3] y"
  then obtain ds k where k: "k < 3" "8 * length y + 2 * k = 6 * length ds"
    and s: "[c0, c1, c2, c3] = map b64_char ds @ replicate k ch_eq" and ds: "\<forall>d \<in> set ds. d < 64"
    and y: "y = be_bytes (length y) (val64 ds div 4 ^ k)"
    by (rule base64_decodesE)
  from k(1) consider "k = 0" | "k = 1" | "k = 2" by linarith
  then show "quad_bytes c0 c1 c2 c3 = Some y"
  proof cases
    case 1
    have "length [c0, c1, c2, c3] = length ds" unfolding s 1 by simp
    then have "length ds = 4" by simp
    then obtain p q r t where "ds = [p, q, r, t]" by (rule length_4E)
    moreover have "length y = 3" using k \<open>length ds = 4\<close> 1 by simp
    ultimately show ?thesis using y s ds 1 by (simp add: quad_bytes_def b64_digit_char)
  next
    case 2
    have "length [c0, c1, c2, c3] = length ds + 1" unfolding s 2 by simp
    then have l: "length ds = 3" by simp
    then obtain p q r where "ds = [p, q, r]" by (rule length_3E)
    moreover have "length y = 2" using k l 2 by simp
    ultimately show ?thesis using y s ds 2 by (simp add: quad_bytes_def b64_digit_char)
  next
    case 3
    have "length [c0, c1, c2, c3] = length ds + 2" unfolding s 3 by simp
    then have l: "length ds = 2" by simp
    then obtain p q where "ds = [p, q]" by (rule length_2E)
    moreover have "length y = 1" using k l 3 by simp
    ultimately show ?thesis using y s ds 3 by (simp add: quad_bytes_def b64_digit_char numeral_2_eq_2)
  qed
next
  assume "quad_bytes c0 c1 c2 c3 = Some y"
  then consider
      p q r t where "b64_digit c0 = Some p" "b64_digit c1 = Some q" "b64_digit c2 = Some r" "b64_digit c3 = Some t"
        "y = be_bytes 3 (val64 [p, q, r, t])"
    | p q r where "b64_digit c0 = Some p" "b64_digit c1 = Some q" "b64_digit c2 = Some r" "c3 = ch_eq"
        "y = be_bytes 2 (val64 [p, q, r] div 4)"
    | p q where "b64_digit c0 = Some p" "b64_digit c1 = Some q" "c2 = ch_eq" "c3 = ch_eq"
        "y = be_bytes 1 (val64 [p, q] div 16)"
    unfolding quad_bytes_def by (fastforce split: option.splits if_splits)
  then show "base64_decodes [c0, c1, c2, c3] y"
  proof cases
    case (1 p q r t)
    then show ?thesis using base64_decodesI [of 0 "[p, q, r, t]" 3] by (simp add: b64_digit_iff)
  next
    case (2 p q r)
    then show ?thesis using base64_decodesI [of 1 "[p, q, r]" 2] by (simp add: b64_digit_iff)
  next
    case (3 p q)
    then show ?thesis using base64_decodesI [of 2 "[p, q]" 1] by (simp add: b64_digit_iff numeral_2_eq_2)
  qed
qed

lemma be_bytes_quads:
  assumes "length ds = 4" "\<forall>d \<in> set ds. d < 64" "\<forall>d \<in> set es. d < 64" "8 * n + 2 * k = 6 * length es"
  shows "be_bytes (3 + n) (val64 (ds @ es) div 4 ^ k) = be_bytes 3 (val64 ds) @ be_bytes n (val64 es div 4 ^ k)"
proof (rule be_bytes_eqI [symmetric])
  have "val64 ds < 256 ^ 3" using val64_less [OF assms(2)] by (simp add: assms(1))
  moreover have "val64 (ds @ es) div 4 ^ k = val64 ds * 256 ^ n + val64 es div 4 ^ k"
    unfolding val64_append radix_64_256 [OF assms(4), symmetric] mult.assoc [symmetric] by simp
  ultimately show "be_val (be_bytes 3 (val64 ds) @ be_bytes n (val64 es div 4 ^ k)) = val64 (ds @ es) div 4 ^ k"
    using val64_in_bytes [OF assms(4,3)] by (simp add: be_val_append be_val_be_bytes)
qed simp

lemma base64_decodes_append:
  assumes q: "length q = 4" and t: "length t mod 4 = 0" "t \<noteq> []"
  shows "base64_decodes (q @ t) z \<longleftrightarrow>
    (\<exists>y x. base64_decodes q y \<and> length y = 3 \<and> base64_decodes t x \<and> z = y @ x)"
proof
  assume "base64_decodes (q @ t) z"
  then obtain ds k where k: "k < 3" "8 * length z + 2 * k = 6 * length ds"
    and s: "q @ t = map b64_char ds @ replicate k ch_eq" and ds: "\<forall>d \<in> set ds. d < 64"
    and z: "z = be_bytes (length z) (val64 ds div 4 ^ k)"
    by (rule base64_decodesE)
  have "4 \<le> length t" using t by (cases "length t < 4") auto
  moreover have "length (q @ t) = length ds + k" unfolding s by simp
  ultimately have l: "4 \<le> length ds" "4 \<le> length z" using q k by simp_all
  define ds1 ds2 n where "ds1 = take 4 ds" and "ds2 = drop 4 ds" and "n = length z - 3"
  have e: "ds = ds1 @ ds2" "length ds1 = 4" "length z = 3 + n" using l by (simp_all add: ds1_def ds2_def n_def)
  have d: "\<forall>d \<in> set ds1. d < 64" "\<forall>d \<in> set ds2. d < 64" using ds by (simp_all add: e(1))
  have m: "8 * n + 2 * k = 6 * length ds2" using k(2) e by simp
  have "q = map b64_char ds1" "t = map b64_char ds2 @ replicate k ch_eq"
    using s q e(2) by (simp_all add: e(1))
  then have "base64_decodes q (be_bytes 3 (val64 ds1))" "base64_decodes t (be_bytes n (val64 ds2 div 4 ^ k))"
    using base64_decodesI [of 0 ds1 3] base64_decodesI [of k ds2 n] d k(1) m e(2) by simp_all
  moreover have "z = be_bytes 3 (val64 ds1) @ be_bytes n (val64 ds2 div 4 ^ k)"
    using z be_bytes_quads [OF e(2) d m] e by metis
  ultimately show "\<exists>y x. base64_decodes q y \<and> length y = 3 \<and> base64_decodes t x \<and> z = y @ x"
    by (metis length_be_bytes)
next
  assume "\<exists>y x. base64_decodes q y \<and> length y = 3 \<and> base64_decodes t x \<and> z = y @ x"
  then obtain y x where y: "base64_decodes q y" "length y = 3" and x: "base64_decodes t x" and z: "z = y @ x" by blast
  from y(1) obtain ds1 k1 where ds1: "8 * length y + 2 * k1 = 6 * length ds1" "\<forall>d \<in> set ds1. d < 64"
    and s1: "q = map b64_char ds1 @ replicate k1 ch_eq" and v1: "y = be_bytes (length y) (val64 ds1 div 4 ^ k1)"
    by (rule base64_decodesE)
  from x obtain ds2 k where ds2: "k < 3" "8 * length x + 2 * k = 6 * length ds2" "\<forall>d \<in> set ds2. d < 64"
    and s2: "t = map b64_char ds2 @ replicate k ch_eq" and v2: "x = be_bytes (length x) (val64 ds2 div 4 ^ k)"
    by (rule base64_decodesE)
  have "length ds1 + k1 = 4" using q s1 by simp
  then have 1: "length ds1 = 4" "k1 = 0" using ds1(1) y(2) by simp_all
  have "base64_decodes (q @ t) (be_bytes (3 + length x) (val64 (ds1 @ ds2) div 4 ^ k))"
    using ds1(2) ds2 1 s1 s2 by (intro base64_decodesI) auto
  moreover have "y = be_bytes 3 (val64 ds1)" using v1 by (simp add: 1 y(2))
  ultimately show "base64_decodes (q @ t) z"
    using v2 by (simp add: be_bytes_quads [OF 1(1) ds1(2) ds2(3,2)] z)
qed

lemma base64_decodes_quad_length:
  assumes "base64_decodes s x" "length s = 4"
  shows "length x \<le> 3" "0 < length x"
proof -
  from assms(1) obtain ds k where k: "k < 3" "8 * length x + 2 * k = 6 * length ds"
    and "s = map b64_char ds @ replicate k ch_eq"
    by (rule base64_decodesE)
  with assms(2) have "length ds + k = 4" by simp
  with k show "length x \<le> 3" "0 < length x" by linarith+
qed

lemma base64_decodes_split:
  assumes "length q = 4"
  shows "base64_decodes (q @ t) z \<longleftrightarrow>
    (\<exists>y x. base64_decodes q y \<and> base64_decodes t x \<and> z = y @ x \<and> (length y = 3 \<or> t = []))"
proof (cases "t = []")
  case True
  then show ?thesis by (auto simp: base64_decodes_Nil)
next
  case False
  show ?thesis
  proof (cases "length t mod 4 = 0")
    case True
    with False assms show ?thesis using base64_decodes_append [of q t z] by auto
  next
    case mod: False
    then have "\<not> base64_decodes (q @ t) z" "\<not> base64_decodes t x" for x
      using base64_decodes_length [of "q @ t" z] base64_decodes_length [of t x] assms by auto
    then show ?thesis by blast
  qed
qed

lemma DecodeBase64_loop_iff:
  assumes "length inp mod 4 = 0" "off \<le> length dst"
  shows "DecodeBase64_loop dst off inp = (Some n, dst') \<longleftrightarrow>
    (\<exists>x. base64_decodes inp x \<and> n = off + length x \<and> dst' = memcpy dst off x)"
  using assms
proof (induction dst off inp rule: DecodeBase64_loop.induct)
  case (1 dst off inp)
  show ?case
  proof (cases "inp = []")
    case True
    then show ?thesis by (subst DecodeBase64_loop.simps) (auto simp: base64_decodes_Nil)
  next
    case False
    with "1.prems"(1) have "4 \<le> length inp" by (cases "length inp < 4") auto
    then obtain c0 c1 c2 c3 t where inp: "inp = c0 # c1 # c2 # c3 # t"
      by (auto simp: Suc_le_length_iff numeral_eq_Suc)
    let ?q = "[c0, c1, c2, c3]"
    have t: "length t mod 4 = 0" using "1.prems"(1) by (simp add: inp)
    have split: "base64_decodes inp z \<longleftrightarrow>
        (\<exists>y x. base64_decodes ?q y \<and> base64_decodes t x \<and> z = y @ x \<and> (length y = 3 \<or> t = []))" for z
      using base64_decodes_split [of ?q t z] by (simp add: inp)
    show ?thesis
    proof (cases "quad_bytes c0 c1 c2 c3")
      case None
      then show ?thesis
        by (subst DecodeBase64_loop.simps) (simp add: inp base64_decode_quad_eq split [unfolded inp] base64_decodes_quad)
    next
      case (Some y)
      then have y: "base64_decodes ?q z \<longleftrightarrow> z = y" for z by (auto simp: base64_decodes_quad)
      show ?thesis
      proof (cases "length y = 3 \<or> t = []")
        case False
        then show ?thesis
          by (subst DecodeBase64_loop.simps) (auto simp: inp base64_decode_quad_eq Some split [unfolded inp] y)
      next
        case True
        let ?dst = "memcpy dst off y"
        have "DecodeBase64_loop dst off inp = DecodeBase64_loop ?dst (off + length y) t"
          using True by (subst DecodeBase64_loop.simps) (auto simp: inp base64_decode_quad_eq Some)
        moreover have "off + length y \<le> length ?dst" using "1.prems"(2) by (simp add: memcpy_def)
        ultimately show ?thesis
          using "1.IH" [of "(length y, ?dst)" "length y" ?dst] True t "1.prems"(2)
          by (auto simp: inp base64_decode_quad_eq Some split [unfolded inp] y memcpy_memcpy)
      qed
    qed
  qed
qed

lemma EVP_DecodeBase64_iff:
  "EVP_DecodeBase64 dst max_out inp = (Some n, dst') \<longleftrightarrow>
     length inp div 4 * 3 \<le> max_out \<and>
     (\<exists>x. base64_decodes inp x \<and> n = length x \<and> dst' = memcpy dst 0 x)"
  using DecodeBase64_loop_iff [of inp 0 dst n dst'] base64_decodes_length [of inp]
  by (auto simp: EVP_DecodeBase64_def EVP_DecodedLength_def)

text \<open>A text has one meaning.\<close>

lemma base64_decodes_unique: "base64_decodes s x \<Longrightarrow> base64_decodes s y \<Longrightarrow> x = y"
  using EVP_DecodeBase64_iff [of "[]" "length s div 4 * 3" s "length x" "memcpy [] 0 x"]
    EVP_DecodeBase64_iff [of "[]" "length s div 4 * 3" s "length y" "memcpy [] 0 y"]
  by (auto simp: memcpy_def)

lemma base64_inj: "base64 x = base64 y \<Longrightarrow> x = y"
  using base64_decodes_unique base64_decodes_base64 by metis

section \<open>The streaming encoder\<close>

text \<open>The lines of the complete blocks, the bytes left over, and the whole text.\<close>

fun full_lines :: "bytes \<Rightarrow> bytes" where
  "full_lines x = (if 48 \<le> length x then base64 (take 48 x) @ [ch_nl] @ full_lines (drop 48 x) else [])"

fun left_over :: "bytes \<Rightarrow> bytes" where
  "left_over x = (if 48 \<le> length x then left_over (drop 48 x) else x)"

declare full_lines.simps [simp del] left_over.simps [simp del]

definition pem_text :: "bytes \<Rightarrow> bytes" where
  "pem_text x = full_lines x @ (if left_over x = [] then [] else base64 (left_over x) @ [ch_nl])"

lemma length_left_over: "length (left_over x) < 48"
  by (induction x rule: left_over.induct) (subst left_over.simps, simp)

lemma full_lines_short: "length x < 48 \<Longrightarrow> full_lines x = []"
  and left_over_short: "length x < 48 \<Longrightarrow> left_over x = x"
  by (simp_all add: full_lines.simps [of x] left_over.simps [of x])

lemma full_lines_left_over_append:
  "full_lines (x @ y) = full_lines x @ full_lines (left_over x @ y) \<and>
   left_over (x @ y) = left_over (left_over x @ y)"
proof (induction x rule: full_lines.induct)
  case (1 x)
  show ?case
  proof (cases "48 \<le> length x")
    case True
    with 1 show ?thesis
      by (simp add: full_lines.simps [of "x @ y"] left_over.simps [of "x @ y"] full_lines.simps [of x]
          left_over.simps [of x])
  next
    case False
    then show ?thesis by (simp add: full_lines_short left_over_short)
  qed
qed

lemma encode_line_eq:
  "off \<le> length dst \<Longrightarrow> encode_line dst off src = (length (base64 src), memcpy dst off (base64 src @ [ch_nl, 0]))"
  using memcpy_over [of off dst "[0]" "[ch_nl]" "base64 src"] memcpy_memcpy [of off dst "base64 src @ [ch_nl]" "[0]"]
  by (simp add: encode_line_def EVP_EncodeBlock_eq add.assoc)

text \<open>What a call leaves in the buffer after writing \<open>out\<close>: nothing new, or \<open>out\<close> and a NUL.\<close>

definition written :: "bytes \<Rightarrow> nat \<Rightarrow> bytes \<Rightarrow> bytes" where
  "written dst off out = (if out = [] then dst else memcpy dst off (out @ [0]))"

lemma written_append:
  "off \<le> length dst \<Longrightarrow> written (written dst off a) (off + length a) b = written dst off (a @ b)"
  using memcpy_over [of off dst "[0]" "b @ [0]" a] by (simp add: written_def)

lemma EncodeUpdate_loop_eq:
  assumes "off \<le> length dst" "unat tot + length (full_lines inp) < 2 ^ 64"
  shows "EncodeUpdate_loop tot dst off inp =
    (Some (tot + of_nat (length (full_lines inp))), written dst off (full_lines inp), left_over inp)"
  using assms
proof (induction tot dst off inp rule: EncodeUpdate_loop.induct)
  case (1 tot dst off inp)
  show ?case
  proof (cases "48 \<le> length inp")
    case False
    then show ?thesis
      by (subst EncodeUpdate_loop.simps) (simp add: full_lines_short left_over_short written_def)
  next
    case True
    define e where "e = base64 (take 48 inp)"
    have le: "length e = 64" using True by (simp add: e_def length_base64)
    have f: "full_lines inp = (e @ [ch_nl]) @ full_lines (drop 48 inp)" "left_over inp = left_over (drop 48 inp)"
      using True by (simp_all add: full_lines.simps [of inp] left_over.simps [of inp] e_def)
    define tot' dst' where "tot' = tot + of_nat (length e) + 1" and "dst' = written dst off (e @ [ch_nl])"
    have u: "unat tot' = unat tot + 65"
      using "1.prems"(2) by (simp add: tot'_def le f(1) unat_word_ariths)
    then have "\<not> tot' < tot" by (simp add: word_less_nat_alt)
    moreover have el: "encode_line dst off (take 48 inp) = (length e, dst')"
      using "1.prems"(1) by (simp add: encode_line_eq e_def dst'_def written_def)
    ultimately have "EncodeUpdate_loop tot dst off inp = EncodeUpdate_loop tot' dst' (off + length e + 1) (drop 48 inp)"
      using True by (subst EncodeUpdate_loop.simps) (simp add: tot'_def Let_def)
    also have "\<dots> = (Some (tot' + of_nat (length (full_lines (drop 48 inp)))),
        written dst' (off + length e + 1) (full_lines (drop 48 inp)), left_over (drop 48 inp))"
    proof (rule "1.IH" [OF True el [symmetric] refl])
      show "tot' = tot + of_nat (length e) + 1" by (simp add: tot'_def)
      show "\<not> tot' < tot" by fact
      show "off + length e + 1 \<le> length dst'" using "1.prems"(1) by (simp add: dst'_def written_def memcpy_def)
      show "unat tot' + length (full_lines (drop 48 inp)) < 2 ^ 64"
        using "1.prems"(2) by (simp add: u f(1) le)
    qed
    also have "\<dots> = (Some (tot + of_nat (length (full_lines inp))), written dst off (full_lines inp), left_over inp)"
      using written_append [OF "1.prems"(1), of "e @ [ch_nl]" "full_lines (drop 48 inp)"]
      by (simp add: f tot'_def dst'_def add.assoc)
    finally show ?thesis .
  qed
qed

text \<open>The context of an encoder: a partial block.\<close>

definition encoding :: "EVP_ENCODE_CTX \<Rightarrow> bool" where
  "encoding ctx \<longleftrightarrow> length (ctx_data ctx) = 48 \<and> data_used ctx < 48"

definition carried :: "EVP_ENCODE_CTX \<Rightarrow> bytes" where
  "carried ctx = take (data_used ctx) (ctx_data ctx)"

lemma encoding_init: "encoding EVP_EncodeInit" "carried EVP_EncodeInit = []"
  by (simp_all add: encoding_def carried_def EVP_EncodeInit_def)

lemma carried_eq_Nil: "encoding ctx \<Longrightarrow> carried ctx = [] \<longleftrightarrow> data_used ctx = 0"
  by (cases "ctx_data ctx") (auto simp: encoding_def carried_def)

lemma length_carried: "encoding ctx \<Longrightarrow> length (carried ctx) = data_used ctx"
  by (simp add: encoding_def carried_def)

lemma EncodeUpdate_rest_eq:
  assumes "unat tot = length pre" "length (pre @ full_lines inp) \<le> INT_MAX" "length (ctx_data ctx) = 48"
  shows "\<exists>ctx'. EncodeUpdate_rest tot (written dst 0 pre) (length pre) ctx inp =
      Some (length (pre @ full_lines inp), written dst 0 (pre @ full_lines inp), ctx') \<and>
    encoding ctx' \<and> carried ctx' = left_over inp"
proof -
  have "unat tot + length (full_lines inp) \<le> INT_MAX" using assms by simp
  then have l: "unat tot + length (full_lines inp) < 2 ^ 64" by simp
  have "length pre \<le> length (written dst 0 pre)" by (simp add: written_def memcpy_def)
  from EncodeUpdate_loop_eq [OF this l]
  have e: "EncodeUpdate_loop tot (written dst 0 pre) (length pre) inp =
      (Some (tot + of_nat (length (full_lines inp))), written dst 0 (pre @ full_lines inp), left_over inp)"
    using written_append [of 0 dst pre "full_lines inp"] by simp
  have w: "unat (tot + of_nat (length (full_lines inp))) = length (pre @ full_lines inp)"
    unfolding unat_word_ariths unat_of_nat mod_add_right_eq using l assms(1) by simp
  have lo: "length (left_over inp) < 48" by (rule length_left_over)
  then show ?thesis
    unfolding EncodeUpdate_rest_def e using w assms(2,3) by (auto simp: Let_def encoding_def carried_def memcpy_def)
qed

lemma EVP_EncodeUpdate_eq:
  assumes ctx: "encoding ctx" and fits: "length (full_lines (carried ctx @ inp)) \<le> INT_MAX"
  shows "\<exists>ctx'. EVP_EncodeUpdate ctx dst inp =
      Some (length (full_lines (carried ctx @ inp)), written dst 0 (full_lines (carried ctx @ inp)), ctx') \<and>
    encoding ctx' \<and> carried ctx' = left_over (carried ctx @ inp)"
proof -
  let ?u = "data_used ctx" and ?d = "ctx_data ctx"
  have u: "?u < 48" "length ?d = 48" "length (carried ctx) = ?u"
    using ctx by (simp_all add: encoding_def length_carried)
  have short: "full_lines (carried ctx) = []" "left_over (carried ctx) = carried ctx"
    using u by (simp_all add: full_lines_short left_over_short)
  consider "inp = []" | "inp \<noteq> []" "48 - ?u > length inp" | "inp \<noteq> []" "\<not> 48 - ?u > length inp" "?u = 0"
    | "inp \<noteq> []" "\<not> 48 - ?u > length inp" "?u \<noteq> 0" by blast
  then show ?thesis
  proof cases
    case 1
    then show ?thesis using ctx by (auto simp: EVP_EncodeUpdate_def short written_def)
  next
    case 2
    then have "length (carried ctx @ inp) < 48" using u by simp
    with 2 u show ?thesis
      by (auto simp: EVP_EncodeUpdate_def full_lines_short left_over_short written_def encoding_def carried_def memcpy_def)
  next
    case 3
    then have "carried ctx = []" by (simp add: carried_def)
    with EncodeUpdate_rest_eq [of 0 "[]" inp ctx dst] fits u 3 show ?thesis
      by (simp add: EVP_EncodeUpdate_def written_def)
  next
    case 4
    let ?todo = "48 - ?u"
    define b where "b = carried ctx @ take ?todo inp"
    have b: "memcpy ?d ?u (take ?todo inp) = b" "length b = 48"
      using u 4 by (simp_all add: b_def memcpy_def carried_def)
    have s: "carried ctx @ inp = b @ drop ?todo inp" by (simp add: b_def)
    have f: "full_lines (carried ctx @ inp) = (base64 b @ [ch_nl]) @ full_lines (drop ?todo inp)"
      "left_over (carried ctx @ inp) = left_over (drop ?todo inp)"
      unfolding s using b(2) by (subst full_lines.simps left_over.simps, simp)+
    have l: "length (base64 b) = 64" by (simp add: length_base64 b(2))
    let ?c = "ctx\<lparr>ctx_data := b, data_used := 0\<rparr>" and ?w = "base64 b @ [ch_nl]"
    have "encode_line dst 0 b = (64, written dst 0 ?w)"
      using l by (simp add: encode_line_eq written_def)
    then have "EVP_EncodeUpdate ctx dst inp = EncodeUpdate_rest 65 (written dst 0 ?w) (length ?w) ?c (drop ?todo inp)"
      using 4 u by (simp add: EVP_EncodeUpdate_def b(1) Let_def l)
    with EncodeUpdate_rest_eq [of 65 ?w "drop ?todo inp" ?c dst] show ?thesis
      unfolding f using fits b(2) l f(1) by simp
  qed
qed

lemma EVP_EncodeFinal_eq:
  assumes "encoding ctx"
  shows "\<exists>ctx'. EVP_EncodeFinal ctx dst = (length (pem_text (carried ctx)), written dst 0 (pem_text (carried ctx)), ctx') \<and>
    encoding ctx' \<and> carried ctx' = []"
proof -
  have "length (carried ctx) < 48" using assms by (simp add: encoding_def length_carried)
  then have p: "pem_text (carried ctx) = (if carried ctx = [] then [] else base64 (carried ctx) @ [ch_nl])"
    by (simp add: pem_text_def full_lines_short left_over_short)
  show ?thesis
  proof (cases "data_used ctx = 0")
    case True
    then show ?thesis using assms by (simp add: EVP_EncodeFinal_def carried_def pem_text_def full_lines_short
        left_over_short written_def)
  next
    case False
    then have "carried ctx \<noteq> []" using assms by (simp add: carried_eq_Nil)
    then show ?thesis
      using False assms p memcpy_over [of 0 dst "[0]" "[ch_nl]" "base64 (carried ctx)"]
        memcpy_memcpy [of 0 dst "base64 (carried ctx) @ [ch_nl]" "[0]"]
      by (simp add: EVP_EncodeFinal_def EVP_EncodeBlock_eq written_def encoding_def carried_def)
  qed
qed

text \<open>
  A run of the encoder: \<open>EVP_EncodeUpdate\<close> for each input, then \<open>EVP_EncodeFinal\<close>, each into a buffer
  of its own; the caller keeps the \<open>*out_len\<close> bytes that the call reports.
\<close>

fun encode_run :: "EVP_ENCODE_CTX \<Rightarrow> bytes list \<Rightarrow> bytes option" where
  "encode_run ctx [] = (let (n, dst, ctx) = EVP_EncodeFinal ctx (replicate 66 0) in Some (take n dst))"
| "encode_run ctx (inp # inps) =
     (case EVP_EncodeUpdate ctx (replicate (65 * (length inp div 48 + 1) + 1) 0) inp of
        None \<Rightarrow> None
      | Some (n, dst, ctx) \<Rightarrow> map_option ((@) (take n dst)) (encode_run ctx inps))"

lemma take_written: "take (length out) (written dst 0 out) = out"
  by (simp add: written_def memcpy_def)

lemma length_full_lines: "length (full_lines x) = 65 * (length x div 48)"
proof (induction x rule: full_lines.induct)
  case (1 x)
  show ?case
  proof (cases "48 \<le> length x")
    case True
    with 1 show ?thesis
      by (simp add: full_lines.simps [of x] length_base64 le_div_geq)
  qed (simp add: full_lines_short)
qed

lemma pem_text_append: "pem_text (x @ y) = full_lines x @ pem_text (left_over x @ y)"
  using full_lines_left_over_append [of x y] by (simp add: pem_text_def)

lemma full_lines_fits:
  assumes "65 * (length inp div 48 + 1) \<le> INT_MAX" "length p < 48"
  shows "length (full_lines (p @ inp)) \<le> INT_MAX"
proof -
  have "length (p @ inp) < 48 * (length inp div 48 + 2)"
    using assms(2) div_mult_mod_eq [of "length inp" 48] mod_less_divisor [of 48 "length inp"] by simp
  then have "length (p @ inp) div 48 \<le> length inp div 48 + 1"
    using less_mult_imp_div_less [of "length (p @ inp)" "length inp div 48 + 2" 48] by (simp add: mult.commute)
  then have "65 * (length (p @ inp) div 48) \<le> 65 * (length inp div 48 + 1)" by (rule mult_le_mono2)
  then show ?thesis using assms(1) unfolding length_full_lines by (rule le_trans)
qed

lemma encode_run_eq:
  assumes "encoding ctx" "\<forall>inp \<in> set inps. 65 * (length inp div 48 + 1) \<le> INT_MAX"
  shows "encode_run ctx inps = Some (pem_text (carried ctx @ concat inps))"
  using assms
proof (induction inps arbitrary: ctx)
  case Nil
  then show ?case
    using EVP_EncodeFinal_eq [of ctx "replicate 66 0"] by (auto simp: take_written)
next
  case (Cons inp inps)
  have fits: "length (full_lines (carried ctx @ inp)) \<le> INT_MAX"
    using Cons.prems by (intro full_lines_fits) (simp_all add: length_carried encoding_def)
  obtain ctx' where e: "EVP_EncodeUpdate ctx (replicate (65 * (length inp div 48 + 1) + 1) 0) inp =
      Some (length (full_lines (carried ctx @ inp)),
        written (replicate (65 * (length inp div 48 + 1) + 1) 0) 0 (full_lines (carried ctx @ inp)), ctx')"
    and c: "encoding ctx'" "carried ctx' = left_over (carried ctx @ inp)"
    using EVP_EncodeUpdate_eq [OF Cons.prems(1) fits] by blast
  have "encode_run ctx' inps = Some (pem_text (left_over (carried ctx @ inp) @ concat inps))"
    using Cons.IH [OF c(1)] Cons.prems(2) c(2) by simp
  then show ?case
    using e pem_text_append [of "carried ctx @ inp" "concat inps"] by (simp add: take_written)
qed

section \<open>The streaming decoder\<close>

text \<open>White space between the characters is dropped.\<close>

definition white :: "u8 \<Rightarrow> bool" where
  "white c \<longleftrightarrow> c = ch_space \<or> c = ch_tab \<or> c = ch_cr \<or> c = ch_nl"

abbreviation "unwhite s \<equiv> filter (\<lambda>c. \<not> white c) s"

definition decoding :: "EVP_ENCODE_CTX \<Rightarrow> bool" where
  "decoding ctx \<longleftrightarrow> length (ctx_data ctx) = 48 \<and> data_used ctx < 4 \<and> (eof_seen ctx \<longrightarrow> data_used ctx = 0)"

lemma decoding_init: "decoding EVP_DecodeInit" "carried EVP_DecodeInit = []"
  by (simp_all add: decoding_def carried_def EVP_DecodeInit_def)

text \<open>Splitting the input between calls does not matter.\<close>

lemma DecodeUpdate_loop_append:
  "DecodeUpdate_loop ctx dst n (s @ t) =
     (case DecodeUpdate_loop ctx dst n s of
        (True, n', dst', ctx') \<Rightarrow> DecodeUpdate_loop ctx' dst' n' t
      | (False, r) \<Rightarrow> (False, r))"
  by (induction ctx dst n s rule: DecodeUpdate_loop.induct) (auto simp: Let_def split: option.splits)

lemma DecodeUpdate_loop_decoding:
  "decoding ctx \<Longrightarrow> DecodeUpdate_loop ctx dst n s = (True, n', dst', ctx') \<Longrightarrow>
     decoding ctx' \<and> error_encountered ctx' = error_encountered ctx"
proof (induction ctx dst n s rule: DecodeUpdate_loop.induct)
  case (2 ctx dst n c s)
  then show ?case
    by (auto simp: Let_def decoding_def split: option.splits if_splits)
qed simp

lemma DecodeUpdate_loop_white: "white c \<Longrightarrow> DecodeUpdate_loop ctx dst n (c # s) = DecodeUpdate_loop ctx dst n s"
  and DecodeUpdate_loop_after_eof:
    "\<not> white c \<Longrightarrow> eof_seen ctx \<Longrightarrow>
       DecodeUpdate_loop ctx dst n (c # s) = (False, n, dst, ctx\<lparr>error_encountered := True\<rparr>)"
  by (auto simp: white_def)

lemma DecodeUpdate_loop_eof:
  assumes "eof_seen ctx"
  shows "DecodeUpdate_loop ctx dst n s = (True, n', dst', ctx') \<longleftrightarrow>
    unwhite s = [] \<and> n' = n \<and> dst' = dst \<and> ctx' = ctx"
proof (induction s)
  case (Cons c s)
  then show ?case
    using assms by (cases "white c") (auto simp: DecodeUpdate_loop_white DecodeUpdate_loop_after_eof
        simp del: DecodeUpdate_loop.simps(2))
qed auto

text \<open>A character that does not complete a quad, and one that does.\<close>

lemma DecodeUpdate_loop_store:
  assumes "decoding ctx" "\<not> eof_seen ctx" "\<not> white c" "data_used ctx < 3"
  obtains ctx' where "DecodeUpdate_loop ctx dst n (c # s) = DecodeUpdate_loop ctx' dst n s" "decoding ctx'"
    "\<not> eof_seen ctx'" "carried ctx' = carried ctx @ [c]"
proof
  let ?ctx = "ctx\<lparr>ctx_data := (ctx_data ctx)[data_used ctx := c], data_used := data_used ctx + 1\<rparr>"
  show "DecodeUpdate_loop ctx dst n (c # s) = DecodeUpdate_loop ?ctx dst n s"
    using assms by (auto simp: white_def Let_def)
  show "decoding ?ctx" "\<not> eof_seen ?ctx" using assms by (simp_all add: decoding_def)
  show "carried ?ctx = carried ctx @ [c]"
    using assms by (simp add: decoding_def carried_def take_Suc_conv_app_nth)
qed

lemma DecodeUpdate_loop_quad:
  assumes "decoding ctx" "\<not> eof_seen ctx" "\<not> white c" "data_used ctx = 3"
  obtains c0 c1 c2 ctx' where "carried ctx = [c0, c1, c2]"
    "quad_bytes c0 c1 c2 c = None \<Longrightarrow> \<not> fst (DecodeUpdate_loop ctx dst n (c # s))"
    "\<And>y. quad_bytes c0 c1 c2 c = Some y \<Longrightarrow>
       DecodeUpdate_loop ctx dst n (c # s) =
         DecodeUpdate_loop (ctx'\<lparr>eof_seen := length y < 3\<rparr>) (memcpy dst n y) (n + length y) s"
    "decoding ctx'" "carried ctx' = []" "data_used ctx' = 0"
proof -
  from assms have "length (carried ctx) = 3" by (simp add: carried_def decoding_def)
  then obtain c0 c1 c2 where p: "carried ctx = [c0, c1, c2]" by (rule length_3E)
  let ?d = "(ctx_data ctx)[3 := c]"
  have "take 4 ?d = carried ctx @ [c]"
    using assms by (simp add: decoding_def carried_def take_Suc_conv_app_nth numeral_eq_Suc)
  then have "?d = c0 # c1 # c2 # c # drop 4 ?d"
    using append_take_drop_id [of 4 ?d] by (simp add: p del: append_take_drop_id)
  then obtain rest where d: "?d = c0 # c1 # c2 # c # rest" by blast
  let ?ctx = "ctx\<lparr>ctx_data := ?d, data_used := 0\<rparr>"
  show thesis
  proof (rule that [OF p])
    show "quad_bytes c0 c1 c2 c = None \<Longrightarrow> \<not> fst (DecodeUpdate_loop ctx dst n (c # s))"
      using assms d by (auto simp: white_def Let_def base64_decode_quad_eq)
    show "DecodeUpdate_loop ctx dst n (c # s) =
         DecodeUpdate_loop (?ctx\<lparr>eof_seen := length y < 3\<rparr>) (memcpy dst n y) (n + length y) s"
      if "quad_bytes c0 c1 c2 c = Some y" for y
      using assms d that by (cases ctx) (auto simp: white_def Let_def base64_decode_quad_eq)
  qed (use assms in \<open>simp_all add: decoding_def carried_def\<close>)
qed

lemma DecodeUpdate_loop_iff:
  assumes "decoding ctx" "\<not> eof_seen ctx" "off \<le> length dst"
  shows "(\<exists>ctx'. DecodeUpdate_loop ctx dst off s = (True, n, dst', ctx') \<and> data_used ctx' = 0) \<longleftrightarrow>
    (\<exists>x. base64_decodes (carried ctx @ unwhite s) x \<and> n = off + length x \<and> dst' = memcpy dst off x)"
  using assms
proof (induction s arbitrary: ctx dst off)
  case Nil
  have "length (carried ctx) = data_used ctx" "data_used ctx < 4"
    using Nil(1) by (simp_all add: decoding_def carried_def)
  then have "base64_decodes (carried ctx) x \<longleftrightarrow> data_used ctx = 0 \<and> x = []" for x
    using base64_decodes_length [of "carried ctx" x] base64_decodes_Nil [of x] by (cases "carried ctx") auto
  then show ?case by auto
next
  case (Cons c s)
  show ?case
  proof (cases "white c")
    case True
    with Cons show ?thesis by (simp add: DecodeUpdate_loop_white del: DecodeUpdate_loop.simps(2))
  next
    case False
    have "data_used ctx < 4" using Cons.prems(1) by (simp add: decoding_def)
    then consider "data_used ctx < 3" | "data_used ctx = 3" by linarith
    then show ?thesis
    proof cases
      case 1
      from DecodeUpdate_loop_store [OF Cons.prems(1,2) False 1] obtain ctx' where
        "DecodeUpdate_loop ctx dst off (c # s) = DecodeUpdate_loop ctx' dst off s" "decoding ctx'"
        "\<not> eof_seen ctx'" "carried ctx' = carried ctx @ [c]" by metis
      with Cons.IH [of ctx' off dst] Cons.prems(3) False show ?thesis
        by (simp del: DecodeUpdate_loop.simps(2))
    next
      case 2
      from DecodeUpdate_loop_quad [OF Cons.prems(1,2) False 2, of dst off s] obtain c0 c1 c2 ctx' where
        p: "carried ctx = [c0, c1, c2]"
        and none: "quad_bytes c0 c1 c2 c = None \<Longrightarrow> \<not> fst (DecodeUpdate_loop ctx dst off (c # s))"
        and some: "\<And>y. quad_bytes c0 c1 c2 c = Some y \<Longrightarrow>
          DecodeUpdate_loop ctx dst off (c # s) =
            DecodeUpdate_loop (ctx'\<lparr>eof_seen := length y < 3\<rparr>) (memcpy dst off y) (off + length y) s"
        and c': "decoding ctx'" "carried ctx' = []" "data_used ctx' = 0" by blast
      have split: "base64_decodes (carried ctx @ unwhite (c # s)) z \<longleftrightarrow>
          (\<exists>y x. quad_bytes c0 c1 c2 c = Some y \<and> base64_decodes (unwhite s) x \<and> z = y @ x \<and>
            (length y = 3 \<or> unwhite s = []))" for z
        using base64_decodes_split [of "[c0, c1, c2, c]" "unwhite s" z] False by (simp add: p base64_decodes_quad)
      show ?thesis
      proof (cases "quad_bytes c0 c1 c2 c")
        case None
        with none split show ?thesis by (auto simp del: DecodeUpdate_loop.simps(2))
      next
        case (Some y)
        then have y: "length y \<le> 3" using base64_decodes_quad_length [of "[c0, c1, c2, c]" y] by (simp add: base64_decodes_quad)
        let ?c = "ctx'\<lparr>eof_seen := length y < 3\<rparr>"
        have c: "decoding ?c" "carried ?c = []" "data_used ?c = 0" using c' by (simp_all add: decoding_def carried_def)
        have o: "off + length y \<le> length (memcpy dst off y)" using Cons.prems(3) by (simp add: memcpy_def)
        show ?thesis
        proof (cases "length y < 3")
          case True
          then show ?thesis
            unfolding split some [OF Some] using c(3)
            by (auto simp: DecodeUpdate_loop_eof Some base64_decodes_Nil simp del: DecodeUpdate_loop.simps)
        next
          case False
          then show ?thesis
            unfolding split some [OF Some] using Cons.IH [OF c(1) _ o] y c(2) memcpy_memcpy [OF Cons.prems(3), of y]
            by (auto simp: Some simp del: DecodeUpdate_loop.simps)
        qed
      qed
    qed
  qed
qed

text \<open>
  The whole decoder: an update that reports success, followed by a final that does, returns the
  bytes that the text without its white space decodes to.
\<close>

lemma decode_run_iff:
  "(\<exists>r ctx'. EVP_DecodeUpdate EVP_DecodeInit dst inp = (r, n, dst', ctx') \<and> r \<noteq> - 1 \<and>
      EVP_DecodeFinal ctx' = (1, 0)) \<longleftrightarrow>
   (\<exists>x. base64_decodes (unwhite inp) x \<and> length x \<le> INT_MAX \<and> n = length x \<and> dst' = memcpy dst 0 x)"
proof -
  let ?i = EVP_DecodeInit
  have i: "decoding ?i" "carried ?i = []" "\<not> eof_seen ?i" "\<not> error_encountered ?i"
    by (simp_all add: decoding_init) (simp_all add: EVP_DecodeInit_def)
  obtain b n0 d0 c0 where l: "DecodeUpdate_loop ?i dst 0 inp = (b, n0, d0, c0)" by (metis prod_cases4)
  have e: "b \<Longrightarrow> \<not> error_encountered c0"
    using DecodeUpdate_loop_decoding [OF i(1), of dst 0 inp n0 d0 c0] l i(4) by simp
  have "(\<exists>ctx'. DecodeUpdate_loop ?i dst 0 inp = (True, n, dst', ctx') \<and> data_used ctx' = 0) \<longleftrightarrow>
    (\<exists>x. base64_decodes (unwhite inp) x \<and> n = length x \<and> dst' = memcpy dst 0 x)" for n dst'
    using DecodeUpdate_loop_iff [OF i(1,3), of 0 dst inp n dst'] i(2) by simp
  then have "b \<and> n0 = n \<and> d0 = dst' \<and> data_used c0 = 0 \<longleftrightarrow>
    (\<exists>x. base64_decodes (unwhite inp) x \<and> n = length x \<and> dst' = memcpy dst 0 x)" for n dst'
    using l by auto
  moreover have "(\<exists>r ctx'. EVP_DecodeUpdate ?i dst inp = (r, n, dst', ctx') \<and> r \<noteq> - 1 \<and> EVP_DecodeFinal ctx' = (1, 0)) \<longleftrightarrow>
      b \<and> n0 = n \<and> d0 = dst' \<and> data_used c0 = 0 \<and> n \<le> INT_MAX"
    using e by (cases b) (auto simp: EVP_DecodeUpdate_def EVP_DecodeFinal_def l i(4))
  ultimately show ?thesis by (metis (no_types, lifting))
qed

text \<open>An error is reported exactly when it is recorded, and every later call fails too.\<close>

lemma DecodeUpdate_loop_error:
  "DecodeUpdate_loop ctx dst n s = (b, n', dst', ctx') \<Longrightarrow> \<not> error_encountered ctx \<Longrightarrow>
     error_encountered ctx' \<longleftrightarrow> \<not> b"
proof (induction s arbitrary: ctx dst n)
  case (Cons c s)
  from Cons.prems show ?case
    by (auto simp: Let_def split: option.splits if_splits dest: Cons.IH)
qed auto

lemma EVP_DecodeUpdate_error:
  "EVP_DecodeUpdate ctx dst inp = (r, n, dst', ctx') \<Longrightarrow> r = - 1 \<longleftrightarrow> error_encountered ctx'"
  using DecodeUpdate_loop_error [of ctx dst 0 inp]
  by (auto simp: EVP_DecodeUpdate_def split: if_splits bool.splits prod.splits)

lemma EVP_DecodeUpdate_sticky:
  "error_encountered ctx \<Longrightarrow>
     EVP_DecodeUpdate ctx dst inp = (- 1, 0, dst, ctx) \<and> EVP_DecodeFinal ctx = (- 1, 0)"
  by (simp add: EVP_DecodeUpdate_def EVP_DecodeFinal_def)

section \<open>The decoder inverts the encoder\<close>

lemma base64_append: "length x mod 3 = 0 \<Longrightarrow> base64 (x @ y) = base64 x @ base64 y"
proof (induction x rule: EncodeBlock_loop.induct)
  case 1
  then show ?case by (simp add: base64_def b64_pad_def)
next
  case (2 a b c x)
  have "(length x + 3) mod 3 = length x mod 3" by (rule mod_add_self2)
  moreover have "length (a # b # c # x) = length x + 3" by simp
  ultimately have "length x mod 3 = 0" using "2.prems" by metis
  with "2.IH" show ?case by (simp add: base64_Cons3)
qed simp_all

lemma b64_char_not_white: "d < 64 \<Longrightarrow> \<not> white (b64_char d)"
proof
  assume d: "d < 64" "white (b64_char d)"
  then have "b64_digit (b64_char d) = None" by (auto simp: white_def b64_digit_def)
  with d(1) show False by (simp add: b64_digit_char)
qed

lemma unwhite_base64: "unwhite (base64 x) = base64 x"
  unfolding base64_def Let_def filter_id_conv
  using b64_char_not_white digits64_less by (auto simp: white_def [of ch_eq])

lemma unwhite_pem_text: "unwhite (pem_text x) = base64 x"
proof -
  have "unwhite (full_lines x) @ base64 (left_over x) = base64 x"
  proof (induction x rule: full_lines.induct)
    case (1 x)
    show ?case
    proof (cases "48 \<le> length x")
      case True
      have "base64 (take 48 x @ drop 48 x) = base64 (take 48 x) @ base64 (drop 48 x)"
        using True by (intro base64_append) simp
      with 1 True show ?thesis
        by (simp add: full_lines.simps [of x] left_over.simps [of x] unwhite_base64 white_def [of ch_nl])
    qed (simp add: full_lines_short left_over_short)
  qed
  moreover have "base64 [] = []" by (simp add: base64_def b64_pad_def)
  ultimately show ?thesis
    by (auto simp: pem_text_def unwhite_base64 white_def [of ch_nl])
qed

end
