(* ===== verification/Digest.thy ===== *)
theory Digest
  imports Prelude
begin

text \<open>
  \<open>crypto/fipsmodule/digest/md32_common.h\<close>, the collector that MD4, MD5, SHA-1, SHA-224 and SHA-256
  are built with: the C file is a template over the macros \<open>HASH_BLOCK_DATA_ORDER\<close>,
  \<open>HASH_MAKE_STRING\<close> and \<open>DATA_ORDER_IS_*\<close>, so its functions here take a block function, a string
  function and a byte order as arguments. The locale \<open>md32\<close> is what the template relies on of a block
  function: that it iterates a compression function over its blocks; inside it, updating in any number
  of pieces and finishing is proved to be the iterated compression of the padded message.
\<close>

section \<open>Definitions\<close>

datatype data_order = Big_Endian | Little_Endian

text \<open>\<open>HOST_c2l(c, l)\<close>: the word, and the advanced \<open>c\<close>. \<open>HOST_l2c(l, c)\<close>: the bytes written.\<close>

definition HOST_c2l :: "data_order \<Rightarrow> bytes \<Rightarrow> u32 \<times> bytes" where
  "HOST_c2l ord c =
     (case ord of
        Big_Endian \<Rightarrow>
          (push_bit 24 (ucast (c ! 0)) OR push_bit 16 (ucast (c ! 1)) OR push_bit 8 (ucast (c ! 2)) OR ucast (c ! 3),
           drop 4 c)
      | Little_Endian \<Rightarrow>
          (ucast (c ! 0) OR push_bit 8 (ucast (c ! 1)) OR push_bit 16 (ucast (c ! 2)) OR push_bit 24 (ucast (c ! 3)),
           drop 4 c))"

definition HOST_l2c :: "data_order \<Rightarrow> u32 \<Rightarrow> bytes" where
  "HOST_l2c ord l =
     (case ord of
        Big_Endian \<Rightarrow>
          [ucast (drop_bit 24 l AND 0xff), ucast (drop_bit 16 l AND 0xff), ucast (drop_bit 8 l AND 0xff), ucast (l AND 0xff)]
      | Little_Endian \<Rightarrow>
          [ucast (l AND 0xff), ucast (drop_bit 8 l AND 0xff), ucast (drop_bit 16 l AND 0xff), ucast (drop_bit 24 l AND 0xff)])"

text \<open>\<open>HASH_CTX\<close>; the field \<open>h\<close> is \<open>chain\<close>. \<open>HASH_CBLOCK\<close> is 64 for every hash of the template.\<close>

record HASH_CTX =
  chain :: "u32 list"
  Nl :: u32
  Nh :: u32
  block_data :: bytes
  num :: nat

abbreviation HASH_CBLOCK :: nat where "HASH_CBLOCK \<equiv> 64"

type_synonym block_fun = "u32 list \<Rightarrow> bytes \<Rightarrow> nat \<Rightarrow> u32 list"

text \<open>The end of \<open>HASH_UPDATE\<close>, when no partial block is pending.\<close>

definition HASH_UPDATE_blocks ::
  "block_fun \<Rightarrow> 'a HASH_CTX_scheme \<Rightarrow> bytes \<Rightarrow> 'a HASH_CTX_scheme" where
  "HASH_UPDATE_blocks block c data =
     (let n = length data div HASH_CBLOCK;
          (c, data) =
            (if n > 0 then (c\<lparr>chain := block (chain c) data n\<rparr>, drop (n * HASH_CBLOCK) data) else (c, data))
      in if data \<noteq> [] then c\<lparr>num := length data, block_data := memcpy (block_data c) 0 data\<rparr> else c)"

definition HASH_UPDATE ::
  "block_fun \<Rightarrow> 'a HASH_CTX_scheme \<Rightarrow> bytes \<Rightarrow> 'a HASH_CTX_scheme" where
  "HASH_UPDATE block c data =
     (let len = length data in
      if len = 0 then c
      else
        let l = Nl c + push_bit 3 (of_nat len);
            c = (if l < Nl c then c\<lparr>Nh := Nh c + 1\<rparr> else c);
            c = c\<lparr>Nh := Nh c + of_nat (len div 2 ^ 29), Nl := l\<rparr>;
            n = num c
        in if n \<noteq> 0 then
             if len \<ge> HASH_CBLOCK \<or> len + n \<ge> HASH_CBLOCK then
               let c = c\<lparr>block_data := memcpy (block_data c) n (take (HASH_CBLOCK - n) data)\<rparr>;
                   c = c\<lparr>chain := block (chain c) (block_data c) 1\<rparr>;
                   c = c\<lparr>num := 0, block_data := replicate HASH_CBLOCK 0\<rparr>
               in HASH_UPDATE_blocks block c (drop (HASH_CBLOCK - n) data)
             else c\<lparr>block_data := memcpy (block_data c) n data, num := n + len\<rparr>
           else HASH_UPDATE_blocks block c data)"

definition HASH_TRANSFORM :: "block_fun \<Rightarrow> 'a HASH_CTX_scheme \<Rightarrow> bytes \<Rightarrow> 'a HASH_CTX_scheme" where
  "HASH_TRANSFORM block c data = c\<lparr>chain := block (chain c) data 1\<rparr>"

text \<open>The two words of the length, in the byte order of the hash.\<close>

definition length_octets :: "data_order \<Rightarrow> u32 \<Rightarrow> u32 \<Rightarrow> bytes" where
  "length_octets ord nh nl =
     (case ord of
        Big_Endian \<Rightarrow> HOST_l2c ord nh @ HOST_l2c ord nl
      | Little_Endian \<Rightarrow> HOST_l2c ord nl @ HOST_l2c ord nh)"

text \<open>
  \<open>HASH_FINAL\<close> up to \<open>HASH_MAKE_STRING\<close>, which can return 0; the outer \<open>None\<close> is the failed
  \<open>assert(n < HASH_CBLOCK)\<close>.
\<close>

definition HASH_FINAL ::
  "data_order \<Rightarrow> block_fun \<Rightarrow> ('a HASH_CTX_scheme \<Rightarrow> bytes option) \<Rightarrow> 'a HASH_CTX_scheme \<Rightarrow>
   (bytes, 'a HASH_CTX_scheme) outcome option" where
  "HASH_FINAL ord block make_string c =
     (let n = num c in
      if \<not> n < HASH_CBLOCK then None
      else
        let c = c\<lparr>block_data := (block_data c)[n := 0x80]\<rparr>;
            n = n + 1;
            (n, c) =
              (if n > HASH_CBLOCK - 8 then
                 let c = c\<lparr>block_data := memcpy (block_data c) n (replicate (HASH_CBLOCK - n) 0)\<rparr>
                 in (0, c\<lparr>chain := block (chain c) (block_data c) 1\<rparr>)
               else (n, c));
            c = c\<lparr>block_data := memcpy (block_data c) n (replicate (HASH_CBLOCK - 8 - n) 0)\<rparr>;
            p = length_octets ord (Nh c) (Nl c);
            c = c\<lparr>block_data := memcpy (block_data c) (HASH_CBLOCK - 8) p\<rparr>;
            c = c\<lparr>chain := block (chain c) (block_data c) 1\<rparr>;
            c = c\<lparr>num := 0, block_data := replicate HASH_CBLOCK 0\<rparr>
        in Some (make_string c, c))"

type_synonym regs4 = "u32 \<times> u32 \<times> u32 \<times> u32"

text \<open>The macro every hash of the library defines for itself: \<open>(a << n) | (a >> (32 - n))\<close>.\<close>

definition ROTATE :: "u32 \<Rightarrow> nat \<Rightarrow> u32" where
  "ROTATE a n = push_bit n a OR drop_bit (32 - n) a"

lemma rotr_shifts:
  fixes a :: "'a::len word"
  assumes "n < LENGTH('a)"
  shows "drop_bit n a OR push_bit (LENGTH('a) - n) a = word_rotr n a"
proof (rule bit_word_eqI)
  fix k
  assume k: "k < LENGTH('a)"
  show "bit (drop_bit n a OR push_bit (LENGTH('a) - n) a) k = bit (word_rotr n a) k"
  proof (cases "n + k < LENGTH('a)")
    case True
    then show ?thesis using k assms by (auto simp: bit_simps add.commute)
  next
    case False
    then have "(k + n) mod LENGTH('a) = k - (LENGTH('a) - n)" using k assms by (simp add: mod_if)
    with False k assms show ?thesis by (auto simp: bit_simps dest: bit_imp_le_length)
  qed
qed

lemma ROTATE_rotr: "0 < n \<Longrightarrow> n < 32 \<Longrightarrow> ROTATE a n = word_rotr (32 - n) a"
  using rotr_shifts [of "32 - n" a] by (simp add: ROTATE_def or.commute)

lemma ROTATE_eq: "n < 32 \<Longrightarrow> ROTATE a n = word_rotl n a"
proof -
  assume n: "n < 32"
  show ?thesis
  proof (cases "n = 0")
    case True
    moreover have "word_rotr 32 a = a" by (rule bit_word_eqI) (simp add: bit_word_rotr_iff)
    ultimately show ?thesis by (simp add: ROTATE_def word_rotl_eq_word_rotr)
  next
    case False
    with n show ?thesis by (simp add: ROTATE_rotr word_rotl_eq_word_rotr)
  qed
qed

section \<open>The padded message\<close>

text \<open>The order in which eight bytes of length are written, and the padding of RFC 1321 and FIPS 180.\<close>

fun order_bytes :: "data_order \<Rightarrow> bytes \<Rightarrow> bytes" where
  "order_bytes Big_Endian bs = bs"
| "order_bytes Little_Endian bs = rev bs"

definition md_zeros :: "nat \<Rightarrow> nat" where
  "md_zeros n = (119 - n mod 64) mod 64"

definition md_pad :: "data_order \<Rightarrow> bytes \<Rightarrow> bytes" where
  "md_pad ord msg =
     msg @ [0x80] @ replicate (md_zeros (length msg)) 0 @ order_bytes ord (be_bytes 8 (8 * length msg))"

lemma length_order_bytes [simp]: "length (order_bytes ord bs) = length bs"
  by (cases ord) simp_all

lemma length_md_pad_dvd: "64 dvd length (md_pad ord msg)"
proof -
  define q r where "q = length msg div 64" and "r = length msg mod 64"
  have n: "length msg = 64 * q + r" "r < 64" by (simp_all add: q_def r_def)
  have "length (md_pad ord msg) = 64 * q + (r + 9 + (119 - r) mod 64)"
    using n by (simp add: md_pad_def md_zeros_def)
  moreover have "64 dvd r + 9 + (119 - r) mod 64"
  proof (cases "r \<le> 55")
    case True
    then have "(119 - r) mod 64 = 55 - r" by (simp add: mod_if)
    with True show ?thesis by simp
  next
    case False
    then have "(119 - r) mod 64 = 119 - r" by simp
    with False n(2) show ?thesis by simp
  qed
  ultimately show ?thesis by simp
qed

section \<open>Words and bytes\<close>

lemma ucast_byte: "ucast (drop_bit k (l :: u32) AND 0xff) = (of_nat (unat l div 2 ^ k) :: u8)"
proof -
  have m: "(0xff :: u32) = mask 8" by (simp add: mask_eq_exp_minus_1)
  have "unat (drop_bit k l AND 0xff) = unat l div 2 ^ k mod 256"
    unfolding m unat_and_mask_mod unat_drop_bit_div by simp
  then show ?thesis
    by (simp add: word_unat_eq_iff unsigned_ucast_eq take_bit_eq_mod unat_of_nat)
qed

lemma HOST_l2c_eq: "HOST_l2c ord l = order_bytes ord (be_bytes 4 (unat l))"
proof -
  have b: "be_bytes 4 v = [of_nat (v div 2 ^ 24), of_nat (v div 2 ^ 16), of_nat (v div 2 ^ 8), of_nat v]" for v
  proof -
    have e: "(4 :: nat) = Suc (Suc (Suc (Suc 0)))" by simp
    show ?thesis unfolding e by (simp flip: div_mult2_eq)
  qed
  show ?thesis
    using ucast_byte [of 0 l]
    by (cases ord) (simp_all add: HOST_l2c_def b ucast_byte)
qed

text \<open>The 64-bit length that the template keeps in two words.\<close>

definition bit_count :: "'a HASH_CTX_scheme \<Rightarrow> nat" where
  "bit_count c = unat (Nh c) * 2 ^ 32 + unat (Nl c)"

lemma mod_double_split: "y < K \<Longrightarrow> (x * K + y) mod (K * K) = x mod K * K + (y :: nat)"
proof -
  assume y: "y < K"
  have "(x * K + y) mod (K * K) = K * ((x * K + y) div K mod K) + (x * K + y) mod K"
    by (rule mod_mult2_eq)
  with y show ?thesis by simp
qed

text \<open>The carry into the second word, for counters made of two words of any width.\<close>

lemma two_word_add:
  fixes nl nh :: "'a::len word" and len J :: nat
  defines "K \<equiv> 2 ^ LENGTH('a) :: nat"
  defines "l \<equiv> nl + push_bit 3 (of_nat len)"
  defines "hi \<equiv> (if l < nl then nh + 1 else nh) + of_nat (len div J)"
  assumes K: "8 * J = K"
  shows "unat hi * K + unat l = (unat nh * K + unat nl + 8 * len) mod (K * K)"
proof -
  define a where "a = 8 * len mod K"
  define s where "s = unat nl + a"
  have K0: "0 < K" by (simp add: K_def)
  then have a: "a < K" by (simp add: a_def)
  have nl: "unat nl < K" unfolding K_def by (rule unsigned_less)
  have "unat (push_bit 3 (of_nat len :: 'a word)) = a"
    unfolding unsigned_push_bit_eq a_def K_def
    by (simp add: push_bit_eq_mult take_bit_eq_mod unat_of_nat mod_simps mult.commute)
  then have l: "unat l = s mod K" unfolding l_def s_def K_def unat_word_ariths by simp
  have c: "(if l < nl then 1 else 0) = s div K"
  proof (cases "s < K")
    case True
    then show ?thesis unfolding word_less_nat_alt l by (simp add: s_def)
  next
    case False
    then have "s = K + (s - K)" "s - K < unat nl" using a nl by (simp_all add: s_def)
    moreover from this have "s mod K = s - K" "s div K = 1"
      using nl K0 by (simp_all add: div_if mod_if)
    ultimately show ?thesis unfolding word_less_nat_alt l by simp
  qed
  have "hi = of_nat (unat nh + s div K + len div J)"
    unfolding hi_def c [symmetric] by simp
  then have "unat hi = (unat nh + s div K + len div J) mod K"
    unfolding K_def by (simp only: unat_of_nat)
  then have "unat hi * K + unat l = ((unat nh + s div K + len div J) * K + s mod K) mod (K * K)"
    using K0 by (subst mod_double_split) (simp_all add: l)
  also have "(unat nh + s div K + len div J) * K + s mod K =
      unat nh * K + (s div K * K + s mod K) + len div J * K"
    by (simp add: algebra_simps)
  also have "s div K * K + s mod K = s" by simp
  also have "unat nh * K + s + len div J * K = unat nh * K + unat nl + 8 * len"
  proof -
    have "8 * len = 8 * len div K * K + a" unfolding a_def by (rule div_mult_mod_eq [symmetric])
    moreover have "8 * len div K = len div J"
      unfolding K [symmetric] by (rule div_mult_mult1) simp
    ultimately show ?thesis by (simp add: s_def)
  qed
  finally show ?thesis .
qed

lemma bit_count_add:
  fixes nl nh :: u32 and len :: nat
  defines "l \<equiv> nl + push_bit 3 (of_nat len)"
  defines "hi \<equiv> (if l < nl then nh + 1 else nh) + of_nat (len div 2 ^ 29)"
  shows "unat hi * 2 ^ 32 + unat l = (unat nh * 2 ^ 32 + unat nl + 8 * len) mod 2 ^ 64"
  unfolding hi_def l_def using two_word_add [where ?'a = 32 and J = "2 ^ 29"] by simp

section \<open>What a context stands for\<close>

text \<open>The string of a list of words.\<close>

definition word_bytes :: "data_order \<Rightarrow> u32 list \<Rightarrow> bytes" where
  "word_bytes ord ws = concat (map (\<lambda>w. order_bytes ord (be_bytes 4 (unat w))) ws)"

lemma concat_map_nth: "n \<le> length ws \<Longrightarrow> concat (map (\<lambda>k. f (ws ! k)) [0..<n]) = concat (map f (take n ws))"
proof -
  assume "n \<le> length ws"
  then have "map ((!) ws) [0..<n] = take n ws" by (intro nth_equalityI) auto
  from arg_cong [OF this, of "map f"] show ?thesis by (simp add: o_def)
qed

lemma word_bytes_nth:
  "n \<le> length ws \<Longrightarrow> concat (map (\<lambda>k. HOST_l2c ord (ws ! k)) [0..<n]) = word_bytes ord (take n ws)"
  by (simp add: concat_map_nth [of n ws "\<lambda>w. order_bytes ord (be_bytes 4 (unat w))"] word_bytes_def HOST_l2c_eq)

lemma case_1: "(case 1 of 0 \<Rightarrow> x | Suc j \<Rightarrow> f j) = f 0"
  by simp

text \<open>The Merkle-Damgard iteration of a compression function over the first \<open>n\<close> blocks of a string.\<close>

fun iterate_blocks :: "nat \<Rightarrow> ('w list \<Rightarrow> bytes \<Rightarrow> 'w list) \<Rightarrow> 'w list \<Rightarrow> bytes \<Rightarrow> nat \<Rightarrow> 'w list" where
  "iterate_blocks B step st x 0 = st"
| "iterate_blocks B step st x (Suc n) = iterate_blocks B step (step st (take B x)) (drop B x) n"

text \<open>The same of a whole string that consists of blocks.\<close>

definition iterate_all :: "nat \<Rightarrow> ('w list \<Rightarrow> bytes \<Rightarrow> 'w list) \<Rightarrow> 'w list \<Rightarrow> bytes \<Rightarrow> 'w list" where
  "iterate_all B step st x = iterate_blocks B step st x (length x div B)"

lemma iterate_blocks_add:
  "length x = B * m \<Longrightarrow>
   iterate_blocks B step st (x @ y) (m + n) = iterate_blocks B step (iterate_blocks B step st x m) y n"
proof (induction m arbitrary: st x)
  case (Suc m)
  then show ?case by (simp add: algebra_simps)
qed simp

lemma iterate_blocks_take:
  "iterate_blocks B step st (take (B * n) y) n = iterate_blocks B step st y n"
proof (induction n arbitrary: st y)
  case (Suc n)
  have "take (B * n) (drop B y) = drop B (take (B * Suc n) y)" by (simp add: drop_take)
  with Suc [of "step st (take B y)" "drop B y"] show ?case by (simp add: min_absorb1)
qed simp

lemma iterate_all_Nil [simp]: "iterate_all B step st [] = st"
  by (simp add: iterate_all_def)

lemma iterate_all_append:
  assumes "0 < B" "B dvd length x"
  shows "iterate_all B step st (x @ y) = iterate_all B step (iterate_all B step st x) y"
proof -
  obtain m where m: "length x = B * m" using assms(2) by (rule dvdE)
  with assms(1) have "length (x @ y) div B = m + length y div B" "length x div B = m" by simp_all
  with iterate_blocks_add [OF m] show ?thesis by (simp only: iterate_all_def)
qed

lemma iterate_all_block: "0 < B \<Longrightarrow> length b = B \<Longrightarrow> iterate_all B step st b = step st b"
  by (simp add: iterate_all_def)

lemma iterate_all_take:
  "0 < B \<Longrightarrow> B * n \<le> length y \<Longrightarrow> iterate_all B step st (take (B * n) y) = iterate_blocks B step st y n"
  by (simp add: iterate_all_def min_absorb2 iterate_blocks_take)

lemma iterate_blocks_invariant:
  "P st \<Longrightarrow> (\<And>st x. P st \<Longrightarrow> P (step st x)) \<Longrightarrow> P (iterate_blocks B step st x n)"
  by (induction n arbitrary: st x) simp_all

text \<open>
  \<open>absorbed B step st h p n msg\<close>: a collector of blocks of \<open>B\<close> bytes, with chaining value \<open>h\<close> and \<open>n\<close>
  pending bytes in its buffer \<open>p\<close>, has absorbed \<open>msg\<close> since its chaining value was \<open>st\<close>.
\<close>

definition absorbed ::
  "nat \<Rightarrow> ('w list \<Rightarrow> bytes \<Rightarrow> 'w list) \<Rightarrow> 'w list \<Rightarrow> 'w list \<Rightarrow> bytes \<Rightarrow> nat \<Rightarrow> bytes \<Rightarrow> bool" where
  "absorbed B step st h p n msg \<longleftrightarrow>
     length p = B \<and> n < B \<and>
     (\<exists>x. msg = x @ take n p \<and> B dvd length x \<and> h = iterate_all B step st x)"

lemma absorbed_Nil: "absorbed B step st h p n [] \<longleftrightarrow> length p = B \<and> 0 < B \<and> n = 0 \<and> h = st"
  by (auto simp: absorbed_def)

lemma absorbed_mod: "absorbed B step st h p n msg \<Longrightarrow> n = length msg mod B"
  by (auto simp: absorbed_def min_absorb2)

text \<open>Fewer bytes than complete the block; the bytes that complete it; whole blocks.\<close>

lemma absorbed_pend:
  "absorbed B step st h p n msg \<Longrightarrow> n + length d < B \<Longrightarrow>
   absorbed B step st h (memcpy p n d) (n + length d) (msg @ d)"
  by (auto simp: absorbed_def length_memcpy take_memcpy)

lemma absorbed_fill:
  assumes "absorbed B step st h p n msg" "n + length d = B" "length p' = B"
  shows "absorbed B step st (step h (memcpy p n d)) p' 0 (msg @ d)"
proof -
  obtain x where x: "msg = x @ take n p" "B dvd length x" "h = iterate_all B step st x"
    "length p = B" "0 < B"
    using assms(1) by (auto simp: absorbed_def)
  have b: "memcpy p n d = take n p @ d" "length (take n p @ d) = B"
    using assms(2) x(4) by (simp_all add: memcpy_to_end)
  have "step h (memcpy p n d) = iterate_all B step st (x @ take n p @ d)"
    unfolding b(1) using x b(2) by (simp add: iterate_all_append iterate_all_block)
  moreover have "B dvd length (x @ take n p @ d)" unfolding length_append using x(2) b(2) by simp
  ultimately show ?thesis using x(1,5) assms(3) by (auto simp: absorbed_def)
qed

lemma absorbed_blocks:
  assumes "absorbed B step st h p 0 msg" "B * k \<le> length d"
  shows "absorbed B step st (iterate_blocks B step h d k) p 0 (msg @ take (B * k) d)"
proof -
  have "iterate_all B step st (msg @ take (B * k) d) = iterate_blocks B step h d k"
    using assms by (auto simp: absorbed_def iterate_all_append iterate_all_take)
  with assms show ?thesis by (auto simp: absorbed_def min_absorb2)
qed

lemma shift_in_byte: "push_bit 8 (of_nat n) OR ucast b = (of_nat (n * 256 + unat (b :: u8)) :: u32)"
proof -
  have b: "unat (ucast b :: u32) = unat b"
    unfolding unsigned_ucast_eq
    by (rule take_bit_nat_eq_self, rule less_trans [OF unat_u8_less]) simp
  then have "unat (ucast b :: u32) < 2 ^ 8" by simp
  from unat_shift_or [OF this, of "of_nat n"]
  have "unat (push_bit 8 (of_nat n) OR ucast b :: u32) = (n * 256 + unat b) mod 2 ^ 32"
    unfolding b unat_of_nat by (simp add: mod_add_left_eq [of "n mod 4294967296 * 256", symmetric] mod_mult_left_eq mod_add_left_eq)
  also have "\<dots> = unat (of_nat (n * 256 + unat b) :: u32)" unfolding unat_of_nat by simp
  finally show ?thesis by (simp only: word_unat_eq_iff)
qed

lemma shift_in_first: "ucast (b :: u8) = (of_nat (unat b) :: u32)"
  by (simp add: word_unat_eq_iff unat_of_nat unsigned_ucast_eq take_bit_eq_mod)

text \<open>Message word \<open>t\<close> of a block, in the byte order of the hash.\<close>

definition msg_word :: "data_order \<Rightarrow> bytes \<Rightarrow> nat \<Rightarrow> u32" where
  "msg_word ord blk t =
     (let d = drop (4 * t) blk in of_nat (be_val (order_bytes ord [d ! 0, d ! 1, d ! 2, d ! 3])))"

lemma HOST_c2l_0: "HOST_c2l ord data = (msg_word ord data 0, drop 4 data)"
proof -
  have h: "push_bit 24 w OR push_bit 16 x OR push_bit 8 y OR z =
      push_bit 8 (push_bit 8 (push_bit 8 w OR x) OR y) OR z" for w x y z :: u32
    by (simp add: or.assoc)
  have h': "z OR push_bit 8 y OR push_bit 16 x OR push_bit 24 w = push_bit 24 w OR push_bit 16 x OR push_bit 8 y OR z"
    for w x y z :: u32 by (simp only: ac_simps)
  have v: "push_bit 8 (push_bit 8 (push_bit 8 (ucast a) OR ucast b) OR ucast c) OR ucast d =
      (of_nat (be_val [a, b, c, d]) :: u32)" for a b c d :: u8
  proof -
    have "be_val [a, b, c, d] = ((unat a * 256 + unat b) * 256 + unat c) * 256 + unat d"
      by (simp add: be_val_Cons)
    then show ?thesis unfolding shift_in_first [of a] shift_in_byte by (simp only:)
  qed
  show ?thesis
    unfolding HOST_c2l_def h' unfolding h v by (cases ord) (simp_all add: msg_word_def)
qed

text \<open>A word is read in the byte order of the hash.\<close>

lemma HOST_c2l_val: "HOST_c2l ord (b0 # b1 # b2 # b3 # r) = (of_nat (be_val (order_bytes ord [b0, b1, b2, b3])), r)"
  by (simp add: HOST_c2l_0 msg_word_def numeral_2_eq_2 numeral_3_eq_3)

lemma HOST_c2l_drop: "4 dvd k \<Longrightarrow> HOST_c2l ord (drop k data) = (msg_word ord data (k div 4), drop (4 + k) data)"
  by (simp add: HOST_c2l_0 msg_word_def)

lemma msg_word_take: "t < 16 \<Longrightarrow> 64 \<le> length x \<Longrightarrow> msg_word ord (take 64 x) t = msg_word ord x t"
  by (simp add: msg_word_def drop_take)

lemma HOST_c2l_l2c: "HOST_c2l ord (HOST_l2c ord w @ rest) = (w, rest)"
proof -
  have "length (HOST_l2c ord w) = 4" by (simp add: HOST_l2c_eq)
  then obtain b0 b1 b2 b3 where b: "HOST_l2c ord w = [b0, b1, b2, b3]"
    by (auto simp: numeral_eq_Suc length_Suc_conv)
  have "be_val (order_bytes ord (HOST_l2c ord w)) = unat w"
    using unsigned_less [of w, where ?'a = nat] by (cases ord) (simp_all add: HOST_l2c_eq be_val_be_bytes)
  then show ?thesis unfolding b append.simps HOST_c2l_val by simp
qed

type_synonym compression = "u32 list \<Rightarrow> bytes \<Rightarrow> u32 list"

text \<open>\<open>md_repr step st c msg\<close>: \<open>c\<close> has absorbed \<open>msg\<close> since its chaining value was \<open>st\<close>, and counted its bits.\<close>

definition md_repr :: "compression \<Rightarrow> u32 list \<Rightarrow> 'a HASH_CTX_scheme \<Rightarrow> bytes \<Rightarrow> bool" where
  "md_repr step st c msg \<longleftrightarrow>
     absorbed 64 step st (chain c) (block_data c) (num c) msg \<and> bit_count c = 8 * length msg mod 2 ^ 64"

definition md_hash :: "data_order \<Rightarrow> compression \<Rightarrow> u32 list \<Rightarrow> bytes \<Rightarrow> u32 list" where
  "md_hash ord step st msg = iterate_all 64 step st (md_pad ord msg)"

lemma md_repr_fresh:
  "md_repr step st c [] \<longleftrightarrow> chain c = st \<and> length (block_data c) = 64 \<and> num c = 0 \<and> Nl c = 0 \<and> Nh c = 0"
  by (auto simp: md_repr_def absorbed_Nil bit_count_def word_unat_eq_iff)

lemma HASH_UPDATE_blocks_more [simp]: "HASH_CTX.more (HASH_UPDATE_blocks block c d) = HASH_CTX.more c"
  by (simp add: HASH_UPDATE_blocks_def Let_def)

lemma HASH_UPDATE_more [simp]: "HASH_CTX.more (HASH_UPDATE block c d) = HASH_CTX.more c"
  by (simp add: HASH_UPDATE_def Let_def)

lemma foldl_HASH_UPDATE_more: "HASH_CTX.more (foldl (HASH_UPDATE block) c ds) = HASH_CTX.more c"
  by (induction ds arbitrary: c) simp_all

text \<open>
  The contract of a block function: called on at least one block, and on as many bytes as it was told,
  it iterates its compression function.
\<close>

locale md32 =
  fixes block :: block_fun and step :: compression and words :: nat
  assumes step_length: "length st = words \<Longrightarrow> length (step st x) = words"
    and block_eq: "length st = words \<Longrightarrow> 0 < n \<Longrightarrow> 64 * n \<le> length x \<Longrightarrow>
      block st x n = iterate_blocks 64 step st x n"
begin

lemma iterate_length: "length st = words \<Longrightarrow> length (iterate_blocks 64 step st x n) = words"
  by (rule iterate_blocks_invariant) (simp_all add: step_length)

lemma absorbed_length: "length st = words \<Longrightarrow> absorbed 64 step st h p n msg \<Longrightarrow> length h = words"
  by (auto simp: absorbed_def iterate_all_def iterate_length)

lemma block_1: "length st = words \<Longrightarrow> length b = 64 \<Longrightarrow> block st b 1 = step st b"
  using block_eq [of st 1 b] by simp

lemma blocks_repr:
  assumes "length st = words" "absorbed 64 step st (chain c) (block_data c) 0 msg" "num c = 0"
  shows "let c' = HASH_UPDATE_blocks block c d in
    absorbed 64 step st (chain c') (block_data c') (num c') (msg @ d) \<and> bit_count c' = bit_count c"
proof -
  let ?n = "length d div 64" and ?h = "iterate_blocks 64 step (chain c) d (length d div 64)"
  note a = absorbed_blocks [OF assms(2), of ?n d]
  have l: "length (drop (64 * ?n) d) < 64" "64 * ?n \<le> length d" by (simp_all add: minus_mult_div_eq_mod)
  have h: "(if ?n > 0 then block (chain c) d ?n else chain c) = ?h"
    using block_eq [OF absorbed_length [OF assms(1,2)], of ?n d] l(2) by simp
  have b: "absorbed 64 step st ?h (memcpy (block_data c) 0 (drop (64 * ?n) d)) (length (drop (64 * ?n) d)) (msg @ d)"
    using absorbed_pend [OF a, of "drop (64 * ?n) d"] l by simp
  have u: "HASH_UPDATE_blocks block c d =
    (if drop (64 * ?n) d = [] then c\<lparr>chain := ?h\<rparr>
     else c\<lparr>chain := ?h, num := length (drop (64 * ?n) d), block_data := memcpy (block_data c) 0 (drop (64 * ?n) d)\<rparr>)"
    using h [symmetric] by (simp add: HASH_UPDATE_blocks_def Let_def mult.commute)
  show ?thesis
    using b assms(3) unfolding u
    by (cases "drop (64 * ?n) d = []") (simp_all add: Let_def bit_count_def del: drop_eq_Nil length_drop)
qed

theorem HASH_UPDATE_repr:
  assumes st: "length st = words" and r: "md_repr step st c msg"
  shows "md_repr step st (HASH_UPDATE block c data) (msg @ data)"
proof (cases "data = []")
  case True
  then show ?thesis using r by (simp add: HASH_UPDATE_def)
next
  case False
  define c' where "c' = (let l = Nl c + push_bit 3 (of_nat (length data));
      c = (if l < Nl c then c\<lparr>Nh := Nh c + 1\<rparr> else c)
    in c\<lparr>Nh := Nh c + of_nat (length data div 2 ^ 29), Nl := l\<rparr>)"
  have c': "chain c' = chain c" "block_data c' = block_data c" "num c' = num c"
    by (simp_all add: c'_def Let_def)
  have "bit_count c' = (bit_count c + 8 * length data) mod 2 ^ 64"
    using bit_count_add [where nl = "Nl c" and nh = "Nh c" and len = "length data"]
    by (cases "Nl c + push_bit 3 (of_nat (length data)) < Nl c") (simp_all add: c'_def Let_def bit_count_def)
  then have bits: "bit_count c' = 8 * length (msg @ data) mod 2 ^ 64"
    using r by (simp add: md_repr_def mod_simps algebra_simps)
  from r have a: "absorbed 64 step st (chain c') (block_data c') (num c) msg"
    by (simp add: md_repr_def c')
  then have n: "num c < 64" "length (block_data c) = 64" by (simp_all add: absorbed_def c')
  consider "num c = 0" | "num c \<noteq> 0" "length data + num c < 64" | "num c \<noteq> 0" "64 \<le> length data + num c"
    by linarith
  then show ?thesis
  proof cases
    case 1
    then have "HASH_UPDATE block c data = HASH_UPDATE_blocks block c' data"
      using False by (simp add: HASH_UPDATE_def c'_def Let_def)
    with blocks_repr [OF st, of c' msg data] a bits 1 c'(3) show ?thesis
      by (simp add: md_repr_def Let_def)
  next
    case 2
    then have u: "HASH_UPDATE block c data =
        c'\<lparr>block_data := memcpy (block_data c') (num c) data, num := num c + length data\<rparr>"
      using False c' by (simp add: HASH_UPDATE_def c'_def Let_def)
    with absorbed_pend [OF a, of data] 2(2) bits show ?thesis by (simp add: md_repr_def bit_count_def)
  next
    case 3
    let ?t = "64 - num c"
    define b where "b = memcpy (block_data c) (num c) (take ?t data)"
    have t: "num c + length (take ?t data) = 64" using 3(2) n by simp
    then have b: "length b = 64" using n by (simp add: b_def length_memcpy)
    define c2 where "c2 = c'\<lparr>chain := step (chain c) b, num := 0, block_data := replicate 64 0\<rparr>"
    have "absorbed 64 step st (chain c2) (block_data c2) 0 (msg @ take ?t data)"
      using absorbed_fill [OF a t, of "replicate 64 0"] by (simp add: c2_def b_def c')
    moreover have "HASH_UPDATE block c data = HASH_UPDATE_blocks block c2 (drop ?t data)"
      using False 3 c' block_1 [OF absorbed_length [OF st a] b]
      by (simp add: HASH_UPDATE_def c'_def c2_def Let_def flip: b_def)
    moreover have "bit_count c2 = bit_count c'" "num c2 = 0" by (simp_all add: bit_count_def c2_def)
    ultimately show ?thesis
      using blocks_repr [OF st, of c2 "msg @ take ?t data" "drop ?t data"] bits
      by (simp add: md_repr_def Let_def)
  qed
qed

theorem HASH_FINAL_repr:
  assumes st: "length st = words" and r: "md_repr step st c msg"
  shows "\<exists>c'. HASH_FINAL ord block make_string c = Some (make_string c', c') \<and>
    chain c' = md_hash ord step st msg \<and> num c' = 0 \<and> HASH_CTX.more c' = HASH_CTX.more c"
proof -
  let ?n = "num c" and ?d = "block_data c"
  from r have a: "absorbed 64 step st (chain c) ?d ?n msg" by (simp add: md_repr_def)
  then have n: "?n < 64" "length ?d = 64" by (simp_all add: absorbed_def)
  note lc = absorbed_length [OF st a]
  define p where "p = order_bytes ord (be_bytes 8 (8 * length msg))"
  have p: "length_octets ord (Nh c) (Nl c) = p"
  proof -
    have "unat (Nl c) < 256 ^ 4" using unsigned_less [of "Nl c", where ?'a = nat] by simp
    from be_bytes_append [OF this, of 4 "unat (Nh c)"]
    have "be_bytes 8 (bit_count c) = be_bytes 4 (unat (Nh c)) @ be_bytes 4 (unat (Nl c))"
      by (simp add: bit_count_def)
    moreover have "be_bytes 8 (bit_count c) = be_bytes 8 (8 * length msg)"
      using be_bytes_mod [of 8 "8 * length msg"] r by (simp add: md_repr_def)
    ultimately show ?thesis by (cases ord) (simp_all add: p_def length_octets_def HOST_l2c_eq)
  qed
  have lp: "length p = 8" by (simp add: p_def)
  have pad: "md_pad ord msg = msg @ [0x80] @ replicate (md_zeros ?n) 0 @ p"
    by (simp add: md_pad_def p_def md_zeros_def absorbed_mod [OF a])
  have d80: "?d[?n := 0x80] = memcpy ?d ?n [0x80]" using n by (simp add: memcpy_single)
  have final: "chain c' = md_hash ord step st msg" if "absorbed 64 step st (chain c') b 0 (md_pad ord msg)"
    for c' :: "'a HASH_CTX_scheme" and b using that by (auto simp: absorbed_def md_hash_def)
  show ?thesis
  proof (cases "?n + 1 > 56")
    case False
    then have z: "md_zeros ?n = 55 - ?n" by (simp add: md_zeros_def mod_if)
    let ?x = "[0x80] @ replicate (55 - ?n) 0 @ p"
    have m: "memcpy (memcpy (memcpy ?d ?n [0x80]) (?n + 1) (replicate (55 - ?n) 0)) 56 p = memcpy ?d ?n ?x"
      using memcpy_memcpy [of ?n ?d "[0x80]" "replicate (55 - ?n) 0"]
        memcpy_memcpy [of ?n ?d "[0x80] @ replicate (55 - ?n) 0" p] False n by simp
    have l: "?n + length ?x = 64" using False lp by simp
    then have lb: "length (memcpy ?d ?n ?x) = 64" using n(2) by (simp add: length_memcpy)
    have "HASH_FINAL ord block make_string c = Some (make_string c', c')"
      if "c' = c\<lparr>chain := step (chain c) (memcpy ?d ?n ?x), num := 0, block_data := replicate 64 0\<rparr>" for c'
      using False n m block_1 [OF lc lb] by (simp add: HASH_FINAL_def Let_def d80 p that)
    moreover have "step (chain c) (memcpy ?d ?n ?x) = md_hash ord step st msg"
      using final [where c' = "c\<lparr>chain := step (chain c) (memcpy ?d ?n ?x)\<rparr>"] absorbed_fill [OF a l n(2)]
      by (simp add: pad z)
    ultimately show ?thesis by auto
  next
    case True
    then have z: "md_zeros ?n = (63 - ?n) + 56" using n by (simp add: md_zeros_def)
    let ?x = "[0x80] @ replicate (63 - ?n) 0" and ?y = "replicate 56 0 @ p"
    define b1 where "b1 = memcpy ?d ?n ?x"
    define b2 where "b2 = memcpy b1 0 ?y"
    have l: "?n + length ?x = 64" "0 + length ?y = 64" using n lp by simp_all
    then have lb: "length b1 = 64" "length b2 = 64" using n(2) by (simp_all add: b1_def b2_def length_memcpy)
    have m: "memcpy (memcpy ?d ?n [0x80]) (?n + 1) (replicate (63 - ?n) 0) = b1"
      "memcpy (memcpy b1 0 (replicate 56 0)) 56 p = b2"
      using memcpy_memcpy [of ?n ?d "[0x80]" "replicate (63 - ?n) 0"] n
        memcpy_memcpy [of 0 b1 "replicate 56 0" p] lb by (simp_all add: b1_def b2_def)
    have "HASH_FINAL ord block make_string c = Some (make_string c', c')"
      if "c' = c\<lparr>chain := step (step (chain c) b1) b2, num := 0, block_data := replicate 64 0\<rparr>" for c'
      using True n m block_1 [OF lc lb(1)] block_1 [OF step_length [OF lc] lb(2)]
      by (simp add: HASH_FINAL_def Let_def d80 p that)
    moreover have "step (step (chain c) b1) b2 = md_hash ord step st msg"
      using final [where c' = "c\<lparr>chain := step (step (chain c) b1) b2\<rparr>"]
        absorbed_fill [OF absorbed_fill [OF a l(1) lb(1)] l(2) lb(1)]
      by (simp add: pad z replicate_add b1_def b2_def)
    ultimately show ?thesis by auto
  qed
qed

lemma md_repr_fold:
  "length st = words \<Longrightarrow> md_repr step st c msg \<Longrightarrow>
   md_repr step st (foldl (HASH_UPDATE block) c ds) (msg @ concat ds)"
proof (induction ds arbitrary: c msg)
  case (Cons d ds)
  from Cons.IH [OF Cons.prems(1) HASH_UPDATE_repr [OF Cons.prems, of d]] show ?case by simp
qed simp

text \<open>However a message is cut into pieces, the digest is that of the whole.\<close>

theorem hash_pieces:
  assumes "length st = words" "md_repr step st c []"
  shows "\<exists>c'. HASH_FINAL ord block make_string (foldl (HASH_UPDATE block) c ds) = Some (make_string c', c') \<and>
    chain c' = md_hash ord step st (concat ds) \<and> num c' = 0 \<and> HASH_CTX.more c' = HASH_CTX.more c"
  using HASH_FINAL_repr [OF assms(1) md_repr_fold [OF assms, of ds], of ord make_string]
  by (simp add: foldl_HASH_UPDATE_more)

end

end
