(* ===== verification/SHA1.thy ===== *)
theory SHA1
  imports Digest
begin

text \<open>
  \<open>crypto/fipsmodule/sha/sha1.c\<close> (the C block function, the one built with \<open>OPENSSL_NO_ASM\<close>): the
  eighty unrolled rounds over six rotating registers and a circular schedule of sixteen variables are
  the compression function of FIPS 180, and the collector of \<open>Digest\<close> over them is SHA-1 of the padded
  message.
\<close>

section \<open>Definitions\<close>

type_synonym SHA_CTX = HASH_CTX

definition SHA1_Init :: SHA_CTX where
  "SHA1_Init =
     \<lparr>chain = [0x67452301, 0xefcdab89, 0x98badcfe, 0x10325476, 0xc3d2e1f0],
      Nl = 0, Nh = 0, block_data = replicate HASH_CBLOCK 0, num = 0\<rparr>"

definition sha1_HASH_MAKE_STRING :: "SHA_CTX \<Rightarrow> bytes option" where
  "sha1_HASH_MAKE_STRING c =
     Some (HOST_l2c Big_Endian (chain c ! 0) @ HOST_l2c Big_Endian (chain c ! 1) @
           HOST_l2c Big_Endian (chain c ! 2) @ HOST_l2c Big_Endian (chain c ! 3) @
           HOST_l2c Big_Endian (chain c ! 4))"

definition sha1_K_00_19 :: u32 where "sha1_K_00_19 = 0x5a827999"
definition sha1_K_20_39 :: u32 where "sha1_K_20_39 = 0x6ed9eba1"
definition sha1_K_40_59 :: u32 where "sha1_K_40_59 = 0x8f1bbcdc"
definition sha1_K_60_79 :: u32 where "sha1_K_60_79 = 0xca62c1d6"

definition sha1_F_00_19 :: "u32 \<Rightarrow> u32 \<Rightarrow> u32 \<Rightarrow> u32" where
  "sha1_F_00_19 b c d = (((c XOR d) AND b) XOR d)"

definition sha1_F_20_39 :: "u32 \<Rightarrow> u32 \<Rightarrow> u32 \<Rightarrow> u32" where
  "sha1_F_20_39 b c d = (b XOR c XOR d)"

definition sha1_F_40_59 :: "u32 \<Rightarrow> u32 \<Rightarrow> u32 \<Rightarrow> u32" where
  "sha1_F_40_59 b c d = ((b AND c) OR ((b OR c) AND d))"

definition sha1_F_60_79 :: "u32 \<Rightarrow> u32 \<Rightarrow> u32 \<Rightarrow> u32" where
  "sha1_F_60_79 b c d = sha1_F_20_39 b c d"

text \<open>\<open>Xupdate(a, ix, ia, ib, ic, id)\<close>: what it assigns to \<open>a\<close> and to \<open>ix\<close>.\<close>

definition sha1_Xupdate :: "u32 \<Rightarrow> u32 \<Rightarrow> u32 \<Rightarrow> u32 \<Rightarrow> u32 \<times> u32" where
  "sha1_Xupdate ia ib ic id' =
     (let a = (ia XOR ib XOR ic XOR id'); a = ROTATE a 1; ix = a in (a, ix))"

text \<open>
  The round macros assign to \<open>f\<close> (which they do not read), to \<open>b\<close> and, from round 16 on, to the schedule
  word \<open>xi\<close> (which \<open>BODY_32_39\<close> and later call \<open>xa\<close>): the new values are the result.
\<close>

definition sha1_BODY_00_15 :: "nat \<Rightarrow> u32 \<Rightarrow> u32 \<Rightarrow> u32 \<Rightarrow> u32 \<Rightarrow> u32 \<Rightarrow> u32 \<Rightarrow> u32 \<times> u32" where
  "sha1_BODY_00_15 i a b c d e xi =
     (let f = xi + e + sha1_K_00_19 + ROTATE a 5 + sha1_F_00_19 b c d;
          b = ROTATE b 30
      in (f, b))"

definition sha1_BODY_16_19 ::
  "nat \<Rightarrow> u32 \<Rightarrow> u32 \<Rightarrow> u32 \<Rightarrow> u32 \<Rightarrow> u32 \<Rightarrow> u32 \<Rightarrow> u32 \<Rightarrow> u32 \<Rightarrow> u32 \<Rightarrow> u32 \<times> u32 \<times> u32" where
  "sha1_BODY_16_19 i a b c d e xa xb xc xd =
     (let (f, x) = sha1_Xupdate xa xb xc xd;
          f = f + (e + sha1_K_00_19 + ROTATE a 5 + sha1_F_00_19 b c d);
          b = ROTATE b 30
      in (f, b, x))"

definition sha1_BODY_20_31 ::
  "nat \<Rightarrow> u32 \<Rightarrow> u32 \<Rightarrow> u32 \<Rightarrow> u32 \<Rightarrow> u32 \<Rightarrow> u32 \<Rightarrow> u32 \<Rightarrow> u32 \<Rightarrow> u32 \<Rightarrow> u32 \<times> u32 \<times> u32" where
  "sha1_BODY_20_31 i a b c d e xa xb xc xd =
     (let (f, x) = sha1_Xupdate xa xb xc xd;
          f = f + (e + sha1_K_20_39 + ROTATE a 5 + sha1_F_20_39 b c d);
          b = ROTATE b 30
      in (f, b, x))"

definition sha1_BODY_32_39 ::
  "nat \<Rightarrow> u32 \<Rightarrow> u32 \<Rightarrow> u32 \<Rightarrow> u32 \<Rightarrow> u32 \<Rightarrow> u32 \<Rightarrow> u32 \<Rightarrow> u32 \<Rightarrow> u32 \<Rightarrow> u32 \<times> u32 \<times> u32" where
  "sha1_BODY_32_39 i a b c d e xa xb xc xd =
     (let (f, x) = sha1_Xupdate xa xb xc xd;
          f = f + (e + sha1_K_20_39 + ROTATE a 5 + sha1_F_20_39 b c d);
          b = ROTATE b 30
      in (f, b, x))"

definition sha1_BODY_40_59 ::
  "nat \<Rightarrow> u32 \<Rightarrow> u32 \<Rightarrow> u32 \<Rightarrow> u32 \<Rightarrow> u32 \<Rightarrow> u32 \<Rightarrow> u32 \<Rightarrow> u32 \<Rightarrow> u32 \<Rightarrow> u32 \<times> u32 \<times> u32" where
  "sha1_BODY_40_59 i a b c d e xa xb xc xd =
     (let (f, x) = sha1_Xupdate xa xb xc xd;
          f = f + (e + sha1_K_40_59 + ROTATE a 5 + sha1_F_40_59 b c d);
          b = ROTATE b 30
      in (f, b, x))"

definition sha1_BODY_60_79 ::
  "nat \<Rightarrow> u32 \<Rightarrow> u32 \<Rightarrow> u32 \<Rightarrow> u32 \<Rightarrow> u32 \<Rightarrow> u32 \<Rightarrow> u32 \<Rightarrow> u32 \<Rightarrow> u32 \<Rightarrow> u32 \<times> u32 \<times> u32" where
  "sha1_BODY_60_79 i a b c d e xa xb xc xd =
     (let (f, x) = sha1_Xupdate xa xb xc xd;
          f = x + e + sha1_K_60_79 + ROTATE a 5 + sha1_F_60_79 b c d;
          b = ROTATE b 30
      in (f, b, x))"

text \<open>The body of \<open>for (;;)\<close> up to its test: the new state, and \<open>data\<close> past the block.\<close>

definition sha1_block ::
  "u32 \<times> u32 \<times> u32 \<times> u32 \<times> u32 \<Rightarrow> u32 list \<Rightarrow> bytes \<Rightarrow> u32 list \<times> bytes" where
  "sha1_block r state data =
     (let (A, B, C, D, E) = r;
          (l, data) = HOST_c2l Big_Endian data; X0 = l;
          (l, data) = HOST_c2l Big_Endian data; X1 = l;
          (T, B) = sha1_BODY_00_15 0 A B C D E X0;
          (l, data) = HOST_c2l Big_Endian data; X2 = l;
          (E, A) = sha1_BODY_00_15 1 T A B C D X1;
          (l, data) = HOST_c2l Big_Endian data; X3 = l;
          (D, T) = sha1_BODY_00_15 2 E T A B C X2;
          (l, data) = HOST_c2l Big_Endian data; X4 = l;
          (C, E) = sha1_BODY_00_15 3 D E T A B X3;
          (l, data) = HOST_c2l Big_Endian data; X5 = l;
          (B, D) = sha1_BODY_00_15 4 C D E T A X4;
          (l, data) = HOST_c2l Big_Endian data; X6 = l;
          (A, C) = sha1_BODY_00_15 5 B C D E T X5;
          (l, data) = HOST_c2l Big_Endian data; X7 = l;
          (T, B) = sha1_BODY_00_15 6 A B C D E X6;
          (l, data) = HOST_c2l Big_Endian data; X8 = l;
          (E, A) = sha1_BODY_00_15 7 T A B C D X7;
          (l, data) = HOST_c2l Big_Endian data; X9 = l;
          (D, T) = sha1_BODY_00_15 8 E T A B C X8;
          (l, data) = HOST_c2l Big_Endian data; X10 = l;
          (C, E) = sha1_BODY_00_15 9 D E T A B X9;
          (l, data) = HOST_c2l Big_Endian data; X11 = l;
          (B, D) = sha1_BODY_00_15 10 C D E T A X10;
          (l, data) = HOST_c2l Big_Endian data; X12 = l;
          (A, C) = sha1_BODY_00_15 11 B C D E T X11;
          (l, data) = HOST_c2l Big_Endian data; X13 = l;
          (T, B) = sha1_BODY_00_15 12 A B C D E X12;
          (l, data) = HOST_c2l Big_Endian data; X14 = l;
          (E, A) = sha1_BODY_00_15 13 T A B C D X13;
          (l, data) = HOST_c2l Big_Endian data; X15 = l;
          (D, T) = sha1_BODY_00_15 14 E T A B C X14;
          (C, E) = sha1_BODY_00_15 15 D E T A B X15;
          (B, D, X0) = sha1_BODY_16_19 16 C D E T A X0 X2 X8 X13;
          (A, C, X1) = sha1_BODY_16_19 17 B C D E T X1 X3 X9 X14;
          (T, B, X2) = sha1_BODY_16_19 18 A B C D E X2 X4 X10 X15;
          (E, A, X3) = sha1_BODY_16_19 19 T A B C D X3 X5 X11 X0;
          (D, T, X4) = sha1_BODY_20_31 20 E T A B C X4 X6 X12 X1;
          (C, E, X5) = sha1_BODY_20_31 21 D E T A B X5 X7 X13 X2;
          (B, D, X6) = sha1_BODY_20_31 22 C D E T A X6 X8 X14 X3;
          (A, C, X7) = sha1_BODY_20_31 23 B C D E T X7 X9 X15 X4;
          (T, B, X8) = sha1_BODY_20_31 24 A B C D E X8 X10 X0 X5;
          (E, A, X9) = sha1_BODY_20_31 25 T A B C D X9 X11 X1 X6;
          (D, T, X10) = sha1_BODY_20_31 26 E T A B C X10 X12 X2 X7;
          (C, E, X11) = sha1_BODY_20_31 27 D E T A B X11 X13 X3 X8;
          (B, D, X12) = sha1_BODY_20_31 28 C D E T A X12 X14 X4 X9;
          (A, C, X13) = sha1_BODY_20_31 29 B C D E T X13 X15 X5 X10;
          (T, B, X14) = sha1_BODY_20_31 30 A B C D E X14 X0 X6 X11;
          (E, A, X15) = sha1_BODY_20_31 31 T A B C D X15 X1 X7 X12;
          (D, T, X0) = sha1_BODY_32_39 32 E T A B C X0 X2 X8 X13;
          (C, E, X1) = sha1_BODY_32_39 33 D E T A B X1 X3 X9 X14;
          (B, D, X2) = sha1_BODY_32_39 34 C D E T A X2 X4 X10 X15;
          (A, C, X3) = sha1_BODY_32_39 35 B C D E T X3 X5 X11 X0;
          (T, B, X4) = sha1_BODY_32_39 36 A B C D E X4 X6 X12 X1;
          (E, A, X5) = sha1_BODY_32_39 37 T A B C D X5 X7 X13 X2;
          (D, T, X6) = sha1_BODY_32_39 38 E T A B C X6 X8 X14 X3;
          (C, E, X7) = sha1_BODY_32_39 39 D E T A B X7 X9 X15 X4;
          (B, D, X8) = sha1_BODY_40_59 40 C D E T A X8 X10 X0 X5;
          (A, C, X9) = sha1_BODY_40_59 41 B C D E T X9 X11 X1 X6;
          (T, B, X10) = sha1_BODY_40_59 42 A B C D E X10 X12 X2 X7;
          (E, A, X11) = sha1_BODY_40_59 43 T A B C D X11 X13 X3 X8;
          (D, T, X12) = sha1_BODY_40_59 44 E T A B C X12 X14 X4 X9;
          (C, E, X13) = sha1_BODY_40_59 45 D E T A B X13 X15 X5 X10;
          (B, D, X14) = sha1_BODY_40_59 46 C D E T A X14 X0 X6 X11;
          (A, C, X15) = sha1_BODY_40_59 47 B C D E T X15 X1 X7 X12;
          (T, B, X0) = sha1_BODY_40_59 48 A B C D E X0 X2 X8 X13;
          (E, A, X1) = sha1_BODY_40_59 49 T A B C D X1 X3 X9 X14;
          (D, T, X2) = sha1_BODY_40_59 50 E T A B C X2 X4 X10 X15;
          (C, E, X3) = sha1_BODY_40_59 51 D E T A B X3 X5 X11 X0;
          (B, D, X4) = sha1_BODY_40_59 52 C D E T A X4 X6 X12 X1;
          (A, C, X5) = sha1_BODY_40_59 53 B C D E T X5 X7 X13 X2;
          (T, B, X6) = sha1_BODY_40_59 54 A B C D E X6 X8 X14 X3;
          (E, A, X7) = sha1_BODY_40_59 55 T A B C D X7 X9 X15 X4;
          (D, T, X8) = sha1_BODY_40_59 56 E T A B C X8 X10 X0 X5;
          (C, E, X9) = sha1_BODY_40_59 57 D E T A B X9 X11 X1 X6;
          (B, D, X10) = sha1_BODY_40_59 58 C D E T A X10 X12 X2 X7;
          (A, C, X11) = sha1_BODY_40_59 59 B C D E T X11 X13 X3 X8;
          (T, B, X12) = sha1_BODY_60_79 60 A B C D E X12 X14 X4 X9;
          (E, A, X13) = sha1_BODY_60_79 61 T A B C D X13 X15 X5 X10;
          (D, T, X14) = sha1_BODY_60_79 62 E T A B C X14 X0 X6 X11;
          (C, E, X15) = sha1_BODY_60_79 63 D E T A B X15 X1 X7 X12;
          (B, D, X0) = sha1_BODY_60_79 64 C D E T A X0 X2 X8 X13;
          (A, C, X1) = sha1_BODY_60_79 65 B C D E T X1 X3 X9 X14;
          (T, B, X2) = sha1_BODY_60_79 66 A B C D E X2 X4 X10 X15;
          (E, A, X3) = sha1_BODY_60_79 67 T A B C D X3 X5 X11 X0;
          (D, T, X4) = sha1_BODY_60_79 68 E T A B C X4 X6 X12 X1;
          (C, E, X5) = sha1_BODY_60_79 69 D E T A B X5 X7 X13 X2;
          (B, D, X6) = sha1_BODY_60_79 70 C D E T A X6 X8 X14 X3;
          (A, C, X7) = sha1_BODY_60_79 71 B C D E T X7 X9 X15 X4;
          (T, B, X8) = sha1_BODY_60_79 72 A B C D E X8 X10 X0 X5;
          (E, A, X9) = sha1_BODY_60_79 73 T A B C D X9 X11 X1 X6;
          (D, T, X10) = sha1_BODY_60_79 74 E T A B C X10 X12 X2 X7;
          (C, E, X11) = sha1_BODY_60_79 75 D E T A B X11 X13 X3 X8;
          (B, D, X12) = sha1_BODY_60_79 76 C D E T A X12 X14 X4 X9;
          (A, C, X13) = sha1_BODY_60_79 77 B C D E T X13 X15 X5 X10;
          (T, B, X14) = sha1_BODY_60_79 78 A B C D E X14 X0 X6 X11;
          (E, A, X15) = sha1_BODY_60_79 79 T A B C D X15 X1 X7 X12;
          state = state[0 := (state ! 0 + E) AND 0xffffffff];
          state = state[1 := (state ! 1 + T) AND 0xffffffff];
          state = state[2 := (state ! 2 + A) AND 0xffffffff];
          state = state[3 := (state ! 3 + B) AND 0xffffffff];
          state = state[4 := (state ! 4 + C) AND 0xffffffff]
      in (state, data))"

text \<open>
  The loop, with the number of iterations left as fuel: \<open>--num == 0\<close> ends it, so that a \<open>num\<close> of 0
  would wrap around to \<open>2 ^ 64\<close> of them. The callers pass at least 1.
\<close>

fun sha1_loop :: "u32 list \<Rightarrow> bytes \<Rightarrow> nat \<Rightarrow> u32 list" where
  "sha1_loop state data 0 = state"
| "sha1_loop state data (Suc n) =
     (case sha1_block (state ! 0, state ! 1, state ! 2, state ! 3, state ! 4) state data of
        (state, data) \<Rightarrow> if n = 0 then state else sha1_loop state data n)"

definition sha1_block_data_order :: "u32 list \<Rightarrow> bytes \<Rightarrow> nat \<Rightarrow> u32 list" where
  "sha1_block_data_order state data n = sha1_loop state data (if n = 0 then 2 ^ 64 else n)"

text \<open>The instances of the template, and the one-shot function.\<close>

definition SHA1_Update :: "SHA_CTX \<Rightarrow> bytes \<Rightarrow> SHA_CTX" where
  "SHA1_Update c data = HASH_UPDATE sha1_block_data_order c data"

definition SHA1_Transform :: "SHA_CTX \<Rightarrow> bytes \<Rightarrow> SHA_CTX" where
  "SHA1_Transform c data = HASH_TRANSFORM sha1_block_data_order c data"

definition SHA1_Final :: "SHA_CTX \<Rightarrow> (bytes, SHA_CTX) outcome option" where
  "SHA1_Final c = HASH_FINAL Big_Endian sha1_block_data_order sha1_HASH_MAKE_STRING c"

definition SHA1 :: "bytes \<Rightarrow> bytes option" where
  "SHA1 data =
     (let ctx = SHA1_Init;
          ctx = SHA1_Update ctx data
      in case SHA1_Final ctx of Some (Some out, ctx) \<Rightarrow> Some out | _ \<Rightarrow> None)"

section \<open>The compression function of FIPS 180\<close>

text \<open>Sections 4.1.1, 4.2.1 and 6.1.2: functions, constants, message schedule and steps.\<close>

definition sha1_f :: "nat \<Rightarrow> u32 \<Rightarrow> u32 \<Rightarrow> u32 \<Rightarrow> u32" where
  "sha1_f t x y z =
     (if t < 20 then (x AND y) XOR (NOT x AND z)
      else if t < 40 then x XOR y XOR z
      else if t < 60 then (x AND y) XOR (x AND z) XOR (y AND z)
      else x XOR y XOR z)"

definition sha1_K :: "nat \<Rightarrow> u32" where
  "sha1_K t =
     (if t < 20 then 0x5a827999 else if t < 40 then 0x6ed9eba1
      else if t < 60 then 0x8f1bbcdc else 0xca62c1d6)"

fun sha1_W :: "bytes \<Rightarrow> nat \<Rightarrow> u32" where
  "sha1_W M t =
     (if t < 16 then msg_word Big_Endian M t
      else word_rotl 1 (sha1_W M (t - 3) XOR sha1_W M (t - 8) XOR sha1_W M (t - 14) XOR sha1_W M (t - 16)))"

declare sha1_W.simps [simp del]

type_synonym regs5 = "u32 \<times> u32 \<times> u32 \<times> u32 \<times> u32"

definition sha1_step :: "nat \<Rightarrow> u32 \<Rightarrow> regs5 \<Rightarrow> regs5" where
  "sha1_step t w = (\<lambda>(a, b, c, d, e).
     (word_rotl 5 a + sha1_f t b c d + e + sha1_K t + w, a, word_rotl 30 b, c, d))"

fun sha1_steps :: "(nat \<Rightarrow> u32) \<Rightarrow> nat \<Rightarrow> nat \<Rightarrow> regs5 \<Rightarrow> regs5" where
  "sha1_steps W t 0 r = r"
| "sha1_steps W t (Suc n) r = sha1_steps W (t + 1) n (sha1_step t (W t) r)"

definition sha1_add :: "u32 list \<Rightarrow> regs5 \<Rightarrow> u32 list" where
  "sha1_add H = (\<lambda>(a, b, c, d, e). map2 (+) H [a, b, c, d, e])"

definition sha1_compress :: "u32 list \<Rightarrow> bytes \<Rightarrow> u32 list" where
  "sha1_compress H M = sha1_add H (sha1_steps (sha1_W M) 0 80 (H ! 0, H ! 1, H ! 2, H ! 3, H ! 4))"

section \<open>The code computes it\<close>

lemma sha1_f_eq:
  "t < 20 \<Longrightarrow> sha1_F_00_19 b c d = sha1_f t b c d"
  "20 \<le> t \<Longrightarrow> t < 40 \<Longrightarrow> sha1_F_20_39 b c d = sha1_f t b c d"
  "40 \<le> t \<Longrightarrow> t < 60 \<Longrightarrow> sha1_F_40_59 b c d = sha1_f t b c d"
  "60 \<le> t \<Longrightarrow> sha1_F_60_79 b c d = sha1_f t b c d"
  by (auto simp: sha1_f_def sha1_F_00_19_def sha1_F_20_39_def sha1_F_40_59_def sha1_F_60_79_def bit_simps
      intro!: bit_word_eqI)

text \<open>The two words a step computes: the new first register and the rotated second one.\<close>

definition sha1_op :: "nat \<Rightarrow> u32 \<Rightarrow> u32 \<Rightarrow> u32 \<Rightarrow> u32 \<Rightarrow> u32 \<Rightarrow> u32 \<Rightarrow> u32 \<times> u32" where
  "sha1_op t w a b c d e = (word_rotl 5 a + sha1_f t b c d + e + sha1_K t + w, word_rotl 30 b)"

lemma sha1_W_eq:
  "p = i - 16 \<Longrightarrow> q = i - 14 \<Longrightarrow> r = i - 8 \<Longrightarrow> s = i - 3 \<Longrightarrow> 16 \<le> i \<Longrightarrow>
   sha1_Xupdate (sha1_W M p) (sha1_W M q) (sha1_W M r) (sha1_W M s) = (sha1_W M i, sha1_W M i)"
  by (simp add: sha1_Xupdate_def Let_def sha1_W.simps [of M i] ROTATE_eq ac_simps)

lemma BODY_first: "i < 16 \<Longrightarrow> sha1_BODY_00_15 i a b c d e w = sha1_op i w a b c d e"
  by (simp add: sha1_BODY_00_15_def sha1_op_def Let_def ROTATE_eq sha1_f_eq [of i] sha1_K_def sha1_K_00_19_def ac_simps)

text \<open>From round 16 on, over a schedule that holds the words of the standard.\<close>

lemma BODY_eq:
  fixes M i
  defines "W \<equiv> sha1_W M"
  assumes "p = i - 16" "q = i - 14" "r = i - 8" "s = i - 3" "16 \<le> i"
  shows
    "i < 20 \<Longrightarrow> (case sha1_BODY_16_19 i a b c d e (W p) (W q) (W r) (W s) of (f, b, x) \<Rightarrow> F f b x) =
       (case sha1_op i (W i) a b c d e of (f, b) \<Rightarrow> F f b (W i))"
    "20 \<le> i \<Longrightarrow> i < 40 \<Longrightarrow> (case sha1_BODY_20_31 i a b c d e (W p) (W q) (W r) (W s) of (f, b, x) \<Rightarrow> F f b x) =
       (case sha1_op i (W i) a b c d e of (f, b) \<Rightarrow> F f b (W i))"
    "20 \<le> i \<Longrightarrow> i < 40 \<Longrightarrow> (case sha1_BODY_32_39 i a b c d e (W p) (W q) (W r) (W s) of (f, b, x) \<Rightarrow> F f b x) =
       (case sha1_op i (W i) a b c d e of (f, b) \<Rightarrow> F f b (W i))"
    "40 \<le> i \<Longrightarrow> i < 60 \<Longrightarrow> (case sha1_BODY_40_59 i a b c d e (W p) (W q) (W r) (W s) of (f, b, x) \<Rightarrow> F f b x) =
       (case sha1_op i (W i) a b c d e of (f, b) \<Rightarrow> F f b (W i))"
    "60 \<le> i \<Longrightarrow> (case sha1_BODY_60_79 i a b c d e (W p) (W q) (W r) (W s) of (f, b, x) \<Rightarrow> F f b x) =
       (case sha1_op i (W i) a b c d e of (f, b) \<Rightarrow> F f b (W i))"
  unfolding W_def
  by (simp_all add: sha1_BODY_16_19_def sha1_BODY_20_31_def sha1_BODY_32_39_def sha1_BODY_40_59_def
      sha1_BODY_60_79_def sha1_W_eq [OF assms(2-6)] sha1_op_def Let_def ROTATE_eq
      sha1_f_eq [of i] sha1_K_def sha1_K_00_19_def sha1_K_20_39_def sha1_K_40_59_def sha1_K_60_79_def ac_simps)

text \<open>What the loop body returns for the registers at its end.\<close>

definition sha1_out :: "u32 list \<Rightarrow> bytes \<Rightarrow> regs5 \<Rightarrow> u32 list \<times> bytes" where
  "sha1_out H data r = (sha1_add H r, data)"

lemma sha1_out_regs:
  "sha1_out [h0, h1, h2, h3, h4] data (a, b, c, d, e) = ([h0 + a, h1 + b, h2 + c, h3 + d, h4 + e], data)"
  by (simp add: sha1_out_def sha1_add_def)

lemma sha1_unroll:
  "0 < n \<Longrightarrow>
   sha1_out H D (sha1_steps W t n (a, b, c, d, e)) =
     (case sha1_op t (W t) a b c d e of
        (f, b) \<Rightarrow> sha1_out H D (sha1_steps W (t + 1) (n - 1) (f, a, b, c, d)))"
  by (cases n) (auto simp: sha1_step_def sha1_op_def)

lemma sha1_W_first: "t < 16 \<Longrightarrow> sha1_W M t = msg_word Big_Endian M t"
  by (simp add: sha1_W.simps)

lemma and_all_ones: "(w :: u32) AND 0xffffffff = w"
proof -
  have "(0xffffffff :: u32) = - 1" by simp
  then show ?thesis by (simp only: and.right_neutral)
qed

theorem sha1_block_eq:
  assumes "length H = 5"
  shows "sha1_block (H ! 0, H ! 1, H ! 2, H ! 3, H ! 4) H M = (sha1_compress H M, drop 64 M)"
proof -
  obtain h0 h1 h2 h3 h4 where H: "H = [h0, h1, h2, h3, h4]"
    using assms by (auto simp: numeral_eq_Suc length_Suc_conv)
  have "sha1_block (H ! 0, H ! 1, H ! 2, H ! 3, H ! 4) H M =
      sha1_out H (drop 64 M) (sha1_steps (sha1_W M) 0 80 (H ! 0, H ! 1, H ! 2, H ! 3, H ! 4))"
    unfolding H sha1_block_def
    by (simp add: Let_def HOST_c2l_0 [of _ M] HOST_c2l_drop sha1_W_first [symmetric] BODY_first BODY_eq
        sha1_unroll sha1_out_regs and_all_ones case_1
        del: One_nat_def add_2_eq_Suc add_2_eq_Suc' sha1_steps.simps(2))
  then show ?thesis by (simp add: sha1_out_def sha1_compress_def)
qed

lemma sha1_W_take: "64 \<le> length x \<Longrightarrow> sha1_W (take 64 x) t = sha1_W x t"
proof (induction t rule: less_induct)
  case (less t)
  then show ?case
    by (cases "t < 16") (simp_all add: sha1_W.simps [of _ t] msg_word_take)
qed

lemma sha1_compress_take: "64 \<le> length x \<Longrightarrow> sha1_compress H (take 64 x) = sha1_compress H x"
proof -
  assume "64 \<le> length x"
  then have "sha1_W (take 64 x) = sha1_W x" by (intro ext sha1_W_take)
  then show ?thesis by (simp only: sha1_compress_def)
qed

lemma length_sha1_compress: "length H = 5 \<Longrightarrow> length (sha1_compress H x) = 5"
  by (simp add: sha1_compress_def sha1_add_def split: prod.split)

lemma sha1_loop_eq:
  "length H = 5 \<Longrightarrow> 64 * Suc n \<le> length x \<Longrightarrow>
   sha1_loop H x (Suc n) = iterate_blocks 64 sha1_compress H x (Suc n)"
proof (induction n arbitrary: H x)
  case 0
  then show ?case by (simp add: sha1_block_eq sha1_compress_take del: One_nat_def)
next
  case (Suc n)
  from Suc.prems Suc.IH [of "sha1_compress H x" "drop 64 x"] show ?case
    by (simp add: sha1_loop.simps(2) [of _ _ "Suc n"] sha1_block_eq sha1_compress_take length_sha1_compress
        del: One_nat_def sha1_loop.simps)
qed

theorem sha1_block_data_order_eq:
  "length H = 5 \<Longrightarrow> 0 < n \<Longrightarrow> 64 * n \<le> length x \<Longrightarrow>
   sha1_block_data_order H x n = iterate_blocks 64 sha1_compress H x n"
  by (cases n) (simp_all add: sha1_block_data_order_def sha1_loop_eq del: sha1_loop.simps)

interpretation sha1: md32 sha1_block_data_order sha1_compress 5
  by unfold_locales (simp_all add: length_sha1_compress sha1_block_data_order_eq)

section \<open>Digests\<close>

text \<open>The initial hash value of section 5.3.1, and the digest.\<close>

definition sha1_H :: "u32 list" where
  "sha1_H = [0x67452301, 0xefcdab89, 0x98badcfe, 0x10325476, 0xc3d2e1f0]"

definition sha1_digest :: "bytes \<Rightarrow> bytes" where
  "sha1_digest msg = word_bytes Big_Endian (md_hash Big_Endian sha1_compress sha1_H msg)"

lemma sha1_H_eq: "sha1_H = chain SHA1_Init"
  by (simp add: sha1_H_def SHA1_Init_def)

lemma sha1_make_string:
  assumes "length (chain c) = 5"
  shows "sha1_HASH_MAKE_STRING c = Some (word_bytes Big_Endian (chain c))"
proof -
  obtain h0 h1 h2 h3 h4 where "chain c = [h0, h1, h2, h3, h4]"
    using assms by (auto simp: numeral_eq_Suc length_Suc_conv)
  then show ?thesis by (simp add: sha1_HASH_MAKE_STRING_def word_bytes_def HOST_l2c_eq)
qed

theorem sha1_pieces:
  "\<exists>c. SHA1_Final (foldl SHA1_Update SHA1_Init ds) = Some (Some (sha1_digest (concat ds)), c)"
proof -
  have i: "length (chain SHA1_Init) = 5" "md_repr sha1_compress (chain SHA1_Init) SHA1_Init []"
    by (simp_all add: SHA1_Init_def md_repr_fresh)
  then have "length (md_hash Big_Endian sha1_compress (chain SHA1_Init) msg) = 5" for msg
    by (simp add: md_hash_def iterate_all_def sha1.iterate_length)
  with sha1.hash_pieces [OF i, of Big_Endian sha1_HASH_MAKE_STRING ds] show ?thesis
    by (auto simp: SHA1_Final_def SHA1_Update_def [abs_def] sha1_digest_def sha1_H_eq sha1_make_string)
qed

theorem SHA1_eq: "SHA1 data = Some (sha1_digest data)"
  using sha1_pieces [of "[data]"] by (auto simp: SHA1_def)

end
