(* ===== verification/FIPS_180.thy ===== *)
theory FIPS_180
  imports Prelude
begin

text \<open>
  The constants of FIPS 180-4, from their descriptions in the standard: the first bits of the fractional
  parts of the square and cube roots of the first primes. The tables of the C files are compared with
  these where they occur.
\<close>

section \<open>Roots of primes\<close>

definition floor_root :: "nat \<Rightarrow> nat \<Rightarrow> nat" where
  "floor_root k n = Max {r. r ^ k \<le> n}"

text \<open>The first \<open>b\<close> bits of the fractional part of the \<open>k\<close>-th root of \<open>p\<close>.\<close>

definition root_fraction :: "nat \<Rightarrow> nat \<Rightarrow> nat \<Rightarrow> nat" where
  "root_fraction k b p = floor_root k (p * 2 ^ (k * b)) mod 2 ^ b"

text \<open>The first sixty-four primes: those below 312.\<close>

definition prime_number :: "nat \<Rightarrow> bool" where
  "prime_number p \<longleftrightarrow> 2 \<le> p \<and> list_all (\<lambda>d. p mod d \<noteq> 0) [2..<p]"

definition fips_primes :: "nat list" where
  "fips_primes = filter prime_number [2..<312]"

lemma floor_root_eq:
  assumes "0 < k" "r ^ k \<le> n" "n < (r + 1) ^ k"
  shows "floor_root k n = r"
  unfolding floor_root_def
proof (rule Max_eqI)
  have "x \<le> n" if "x ^ k \<le> n" for x
  proof (cases "x = 0")
    case False
    then have "x \<le> x ^ k" using self_le_power [of x k] assms(1) by simp
    then show ?thesis using that by (rule order_trans)
  qed simp
  then have "{x. x ^ k \<le> n} \<subseteq> {..n}" by blast
  then show "finite {x. x ^ k \<le> n}" by (rule finite_subset) simp
  show "y \<le> r" if "y \<in> {x. x ^ k \<le> n}" for y
  proof (rule ccontr)
    assume "\<not> y \<le> r"
    then have "(r + 1) ^ k \<le> y ^ k" by (intro power_mono) simp_all
    with that assms(3) show False by simp
  qed
qed (use assms(2) in simp)

lemma root_fractions:
  assumes "list_all2 (\<lambda>p r. r ^ k \<le> p * c \<and> p * c < (r + 1) ^ k) ps rs" "0 < k" "c = 2 ^ (k * b)" "m = 2 ^ b"
  shows "map (root_fraction k b) ps = map (\<lambda>r. r mod m) rs"
  using assms(1)
proof (induction)
  case (Cons p ps r rs)
  then show ?case
    using floor_root_eq [OF assms(2), of r "p * c"] by (simp add: root_fraction_def assms(3,4))
qed simp

section \<open>The values\<close>

lemma prime_number_small:
  assumes "p < 324"
  shows "prime_number p \<longleftrightarrow> 2 \<le> p \<and> list_all (\<lambda>d. p \<le> d \<or> p mod d \<noteq> 0) [2..<18]"
proof (intro iffI)
  assume "prime_number p"
  then show "2 \<le> p \<and> list_all (\<lambda>d. p \<le> d \<or> p mod d \<noteq> 0) [2..<18]"
    unfolding prime_number_def list_all_iff set_upt by (meson atLeastLessThan_iff not_less)
next
  assume r: "2 \<le> p \<and> list_all (\<lambda>d. p \<le> d \<or> p mod d \<noteq> 0) [2..<18]"
  have False if d: "2 \<le> d" "d < p" "p mod d = 0" for d
  proof -
    from d(3) obtain e where e: "p = d * e" by auto
    from d(2) e have e2: "2 \<le> e" by (cases e; cases "e - 1") auto
    have "e < p" using d(1) e e2 by simp
    have "d < 18 \<or> e < 18"
    proof (rule ccontr)
      assume "\<not> (d < 18 \<or> e < 18)"
      then have "18 * 18 \<le> d * e" by (intro mult_le_mono) simp_all
      with e assms show False by simp
    qed
    moreover have "p mod e = 0" using e by simp
    moreover have "p \<le> c \<or> p mod c \<noteq> 0" if "2 \<le> c" "c < 18" for c
      using r that unfolding list_all_iff set_upt by (meson atLeastLessThan_iff)
    ultimately show False using d e2 \<open>e < p\<close> by (metis not_less)
  qed
  with conjunct1 [OF r] show "prime_number p"
    unfolding prime_number_def list_all_iff set_upt by (meson atLeastLessThan_iff)
qed

lemma fips_primes_eq:
  "fips_primes =
     [2, 3, 5, 7, 11, 13, 17, 19, 23, 29, 31, 37, 41, 43, 47, 53,
      59, 61, 67, 71, 73, 79, 83, 89, 97, 101, 103, 107, 109, 113, 127, 131,
      137, 139, 149, 151, 157, 163, 167, 173, 179, 181, 191, 193, 197, 199, 211, 223,
      227, 229, 233, 239, 241, 251, 257, 263, 269, 271, 277, 281, 283, 293, 307, 311]"
proof -
  have "filter prime_number [2..<312] =
      filter (\<lambda>p. 2 \<le> p \<and> list_all (\<lambda>d. p \<le> d \<or> p mod d \<noteq> 0) [2..<18]) [2..<312]"
    by (rule filter_cong [OF refl], rule prime_number_small, unfold set_upt atLeastLessThan_iff) linarith
  also have "\<dots> =
     [2, 3, 5, 7, 11, 13, 17, 19, 23, 29, 31, 37, 41, 43, 47, 53,
      59, 61, 67, 71, 73, 79, 83, 89, 97, 101, 103, 107, 109, 113, 127, 131,
      137, 139, 149, 151, 157, 163, 167, 173, 179, 181, 191, 193, 197, 199, 211, 223,
      227, 229, 233, 239, 241, 251, 257, 263, 269, 271, 277, 281, 283, 293, 307, 311]"
    by simp
  finally show ?thesis by (simp add: fips_primes_def)
qed
lemma first_8:
  "take 8 fips_primes =
     [2, 3, 5, 7, 11, 13, 17, 19]"
  by (simp add: fips_primes_eq)

lemma first_16:
  "take 16 fips_primes =
     [2, 3, 5, 7, 11, 13, 17, 19, 23, 29, 31, 37, 41, 43, 47, 53]"
  by (simp add: fips_primes_eq)

lemma cube_roots_32:
  "map (root_fraction 3 32) (fips_primes) =
    map (\<lambda>r. r mod 2 ^ 32)
    [0x1428a2f98, 0x171374491, 0x1b5c0fbcf, 0x1e9b5dba5, 0x23956c25b, 0x259f111f1, 0x2923f82a4, 0x2ab1c5ed5,
     0x2d807aa98, 0x312835b01, 0x3243185be, 0x3550c7dc3, 0x372be5d74, 0x380deb1fe, 0x39bdc06a7, 0x3c19bf174,
     0x3e49b69c1, 0x3efbe4786, 0x40fc19dc6, 0x4240ca1cc, 0x42de92c6f, 0x44a7484aa, 0x45cb0a9dc, 0x476f988da,
     0x4983e5152, 0x4a831c66d, 0x4b00327c8, 0x4bf597fc7, 0x4c6e00bf3, 0x4d5a79147, 0x506ca6351, 0x514292967,
     0x527b70a85, 0x52e1b2138, 0x54d2c6dfc, 0x553380d13, 0x5650a7354, 0x5766a0abb, 0x581c2c92e, 0x592722c85,
     0x5a2bfe8a1, 0x5a81a664b, 0x5c24b8b70, 0x5c76c51a3, 0x5d192e819, 0x5d6990624, 0x5f40e3585, 0x6106aa070,
     0x619a4c116, 0x61e376c08, 0x62748774c, 0x634b0bcb5, 0x6391c0cb3, 0x64ed8aa4a, 0x65b9cca4f, 0x6682e6ff3,
     0x6748f82ee, 0x678a5636f, 0x684c87814, 0x68cc70208, 0x690befffa, 0x6a4506ceb, 0x6bef9a3f7, 0x6c67178f2]"
  unfolding fips_primes_eq by (rule root_fractions [where c = 79228162514264337593543950336]) simp_all

lemma square_roots_32:
  "map (root_fraction 2 32) (take 8 fips_primes) =
    map (\<lambda>r. r mod 2 ^ 32)
    [0x16a09e667, 0x1bb67ae85, 0x23c6ef372, 0x2a54ff53a, 0x3510e527f, 0x39b05688c, 0x41f83d9ab, 0x45be0cd19]"
  unfolding first_8 by (rule root_fractions [where c = 18446744073709551616]) simp_all

lemma square_roots_64:
  "map (root_fraction 2 64) (take 16 fips_primes) =
    map (\<lambda>r. r mod 2 ^ 64)
    [0x16a09e667f3bcc908, 0x1bb67ae8584caa73b, 0x23c6ef372fe94f82b, 0x2a54ff53a5f1d36f1,
     0x3510e527fade682d1, 0x39b05688c2b3e6c1f, 0x41f83d9abfb41bd6b, 0x45be0cd19137e2179,
     0x4cbbb9d5dc1059ed8, 0x5629a292a367cd507, 0x59159015a3070dd17, 0x6152fecd8f70e5939,
     0x667332667ffc00b31, 0x68eb44a8768581511, 0x6db0c2e0d64f98fa7, 0x747b5481dbefa4fa4]"
  unfolding first_16 by (rule root_fractions [where c = 340282366920938463463374607431768211456]) simp_all

end
