(* ===== verification/SHA256.thy ===== *)
theory SHA256
  imports Digest FIPS_180
begin

text \<open>
  \<open>crypto/fipsmodule/sha/sha256.c\<close> (the C block function, the one built with \<open>OPENSSL_NO_ASM\<close>):
  the unrolled rounds with rotating register names and the circular sixteen-word schedule compute the
  compression function of FIPS 180, and the collector of \<open>Digest\<close> over it the hash of the padded
  message.
\<close>

section \<open>Definitions\<close>

text \<open>\<open>SHA256_CTX\<close> adds \<open>md_len\<close> to the fields of the template.\<close>

record SHA256_CTX = HASH_CTX +
  md_len :: nat

definition SHA224_DIGEST_LENGTH :: nat where
  "SHA224_DIGEST_LENGTH = 28"

definition SHA256_DIGEST_LENGTH :: nat where
  "SHA256_DIGEST_LENGTH = 32"

definition SHA224_Init :: SHA256_CTX where
  "SHA224_Init =
     \<lparr>chain = [0xc1059ed8, 0x367cd507, 0x3070dd17, 0xf70e5939, 0xffc00b31, 0x68581511, 0x64f98fa7, 0xbefa4fa4],
      Nl = 0, Nh = 0, block_data = replicate HASH_CBLOCK 0, num = 0, md_len = SHA224_DIGEST_LENGTH\<rparr>"

definition SHA256_Init :: SHA256_CTX where
  "SHA256_Init =
     \<lparr>chain = [0x6a09e667, 0xbb67ae85, 0x3c6ef372, 0xa54ff53a, 0x510e527f, 0x9b05688c, 0x1f83d9ab, 0x5be0cd19],
      Nl = 0, Nh = 0, block_data = replicate HASH_CBLOCK 0, num = 0, md_len = SHA256_DIGEST_LENGTH\<rparr>"

text \<open>\<open>HASH_MAKE_STRING\<close> of this file: \<open>None\<close> is its \<open>return 0\<close>.\<close>

definition sha256_HASH_MAKE_STRING :: "SHA256_CTX \<Rightarrow> bytes option" where
  "sha256_HASH_MAKE_STRING c =
     (let words = \<lambda>n. concat (map (\<lambda>nn. HOST_l2c Big_Endian (chain c ! nn)) [0..<n])
      in if md_len c = SHA224_DIGEST_LENGTH then Some (words (SHA224_DIGEST_LENGTH div 4))
         else if md_len c = SHA256_DIGEST_LENGTH then Some (words (SHA256_DIGEST_LENGTH div 4))
         else if md_len c > SHA256_DIGEST_LENGTH then None
         else Some (words (md_len c div 4)))"

definition K256 :: "u32 list" where
  "K256 =
     [0x428a2f98, 0x71374491, 0xb5c0fbcf, 0xe9b5dba5, 0x3956c25b]
     @ [0x59f111f1, 0x923f82a4, 0xab1c5ed5, 0xd807aa98, 0x12835b01]
     @ [0x243185be, 0x550c7dc3, 0x72be5d74, 0x80deb1fe, 0x9bdc06a7]
     @ [0xc19bf174, 0xe49b69c1, 0xefbe4786, 0x0fc19dc6, 0x240ca1cc]
     @ [0x2de92c6f, 0x4a7484aa, 0x5cb0a9dc, 0x76f988da, 0x983e5152]
     @ [0xa831c66d, 0xb00327c8, 0xbf597fc7, 0xc6e00bf3, 0xd5a79147]
     @ [0x06ca6351, 0x14292967, 0x27b70a85, 0x2e1b2138, 0x4d2c6dfc]
     @ [0x53380d13, 0x650a7354, 0x766a0abb, 0x81c2c92e, 0x92722c85]
     @ [0xa2bfe8a1, 0xa81a664b, 0xc24b8b70, 0xc76c51a3, 0xd192e819]
     @ [0xd6990624, 0xf40e3585, 0x106aa070, 0x19a4c116, 0x1e376c08]
     @ [0x2748774c, 0x34b0bcb5, 0x391c0cb3, 0x4ed8aa4a, 0x5b9cca4f]
     @ [0x682e6ff3, 0x748f82ee, 0x78a5636f, 0x84c87814, 0x8cc70208]
     @ [0x90befffa, 0xa4506ceb, 0xbef9a3f7, 0xc67178f2]"

definition sha256_Sigma0 :: "u32 \<Rightarrow> u32" where
  "sha256_Sigma0 x = ROTATE x 30 XOR ROTATE x 19 XOR ROTATE x 10"

definition sha256_Sigma1 :: "u32 \<Rightarrow> u32" where
  "sha256_Sigma1 x = ROTATE x 26 XOR ROTATE x 21 XOR ROTATE x 7"

definition sha256_sigma0 :: "u32 \<Rightarrow> u32" where
  "sha256_sigma0 x = ROTATE x 25 XOR ROTATE x 14 XOR drop_bit 3 x"

definition sha256_sigma1 :: "u32 \<Rightarrow> u32" where
  "sha256_sigma1 x = ROTATE x 15 XOR ROTATE x 13 XOR drop_bit 10 x"

definition sha256_Ch :: "u32 \<Rightarrow> u32 \<Rightarrow> u32 \<Rightarrow> u32" where
  "sha256_Ch x y z = (x AND y) XOR (NOT x AND z)"

definition sha256_Maj :: "u32 \<Rightarrow> u32 \<Rightarrow> u32 \<Rightarrow> u32" where
  "sha256_Maj x y z = (x AND y) XOR (x AND z) XOR (y AND z)"

text \<open>The macros assign to their arguments \<open>d\<close> and \<open>h\<close> (and \<open>X\<close>): the new values are the result.\<close>

definition sha256_ROUND_00_15 ::
  "u32 \<Rightarrow> nat \<Rightarrow> u32 \<Rightarrow> u32 \<Rightarrow> u32 \<Rightarrow> u32 \<Rightarrow> u32 \<Rightarrow> u32 \<Rightarrow> u32 \<Rightarrow> u32 \<Rightarrow> u32 \<times> u32" where
  "sha256_ROUND_00_15 T1 i a b c d e f g h =
     (let T1 = T1 + (h + sha256_Sigma1 e + sha256_Ch e f g + K256 ! i);
          h = sha256_Sigma0 a + sha256_Maj a b c;
          d = d + T1;
          h = h + T1
      in (d, h))"

definition sha256_ROUND_16_63 ::
  "nat \<Rightarrow> u32 \<Rightarrow> u32 \<Rightarrow> u32 \<Rightarrow> u32 \<Rightarrow> u32 \<Rightarrow> u32 \<Rightarrow> u32 \<Rightarrow> u32 \<Rightarrow> u32 list \<Rightarrow> u32 \<times> u32 \<times> u32 list" where
  "sha256_ROUND_16_63 i a b c d e f g h X =
     (let s0 = X ! ((i + 1) AND 0x0f);
          s0 = sha256_sigma0 s0;
          s1 = X ! ((i + 14) AND 0x0f);
          s1 = sha256_sigma1 s1;
          T1 = X ! (i AND 0x0f) + (s0 + s1 + X ! ((i + 9) AND 0x0f));
          X = X[i AND 0x0f := T1];
          (d, h) = sha256_ROUND_00_15 T1 i a b c d e f g h
      in (d, h, X))"

text \<open>The loop over \<open>i\<close> of \<open>sha256_block_data_order\<close>, with the registers it leaves.\<close>

type_synonym regs8 = "u32 \<times> u32 \<times> u32 \<times> u32 \<times> u32 \<times> u32 \<times> u32 \<times> u32"

function sha256_rounds_16_63 :: "nat \<Rightarrow> regs8 \<Rightarrow> u32 list \<Rightarrow> regs8" where
  "sha256_rounds_16_63 i (a, b, c, d, e, f, g, h) X =
     (if i < 64 then
        let
            (d, h, X) = sha256_ROUND_16_63 (i + 0) a b c d e f g h X;
            (c, g, X) = sha256_ROUND_16_63 (i + 1) h a b c d e f g X;
            (b, f, X) = sha256_ROUND_16_63 (i + 2) g h a b c d e f X;
            (a, e, X) = sha256_ROUND_16_63 (i + 3) f g h a b c d e X;
            (h, d, X) = sha256_ROUND_16_63 (i + 4) e f g h a b c d X;
            (g, c, X) = sha256_ROUND_16_63 (i + 5) d e f g h a b c X;
            (f, b, X) = sha256_ROUND_16_63 (i + 6) c d e f g h a b X;
            (e, a, X) = sha256_ROUND_16_63 (i + 7) b c d e f g h a X;
            r = (a, b, c, d, e, f, g, h)
        in sha256_rounds_16_63 (i + 8) r X
      else (a, b, c, d, e, f, g, h))"
  by pat_completeness auto
termination
  by (relation "measure (\<lambda>(i, r, X). 64 - i)") auto

declare sha256_rounds_16_63.simps [simp del]

text \<open>The body of \<open>while (num--)\<close>: the new state, and \<open>data\<close> past the block.\<close>

definition sha256_block :: "u32 list \<Rightarrow> bytes \<Rightarrow> u32 list \<times> bytes" where
  "sha256_block state data =
     (let X = replicate 16 0;
          a = state ! 0;
          b = state ! 1;
          c = state ! 2;
          d = state ! 3;
          e = state ! 4;
          f = state ! 5;
          g = state ! 6;
          h = state ! 7;
          (l, data) = HOST_c2l Big_Endian data; T1 = l; X = X[0 := l];
          (d, h) = sha256_ROUND_00_15 T1 0 a b c d e f g h;
          (l, data) = HOST_c2l Big_Endian data; T1 = l; X = X[1 := l];
          (c, g) = sha256_ROUND_00_15 T1 1 h a b c d e f g;
          (l, data) = HOST_c2l Big_Endian data; T1 = l; X = X[2 := l];
          (b, f) = sha256_ROUND_00_15 T1 2 g h a b c d e f;
          (l, data) = HOST_c2l Big_Endian data; T1 = l; X = X[3 := l];
          (a, e) = sha256_ROUND_00_15 T1 3 f g h a b c d e;
          (l, data) = HOST_c2l Big_Endian data; T1 = l; X = X[4 := l];
          (h, d) = sha256_ROUND_00_15 T1 4 e f g h a b c d;
          (l, data) = HOST_c2l Big_Endian data; T1 = l; X = X[5 := l];
          (g, c) = sha256_ROUND_00_15 T1 5 d e f g h a b c;
          (l, data) = HOST_c2l Big_Endian data; T1 = l; X = X[6 := l];
          (f, b) = sha256_ROUND_00_15 T1 6 c d e f g h a b;
          (l, data) = HOST_c2l Big_Endian data; T1 = l; X = X[7 := l];
          (e, a) = sha256_ROUND_00_15 T1 7 b c d e f g h a;
          (l, data) = HOST_c2l Big_Endian data; T1 = l; X = X[8 := l];
          (d, h) = sha256_ROUND_00_15 T1 8 a b c d e f g h;
          (l, data) = HOST_c2l Big_Endian data; T1 = l; X = X[9 := l];
          (c, g) = sha256_ROUND_00_15 T1 9 h a b c d e f g;
          (l, data) = HOST_c2l Big_Endian data; T1 = l; X = X[10 := l];
          (b, f) = sha256_ROUND_00_15 T1 10 g h a b c d e f;
          (l, data) = HOST_c2l Big_Endian data; T1 = l; X = X[11 := l];
          (a, e) = sha256_ROUND_00_15 T1 11 f g h a b c d e;
          (l, data) = HOST_c2l Big_Endian data; T1 = l; X = X[12 := l];
          (h, d) = sha256_ROUND_00_15 T1 12 e f g h a b c d;
          (l, data) = HOST_c2l Big_Endian data; T1 = l; X = X[13 := l];
          (g, c) = sha256_ROUND_00_15 T1 13 d e f g h a b c;
          (l, data) = HOST_c2l Big_Endian data; T1 = l; X = X[14 := l];
          (f, b) = sha256_ROUND_00_15 T1 14 c d e f g h a b;
          (l, data) = HOST_c2l Big_Endian data; T1 = l; X = X[15 := l];
          (e, a) = sha256_ROUND_00_15 T1 15 b c d e f g h a;
          (a, b, c, d, e, f, g, h) = sha256_rounds_16_63 16 (a, b, c, d, e, f, g, h) X;
          state = state[0 := state ! 0 + a];
          state = state[1 := state ! 1 + b];
          state = state[2 := state ! 2 + c];
          state = state[3 := state ! 3 + d];
          state = state[4 := state ! 4 + e];
          state = state[5 := state ! 5 + f];
          state = state[6 := state ! 6 + g];
          state = state[7 := state ! 7 + h]
      in (state, data))"

fun sha256_block_data_order :: "u32 list \<Rightarrow> bytes \<Rightarrow> nat \<Rightarrow> u32 list" where
  "sha256_block_data_order state data 0 = state"
| "sha256_block_data_order state data (Suc n) =
     (case sha256_block state data of (state, data) \<Rightarrow> sha256_block_data_order state data n)"

definition SHA256_TransformBlocks :: "u32 list \<Rightarrow> bytes \<Rightarrow> nat \<Rightarrow> u32 list" where
  "SHA256_TransformBlocks state data num_blocks = sha256_block_data_order state data num_blocks"

text \<open>The instances of the template, and the one-shot functions.\<close>

definition SHA256_Update :: "SHA256_CTX \<Rightarrow> bytes \<Rightarrow> SHA256_CTX" where
  "SHA256_Update ctx data = HASH_UPDATE sha256_block_data_order ctx data"

definition SHA256_Transform :: "SHA256_CTX \<Rightarrow> bytes \<Rightarrow> SHA256_CTX" where
  "SHA256_Transform c data = HASH_TRANSFORM sha256_block_data_order c data"

definition SHA256_Final :: "SHA256_CTX \<Rightarrow> (bytes, SHA256_CTX) outcome option" where
  "SHA256_Final c = HASH_FINAL Big_Endian sha256_block_data_order sha256_HASH_MAKE_STRING c"

definition SHA224_Update :: "SHA256_CTX \<Rightarrow> bytes \<Rightarrow> SHA256_CTX" where
  "SHA224_Update ctx data = SHA256_Update ctx data"

definition SHA224_Final :: "SHA256_CTX \<Rightarrow> (bytes, SHA256_CTX) outcome option" where
  "SHA224_Final ctx = SHA256_Final ctx"

definition SHA224 :: "bytes \<Rightarrow> bytes option" where
  "SHA224 data =
     (let ctx = SHA224_Init;
          ctx = SHA224_Update ctx data
      in case SHA224_Final ctx of Some (Some out, ctx) \<Rightarrow> Some out | _ \<Rightarrow> None)"

definition SHA256 :: "bytes \<Rightarrow> bytes option" where
  "SHA256 data =
     (let ctx = SHA256_Init;
          ctx = SHA256_Update ctx data
      in case SHA256_Final ctx of Some (Some out, ctx) \<Rightarrow> Some out | _ \<Rightarrow> None)"


section \<open>The compression function of FIPS 180\<close>

text \<open>Section 4.1.2: the functions. They rotate to the right where the macros of the code rotate to the left.\<close>

definition fips_Ch :: "u32 \<Rightarrow> u32 \<Rightarrow> u32 \<Rightarrow> u32" where
  "fips_Ch x y z = (x AND y) XOR (NOT x AND z)"

definition fips_Maj :: "u32 \<Rightarrow> u32 \<Rightarrow> u32 \<Rightarrow> u32" where
  "fips_Maj x y z = (x AND y) XOR (x AND z) XOR (y AND z)"

definition fips_Sigma0 :: "u32 \<Rightarrow> u32" where
  "fips_Sigma0 x = word_rotr 2 x XOR word_rotr 13 x XOR word_rotr 22 x"

definition fips_Sigma1 :: "u32 \<Rightarrow> u32" where
  "fips_Sigma1 x = word_rotr 6 x XOR word_rotr 11 x XOR word_rotr 25 x"

definition fips_sigma0 :: "u32 \<Rightarrow> u32" where
  "fips_sigma0 x = word_rotr 7 x XOR word_rotr 18 x XOR drop_bit 3 x"

definition fips_sigma1 :: "u32 \<Rightarrow> u32" where
  "fips_sigma1 x = word_rotr 17 x XOR word_rotr 19 x XOR drop_bit 10 x"

text \<open>
  Section 4.2.2: the first 32 bits of the fractional parts of the cube roots of the first sixty-four
  primes. Section 5.3.3: those of the square roots of the first eight. Section 5.3.2, for SHA-224: the second
  32 bits of the fractional parts of the square roots of the ninth to the sixteenth prime.
\<close>

definition fips_K256 :: "u32 list" where
  "fips_K256 = map (\<lambda>p. of_nat (root_fraction 3 32 p)) fips_primes"

definition fips_H256 :: "u32 list" where
  "fips_H256 = map (\<lambda>p. of_nat (root_fraction 2 32 p)) (take 8 fips_primes)"

definition fips_H224 :: "u32 list" where
  "fips_H224 = map (\<lambda>p. of_nat (root_fraction 2 64 p)) (drop 8 (take 16 fips_primes))"

text \<open>Section 6.2.2: the message schedule, one step, and the steps of a block.\<close>

fun sha256_W :: "bytes \<Rightarrow> nat \<Rightarrow> u32" where
  "sha256_W M t =
     (if t < 16 then msg_word Big_Endian M t
      else fips_sigma1 (sha256_W M (t - 2)) + sha256_W M (t - 7) +
           fips_sigma0 (sha256_W M (t - 15)) + sha256_W M (t - 16))"

declare sha256_W.simps [simp del]

definition sha256_round :: "u32 \<Rightarrow> u32 \<Rightarrow> regs8 \<Rightarrow> regs8" where
  "sha256_round K W = (\<lambda>(a, b, c, d, e, f, g, h).
     let T1 = h + fips_Sigma1 e + fips_Ch e f g + K + W;
         T2 = fips_Sigma0 a + fips_Maj a b c
     in (T1 + T2, a, b, c, d + T1, e, f, g))"

fun sha256_rounds :: "(nat \<Rightarrow> u32) \<Rightarrow> nat \<Rightarrow> nat \<Rightarrow> regs8 \<Rightarrow> regs8" where
  "sha256_rounds W t 0 r = r"
| "sha256_rounds W t (Suc n) r = sha256_rounds W (t + 1) n (sha256_round (fips_K256 ! t) (W t) r)"

definition regs_of :: "u32 list \<Rightarrow> regs8" where
  "regs_of H = (H ! 0, H ! 1, H ! 2, H ! 3, H ! 4, H ! 5, H ! 6, H ! 7)"

definition add_regs :: "u32 list \<Rightarrow> regs8 \<Rightarrow> u32 list" where
  "add_regs H = (\<lambda>(a, b, c, d, e, f, g, h). map2 (+) H [a, b, c, d, e, f, g, h])"

definition sha256_compress :: "u32 list \<Rightarrow> bytes \<Rightarrow> u32 list" where
  "sha256_compress H M = add_regs H (sha256_rounds (sha256_W M) 0 64 (regs_of H))"

section \<open>The code computes it\<close>

lemma fips_functions:
  "fips_Ch = sha256_Ch" "fips_Maj = sha256_Maj" "fips_Sigma0 = sha256_Sigma0" "fips_Sigma1 = sha256_Sigma1"
  "fips_sigma0 = sha256_sigma0" "fips_sigma1 = sha256_sigma1"
  by (simp_all add: fun_eq_iff fips_Ch_def fips_Maj_def fips_Sigma0_def fips_Sigma1_def fips_sigma0_def fips_sigma1_def
      sha256_Ch_def sha256_Maj_def sha256_Sigma0_def sha256_Sigma1_def sha256_sigma0_def sha256_sigma1_def ROTATE_rotr)

lemma fips_words: "map f ps = rs \<Longrightarrow> map (\<lambda>p. of_nat (f p)) ps = (map of_nat rs :: u32 list)"
  by auto

text \<open>The table of the code, and the initial values of its two hashes, are those of the standard.\<close>

lemma fips_K256_eq: "fips_K256 = K256"
  unfolding fips_K256_def fips_words [OF cube_roots_32] K256_def by simp

lemma fips_H256_eq: "fips_H256 = chain SHA256_Init"
  unfolding fips_H256_def fips_words [OF square_roots_32] by (simp add: SHA256_Init_def)

lemma fips_H224_eq: "fips_H224 = chain SHA224_Init"
  unfolding fips_H224_def drop_map [symmetric] fips_words [OF square_roots_64] by (simp add: SHA224_Init_def)

lemma round_eq:
  "sha256_round (fips_K256 ! t) w (a, b, c, d, e, f, g, h) =
     (case sha256_ROUND_00_15 w t a b c d e f g h of (d, h) \<Rightarrow> (h, a, b, c, d, e, f, g))"
  by (simp add: sha256_round_def sha256_ROUND_00_15_def Let_def algebra_simps fips_functions fips_K256_eq)

lemma rounds_unroll:
  "sha256_rounds W t n (a, b, c, d, e, f, g, h) =
     (if n = 0 then (a, b, c, d, e, f, g, h)
      else case sha256_ROUND_00_15 (W t) t a b c d e f g h of
        (d, h) \<Rightarrow> sha256_rounds W (t + 1) (n - 1) (h, a, b, c, d, e, f, g))"
  by (cases n) (auto simp: round_eq split: prod.split)

lemma rounds_add: "sha256_rounds W t (m + n) r = sha256_rounds W (t + m) n (sha256_rounds W t m r)"
  by (induction m arbitrary: t r) simp_all

text \<open>\<open>window W X t\<close>: the circular buffer holds the sixteen words before \<open>t\<close>.\<close>

definition window :: "(nat \<Rightarrow> u32) \<Rightarrow> u32 list \<Rightarrow> nat \<Rightarrow> bool" where
  "window W X t \<longleftrightarrow> length X = 16 \<and> 16 \<le> t \<and> (\<forall>k < 16. X ! ((t + k) mod 16) = W (t + k - 16))"

lemma and_15: "n AND 15 = n mod (16 :: nat)"
  using take_bit_eq_mask [of 4 n] by (simp add: mask_eq_exp_minus_1 take_bit_eq_mod)

lemma window_nth: "window W X t \<Longrightarrow> k < 16 \<Longrightarrow> X ! ((t + k) mod 16) = W (t + k - 16)"
  by (simp add: window_def)

lemma window_step:
  assumes "window W X t"
  shows "window W (X[t mod 16 := W t]) (t + 1)"
  unfolding window_def
proof (intro conjI allI impI)
  fix k :: nat
  assume k: "k < 16"
  show "X[t mod 16 := W t] ! ((t + 1 + k) mod 16) = W (t + 1 + k - 16)"
  proof (cases "k = 15")
    case True
    have "(t + 1 + k) mod 16 = t mod 16" "t + 1 + k - 16 = t" unfolding True by simp_all
    with assms show ?thesis by (simp only: window_def) simp
  next
    case False
    have "(t + 1 + k) mod 16 \<noteq> t mod 16"
    proof
      assume "(t + 1 + k) mod 16 = t mod 16"
      then have "16 dvd k + 1" using mod_eq_dvd_iff_nat [of t "t + 1 + k" 16] by simp
      with k False show False by (auto dest: dvd_imp_le)
    qed
    with window_nth [OF assms, of "k + 1"] k False show ?thesis by simp
  qed
qed (use assms in \<open>simp_all add: window_def\<close>)

lemma ROUND_16_63_eq:
  assumes w: "window (sha256_W M) X t"
  shows "sha256_ROUND_16_63 t a b c d e f g h X =
    (case sha256_ROUND_00_15 (sha256_W M t) t a b c d e f g h of
       (d, h) \<Rightarrow> (d, h, X[t mod 16 := sha256_W M t]))"
proof -
  have t: "16 \<le> t" using w by (simp add: window_def)
  have x: "X ! (t mod 16) = sha256_W M (t - 16)" "X ! ((t + 1) mod 16) = sha256_W M (t - 15)"
    "X ! ((t + 9) mod 16) = sha256_W M (t - 7)" "X ! ((t + 14) mod 16) = sha256_W M (t - 2)"
    using window_nth [OF w, of 0] window_nth [OF w, of 1] window_nth [OF w, of 9] window_nth [OF w, of 14] t
    by simp_all
  have "sha256_W M t = sha256_W M (t - 16) + (sha256_sigma0 (sha256_W M (t - 15)) +
      sha256_sigma1 (sha256_W M (t - 2)) + sha256_W M (t - 7))"
    using t by (subst sha256_W.simps) (simp add: algebra_simps fips_functions)
  then show ?thesis
    unfolding sha256_ROUND_16_63_def and_15 x Let_def by simp
qed

lemma case_ROUND_16_63:
  "window (sha256_W M) X t \<Longrightarrow>
   (case sha256_ROUND_16_63 t a b c d e f g h X of (d, h, X) \<Rightarrow> F d h X) =
   (case sha256_ROUND_00_15 (sha256_W M t) t a b c d e f g h of
      (d, h) \<Rightarrow> F d h (X[t mod 16 := sha256_W M t]))"
  by (simp add: ROUND_16_63_eq split: prod.split)

lemma rounds_next:
  "0 < n \<Longrightarrow> sha256_rounds_16_63 s (sha256_rounds W t n (a, b, c, d, e, f, g, h)) X =
     (case sha256_ROUND_00_15 (W t) t a b c d e f g h of
        (d, h) \<Rightarrow> sha256_rounds_16_63 s (sha256_rounds W (t + 1) (n - 1) (h, a, b, c, d, e, f, g)) X)"
  by (subst rounds_unroll) (simp split: prod.split)

lemma eight_rounds:
  assumes "window (sha256_W M) X t" "t < 64"
  shows "\<exists>X'. window (sha256_W M) X' (t + 8) \<and>
    sha256_rounds_16_63 t r X = sha256_rounds_16_63 (t + 8) (sha256_rounds (sha256_W M) t 8 r) X'"
proof -
  obtain a b c d e f g h where r: "r = (a, b, c, d, e, f, g, h)" by (metis surj_pair)
  have step: "window W X t \<Longrightarrow> t' = t + 1 \<Longrightarrow> window W (X[t mod 16 := W t]) t'" for W X t t'
    by (simp only: window_step)
  have t: "t + 2 = t + 1 + 1" "t + 3 = t + 2 + 1" "t + 4 = t + 3 + 1" "t + 5 = t + 4 + 1"
    "t + 6 = t + 5 + 1" "t + 7 = t + 6 + 1" "t + 8 = t + 7 + 1" by simp_all
  note w1 = step [OF assms(1) refl]
  note w2 = step [OF w1 t(1)]
  note w3 = step [OF w2 t(2)]
  note w4 = step [OF w3 t(3)]
  note w5 = step [OF w4 t(4)]
  note w6 = step [OF w5 t(5)]
  note w7 = step [OF w6 t(6)]
  note w8 = step [OF w7 t(7)]
  note w = assms(1) w1 w2 w3 w4 w5 w6 w7
  show ?thesis
    unfolding r
    by (rule exI, rule conjI, rule w8, subst sha256_rounds_16_63.simps)
      (simp add: Let_def assms(2) case_ROUND_16_63 [of M] w rounds_next add.assoc
        del: One_nat_def add_2_eq_Suc add_2_eq_Suc' sha256_rounds.simps(2))
qed

lemma rounds_16_63_eq:
  "n \<le> 6 \<Longrightarrow> window (sha256_W M) X (64 - 8 * n) \<Longrightarrow>
   sha256_rounds_16_63 (64 - 8 * n) r X = sha256_rounds (sha256_W M) (64 - 8 * n) (8 * n) r"
proof (induction n arbitrary: r X)
  case 0
  obtain a b c d e f g h where "r = (a, b, c, d, e, f, g, h)" by (metis surj_pair)
  then show ?case by (simp add: sha256_rounds_16_63.simps)
next
  case (Suc n)
  let ?t = "64 - 8 * Suc n"
  have t: "?t < 64" "?t + 8 = 64 - 8 * n" using Suc.prems(1) by simp_all
  from eight_rounds [OF Suc.prems(2) t(1), of r] obtain X' where
    "window (sha256_W M) X' (64 - 8 * n)"
    "sha256_rounds_16_63 ?t r X = sha256_rounds_16_63 (64 - 8 * n) (sha256_rounds (sha256_W M) ?t 8 r) X'"
    unfolding t(2) by blast
  moreover have "sha256_rounds (sha256_W M) ?t (8 + 8 * n) r =
      sha256_rounds (sha256_W M) (64 - 8 * n) (8 * n) (sha256_rounds (sha256_W M) ?t 8 r)"
    unfolding rounds_add t(2) ..
  ultimately show ?case using Suc.IH [of X'] Suc.prems(1) by simp
qed

lemma sha256_W_first: "t < 16 \<Longrightarrow> sha256_W M t = msg_word Big_Endian M t"
  by (simp add: sha256_W.simps)

text \<open>The pairs and buffers of the first sixteen rounds are unfolded, the registers are not.\<close>

lemma window_16:
  "window W [W 0, W 1, W 2, W 3, W 4, W 5, W 6, W 7, W 8, W 9, W 10, W 11, W 12, W 13, W 14, W 15] 16"
proof -
  have "window W (map W [0..<16]) 16" by (simp add: window_def)
  moreover have "[0..<16] = [0, 1, 2, 3, 4, 5, 6, 7, 8, 9, 10, 11, 12, 13, 14, 15]"
    by (simp add: upt_rec numeral_eq_Suc)
  ultimately show ?thesis by (simp del: One_nat_def)
qed

lemma rounds_16_63_from_16:
  "sha256_rounds_16_63 16 r
     [sha256_W M 0, sha256_W M 1, sha256_W M 2, sha256_W M 3, sha256_W M 4, sha256_W M 5, sha256_W M 6, sha256_W M 7,
      sha256_W M 8, sha256_W M 9, sha256_W M 10, sha256_W M 11, sha256_W M 12, sha256_W M 13, sha256_W M 14, sha256_W M 15] =
   sha256_rounds (sha256_W M) 16 48 r"
  using rounds_16_63_eq [of 6, simplified, OF window_16 [of "sha256_W M", simplified], of r] by simp

lemma rounds_first:
  "t < 16 \<Longrightarrow> 0 < n \<Longrightarrow>
   (add_regs H (sha256_rounds W t n (a, b, c, d, e, f, g, h)), D) =
     (case sha256_ROUND_00_15 (W t) t a b c d e f g h of
        (d, h) \<Rightarrow> (add_regs H (sha256_rounds W (t + 1) (n - 1) (h, a, b, c, d, e, f, g)), D))"
  by (subst rounds_unroll) (simp split: prod.split)

lemma case_add_regs:
  "(case r of (a, b, c, d, e, f, g, h) \<Rightarrow>
      ([h0 + a, h1 + b, h2 + c, h3 + d, h4 + e, h5 + f, h6 + g, h7 + h], D)) =
   (add_regs [h0, h1, h2, h3, h4, h5, h6, h7] r, D)"
  by (simp add: add_regs_def split: prod.split)

lemma buffer_16:
  "(replicate 16 0)[0 := x0, 1 := x1, 2 := x2, 3 := x3, 4 := x4, 5 := x5, 6 := x6, 7 := x7, 8 := x8, 9 := x9,
     10 := x10, 11 := x11, 12 := x12, 13 := x13, 14 := x14, 15 := x15] =
   [x0, x1, x2, x3, x4, x5, x6, x7, x8, x9, x10, x11, x12, x13, x14, x15]"
  by (simp add: numeral_eq_Suc)

theorem sha256_block_eq:
  assumes "length H = 8"
  shows "sha256_block H M = (sha256_compress H M, drop 64 M)"
proof -
  obtain h0 h1 h2 h3 h4 h5 h6 h7 where H: "H = [h0, h1, h2, h3, h4, h5, h6, h7]"
    using assms by (auto simp: numeral_eq_Suc length_Suc_conv)
  show ?thesis
    unfolding sha256_block_def sha256_compress_def H regs_of_def
    by (simp add: Let_def HOST_c2l_0 [of _ M] HOST_c2l_drop sha256_W_first [symmetric] rounds_first case_add_regs
        rounds_16_63_from_16 buffer_16 case_1 del: One_nat_def)
qed

lemma sha256_W_take: "64 \<le> length x \<Longrightarrow> sha256_W (take 64 x) t = sha256_W x t"
proof (induction t rule: less_induct)
  case (less t)
  then show ?case
    by (cases "t < 16") (simp_all add: sha256_W.simps [of _ t] msg_word_take)
qed

lemma sha256_compress_take: "64 \<le> length x \<Longrightarrow> sha256_compress H (take 64 x) = sha256_compress H x"
proof -
  assume "64 \<le> length x"
  then have "sha256_W (take 64 x) = sha256_W x" by (intro ext sha256_W_take)
  then show ?thesis by (simp only: sha256_compress_def)
qed

lemma length_sha256_compress: "length H = 8 \<Longrightarrow> length (sha256_compress H x) = 8"
  by (simp add: sha256_compress_def add_regs_def split: prod.split)

theorem sha256_block_data_order_eq:
  "length H = 8 \<Longrightarrow> 64 * n \<le> length x \<Longrightarrow>
   sha256_block_data_order H x n = iterate_blocks 64 sha256_compress H x n"
proof (induction n arbitrary: H x)
  case (Suc n)
  then show ?case
    by (simp add: sha256_block_eq sha256_compress_take length_sha256_compress)
qed simp

interpretation sha256: md32 sha256_block_data_order sha256_compress 8
  by unfold_locales (simp_all add: length_sha256_compress sha256_block_data_order_eq)

section \<open>Digests\<close>

text \<open>The hash functions of FIPS 180-4: the chaining values, and the digests made of them.\<close>

definition sha256_digest :: "bytes \<Rightarrow> bytes" where
  "sha256_digest msg = word_bytes Big_Endian (md_hash Big_Endian sha256_compress fips_H256 msg)"

definition sha224_digest :: "bytes \<Rightarrow> bytes" where
  "sha224_digest msg = word_bytes Big_Endian (take 7 (md_hash Big_Endian sha256_compress fips_H224 msg))"

lemma make_string_eq:
  "length (chain c) = 8 \<Longrightarrow> md_len c \<le> 32 \<Longrightarrow>
   sha256_HASH_MAKE_STRING c = Some (word_bytes Big_Endian (take (md_len c div 4) (chain c)))"
  by (simp add: sha256_HASH_MAKE_STRING_def Let_def SHA224_DIGEST_LENGTH_def SHA256_DIGEST_LENGTH_def word_bytes_nth)

lemma length_md_hash: "length st = 8 \<Longrightarrow> length (md_hash ord sha256_compress st msg) = 8"
  by (simp add: md_hash_def iterate_all_def sha256.iterate_length)

text \<open>An \<open>md_len\<close> that no \<open>Init\<close> function sets: too long is the one failure, shorter truncates the digest.\<close>

theorem sha256_pieces:
  assumes "length st = 8" "md_repr sha256_compress st c []"
  shows "\<exists>c'. SHA256_Final (foldl SHA256_Update c ds) =
      Some (if md_len c \<le> 32
            then Some (word_bytes Big_Endian
              (take (md_len c div 4) (md_hash Big_Endian sha256_compress st (concat ds))))
            else None, c')"
proof -
  obtain c' where c': "SHA256_Final (foldl SHA256_Update c ds) = Some (sha256_HASH_MAKE_STRING c', c')"
    "chain c' = md_hash Big_Endian sha256_compress st (concat ds)" "HASH_CTX.more c' = HASH_CTX.more c"
    using sha256.hash_pieces [OF assms, of Big_Endian sha256_HASH_MAKE_STRING ds]
    unfolding SHA256_Final_def SHA256_Update_def [abs_def] by blast
  from c'(3) have m: "md_len c' = md_len c" by (cases c; cases c') simp
  show ?thesis
  proof (cases "md_len c \<le> 32")
    case True
    with make_string_eq [of c'] show ?thesis by (simp add: c' m length_md_hash assms(1))
  next
    case False
    then have "sha256_HASH_MAKE_STRING c' = None"
      by (simp add: sha256_HASH_MAKE_STRING_def SHA224_DIGEST_LENGTH_def SHA256_DIGEST_LENGTH_def m)
    with False show ?thesis by (simp add: c'(1))
  qed
qed

theorem SHA256_eq: "SHA256 data = Some (sha256_digest data)"
  using sha256_pieces [of "chain SHA256_Init" SHA256_Init "[data]"] length_md_hash [of "chain SHA256_Init"]
  by (auto simp: SHA256_def sha256_digest_def fips_H256_eq md_repr_fresh SHA256_Init_def SHA256_DIGEST_LENGTH_def)

theorem SHA224_eq: "SHA224 data = Some (sha224_digest data)"
  using sha256_pieces [of "chain SHA224_Init" SHA224_Init "[data]"]
  by (auto simp: SHA224_def SHA224_Final_def SHA224_Update_def sha224_digest_def fips_H224_eq md_repr_fresh SHA224_Init_def
      SHA224_DIGEST_LENGTH_def)

end
