(* ===== verification/SHA512.thy ===== *)
theory SHA512
  imports Digest Mem
begin

text \<open>
  \<open>crypto/fipsmodule/sha/sha512.c\<close> (the C block function for other than i386, the one built with
  \<open>OPENSSL_NO_ASM\<close>): SHA-384 and SHA-512, with a collector of their own for blocks of 128 bytes and a
  length of 128 bits. The block function is the compression function of FIPS 180, and the collector
  computes the hash of the padded message however it is cut.
\<close>

section \<open>Definitions\<close>

text \<open>\<open>SHA512_CTX\<close>. \<open>SHA384_Init\<close> and \<open>SHA512_Init\<close> leave the buffer \<open>p\<close> as it was.\<close>

record SHA512_CTX =
  sha_h :: "u64 list"
  sha_Nl :: u64
  sha_Nh :: u64
  sha_p :: bytes
  sha_num :: nat
  sha_md_len :: nat

definition SHA384_DIGEST_LENGTH :: nat where
  "SHA384_DIGEST_LENGTH = 48"

definition SHA512_DIGEST_LENGTH :: nat where
  "SHA512_DIGEST_LENGTH = 64"

definition SHA384_Init :: "SHA512_CTX \<Rightarrow> SHA512_CTX" where
  "SHA384_Init sha = sha\<lparr>
     sha_h :=
       [0xcbbb9d5dc1059ed8, 0x629a292a367cd507, 0x9159015a3070dd17, 0x152fecd8f70e5939,
        0x67332667ffc00b31, 0x8eb44a8768581511, 0xdb0c2e0d64f98fa7, 0x47b5481dbefa4fa4],
     sha_Nl := 0, sha_Nh := 0, sha_num := 0, sha_md_len := SHA384_DIGEST_LENGTH\<rparr>"

definition SHA512_Init :: "SHA512_CTX \<Rightarrow> SHA512_CTX" where
  "SHA512_Init sha = sha\<lparr>
     sha_h :=
       [0x6a09e667f3bcc908, 0xbb67ae8584caa73b, 0x3c6ef372fe94f82b, 0xa54ff53a5f1d36f1,
        0x510e527fade682d1, 0x9b05688c2b3e6c1f, 0x1f83d9abfb41bd6b, 0x5be0cd19137e2179],
     sha_Nl := 0, sha_Nh := 0, sha_num := 0, sha_md_len := SHA512_DIGEST_LENGTH\<rparr>"

definition K512 :: "u64 list" where
  "K512 =
     [0x428a2f98d728ae22, 0x7137449123ef65cd, 0xb5c0fbcfec4d3b2f, 0xe9b5dba58189dbbc]
     @ [0x3956c25bf348b538, 0x59f111f1b605d019, 0x923f82a4af194f9b, 0xab1c5ed5da6d8118]
     @ [0xd807aa98a3030242, 0x12835b0145706fbe, 0x243185be4ee4b28c, 0x550c7dc3d5ffb4e2]
     @ [0x72be5d74f27b896f, 0x80deb1fe3b1696b1, 0x9bdc06a725c71235, 0xc19bf174cf692694]
     @ [0xe49b69c19ef14ad2, 0xefbe4786384f25e3, 0x0fc19dc68b8cd5b5, 0x240ca1cc77ac9c65]
     @ [0x2de92c6f592b0275, 0x4a7484aa6ea6e483, 0x5cb0a9dcbd41fbd4, 0x76f988da831153b5]
     @ [0x983e5152ee66dfab, 0xa831c66d2db43210, 0xb00327c898fb213f, 0xbf597fc7beef0ee4]
     @ [0xc6e00bf33da88fc2, 0xd5a79147930aa725, 0x06ca6351e003826f, 0x142929670a0e6e70]
     @ [0x27b70a8546d22ffc, 0x2e1b21385c26c926, 0x4d2c6dfc5ac42aed, 0x53380d139d95b3df]
     @ [0x650a73548baf63de, 0x766a0abb3c77b2a8, 0x81c2c92e47edaee6, 0x92722c851482353b]
     @ [0xa2bfe8a14cf10364, 0xa81a664bbc423001, 0xc24b8b70d0f89791, 0xc76c51a30654be30]
     @ [0xd192e819d6ef5218, 0xd69906245565a910, 0xf40e35855771202a, 0x106aa07032bbd1b8]
     @ [0x19a4c116b8d2d0c8, 0x1e376c085141ab53, 0x2748774cdf8eeb99, 0x34b0bcb5e19b48a8]
     @ [0x391c0cb3c5c95a63, 0x4ed8aa4ae3418acb, 0x5b9cca4f7763e373, 0x682e6ff3d6b2b8a3]
     @ [0x748f82ee5defb2fc, 0x78a5636f43172f60, 0x84c87814a1f0ab72, 0x8cc702081a6439ec]
     @ [0x90befffa23631e28, 0xa4506cebde82bde9, 0xbef9a3f7b2c67915, 0xc67178f2e372532b]
     @ [0xca273eceea26619c, 0xd186b8c721c0c207, 0xeada7dd6cde0eb1e, 0xf57d4f7fee6ed178]
     @ [0x06f067aa72176fba, 0x0a637dc5a2c898a6, 0x113f9804bef90dae, 0x1b710b35131c471b]
     @ [0x28db77f523047d84, 0x32caab7b40c72493, 0x3c9ebe0a15c9bebc, 0x431d67c49c100d4c]
     @ [0x4cc5d4becb3e42b6, 0x597f299cfc657e2a, 0x5fcb6fab3ad6faec, 0x6c44198c4a475817]"

definition sha512_ROTR :: "u64 \<Rightarrow> nat \<Rightarrow> u64" where
  "sha512_ROTR x s = drop_bit s x OR push_bit (64 - s) x"

text \<open>The eight bytes as a little-endian word, swapped.\<close>

definition load_u64_be :: "bytes \<Rightarrow> u64" where
  "load_u64_be ptr = (let ret = of_nat (le_val (take 8 ptr)) in CRYPTO_bswap8 ret)"

definition sha512_Sigma0 :: "u64 \<Rightarrow> u64" where
  "sha512_Sigma0 x = sha512_ROTR x 28 XOR sha512_ROTR x 34 XOR sha512_ROTR x 39"

definition sha512_Sigma1 :: "u64 \<Rightarrow> u64" where
  "sha512_Sigma1 x = sha512_ROTR x 14 XOR sha512_ROTR x 18 XOR sha512_ROTR x 41"

definition sha512_sigma0 :: "u64 \<Rightarrow> u64" where
  "sha512_sigma0 x = sha512_ROTR x 1 XOR sha512_ROTR x 8 XOR drop_bit 7 x"

definition sha512_sigma1 :: "u64 \<Rightarrow> u64" where
  "sha512_sigma1 x = sha512_ROTR x 19 XOR sha512_ROTR x 61 XOR drop_bit 6 x"

definition sha512_Ch :: "u64 \<Rightarrow> u64 \<Rightarrow> u64 \<Rightarrow> u64" where
  "sha512_Ch x y z = (x AND y) XOR (NOT x AND z)"

definition sha512_Maj :: "u64 \<Rightarrow> u64 \<Rightarrow> u64 \<Rightarrow> u64" where
  "sha512_Maj x y z = (x AND y) XOR (x AND z) XOR (y AND z)"

text \<open>The macros assign to their arguments \<open>d\<close> and \<open>h\<close> (and \<open>X\<close>): the new values are the result.\<close>

definition sha512_ROUND_00_15 ::
  "u64 \<Rightarrow> nat \<Rightarrow> u64 \<Rightarrow> u64 \<Rightarrow> u64 \<Rightarrow> u64 \<Rightarrow> u64 \<Rightarrow> u64 \<Rightarrow> u64 \<Rightarrow> u64 \<Rightarrow> u64 \<times> u64" where
  "sha512_ROUND_00_15 T1 i a b c d e f g h =
     (let T1 = T1 + (h + sha512_Sigma1 e + sha512_Ch e f g + K512 ! i);
          h = sha512_Sigma0 a + sha512_Maj a b c;
          d = d + T1;
          h = h + T1
      in (d, h))"

definition sha512_ROUND_16_80 ::
  "nat \<Rightarrow> nat \<Rightarrow> u64 \<Rightarrow> u64 \<Rightarrow> u64 \<Rightarrow> u64 \<Rightarrow> u64 \<Rightarrow> u64 \<Rightarrow> u64 \<Rightarrow> u64 \<Rightarrow> u64 list \<Rightarrow> u64 \<times> u64 \<times> u64 list" where
  "sha512_ROUND_16_80 i j a b c d e f g h X =
     (let s0 = X ! ((j + 1) AND 0x0f);
          s0 = sha512_sigma0 s0;
          s1 = X ! ((j + 14) AND 0x0f);
          s1 = sha512_sigma1 s1;
          T1 = X ! (j AND 0x0f) + (s0 + s1 + X ! ((j + 9) AND 0x0f));
          X = X[j AND 0x0f := T1];
          (d, h) = sha512_ROUND_00_15 T1 (i + j) a b c d e f g h
      in (d, h, X))"

text \<open>The loop over \<open>i\<close> of \<open>sha512_block_data_order\<close>, with the registers it leaves.\<close>

type_synonym regs8_64 = "u64 \<times> u64 \<times> u64 \<times> u64 \<times> u64 \<times> u64 \<times> u64 \<times> u64"

function sha512_rounds_16_80 :: "nat \<Rightarrow> regs8_64 \<Rightarrow> u64 list \<Rightarrow> regs8_64" where
  "sha512_rounds_16_80 i (a, b, c, d, e, f, g, h) X =
     (if i < 80 then
        let
            (d, h, X) = sha512_ROUND_16_80 i 0 a b c d e f g h X;
            (c, g, X) = sha512_ROUND_16_80 i 1 h a b c d e f g X;
            (b, f, X) = sha512_ROUND_16_80 i 2 g h a b c d e f X;
            (a, e, X) = sha512_ROUND_16_80 i 3 f g h a b c d e X;
            (h, d, X) = sha512_ROUND_16_80 i 4 e f g h a b c d X;
            (g, c, X) = sha512_ROUND_16_80 i 5 d e f g h a b c X;
            (f, b, X) = sha512_ROUND_16_80 i 6 c d e f g h a b X;
            (e, a, X) = sha512_ROUND_16_80 i 7 b c d e f g h a X;
            (d, h, X) = sha512_ROUND_16_80 i 8 a b c d e f g h X;
            (c, g, X) = sha512_ROUND_16_80 i 9 h a b c d e f g X;
            (b, f, X) = sha512_ROUND_16_80 i 10 g h a b c d e f X;
            (a, e, X) = sha512_ROUND_16_80 i 11 f g h a b c d e X;
            (h, d, X) = sha512_ROUND_16_80 i 12 e f g h a b c d X;
            (g, c, X) = sha512_ROUND_16_80 i 13 d e f g h a b c X;
            (f, b, X) = sha512_ROUND_16_80 i 14 c d e f g h a b X;
            (e, a, X) = sha512_ROUND_16_80 i 15 b c d e f g h a X;
            r = (a, b, c, d, e, f, g, h)
        in sha512_rounds_16_80 (i + 16) r X
      else (a, b, c, d, e, f, g, h))"
  by pat_completeness auto
termination
  by (relation "measure (\<lambda>(i, r, X). 80 - i)") auto

declare sha512_rounds_16_80.simps [simp del]

text \<open>The body of \<open>while (num--)\<close>: the new state, and \<open>in\<close> past the block.\<close>

definition sha512_block :: "u64 list \<Rightarrow> bytes \<Rightarrow> u64 list \<times> bytes" where
  "sha512_block state data =
     (let X = replicate 16 0;
          a = state ! 0;
          b = state ! 1;
          c = state ! 2;
          d = state ! 3;
          e = state ! 4;
          f = state ! 5;
          g = state ! 6;
          h = state ! 7;
          T1 = load_u64_be data; X = X[0 := T1];
          (d, h) = sha512_ROUND_00_15 T1 0 a b c d e f g h;
          T1 = load_u64_be (drop 8 data); X = X[1 := T1];
          (c, g) = sha512_ROUND_00_15 T1 1 h a b c d e f g;
          T1 = load_u64_be (drop (2 * 8) data); X = X[2 := T1];
          (b, f) = sha512_ROUND_00_15 T1 2 g h a b c d e f;
          T1 = load_u64_be (drop (3 * 8) data); X = X[3 := T1];
          (a, e) = sha512_ROUND_00_15 T1 3 f g h a b c d e;
          T1 = load_u64_be (drop (4 * 8) data); X = X[4 := T1];
          (h, d) = sha512_ROUND_00_15 T1 4 e f g h a b c d;
          T1 = load_u64_be (drop (5 * 8) data); X = X[5 := T1];
          (g, c) = sha512_ROUND_00_15 T1 5 d e f g h a b c;
          T1 = load_u64_be (drop (6 * 8) data); X = X[6 := T1];
          (f, b) = sha512_ROUND_00_15 T1 6 c d e f g h a b;
          T1 = load_u64_be (drop (7 * 8) data); X = X[7 := T1];
          (e, a) = sha512_ROUND_00_15 T1 7 b c d e f g h a;
          T1 = load_u64_be (drop (8 * 8) data); X = X[8 := T1];
          (d, h) = sha512_ROUND_00_15 T1 8 a b c d e f g h;
          T1 = load_u64_be (drop (9 * 8) data); X = X[9 := T1];
          (c, g) = sha512_ROUND_00_15 T1 9 h a b c d e f g;
          T1 = load_u64_be (drop (10 * 8) data); X = X[10 := T1];
          (b, f) = sha512_ROUND_00_15 T1 10 g h a b c d e f;
          T1 = load_u64_be (drop (11 * 8) data); X = X[11 := T1];
          (a, e) = sha512_ROUND_00_15 T1 11 f g h a b c d e;
          T1 = load_u64_be (drop (12 * 8) data); X = X[12 := T1];
          (h, d) = sha512_ROUND_00_15 T1 12 e f g h a b c d;
          T1 = load_u64_be (drop (13 * 8) data); X = X[13 := T1];
          (g, c) = sha512_ROUND_00_15 T1 13 d e f g h a b c;
          T1 = load_u64_be (drop (14 * 8) data); X = X[14 := T1];
          (f, b) = sha512_ROUND_00_15 T1 14 c d e f g h a b;
          T1 = load_u64_be (drop (15 * 8) data); X = X[15 := T1];
          (e, a) = sha512_ROUND_00_15 T1 15 b c d e f g h a;
          (a, b, c, d, e, f, g, h) = sha512_rounds_16_80 16 (a, b, c, d, e, f, g, h) X;
          state = state[0 := state ! 0 + a];
          state = state[1 := state ! 1 + b];
          state = state[2 := state ! 2 + c];
          state = state[3 := state ! 3 + d];
          state = state[4 := state ! 4 + e];
          state = state[5 := state ! 5 + f];
          state = state[6 := state ! 6 + g];
          state = state[7 := state ! 7 + h]
      in (state, drop (16 * 8) data))"

fun sha512_block_data_order :: "u64 list \<Rightarrow> bytes \<Rightarrow> nat \<Rightarrow> u64 list" where
  "sha512_block_data_order state data 0 = state"
| "sha512_block_data_order state data (Suc n) =
     (case sha512_block state data of (state, data) \<Rightarrow> sha512_block_data_order state data n)"

definition SHA512_Transform :: "SHA512_CTX \<Rightarrow> bytes \<Rightarrow> SHA512_CTX" where
  "SHA512_Transform c block = c\<lparr>sha_h := sha512_block_data_order (sha_h c) block 1\<rparr>"

text \<open>The end of \<open>SHA512_Update\<close>, when no partial block is pending.\<close>

definition SHA512_Update_blocks :: "SHA512_CTX \<Rightarrow> bytes \<Rightarrow> SHA512_CTX" where
  "SHA512_Update_blocks c data =
     (let len = length data;
          (c, data) =
            (if len \<ge> 128 then
               (c\<lparr>sha_h := sha512_block_data_order (sha_h c) data (len div 128)\<rparr>, drop (len - len mod 128) data)
             else (c, data))
      in if data \<noteq> [] then c\<lparr>sha_p := memcpy (sha_p c) 0 data, sha_num := length data\<rparr> else c)"

definition SHA512_Update :: "SHA512_CTX \<Rightarrow> bytes \<Rightarrow> SHA512_CTX" where
  "SHA512_Update c data =
     (let len = length data in
      if len = 0 then c
      else
        let l = (sha_Nl c + push_bit 3 (of_nat len)) AND 0xffffffffffffffff;
            c = (if l < sha_Nl c then c\<lparr>sha_Nh := sha_Nh c + 1\<rparr> else c);
            c = c\<lparr>sha_Nh := sha_Nh c + of_nat (len div 2 ^ 61)\<rparr>;
            c = c\<lparr>sha_Nl := l\<rparr>
        in if sha_num c \<noteq> 0 then
             let n = 128 - sha_num c in
             if len < n then
               c\<lparr>sha_p := memcpy (sha_p c) (sha_num c) data, sha_num := sha_num c + len\<rparr>
             else
               let c = c\<lparr>sha_p := memcpy (sha_p c) (sha_num c) (take n data), sha_num := 0\<rparr>;
                   c = c\<lparr>sha_h := sha512_block_data_order (sha_h c) (sha_p c) 1\<rparr>
               in SHA512_Update_blocks c (drop n data)
           else SHA512_Update_blocks c data)"

text \<open>
  The padding of \<open>SHA512_Final\<close> up to its test of \<open>out\<close>. A \<open>num\<close> of 128 or more would be an access
  out of bounds: \<open>None\<close>.
\<close>

definition SHA512_pad :: "SHA512_CTX \<Rightarrow> SHA512_CTX option" where
  "SHA512_pad sha =
     (let p = sha_p sha; n = sha_num sha in
      if \<not> n < 128 then None
      else
        let p = p[n := 0x80];
            n = n + 1;
            (n, p, sha) =
              (if n > 128 - 16 then
                 let p = memcpy p n (replicate (128 - n) 0)
                 in (0, p, sha\<lparr>sha_h := sha512_block_data_order (sha_h sha) p 1\<rparr>)
               else (n, p, sha));
            p = memcpy p n (replicate (128 - 16 - n) 0);
            p = p[127 - 0 := ucast (sha_Nl sha)];
            p = p[127 - 1 := ucast (drop_bit 8 (sha_Nl sha))];
            p = p[127 - 2 := ucast (drop_bit 16 (sha_Nl sha))];
            p = p[127 - 3 := ucast (drop_bit 24 (sha_Nl sha))];
            p = p[127 - 4 := ucast (drop_bit 32 (sha_Nl sha))];
            p = p[127 - 5 := ucast (drop_bit 40 (sha_Nl sha))];
            p = p[127 - 6 := ucast (drop_bit 48 (sha_Nl sha))];
            p = p[127 - 7 := ucast (drop_bit 56 (sha_Nl sha))];
            p = p[119 - 0 := ucast (sha_Nh sha)];
            p = p[119 - 1 := ucast (drop_bit 8 (sha_Nh sha))];
            p = p[119 - 2 := ucast (drop_bit 16 (sha_Nh sha))];
            p = p[119 - 3 := ucast (drop_bit 24 (sha_Nh sha))];
            p = p[119 - 4 := ucast (drop_bit 32 (sha_Nh sha))];
            p = p[119 - 5 := ucast (drop_bit 40 (sha_Nh sha))];
            p = p[119 - 6 := ucast (drop_bit 48 (sha_Nh sha))];
            p = p[119 - 7 := ucast (drop_bit 56 (sha_Nh sha))];
            sha = sha\<lparr>sha_p := p, sha_h := sha512_block_data_order (sha_h sha) p 1\<rparr>
        in Some sha)"

definition sha512_store_word :: "u64 \<Rightarrow> bytes" where
  "sha512_store_word t =
     [ucast (drop_bit 56 t), ucast (drop_bit 48 t), ucast (drop_bit 40 t), ucast (drop_bit 32 t),
      ucast (drop_bit 24 t), ucast (drop_bit 16 t), ucast (drop_bit 8 t), ucast t]"

text \<open>What \<open>SHA512_Final\<close> writes; \<open>None\<close> is its \<open>return 0\<close>.\<close>

definition SHA512_string :: "bool \<Rightarrow> SHA512_CTX \<Rightarrow> bytes option" where
  "SHA512_string out_is_null sha =
     (let words = \<lambda>k. concat (map (\<lambda>n. sha512_store_word (sha_h sha ! n)) [0..<k])
      in if out_is_null then None
         else if sha_md_len sha = SHA384_DIGEST_LENGTH then Some (words (SHA384_DIGEST_LENGTH div 8))
         else if sha_md_len sha = SHA512_DIGEST_LENGTH then Some (words (SHA512_DIGEST_LENGTH div 8))
         else None)"

definition SHA512_Final :: "bool \<Rightarrow> SHA512_CTX \<Rightarrow> (bytes, SHA512_CTX) outcome option" where
  "SHA512_Final out_is_null sha =
     (case SHA512_pad sha of None \<Rightarrow> None | Some sha \<Rightarrow> Some (SHA512_string out_is_null sha, sha))"

definition SHA384_Update :: "SHA512_CTX \<Rightarrow> bytes \<Rightarrow> SHA512_CTX" where
  "SHA384_Update sha data = SHA512_Update sha data"

definition SHA384_Final :: "bool \<Rightarrow> SHA512_CTX \<Rightarrow> (bytes, SHA512_CTX) outcome option" where
  "SHA384_Final out_is_null sha = SHA512_Final out_is_null sha"

text \<open>The one-shot functions, on a context in memory that holds anything.\<close>

definition SHA384 :: "SHA512_CTX \<Rightarrow> bytes \<Rightarrow> bytes option" where
  "SHA384 memory data =
     (let ctx = SHA384_Init memory;
          ctx = SHA384_Update ctx data
      in case SHA384_Final False ctx of Some (Some out, ctx) \<Rightarrow> Some out | _ \<Rightarrow> None)"

definition SHA512 :: "SHA512_CTX \<Rightarrow> bytes \<Rightarrow> bytes option" where
  "SHA512 memory data =
     (let ctx = SHA512_Init memory;
          ctx = SHA512_Update ctx data
      in case SHA512_Final False ctx of Some (Some out, ctx) \<Rightarrow> Some out | _ \<Rightarrow> None)"

section \<open>The compression function of FIPS 180\<close>

text \<open>Section 6.4.2: the message schedule, one step, and the steps of a block.\<close>

fun sha512_W :: "bytes \<Rightarrow> nat \<Rightarrow> u64" where
  "sha512_W M t =
     (if t < 16 then load_u64_be (drop (8 * t) M)
      else sha512_sigma1 (sha512_W M (t - 2)) + sha512_W M (t - 7) +
           sha512_sigma0 (sha512_W M (t - 15)) + sha512_W M (t - 16))"

declare sha512_W.simps [simp del]

definition sha512_round :: "u64 \<Rightarrow> u64 \<Rightarrow> regs8_64 \<Rightarrow> regs8_64" where
  "sha512_round K W = (\<lambda>(a, b, c, d, e, f, g, h).
     let T1 = h + sha512_Sigma1 e + sha512_Ch e f g + K + W;
         T2 = sha512_Sigma0 a + sha512_Maj a b c
     in (T1 + T2, a, b, c, d + T1, e, f, g))"

fun sha512_rounds :: "(nat \<Rightarrow> u64) \<Rightarrow> nat \<Rightarrow> nat \<Rightarrow> regs8_64 \<Rightarrow> regs8_64" where
  "sha512_rounds W t 0 r = r"
| "sha512_rounds W t (Suc n) r = sha512_rounds W (t + 1) n (sha512_round (K512 ! t) (W t) r)"

definition regs_of_512 :: "u64 list \<Rightarrow> regs8_64" where
  "regs_of_512 H = (H ! 0, H ! 1, H ! 2, H ! 3, H ! 4, H ! 5, H ! 6, H ! 7)"

definition add_regs_512 :: "u64 list \<Rightarrow> regs8_64 \<Rightarrow> u64 list" where
  "add_regs_512 H = (\<lambda>(a, b, c, d, e, f, g, h). map2 (+) H [a, b, c, d, e, f, g, h])"

definition sha512_compress :: "u64 list \<Rightarrow> bytes \<Rightarrow> u64 list" where
  "sha512_compress H M = add_regs_512 H (sha512_rounds (sha512_W M) 0 80 (regs_of_512 H))"

text \<open>The functions of section 4.1.3.\<close>

lemma sha512_ROTR_eq: "n < 64 \<Longrightarrow> sha512_ROTR x n = word_rotr n x"
  using rotr_shifts [of n x] by (simp add: sha512_ROTR_def)

lemma sha512_sigmas:
  "sha512_Sigma0 x = word_rotr 28 x XOR word_rotr 34 x XOR word_rotr 39 x"
  "sha512_Sigma1 x = word_rotr 14 x XOR word_rotr 18 x XOR word_rotr 41 x"
  "sha512_sigma0 x = word_rotr 1 x XOR word_rotr 8 x XOR drop_bit 7 x"
  "sha512_sigma1 x = word_rotr 19 x XOR word_rotr 61 x XOR drop_bit 6 x"
  by (simp_all add: sha512_Sigma0_def sha512_Sigma1_def sha512_sigma0_def sha512_sigma1_def sha512_ROTR_eq)

section \<open>The code computes it\<close>

lemma round_eq_512:
  "sha512_round (K512 ! t) w (a, b, c, d, e, f, g, h) =
     (case sha512_ROUND_00_15 w t a b c d e f g h of (d, h) \<Rightarrow> (h, a, b, c, d, e, f, g))"
  by (simp add: sha512_round_def sha512_ROUND_00_15_def Let_def algebra_simps)

lemma rounds_unroll_512:
  "sha512_rounds W t n (a, b, c, d, e, f, g, h) =
     (if n = 0 then (a, b, c, d, e, f, g, h)
      else case sha512_ROUND_00_15 (W t) t a b c d e f g h of
        (d, h) \<Rightarrow> sha512_rounds W (t + 1) (n - 1) (h, a, b, c, d, e, f, g))"
  by (cases n) (auto simp: round_eq_512 split: prod.split)

lemma rounds_add_512: "sha512_rounds W t (m + n) r = sha512_rounds W (t + m) n (sha512_rounds W t m r)"
  by (induction m arbitrary: t r) simp_all

text \<open>\<open>window_512 W X t\<close>: the circular buffer holds the sixteen words before \<open>t\<close>.\<close>

definition window_512 :: "(nat \<Rightarrow> u64) \<Rightarrow> u64 list \<Rightarrow> nat \<Rightarrow> bool" where
  "window_512 W X t \<longleftrightarrow> length X = 16 \<and> 16 \<le> t \<and> (\<forall>k < 16. X ! ((t + k) mod 16) = W (t + k - 16))"

lemma and_15_512: "n AND 15 = n mod (16 :: nat)"
  using take_bit_eq_mask [of 4 n] by (simp add: mask_eq_exp_minus_1 take_bit_eq_mod)

lemma window_nth_512: "window_512 W X t \<Longrightarrow> k < 16 \<Longrightarrow> X ! ((t + k) mod 16) = W (t + k - 16)"
  by (simp add: window_512_def)

lemma window_step_512:
  assumes "window_512 W X t"
  shows "window_512 W (X[t mod 16 := W t]) (t + 1)"
  unfolding window_512_def
proof (intro conjI allI impI)
  fix k :: nat
  assume k: "k < 16"
  show "X[t mod 16 := W t] ! ((t + 1 + k) mod 16) = W (t + 1 + k - 16)"
  proof (cases "k = 15")
    case True
    have "(t + 1 + k) mod 16 = t mod 16" "t + 1 + k - 16 = t" unfolding True by simp_all
    with assms show ?thesis by (simp only: window_512_def) simp
  next
    case False
    have "(t + 1 + k) mod 16 \<noteq> t mod 16"
    proof
      assume "(t + 1 + k) mod 16 = t mod 16"
      then have "16 dvd k + 1" using mod_eq_dvd_iff_nat [of t "t + 1 + k" 16] by simp
      with k False show False by (auto dest: dvd_imp_le)
    qed
    with window_nth_512 [OF assms, of "k + 1"] k False show ?thesis by simp
  qed
qed (use assms in \<open>simp_all add: window_512_def\<close>)

lemma ROUND_16_80_eq_512:
  assumes w: "window_512 (sha512_W M) X (i + j)" and i: "16 dvd i"
  shows "sha512_ROUND_16_80 i j a b c d e f g h X =
    (case sha512_ROUND_00_15 (sha512_W M (i + j)) (i + j) a b c d e f g h of
       (d, h) \<Rightarrow> (d, h, X[(i + j) mod 16 := sha512_W M (i + j)]))"
proof -
  let ?t = "i + j"
  have t: "16 \<le> ?t" using w by (simp add: window_512_def)
  obtain q where q: "i = 16 * q" using i by (rule dvdE)
  have m: "(j + k) mod 16 = (?t + k) mod 16" for k by (simp add: q add.assoc)
  from m [of 0] have m0: "j mod 16 = ?t mod 16" by simp
  have x: "X ! (?t mod 16) = sha512_W M (?t - 16)" "X ! ((?t + 1) mod 16) = sha512_W M (?t - 15)"
    "X ! ((?t + 9) mod 16) = sha512_W M (?t - 7)" "X ! ((?t + 14) mod 16) = sha512_W M (?t - 2)"
    using window_nth_512 [OF w, of 0] window_nth_512 [OF w, of 1] window_nth_512 [OF w, of 9]
      window_nth_512 [OF w, of 14] t by simp_all
  have "sha512_W M ?t = sha512_W M (?t - 16) + (sha512_sigma0 (sha512_W M (?t - 15)) +
      sha512_sigma1 (sha512_W M (?t - 2)) + sha512_W M (?t - 7))"
    using t by (subst sha512_W.simps) (simp add: algebra_simps)
  then show ?thesis
    unfolding sha512_ROUND_16_80_def and_15_512 m m0 x Let_def by simp
qed

lemma case_ROUND_16_80_512:
  "window_512 (sha512_W M) X (i + j) \<Longrightarrow> 16 dvd i \<Longrightarrow>
   (case sha512_ROUND_16_80 i j a b c d e f g h X of (d, h, X) \<Rightarrow> F d h X) =
   (case sha512_ROUND_00_15 (sha512_W M (i + j)) (i + j) a b c d e f g h of
      (d, h) \<Rightarrow> F d h (X[(i + j) mod 16 := sha512_W M (i + j)]))"
  by (simp add: ROUND_16_80_eq_512 split: prod.split)

lemma rounds_next_512:
  "0 < n \<Longrightarrow> sha512_rounds_16_80 s (sha512_rounds W t n (a, b, c, d, e, f, g, h)) X =
     (case sha512_ROUND_00_15 (W t) t a b c d e f g h of
        (d, h) \<Rightarrow> sha512_rounds_16_80 s (sha512_rounds W (t + 1) (n - 1) (h, a, b, c, d, e, f, g)) X)"
  by (subst rounds_unroll_512) (simp split: prod.split)

lemma sixteen_rounds_512:
  assumes "window_512 (sha512_W M) X t" "t < 80" "16 dvd t"
  shows "\<exists>X'. window_512 (sha512_W M) X' (t + 16) \<and>
    sha512_rounds_16_80 t r X = sha512_rounds_16_80 (t + 16) (sha512_rounds (sha512_W M) t 16 r) X'"
proof -
  obtain a b c d e f g h where r: "r = (a, b, c, d, e, f, g, h)" by (metis surj_pair)
  have step: "window_512 W X t \<Longrightarrow> t' = t + 1 \<Longrightarrow> window_512 W (X[t mod 16 := W t]) t'" for W X t t'
    by (simp only: window_step_512)
  have t: "t + 1 = t + 0 + 1"
    "t + 2 = t + 1 + 1"
    "t + 3 = t + 2 + 1"
    "t + 4 = t + 3 + 1"
    "t + 5 = t + 4 + 1"
    "t + 6 = t + 5 + 1"
    "t + 7 = t + 6 + 1"
    "t + 8 = t + 7 + 1"
    "t + 9 = t + 8 + 1"
    "t + 10 = t + 9 + 1"
    "t + 11 = t + 10 + 1"
    "t + 12 = t + 11 + 1"
    "t + 13 = t + 12 + 1"
    "t + 14 = t + 13 + 1"
    "t + 15 = t + 14 + 1"
    "t + 16 = t + 15 + 1" by simp_all
  have w0: "window_512 (sha512_W M) X (t + 0)" using assms(1) by simp
  note w1 = step [OF w0 t(1)]
  note w2 = step [OF w1 t(2)]
  note w3 = step [OF w2 t(3)]
  note w4 = step [OF w3 t(4)]
  note w5 = step [OF w4 t(5)]
  note w6 = step [OF w5 t(6)]
  note w7 = step [OF w6 t(7)]
  note w8 = step [OF w7 t(8)]
  note w9 = step [OF w8 t(9)]
  note w10 = step [OF w9 t(10)]
  note w11 = step [OF w10 t(11)]
  note w12 = step [OF w11 t(12)]
  note w13 = step [OF w12 t(13)]
  note w14 = step [OF w13 t(14)]
  note w15 = step [OF w14 t(15)]
  note w16 = step [OF w15 t(16)]
  note w = w0 w1 w2 w3 w4 w5 w6 w7 w8 w9 w10 w11 w12 w13 w14 w15
  show ?thesis
    unfolding r
    by (rule exI, rule conjI, rule w16, subst sha512_rounds_16_80.simps)
      (simp only: Let_def prod.case assms(2,3) if_True case_ROUND_16_80_512 [of M] w, 
       simp add: rounds_next_512 add.assoc
        del: One_nat_def add_2_eq_Suc add_2_eq_Suc' sha512_rounds.simps(2))
qed

lemma rounds_16_80_eq_512:
  "n \<le> 4 \<Longrightarrow> window_512 (sha512_W M) X (80 - 16 * n) \<Longrightarrow>
   sha512_rounds_16_80 (80 - 16 * n) r X = sha512_rounds (sha512_W M) (80 - 16 * n) (16 * n) r"
proof (induction n arbitrary: r X)
  case 0
  obtain a b c d e f g h where "r = (a, b, c, d, e, f, g, h)" by (metis surj_pair)
  then show ?case by (simp add: sha512_rounds_16_80.simps)
next
  case (Suc n)
  let ?t = "80 - 16 * Suc n"
  have t: "?t < 80" "?t + 16 = 80 - 16 * n" using Suc.prems(1) by simp_all
  have "?t = 16 * (4 - n)" using Suc.prems(1) by simp
  then have d: "16 dvd ?t" by (metis dvd_triv_left)
  from sixteen_rounds_512 [OF Suc.prems(2) t(1) d, of r] obtain X' where
    "window_512 (sha512_W M) X' (80 - 16 * n)"
    "sha512_rounds_16_80 ?t r X = sha512_rounds_16_80 (80 - 16 * n) (sha512_rounds (sha512_W M) ?t 16 r) X'"
    unfolding t(2) by blast
  moreover have "sha512_rounds (sha512_W M) ?t (16 + 16 * n) r =
      sha512_rounds (sha512_W M) (80 - 16 * n) (16 * n) (sha512_rounds (sha512_W M) ?t 16 r)"
    unfolding rounds_add_512 t(2) ..
  ultimately show ?case using Suc.IH [of X'] Suc.prems(1) by simp
qed

lemma sha512_W_first: "t < 16 \<Longrightarrow> sha512_W M t = load_u64_be (drop (8 * t) M)"
  by (simp add: sha512_W.simps)

lemma load_0: "load_u64_be M = sha512_W M 0"
  by (simp add: sha512_W_first)

lemma load_drop: "8 dvd k \<Longrightarrow> k < 128 \<Longrightarrow> load_u64_be (drop k M) = sha512_W M (k div 8)"
  by (auto simp: sha512_W_first dvd_def)

lemma window_16_512:
  "window_512 W [W 0, W 1, W 2, W 3, W 4, W 5, W 6, W 7, W 8, W 9, W 10, W 11, W 12, W 13, W 14, W 15] 16"
proof -
  have "window_512 W (map W [0..<16]) 16" by (simp add: window_512_def)
  moreover have "[0..<16] = [0, 1, 2, 3, 4, 5, 6, 7, 8, 9, 10, 11, 12, 13, 14, 15]"
    by (simp add: upt_rec numeral_eq_Suc)
  ultimately show ?thesis by (simp del: One_nat_def)
qed

lemma rounds_16_80_from_16_512:
  "sha512_rounds_16_80 16 r
     [sha512_W M 0, sha512_W M 1, sha512_W M 2, sha512_W M 3, sha512_W M 4, sha512_W M 5, sha512_W M 6, sha512_W M 7,
      sha512_W M 8, sha512_W M 9, sha512_W M 10, sha512_W M 11, sha512_W M 12, sha512_W M 13, sha512_W M 14, sha512_W M 15] =
   sha512_rounds (sha512_W M) 16 64 r"
  using rounds_16_80_eq_512 [of 4, simplified, OF window_16_512 [of "sha512_W M", simplified], of r] by simp

lemma rounds_first_512:
  "t < 16 \<Longrightarrow> 0 < n \<Longrightarrow>
   (add_regs_512 H (sha512_rounds W t n (a, b, c, d, e, f, g, h)), D) =
     (case sha512_ROUND_00_15 (W t) t a b c d e f g h of
        (d, h) \<Rightarrow> (add_regs_512 H (sha512_rounds W (t + 1) (n - 1) (h, a, b, c, d, e, f, g)), D))"
  by (subst rounds_unroll_512) (simp split: prod.split)

lemma case_add_regs_512:
  "(case r of (a, b, c, d, e, f, g, h) \<Rightarrow>
      ([h0 + a, h1 + b, h2 + c, h3 + d, h4 + e, h5 + f, h6 + g, h7 + h], D)) =
   (add_regs_512 [h0, h1, h2, h3, h4, h5, h6, h7] r, D)"
  by (simp add: add_regs_512_def split: prod.split)

lemma buffer_16_512:
  "(replicate 16 0)[0 := x0, 1 := x1, 2 := x2, 3 := x3, 4 := x4, 5 := x5, 6 := x6, 7 := x7, 8 := x8, 9 := x9,
     10 := x10, 11 := x11, 12 := x12, 13 := x13, 14 := x14, 15 := x15] =
   [x0, x1, x2, x3, x4, x5, x6, x7, x8, x9, x10, x11, x12, x13, x14, x15]"
  by (simp add: numeral_eq_Suc)

theorem sha512_block_eq:
  assumes "length H = 8"
  shows "sha512_block H M = (sha512_compress H M, drop 128 M)"
proof -
  obtain h0 h1 h2 h3 h4 h5 h6 h7 where H: "H = [h0, h1, h2, h3, h4, h5, h6, h7]"
    using assms by (auto simp: numeral_eq_Suc length_Suc_conv)
  show ?thesis
    unfolding sha512_block_def sha512_compress_def H regs_of_512_def
    by (simp add: Let_def load_0 [of M] load_drop rounds_first_512 case_add_regs_512
        rounds_16_80_from_16_512 buffer_16_512 case_1 del: One_nat_def)
qed

lemma sha512_W_take: "128 \<le> length x \<Longrightarrow> sha512_W (take 128 x) t = sha512_W x t"
proof (induction t rule: less_induct)
  case (less t)
  then show ?case
    by (cases "t < 16") (simp_all add: sha512_W.simps [of _ t] load_u64_be_def drop_take min_absorb1)
qed

lemma sha512_compress_take: "128 \<le> length x \<Longrightarrow> sha512_compress H (take 128 x) = sha512_compress H x"
proof -
  assume "128 \<le> length x"
  then have "sha512_W (take 128 x) = sha512_W x" by (intro ext sha512_W_take)
  then show ?thesis by (simp only: sha512_compress_def)
qed

lemma length_sha512_compress: "length H = 8 \<Longrightarrow> length (sha512_compress H x) = 8"
  by (simp add: sha512_compress_def add_regs_512_def split: prod.split)


theorem sha512_block_data_order_eq:
  "length H = 8 \<Longrightarrow> 128 * n \<le> length x \<Longrightarrow>
   sha512_block_data_order H x n = iterate_blocks 128 sha512_compress H x n"
proof (induction n arbitrary: H x)
  case (Suc n)
  then show ?case
    by (simp add: sha512_block_eq sha512_compress_take length_sha512_compress)
qed simp

lemma sha512_block_1: "length H = 8 \<Longrightarrow> length b = 128 \<Longrightarrow> sha512_block_data_order H b 1 = sha512_compress H b"
  using sha512_block_data_order_eq [of H 1 b] by simp

text \<open>A word of the message is read most significant byte first, and so is the digest written.\<close>

lemma load_u64_be_val:
  assumes "8 \<le> length x"
  shows "load_u64_be x = of_nat (be_val (take 8 x))"
proof -
  define w :: u64 where "w = of_nat (le_val (take 8 x))"
  have l: "length (take 8 x) = 8" using assms by simp
  have "le_val (take 8 x) < 2 ^ 64" using le_val_less [of "take 8 x"] l by simp
  then have "unat w = le_val (take 8 x)" by (simp add: w_def unat_of_nat)
  then have "unat w = be_val (rev (take 8 x))" using le_val_rev [of "rev (take 8 x)"] by simp
  then have "be_bytes 8 (unat w) = rev (take 8 x)" using be_bytes_be_val [of "rev (take 8 x)"] l by simp
  then have "be_bytes 8 (unat (load_u64_be x)) = take 8 x"
    by (simp add: load_u64_be_def be_bytes_bswap8 flip: w_def)
  then have "be_val (take 8 x) = unat (load_u64_be x) mod 256 ^ 8" by (metis be_val_be_bytes)
  then show ?thesis using unsigned_less [of "load_u64_be x", where ?'a = nat] by simp
qed

lemma sha512_store_word_eq: "sha512_store_word t = be_bytes 8 (unat t)"
proof (rule nth_equalityI)
  fix i assume "i < length (sha512_store_word t)"
  then have "i < 8" by (simp add: sha512_store_word_def)
  then have "i = 0 \<or> i = 1 \<or> i = 2 \<or> i = 3 \<or> i = 4 \<or> i = 5 \<or> i = 6 \<or> i = 7" by linarith
  then show "sha512_store_word t ! i = be_bytes 8 (unat t) ! i"
    by (auto simp: sha512_store_word_def nth_be_bytes)
qed (simp add: sha512_store_word_def)

section \<open>The collector\<close>

definition sha512_bits :: "SHA512_CTX \<Rightarrow> nat" where
  "sha512_bits c = unat (sha_Nh c) * 2 ^ 64 + unat (sha_Nl c)"

text \<open>\<open>c\<close> has absorbed \<open>msg\<close> since its chaining value was \<open>st\<close>, and counted its bits.\<close>

definition sha512_repr :: "u64 list \<Rightarrow> SHA512_CTX \<Rightarrow> bytes \<Rightarrow> bool" where
  "sha512_repr st c msg \<longleftrightarrow>
     absorbed 128 sha512_compress st (sha_h c) (sha_p c) (sha_num c) msg \<and>
     sha512_bits c = 8 * length msg mod 2 ^ 128"

definition sha512_zeros :: "nat \<Rightarrow> nat" where
  "sha512_zeros n = (239 - n mod 128) mod 128"

definition sha512_pad_message :: "bytes \<Rightarrow> bytes" where
  "sha512_pad_message msg =
     msg @ [0x80] @ replicate (sha512_zeros (length msg)) 0 @ be_bytes 16 (8 * length msg)"

definition sha512_hash :: "u64 list \<Rightarrow> bytes \<Rightarrow> u64 list" where
  "sha512_hash st msg = iterate_all 128 sha512_compress st (sha512_pad_message msg)"

lemma sha512_iterate_length:
  "length st = 8 \<Longrightarrow> length (iterate_blocks 128 sha512_compress st x n) = 8"
  by (rule iterate_blocks_invariant) (simp_all add: length_sha512_compress)

lemma sha512_absorbed_length:
  "length st = 8 \<Longrightarrow> absorbed 128 sha512_compress st h p n msg \<Longrightarrow> length h = 8"
  by (auto simp: absorbed_def iterate_all_def sha512_iterate_length)

lemma SHA512_Update_blocks_repr:
  assumes "length st = 8" "absorbed 128 sha512_compress st (sha_h c) (sha_p c) 0 msg" "sha_num c = 0"
  shows "let c' = SHA512_Update_blocks c d in
    absorbed 128 sha512_compress st (sha_h c') (sha_p c') (sha_num c') (msg @ d) \<and>
    sha512_bits c' = sha512_bits c \<and> sha_md_len c' = sha_md_len c"
proof -
  let ?n = "length d div 128" and ?h = "iterate_blocks 128 sha512_compress (sha_h c) d (length d div 128)"
  note a = absorbed_blocks [OF assms(2), of ?n d]
  have l: "length (drop (128 * ?n) d) < 128" "128 * ?n \<le> length d" "length d - length d mod 128 = 128 * ?n"
    by (simp_all add: minus_mult_div_eq_mod minus_mod_eq_mult_div)
  have h: "(if length d \<ge> 128 then sha512_block_data_order (sha_h c) d ?n else sha_h c) = ?h"
    using sha512_block_data_order_eq [OF sha512_absorbed_length [OF assms(1,2)], of ?n d] l(2) by simp
  have b: "absorbed 128 sha512_compress st ?h (memcpy (sha_p c) 0 (drop (128 * ?n) d))
      (length (drop (128 * ?n) d)) (msg @ d)"
    using absorbed_pend [OF a, of "drop (128 * ?n) d"] l by simp
  have "(if length d \<ge> 128 then drop (length d - length d mod 128) d else d) = drop (128 * ?n) d"
    unfolding l(3) by simp
  with h [symmetric] have u: "SHA512_Update_blocks c d =
    (if drop (128 * ?n) d = [] then c\<lparr>sha_h := ?h\<rparr>
     else c\<lparr>sha_h := ?h, sha_p := memcpy (sha_p c) 0 (drop (128 * ?n) d), sha_num := length (drop (128 * ?n) d)\<rparr>)"
    by (cases "length d \<ge> 128") (simp_all add: SHA512_Update_blocks_def Let_def)
  show ?thesis
    using b assms(3) unfolding u
    by (cases "drop (128 * ?n) d = []") (simp_all add: Let_def sha512_bits_def del: drop_eq_Nil length_drop)
qed

lemma and_all_ones_64: "(w :: u64) AND 0xffffffffffffffff = w"
proof -
  have "(0xffffffffffffffff :: u64) = - 1" by simp
  then show ?thesis by (simp only: and.right_neutral)
qed

theorem SHA512_Update_repr:
  assumes st: "length st = 8" and r: "sha512_repr st c msg"
  shows "sha512_repr st (SHA512_Update c data) (msg @ data) \<and>
    sha_md_len (SHA512_Update c data) = sha_md_len c"
proof (cases "data = []")
  case True
  then show ?thesis using r by (simp add: SHA512_Update_def)
next
  case False
  define c' where "c' = (let l = sha_Nl c + push_bit 3 (of_nat (length data));
      c = (if l < sha_Nl c then c\<lparr>sha_Nh := sha_Nh c + 1\<rparr> else c);
      c = c\<lparr>sha_Nh := sha_Nh c + of_nat (length data div 2 ^ 61)\<rparr>
    in c\<lparr>sha_Nl := l\<rparr>)"
  have c': "sha_h c' = sha_h c" "sha_p c' = sha_p c" "sha_num c' = sha_num c" "sha_md_len c' = sha_md_len c"
    by (simp_all add: c'_def Let_def)
  have "sha512_bits c' = (sha512_bits c + 8 * length data) mod 2 ^ 128"
    using two_word_add [where nl = "sha_Nl c" and nh = "sha_Nh c" and len = "length data" and J = "2 ^ 61"]
    by (cases "sha_Nl c + push_bit 3 (of_nat (length data)) < sha_Nl c")
      (simp_all add: c'_def Let_def sha512_bits_def)
  then have bits: "sha512_bits c' = 8 * length (msg @ data) mod 2 ^ 128"
    using r by (simp add: sha512_repr_def mod_simps algebra_simps)
  from r have a: "absorbed 128 sha512_compress st (sha_h c') (sha_p c') (sha_num c) msg"
    by (simp add: sha512_repr_def c')
  then have n: "sha_num c < 128" "length (sha_p c) = 128" by (simp_all add: absorbed_def c')
  consider "sha_num c = 0" | "sha_num c \<noteq> 0" "length data < 128 - sha_num c"
    | "sha_num c \<noteq> 0" "128 - sha_num c \<le> length data"
    by linarith
  then show ?thesis
  proof cases
    case 1
    then have "SHA512_Update c data = SHA512_Update_blocks c' data"
      using False by (simp add: SHA512_Update_def c'_def Let_def and_all_ones_64)
    with SHA512_Update_blocks_repr [OF st, of c' msg data] a bits 1 c'(3,4) show ?thesis
      by (simp add: sha512_repr_def Let_def)
  next
    case 2
    then have u: "SHA512_Update c data =
        c'\<lparr>sha_p := memcpy (sha_p c') (sha_num c) data, sha_num := sha_num c + length data\<rparr>"
      using False c' by (simp add: SHA512_Update_def c'_def Let_def and_all_ones_64)
    with absorbed_pend [OF a, of data] 2(2) bits c'(4) show ?thesis
      by (simp add: sha512_repr_def sha512_bits_def)
  next
    case 3
    let ?t = "128 - sha_num c"
    define b where "b = memcpy (sha_p c) (sha_num c) (take ?t data)"
    have t: "sha_num c + length (take ?t data) = 128" using 3(2) n by simp
    then have b: "length b = 128" using n by (simp add: b_def length_memcpy)
    define c2 where "c2 = c'\<lparr>sha_p := b, sha_num := 0, sha_h := sha512_compress (sha_h c) b\<rparr>"
    have "absorbed 128 sha512_compress st (sha_h c2) (sha_p c2) 0 (msg @ take ?t data)"
      using absorbed_fill [OF a t b] by (simp add: c2_def b_def c')
    moreover have "SHA512_Update c data = SHA512_Update_blocks c2 (drop ?t data)"
      using False 3 c' sha512_block_1 [OF sha512_absorbed_length [OF st a] b]
      by (simp add: SHA512_Update_def c'_def c2_def Let_def and_all_ones_64 flip: b_def)
    moreover have "sha512_bits c2 = sha512_bits c'" "sha_num c2 = 0" "sha_md_len c2 = sha_md_len c"
      by (simp_all add: sha512_bits_def c2_def c'(4))
    ultimately show ?thesis
      using SHA512_Update_blocks_repr [OF st, of c2 "msg @ take ?t data" "drop ?t data"] bits
      by (simp add: sha512_repr_def Let_def)
  qed
qed

text \<open>The sixteen stores of the length are one copy.\<close>

lemma store_length:
  assumes "length p = 128"
  shows "p[127 - 0 := ucast l, 127 - 1 := ucast (drop_bit 8 l), 127 - 2 := ucast (drop_bit 16 l),
      127 - 3 := ucast (drop_bit 24 l), 127 - 4 := ucast (drop_bit 32 l), 127 - 5 := ucast (drop_bit 40 l),
      127 - 6 := ucast (drop_bit 48 l), 127 - 7 := ucast (drop_bit 56 l),
      119 - 0 := ucast h, 119 - 1 := ucast (drop_bit 8 h), 119 - 2 := ucast (drop_bit 16 h),
      119 - 3 := ucast (drop_bit 24 h), 119 - 4 := ucast (drop_bit 32 h), 119 - 5 := ucast (drop_bit 40 h),
      119 - 6 := ucast (drop_bit 48 h), 119 - 7 := ucast (drop_bit 56 h)] =
    memcpy p 112 (sha512_store_word h @ sha512_store_word l)"
proof -
  define q r where "q = take 112 p" and "r = drop 112 p"
  have p: "p = q @ r" "length q = 112" "length r = 16" using assms by (simp_all add: q_def r_def)
  obtain x0 x1 x2 x3 x4 x5 x6 x7 x8 x9 x10 x11 x12 x13 x14 x15 where
    r: "r = [x0, x1, x2, x3, x4, x5, x6, x7, x8, x9, x10, x11, x12, x13, x14, x15]"
    using p(3) by (auto simp: numeral_eq_Suc length_Suc_conv)
  show ?thesis
    unfolding p(1) r using p(2)
    by (simp add: list_update_append memcpy_def sha512_store_word_def)
qed

theorem SHA512_pad_repr:
  assumes st: "length st = 8" and r: "sha512_repr st c msg"
  shows "\<exists>c'. SHA512_pad c = Some c' \<and> sha_h c' = sha512_hash st msg \<and> sha_md_len c' = sha_md_len c"
proof -
  let ?n = "sha_num c" and ?d = "sha_p c"
  from r have a: "absorbed 128 sha512_compress st (sha_h c) ?d ?n msg" by (simp add: sha512_repr_def)
  then have n: "?n < 128" "length ?d = 128" by (simp_all add: absorbed_def)
  note lc = sha512_absorbed_length [OF st a]
  define p where "p = be_bytes 16 (8 * length msg)"
  have p: "sha512_store_word (sha_Nh c) @ sha512_store_word (sha_Nl c) = p"
  proof -
    have "unat (sha_Nl c) < 256 ^ 8" using unsigned_less [of "sha_Nl c", where ?'a = nat] by simp
    from be_bytes_append [OF this, of 8 "unat (sha_Nh c)"]
    have "be_bytes 16 (sha512_bits c) = be_bytes 8 (unat (sha_Nh c)) @ be_bytes 8 (unat (sha_Nl c))"
      by (simp add: sha512_bits_def)
    moreover have "be_bytes 16 (sha512_bits c) = be_bytes 16 (8 * length msg)"
      using be_bytes_mod [of 16 "8 * length msg"] r by (simp add: sha512_repr_def)
    ultimately show ?thesis by (simp add: p_def sha512_store_word_eq)
  qed
  have lp: "length p = 16" by (simp add: p_def)
  have pad: "sha512_pad_message msg = msg @ [0x80] @ replicate (sha512_zeros ?n) 0 @ p"
    by (simp add: sha512_pad_message_def p_def sha512_zeros_def absorbed_mod [OF a])
  have d80: "?d[?n := 0x80] = memcpy ?d ?n [0x80]" using n by (simp add: memcpy_single)
  have final: "h = sha512_hash st msg" if "absorbed 128 sha512_compress st h b 0 (sha512_pad_message msg)"
    for h b using that by (auto simp: absorbed_def sha512_hash_def)
  show ?thesis
  proof (cases "?n + 1 > 112")
    case False
    then have z: "sha512_zeros ?n = 111 - ?n" by (simp add: sha512_zeros_def mod_if)
    let ?x = "[0x80] @ replicate (111 - ?n) 0 @ p"
    have m: "memcpy (memcpy (memcpy ?d ?n [0x80]) (?n + 1) (replicate (111 - ?n) 0)) 112 p = memcpy ?d ?n ?x"
      using memcpy_memcpy [of ?n ?d "[0x80]" "replicate (111 - ?n) 0"]
        memcpy_memcpy [of ?n ?d "[0x80] @ replicate (111 - ?n) 0" p] False n by simp
    have l: "?n + length ?x = 128" using False lp by simp
    then have lb: "length (memcpy ?d ?n ?x) = 128" using n(2) by (simp add: length_memcpy)
    have "length (memcpy (memcpy ?d ?n [0x80]) (?n + 1) (replicate (111 - ?n) 0)) = 128"
      using False n by (simp add: length_memcpy)
    from store_length [OF this, of "sha_Nl c" "sha_Nh c"]
    have "SHA512_pad c = Some (c\<lparr>sha_p := memcpy ?d ?n ?x, sha_h := sha512_compress (sha_h c) (memcpy ?d ?n ?x)\<rparr>)"
      using False n sha512_block_1 [OF lc lb] m
      unfolding SHA512_pad_def Let_def d80 p by simp
    moreover have "sha512_compress (sha_h c) (memcpy ?d ?n ?x) = sha512_hash st msg"
      using final absorbed_fill [OF a l n(2)] by (simp add: pad z)
    ultimately show ?thesis by auto
  next
    case True
    then have z: "sha512_zeros ?n = (127 - ?n) + 112" using n by (simp add: sha512_zeros_def)
    let ?x = "[0x80] @ replicate (127 - ?n) 0" and ?y = "replicate 112 0 @ p"
    define b1 where "b1 = memcpy ?d ?n ?x"
    define b2 where "b2 = memcpy b1 0 ?y"
    have l: "?n + length ?x = 128" "0 + length ?y = 128" using n lp by simp_all
    then have lb: "length b1 = 128" "length b2 = 128" using n(2) by (simp_all add: b1_def b2_def length_memcpy)
    have m: "memcpy (memcpy ?d ?n [0x80]) (?n + 1) (replicate (127 - ?n) 0) = b1"
      "memcpy (memcpy b1 0 (replicate 112 0)) 112 p = b2"
      using memcpy_memcpy [of ?n ?d "[0x80]" "replicate (127 - ?n) 0"] n
        memcpy_memcpy [of 0 b1 "replicate 112 0" p] lb by (simp_all add: b1_def b2_def)
    have "length (memcpy b1 0 (replicate 112 0)) = 128" using lb(1) by (simp add: length_memcpy)
    from store_length [OF this, of "sha_Nl c" "sha_Nh c"]
    have "SHA512_pad c = Some (c\<lparr>sha_p := b2, sha_h := sha512_compress (sha512_compress (sha_h c) b1) b2\<rparr>)"
      using True n m sha512_block_1 [OF lc lb(1)] sha512_block_1 [OF length_sha512_compress [OF lc] lb(2)]
      unfolding SHA512_pad_def Let_def d80 p by simp
    moreover have "sha512_compress (sha512_compress (sha_h c) b1) b2 = sha512_hash st msg"
      using final absorbed_fill [OF absorbed_fill [OF a l(1) lb(1)] l(2) lb(1)]
      by (simp add: pad z replicate_add b1_def b2_def)
    ultimately show ?thesis by auto
  qed
qed

section \<open>Digests\<close>

definition sha512_bytes :: "u64 list \<Rightarrow> bytes" where
  "sha512_bytes ws = concat (map (\<lambda>w. be_bytes 8 (unat w)) ws)"

lemma sha512_bytes_nth:
  "n \<le> length ws \<Longrightarrow> concat (map (\<lambda>k. sha512_store_word (ws ! k)) [0..<n]) = sha512_bytes (take n ws)"
  by (simp add: concat_map_nth [of n ws "\<lambda>w. be_bytes 8 (unat w)"] sha512_bytes_def sha512_store_word_eq)

lemma sha512_repr_fold:
  "length st = 8 \<Longrightarrow> sha512_repr st c msg \<Longrightarrow>
   sha512_repr st (foldl SHA512_Update c ds) (msg @ concat ds) \<and>
   sha_md_len (foldl SHA512_Update c ds) = sha_md_len c"
proof (induction ds arbitrary: c msg)
  case (Cons d ds)
  from SHA512_Update_repr [OF Cons.prems, of d] Cons.IH [OF Cons.prems(1), of "SHA512_Update c d" "msg @ d"]
  show ?case by simp
qed simp

lemma sha512_hash_length: "length st = 8 \<Longrightarrow> length (sha512_hash st msg) = 8"
  by (simp add: sha512_hash_def iterate_all_def sha512_iterate_length)

text \<open>However a message is cut; the two failures are a null \<open>out\<close> and an \<open>md_len\<close> that no \<open>Init\<close> sets.\<close>

theorem sha512_pieces:
  assumes "length st = 8" "sha512_repr st c []"
  shows "\<exists>c'. SHA512_Final null (foldl SHA512_Update c ds) =
    Some (if \<not> null \<and> sha_md_len c \<in> {48, 64}
          then Some (sha512_bytes (take (sha_md_len c div 8) (sha512_hash st (concat ds)))) else None, c')"
proof -
  from sha512_repr_fold [OF assms, of ds]
  have r: "sha512_repr st (foldl SHA512_Update c ds) (concat ds)"
    and m: "sha_md_len (foldl SHA512_Update c ds) = sha_md_len c" by simp_all
  from SHA512_pad_repr [OF assms(1) r] obtain c' where
    "SHA512_pad (foldl SHA512_Update c ds) = Some c'" "sha_h c' = sha512_hash st (concat ds)"
    "sha_md_len c' = sha_md_len c" unfolding m by blast
  then show ?thesis
    by (auto simp: SHA512_Final_def SHA512_string_def Let_def SHA384_DIGEST_LENGTH_def SHA512_DIGEST_LENGTH_def
        sha512_bytes_nth sha512_hash_length assms(1))
qed

text \<open>The hash functions of FIPS 180-4, whatever the context's memory held before.\<close>

definition sha512_digest :: "bytes \<Rightarrow> bytes" where
  "sha512_digest msg = sha512_bytes (sha512_hash
     [0x6a09e667f3bcc908, 0xbb67ae8584caa73b, 0x3c6ef372fe94f82b, 0xa54ff53a5f1d36f1,
      0x510e527fade682d1, 0x9b05688c2b3e6c1f, 0x1f83d9abfb41bd6b, 0x5be0cd19137e2179] msg)"

definition sha384_digest :: "bytes \<Rightarrow> bytes" where
  "sha384_digest msg = sha512_bytes (take 6 (sha512_hash
     [0xcbbb9d5dc1059ed8, 0x629a292a367cd507, 0x9159015a3070dd17, 0x152fecd8f70e5939,
      0x67332667ffc00b31, 0x8eb44a8768581511, 0xdb0c2e0d64f98fa7, 0x47b5481dbefa4fa4] msg))"

lemma sha512_repr_fresh:
  "sha_h c = st \<Longrightarrow> length (sha_p c) = 128 \<Longrightarrow> sha_num c = 0 \<Longrightarrow> sha_Nl c = 0 \<Longrightarrow> sha_Nh c = 0 \<Longrightarrow>
   sha512_repr st c []"
  by (simp add: sha512_repr_def absorbed_Nil sha512_bits_def)

theorem SHA512_eq:
  assumes "length (sha_p memory) = 128"
  shows "SHA512 memory data = Some (sha512_digest data)"
proof -
  have "sha512_repr (sha_h (SHA512_Init memory)) (SHA512_Init memory) []"
    by (rule sha512_repr_fresh) (simp_all add: SHA512_Init_def assms)
  from sha512_pieces [OF _ this, of False "[data]"] sha512_hash_length [of "sha_h (SHA512_Init memory)" data]
  show ?thesis by (auto simp: SHA512_def sha512_digest_def SHA512_Init_def SHA512_DIGEST_LENGTH_def)
qed

theorem SHA384_eq:
  assumes "length (sha_p memory) = 128"
  shows "SHA384 memory data = Some (sha384_digest data)"
proof -
  have "sha512_repr (sha_h (SHA384_Init memory)) (SHA384_Init memory) []"
    by (rule sha512_repr_fresh) (simp_all add: SHA384_Init_def assms)
  from sha512_pieces [OF _ this, of False "[data]"]
  show ?thesis
    by (auto simp: SHA384_def SHA384_Update_def SHA384_Final_def sha384_digest_def SHA384_Init_def
        SHA384_DIGEST_LENGTH_def)
qed

end
