(* ===== verification/MD4.thy ===== *)
theory MD4
  imports Digest
begin

text \<open>
  \<open>crypto/fipsmodule/md4/md4.c\<close>: the unrolled rounds, with the registers renamed instead of moved,
  are the steps of RFC 1320, and the collector of \<open>Digest\<close> over them is MD4 of the padded message.
\<close>

section \<open>Definitions\<close>

type_synonym MD4_CTX = HASH_CTX

definition MD4_Init :: MD4_CTX where
  "MD4_Init =
     \<lparr>chain = [0x67452301, 0xefcdab89, 0x98badcfe, 0x10325476],
      Nl = 0, Nh = 0, block_data = replicate HASH_CBLOCK 0, num = 0\<rparr>"

definition md4_HASH_MAKE_STRING :: "MD4_CTX \<Rightarrow> bytes option" where
  "md4_HASH_MAKE_STRING c =
     Some (HOST_l2c Little_Endian (chain c ! 0) @ HOST_l2c Little_Endian (chain c ! 1) @
           HOST_l2c Little_Endian (chain c ! 2) @ HOST_l2c Little_Endian (chain c ! 3))"

definition md4_F :: "u32 \<Rightarrow> u32 \<Rightarrow> u32 \<Rightarrow> u32" where
  "md4_F b c d = (((c XOR d) AND b) XOR d)"

definition md4_G :: "u32 \<Rightarrow> u32 \<Rightarrow> u32 \<Rightarrow> u32" where
  "md4_G b c d = ((b AND c) OR (b AND d) OR (c AND d))"

definition md4_H :: "u32 \<Rightarrow> u32 \<Rightarrow> u32 \<Rightarrow> u32" where
  "md4_H b c d = (b XOR c XOR d)"

text \<open>The round macros assign to their first argument: the result is the four registers after it.\<close>

definition md4_R0 :: "regs4 \<Rightarrow> u32 \<Rightarrow> nat \<Rightarrow> u32 \<Rightarrow> regs4" where
  "md4_R0 = (\<lambda>(a, b, c, d) k s t.
     let a = a + (k + t + md4_F b c d);
         a = ROTATE a s
     in (a, b, c, d))"

definition md4_R1 :: "regs4 \<Rightarrow> u32 \<Rightarrow> nat \<Rightarrow> u32 \<Rightarrow> regs4" where
  "md4_R1 = (\<lambda>(a, b, c, d) k s t.
     let a = a + (k + t + md4_G b c d);
         a = ROTATE a s
     in (a, b, c, d))"

definition md4_R2 :: "regs4 \<Rightarrow> u32 \<Rightarrow> nat \<Rightarrow> u32 \<Rightarrow> regs4" where
  "md4_R2 = (\<lambda>(a, b, c, d) k s t.
     let a = a + (k + t + md4_H b c d);
         a = ROTATE a s
     in (a, b, c, d))"

text \<open>
  The body of \<open>for (; num--;)\<close>: the registers, which it leaves equal to the new state, the state, and
  \<open>data\<close> past the block.
\<close>

definition md4_block :: "regs4 \<Rightarrow> u32 list \<Rightarrow> bytes \<Rightarrow> regs4 \<times> u32 list \<times> bytes" where
  "md4_block r state data =
     (let (A, B, C, D) = r;
          (l, data) = HOST_c2l Little_Endian data; X0 = l;
          (l, data) = HOST_c2l Little_Endian data; X1 = l;
          (A, B, C, D) = md4_R0 (A, B, C, D) X0 3 0;
          (l, data) = HOST_c2l Little_Endian data; X2 = l;
          (D, A, B, C) = md4_R0 (D, A, B, C) X1 7 0;
          (l, data) = HOST_c2l Little_Endian data; X3 = l;
          (C, D, A, B) = md4_R0 (C, D, A, B) X2 11 0;
          (l, data) = HOST_c2l Little_Endian data; X4 = l;
          (B, C, D, A) = md4_R0 (B, C, D, A) X3 19 0;
          (l, data) = HOST_c2l Little_Endian data; X5 = l;
          (A, B, C, D) = md4_R0 (A, B, C, D) X4 3 0;
          (l, data) = HOST_c2l Little_Endian data; X6 = l;
          (D, A, B, C) = md4_R0 (D, A, B, C) X5 7 0;
          (l, data) = HOST_c2l Little_Endian data; X7 = l;
          (C, D, A, B) = md4_R0 (C, D, A, B) X6 11 0;
          (l, data) = HOST_c2l Little_Endian data; X8 = l;
          (B, C, D, A) = md4_R0 (B, C, D, A) X7 19 0;
          (l, data) = HOST_c2l Little_Endian data; X9 = l;
          (A, B, C, D) = md4_R0 (A, B, C, D) X8 3 0;
          (l, data) = HOST_c2l Little_Endian data; X10 = l;
          (D, A, B, C) = md4_R0 (D, A, B, C) X9 7 0;
          (l, data) = HOST_c2l Little_Endian data; X11 = l;
          (C, D, A, B) = md4_R0 (C, D, A, B) X10 11 0;
          (l, data) = HOST_c2l Little_Endian data; X12 = l;
          (B, C, D, A) = md4_R0 (B, C, D, A) X11 19 0;
          (l, data) = HOST_c2l Little_Endian data; X13 = l;
          (A, B, C, D) = md4_R0 (A, B, C, D) X12 3 0;
          (l, data) = HOST_c2l Little_Endian data; X14 = l;
          (D, A, B, C) = md4_R0 (D, A, B, C) X13 7 0;
          (l, data) = HOST_c2l Little_Endian data; X15 = l;
          (C, D, A, B) = md4_R0 (C, D, A, B) X14 11 0;
          (B, C, D, A) = md4_R0 (B, C, D, A) X15 19 0;
          (A, B, C, D) = md4_R1 (A, B, C, D) X0 3 0x5A827999;
          (D, A, B, C) = md4_R1 (D, A, B, C) X4 5 0x5A827999;
          (C, D, A, B) = md4_R1 (C, D, A, B) X8 9 0x5A827999;
          (B, C, D, A) = md4_R1 (B, C, D, A) X12 13 0x5A827999;
          (A, B, C, D) = md4_R1 (A, B, C, D) X1 3 0x5A827999;
          (D, A, B, C) = md4_R1 (D, A, B, C) X5 5 0x5A827999;
          (C, D, A, B) = md4_R1 (C, D, A, B) X9 9 0x5A827999;
          (B, C, D, A) = md4_R1 (B, C, D, A) X13 13 0x5A827999;
          (A, B, C, D) = md4_R1 (A, B, C, D) X2 3 0x5A827999;
          (D, A, B, C) = md4_R1 (D, A, B, C) X6 5 0x5A827999;
          (C, D, A, B) = md4_R1 (C, D, A, B) X10 9 0x5A827999;
          (B, C, D, A) = md4_R1 (B, C, D, A) X14 13 0x5A827999;
          (A, B, C, D) = md4_R1 (A, B, C, D) X3 3 0x5A827999;
          (D, A, B, C) = md4_R1 (D, A, B, C) X7 5 0x5A827999;
          (C, D, A, B) = md4_R1 (C, D, A, B) X11 9 0x5A827999;
          (B, C, D, A) = md4_R1 (B, C, D, A) X15 13 0x5A827999;
          (A, B, C, D) = md4_R2 (A, B, C, D) X0 3 0x6ED9EBA1;
          (D, A, B, C) = md4_R2 (D, A, B, C) X8 9 0x6ED9EBA1;
          (C, D, A, B) = md4_R2 (C, D, A, B) X4 11 0x6ED9EBA1;
          (B, C, D, A) = md4_R2 (B, C, D, A) X12 15 0x6ED9EBA1;
          (A, B, C, D) = md4_R2 (A, B, C, D) X2 3 0x6ED9EBA1;
          (D, A, B, C) = md4_R2 (D, A, B, C) X10 9 0x6ED9EBA1;
          (C, D, A, B) = md4_R2 (C, D, A, B) X6 11 0x6ED9EBA1;
          (B, C, D, A) = md4_R2 (B, C, D, A) X14 15 0x6ED9EBA1;
          (A, B, C, D) = md4_R2 (A, B, C, D) X1 3 0x6ED9EBA1;
          (D, A, B, C) = md4_R2 (D, A, B, C) X9 9 0x6ED9EBA1;
          (C, D, A, B) = md4_R2 (C, D, A, B) X5 11 0x6ED9EBA1;
          (B, C, D, A) = md4_R2 (B, C, D, A) X13 15 0x6ED9EBA1;
          (A, B, C, D) = md4_R2 (A, B, C, D) X3 3 0x6ED9EBA1;
          (D, A, B, C) = md4_R2 (D, A, B, C) X11 9 0x6ED9EBA1;
          (C, D, A, B) = md4_R2 (C, D, A, B) X7 11 0x6ED9EBA1;
          (B, C, D, A) = md4_R2 (B, C, D, A) X15 15 0x6ED9EBA1;
          state = state[0 := state ! 0 + A]; A = state ! 0;
          state = state[1 := state ! 1 + B]; B = state ! 1;
          state = state[2 := state ! 2 + C]; C = state ! 2;
          state = state[3 := state ! 3 + D]; D = state ! 3
      in ((A, B, C, D), state, data))"

fun md4_loop :: "regs4 \<Rightarrow> u32 list \<Rightarrow> bytes \<Rightarrow> nat \<Rightarrow> u32 list" where
  "md4_loop r state data 0 = state"
| "md4_loop r state data (Suc n) =
     (case md4_block r state data of (r, state, data) \<Rightarrow> md4_loop r state data n)"

definition md4_block_data_order :: "u32 list \<Rightarrow> bytes \<Rightarrow> nat \<Rightarrow> u32 list" where
  "md4_block_data_order state data n =
     md4_loop (state ! 0, state ! 1, state ! 2, state ! 3) state data n"

text \<open>The instances of the template, and the one-shot function.\<close>

definition MD4_Update :: "MD4_CTX \<Rightarrow> bytes \<Rightarrow> MD4_CTX" where
  "MD4_Update c data = HASH_UPDATE md4_block_data_order c data"

definition MD4_Transform :: "MD4_CTX \<Rightarrow> bytes \<Rightarrow> MD4_CTX" where
  "MD4_Transform c data = HASH_TRANSFORM md4_block_data_order c data"

definition MD4_Final :: "MD4_CTX \<Rightarrow> (bytes, MD4_CTX) outcome option" where
  "MD4_Final c = HASH_FINAL Little_Endian md4_block_data_order md4_HASH_MAKE_STRING c"

definition MD4 :: "bytes \<Rightarrow> bytes option" where
  "MD4 data =
     (let ctx = MD4_Init;
          ctx = MD4_Update ctx data
      in case MD4_Final ctx of Some (Some out, ctx) \<Rightarrow> Some out | _ \<Rightarrow> None)"

section \<open>The compression function of RFC 1320\<close>

text \<open>Section 3.4: the auxiliary functions, and for each step its word, its shift and its constant.\<close>

definition md4_aux :: "nat \<Rightarrow> u32 \<Rightarrow> u32 \<Rightarrow> u32 \<Rightarrow> u32" where
  "md4_aux t x y z =
     (if t < 16 then (x AND y) OR (NOT x AND z)
      else if t < 32 then (x AND y) OR (x AND z) OR (y AND z)
      else x XOR y XOR z)"

definition md4_k :: "nat \<Rightarrow> nat" where
  "md4_k t =
     (if t < 16 then t else if t < 32 then 4 * (t mod 4) + t div 4 mod 4
      else [0, 8, 4, 12, 2, 10, 6, 14, 1, 9, 5, 13, 3, 11, 7, 15] ! (t mod 16))"

definition md4_s :: "nat \<Rightarrow> nat" where
  "md4_s t =
     (if t < 16 then [3, 7, 11, 19] else if t < 32 then [3, 5, 9, 13] else [3, 9, 11, 15]) ! (t mod 4)"

definition md4_T :: "nat \<Rightarrow> u32" where
  "md4_T t = (if t < 16 then 0 else if t < 32 then 0x5A827999 else 0x6ED9EBA1)"

text \<open>
  One step \<open>a = (a + F(b, c, d) + X[k] + T) <<< s\<close>, after which the next one works on the
  registers moved by one.
\<close>

definition md4_step :: "(nat \<Rightarrow> u32) \<Rightarrow> nat \<Rightarrow> regs4 \<Rightarrow> regs4" where
  "md4_step X t = (\<lambda>(a, b, c, d).
     (d, word_rotl (md4_s t) (a + md4_aux t b c d + X (md4_k t) + md4_T t), b, c))"

fun md4_steps :: "(nat \<Rightarrow> u32) \<Rightarrow> nat \<Rightarrow> nat \<Rightarrow> regs4 \<Rightarrow> regs4" where
  "md4_steps X t 0 r = r"
| "md4_steps X t (Suc n) r = md4_steps X (t + 1) n (md4_step X t r)"

definition md4_add :: "u32 list \<Rightarrow> regs4 \<Rightarrow> u32 list" where
  "md4_add H = (\<lambda>(a, b, c, d). map2 (+) H [a, b, c, d])"

definition md4_compress :: "u32 list \<Rightarrow> bytes \<Rightarrow> u32 list" where
  "md4_compress H M =
     md4_add H (md4_steps (msg_word Little_Endian M) 0 48 (H ! 0, H ! 1, H ! 2, H ! 3))"

section \<open>The code computes it\<close>

lemma md4_aux_eq:
  "t < 16 \<Longrightarrow> md4_aux t b c d = md4_F b c d"
  "16 \<le> t \<Longrightarrow> t < 32 \<Longrightarrow> md4_aux t b c d = md4_G b c d"
  "32 \<le> t \<Longrightarrow> md4_aux t b c d = md4_H b c d"
  by (auto simp: md4_aux_def md4_F_def md4_G_def md4_H_def bit_simps intro!: bit_word_eqI)

lemma md4_s_less: "md4_s t < 32"
proof -
  have "t mod 4 = 0 \<or> t mod 4 = 1 \<or> t mod 4 = 2 \<or> t mod 4 = 3" by linarith
  then show ?thesis by (auto simp: md4_s_def)
qed

definition md4_R :: "nat \<Rightarrow> regs4 \<Rightarrow> u32 \<Rightarrow> nat \<Rightarrow> u32 \<Rightarrow> regs4" where
  "md4_R t = (if t < 16 then md4_R0 else if t < 32 then md4_R1 else md4_R2)"

lemma md4_step_eq:
  "md4_step X t (a, b, c, d) =
     (case md4_R t (a, b, c, d) (X (md4_k t)) (md4_s t) (md4_T t) of (a, b, c, d) \<Rightarrow> (d, a, b, c))"
  by (simp add: md4_step_def md4_R_def md4_R0_def md4_R1_def md4_R2_def Let_def md4_aux_eq
      ROTATE_eq [OF md4_s_less] ac_simps)

text \<open>What the loop body returns for the registers at its end.\<close>

definition md4_out :: "u32 list \<Rightarrow> bytes \<Rightarrow> regs4 \<Rightarrow> regs4 \<times> u32 list \<times> bytes" where
  "md4_out H data r = (let s = md4_add H r in ((s ! 0, s ! 1, s ! 2, s ! 3), s, data))"

lemma md4_out_regs:
  "md4_out [h0, h1, h2, h3] data (a, b, c, d) =
     ((h0 + a, h1 + b, h2 + c, h3 + d), [h0 + a, h1 + b, h2 + c, h3 + d], data)"
  by (simp add: md4_out_def md4_add_def)

lemma md4_unroll:
  "0 < n \<Longrightarrow>
   md4_out H D (md4_steps X t n (a, b, c, d)) =
     (case md4_R t (a, b, c, d) (X (md4_k t)) (md4_s t) (md4_T t) of
        (a, b, c, d) \<Rightarrow> md4_out H D (md4_steps X (t + 1) (n - 1) (d, a, b, c)))"
  by (cases n) (auto simp: md4_step_eq split: prod.split)

theorem md4_block_eq:
  assumes "length H = 4"
  shows "md4_block (H ! 0, H ! 1, H ! 2, H ! 3) H M =
    (let s = md4_compress H M in ((s ! 0, s ! 1, s ! 2, s ! 3), s, drop 64 M))"
proof -
  obtain h0 h1 h2 h3 where H: "H = [h0, h1, h2, h3]"
    using assms by (auto simp: numeral_eq_Suc length_Suc_conv)
  have "md4_block (H ! 0, H ! 1, H ! 2, H ! 3) H M =
      md4_out H (drop 64 M) (md4_steps (msg_word Little_Endian M) 0 48 (H ! 0, H ! 1, H ! 2, H ! 3))"
    unfolding H md4_block_def
    by (simp add: Let_def HOST_c2l_0 [of _ M] HOST_c2l_drop md4_unroll md4_out_regs md4_R_def md4_k_def md4_s_def
        md4_T_def case_1 del: One_nat_def add_2_eq_Suc add_2_eq_Suc' md4_steps.simps(2))
  then show ?thesis by (simp add: md4_out_def md4_compress_def)
qed

lemma md4_k_less: "md4_k t < 16"
proof -
  have "[0, 8, 4, 12, 2, 10, 6, 14, 1, 9, 5, 13, 3, 11, 7, 15] ! (t mod 16) \<in>
      set [0, 8, 4, 12, 2, 10, 6, 14, 1, 9, 5, 13, 3, 11, 7, 15 :: nat]"
    by (rule nth_mem) simp
  then have "[0, 8, 4, 12, 2, 10, 6, 14, 1, 9, 5, 13, 3, 11, 7, 15] ! (t mod 16) < (16 :: nat)" by auto
  then show ?thesis by (auto simp: md4_k_def)
qed

lemma md4_steps_cong: "(\<And>k. k < 16 \<Longrightarrow> X k = Y k) \<Longrightarrow> md4_steps X t n r = md4_steps Y t n r"
  by (induction n arbitrary: t r) (simp_all add: md4_step_def md4_k_less)

lemma md4_compress_take: "64 \<le> length x \<Longrightarrow> md4_compress H (take 64 x) = md4_compress H x"
  unfolding md4_compress_def by (subst md4_steps_cong) (simp_all add: msg_word_take)

lemma length_md4_compress: "length H = 4 \<Longrightarrow> length (md4_compress H x) = 4"
  by (simp add: md4_compress_def md4_add_def split: prod.split)

lemma md4_loop_eq:
  "length H = 4 \<Longrightarrow> 64 * n \<le> length x \<Longrightarrow>
   md4_loop (H ! 0, H ! 1, H ! 2, H ! 3) H x n = iterate_blocks 64 md4_compress H x n"
proof (induction n arbitrary: H x)
  case (Suc n)
  then show ?case
    by (simp add: md4_block_eq Let_def md4_compress_take length_md4_compress del: One_nat_def)
qed simp

theorem md4_block_data_order_eq:
  "length H = 4 \<Longrightarrow> 64 * n \<le> length x \<Longrightarrow>
   md4_block_data_order H x n = iterate_blocks 64 md4_compress H x n"
  unfolding md4_block_data_order_def by (rule md4_loop_eq)

interpretation md4: md32 md4_block_data_order md4_compress 4
  by unfold_locales (simp_all add: length_md4_compress md4_block_data_order_eq)

section \<open>Digests\<close>

text \<open>Section 3.3: the words A, B, C and D, given there by their bytes, low-order bytes first. Then the digest.\<close>

definition md4_words :: "u32 list" where
  "md4_words =
     map (msg_word Little_Endian
            ([0x01, 0x23, 0x45, 0x67] @ [0x89, 0xab, 0xcd, 0xef] @ [0xfe, 0xdc, 0xba, 0x98] @ [0x76, 0x54, 0x32, 0x10]))
       [0, 1, 2, 3]"

definition md4_digest :: "bytes \<Rightarrow> bytes" where
  "md4_digest msg = word_bytes Little_Endian (md_hash Little_Endian md4_compress md4_words msg)"

lemma md4_words_eq: "md4_words = chain MD4_Init"
  by (simp add: md4_words_def MD4_Init_def msg_word_def be_val_Cons)

lemma md4_make_string:
  assumes "length (chain c) = 4"
  shows "md4_HASH_MAKE_STRING c = Some (word_bytes Little_Endian (chain c))"
proof -
  obtain h0 h1 h2 h3 where "chain c = [h0, h1, h2, h3]"
    using assms by (auto simp: numeral_eq_Suc length_Suc_conv)
  then show ?thesis by (simp add: md4_HASH_MAKE_STRING_def word_bytes_def HOST_l2c_eq)
qed

theorem md4_pieces:
  "\<exists>c. MD4_Final (foldl MD4_Update MD4_Init ds) = Some (Some (md4_digest (concat ds)), c)"
proof -
  have i: "length (chain MD4_Init) = 4" "md_repr md4_compress (chain MD4_Init) MD4_Init []"
    by (simp_all add: MD4_Init_def md_repr_fresh)
  then have "length (md_hash Little_Endian md4_compress (chain MD4_Init) msg) = 4" for msg
    by (simp add: md_hash_def iterate_all_def md4.iterate_length)
  with md4.hash_pieces [OF i, of Little_Endian md4_HASH_MAKE_STRING ds] show ?thesis
    by (auto simp: MD4_Final_def MD4_Update_def [abs_def] md4_digest_def md4_words_eq md4_make_string)
qed

theorem MD4_eq: "MD4 data = Some (md4_digest data)"
  using md4_pieces [of "[data]"] by (auto simp: MD4_def)

end
