(* ===== verification/MD5.thy ===== *)
theory MD5
  imports Digest
begin

text \<open>
  \<open>crypto/fipsmodule/md5/md5.c\<close>: the unrolled rounds, with the registers renamed instead of moved,
  are the steps of RFC 1321, and the collector of \<open>Digest\<close> over them is MD5 of the padded message.
\<close>

section \<open>Definitions\<close>

type_synonym MD5_CTX = HASH_CTX

definition MD5_Init :: MD5_CTX where
  "MD5_Init =
     \<lparr>chain = [0x67452301, 0xefcdab89, 0x98badcfe, 0x10325476],
      Nl = 0, Nh = 0, block_data = replicate HASH_CBLOCK 0, num = 0\<rparr>"

definition md5_HASH_MAKE_STRING :: "MD5_CTX \<Rightarrow> bytes option" where
  "md5_HASH_MAKE_STRING c =
     Some (HOST_l2c Little_Endian (chain c ! 0) @ HOST_l2c Little_Endian (chain c ! 1) @
           HOST_l2c Little_Endian (chain c ! 2) @ HOST_l2c Little_Endian (chain c ! 3))"

definition md5_F :: "u32 \<Rightarrow> u32 \<Rightarrow> u32 \<Rightarrow> u32" where
  "md5_F b c d = (((c XOR d) AND b) XOR d)"

definition md5_G :: "u32 \<Rightarrow> u32 \<Rightarrow> u32 \<Rightarrow> u32" where
  "md5_G b c d = (((b XOR c) AND d) XOR c)"

definition md5_H :: "u32 \<Rightarrow> u32 \<Rightarrow> u32 \<Rightarrow> u32" where
  "md5_H b c d = (b XOR c XOR d)"

definition md5_I :: "u32 \<Rightarrow> u32 \<Rightarrow> u32 \<Rightarrow> u32" where
  "md5_I b c d = ((NOT d OR b) XOR c)"

text \<open>The round macros assign to their first argument: the result is the four registers after it.\<close>

definition md5_R0 :: "regs4 \<Rightarrow> u32 \<Rightarrow> nat \<Rightarrow> u32 \<Rightarrow> regs4" where
  "md5_R0 = (\<lambda>(a, b, c, d) k s t.
     let a = a + (k + t + md5_F b c d);
         a = ROTATE a s;
         a = a + b
     in (a, b, c, d))"

definition md5_R1 :: "regs4 \<Rightarrow> u32 \<Rightarrow> nat \<Rightarrow> u32 \<Rightarrow> regs4" where
  "md5_R1 = (\<lambda>(a, b, c, d) k s t.
     let a = a + (k + t + md5_G b c d);
         a = ROTATE a s;
         a = a + b
     in (a, b, c, d))"

definition md5_R2 :: "regs4 \<Rightarrow> u32 \<Rightarrow> nat \<Rightarrow> u32 \<Rightarrow> regs4" where
  "md5_R2 = (\<lambda>(a, b, c, d) k s t.
     let a = a + (k + t + md5_H b c d);
         a = ROTATE a s;
         a = a + b
     in (a, b, c, d))"

definition md5_R3 :: "regs4 \<Rightarrow> u32 \<Rightarrow> nat \<Rightarrow> u32 \<Rightarrow> regs4" where
  "md5_R3 = (\<lambda>(a, b, c, d) k s t.
     let a = a + (k + t + md5_I b c d);
         a = ROTATE a s;
         a = a + b
     in (a, b, c, d))"

text \<open>
  The body of \<open>for (; num--;)\<close>: the registers, which it leaves equal to the new state, the state, and
  \<open>data\<close> past the block.
\<close>

definition md5_block :: "regs4 \<Rightarrow> u32 list \<Rightarrow> bytes \<Rightarrow> regs4 \<times> u32 list \<times> bytes" where
  "md5_block r state data =
     (let (A, B, C, D) = r;
          (l, data) = HOST_c2l Little_Endian data; X0 = l;
          (l, data) = HOST_c2l Little_Endian data; X1 = l;
          (A, B, C, D) = md5_R0 (A, B, C, D) X0 7 0xd76aa478;
          (l, data) = HOST_c2l Little_Endian data; X2 = l;
          (D, A, B, C) = md5_R0 (D, A, B, C) X1 12 0xe8c7b756;
          (l, data) = HOST_c2l Little_Endian data; X3 = l;
          (C, D, A, B) = md5_R0 (C, D, A, B) X2 17 0x242070db;
          (l, data) = HOST_c2l Little_Endian data; X4 = l;
          (B, C, D, A) = md5_R0 (B, C, D, A) X3 22 0xc1bdceee;
          (l, data) = HOST_c2l Little_Endian data; X5 = l;
          (A, B, C, D) = md5_R0 (A, B, C, D) X4 7 0xf57c0faf;
          (l, data) = HOST_c2l Little_Endian data; X6 = l;
          (D, A, B, C) = md5_R0 (D, A, B, C) X5 12 0x4787c62a;
          (l, data) = HOST_c2l Little_Endian data; X7 = l;
          (C, D, A, B) = md5_R0 (C, D, A, B) X6 17 0xa8304613;
          (l, data) = HOST_c2l Little_Endian data; X8 = l;
          (B, C, D, A) = md5_R0 (B, C, D, A) X7 22 0xfd469501;
          (l, data) = HOST_c2l Little_Endian data; X9 = l;
          (A, B, C, D) = md5_R0 (A, B, C, D) X8 7 0x698098d8;
          (l, data) = HOST_c2l Little_Endian data; X10 = l;
          (D, A, B, C) = md5_R0 (D, A, B, C) X9 12 0x8b44f7af;
          (l, data) = HOST_c2l Little_Endian data; X11 = l;
          (C, D, A, B) = md5_R0 (C, D, A, B) X10 17 0xffff5bb1;
          (l, data) = HOST_c2l Little_Endian data; X12 = l;
          (B, C, D, A) = md5_R0 (B, C, D, A) X11 22 0x895cd7be;
          (l, data) = HOST_c2l Little_Endian data; X13 = l;
          (A, B, C, D) = md5_R0 (A, B, C, D) X12 7 0x6b901122;
          (l, data) = HOST_c2l Little_Endian data; X14 = l;
          (D, A, B, C) = md5_R0 (D, A, B, C) X13 12 0xfd987193;
          (l, data) = HOST_c2l Little_Endian data; X15 = l;
          (C, D, A, B) = md5_R0 (C, D, A, B) X14 17 0xa679438e;
          (B, C, D, A) = md5_R0 (B, C, D, A) X15 22 0x49b40821;
          (A, B, C, D) = md5_R1 (A, B, C, D) X1 5 0xf61e2562;
          (D, A, B, C) = md5_R1 (D, A, B, C) X6 9 0xc040b340;
          (C, D, A, B) = md5_R1 (C, D, A, B) X11 14 0x265e5a51;
          (B, C, D, A) = md5_R1 (B, C, D, A) X0 20 0xe9b6c7aa;
          (A, B, C, D) = md5_R1 (A, B, C, D) X5 5 0xd62f105d;
          (D, A, B, C) = md5_R1 (D, A, B, C) X10 9 0x02441453;
          (C, D, A, B) = md5_R1 (C, D, A, B) X15 14 0xd8a1e681;
          (B, C, D, A) = md5_R1 (B, C, D, A) X4 20 0xe7d3fbc8;
          (A, B, C, D) = md5_R1 (A, B, C, D) X9 5 0x21e1cde6;
          (D, A, B, C) = md5_R1 (D, A, B, C) X14 9 0xc33707d6;
          (C, D, A, B) = md5_R1 (C, D, A, B) X3 14 0xf4d50d87;
          (B, C, D, A) = md5_R1 (B, C, D, A) X8 20 0x455a14ed;
          (A, B, C, D) = md5_R1 (A, B, C, D) X13 5 0xa9e3e905;
          (D, A, B, C) = md5_R1 (D, A, B, C) X2 9 0xfcefa3f8;
          (C, D, A, B) = md5_R1 (C, D, A, B) X7 14 0x676f02d9;
          (B, C, D, A) = md5_R1 (B, C, D, A) X12 20 0x8d2a4c8a;
          (A, B, C, D) = md5_R2 (A, B, C, D) X5 4 0xfffa3942;
          (D, A, B, C) = md5_R2 (D, A, B, C) X8 11 0x8771f681;
          (C, D, A, B) = md5_R2 (C, D, A, B) X11 16 0x6d9d6122;
          (B, C, D, A) = md5_R2 (B, C, D, A) X14 23 0xfde5380c;
          (A, B, C, D) = md5_R2 (A, B, C, D) X1 4 0xa4beea44;
          (D, A, B, C) = md5_R2 (D, A, B, C) X4 11 0x4bdecfa9;
          (C, D, A, B) = md5_R2 (C, D, A, B) X7 16 0xf6bb4b60;
          (B, C, D, A) = md5_R2 (B, C, D, A) X10 23 0xbebfbc70;
          (A, B, C, D) = md5_R2 (A, B, C, D) X13 4 0x289b7ec6;
          (D, A, B, C) = md5_R2 (D, A, B, C) X0 11 0xeaa127fa;
          (C, D, A, B) = md5_R2 (C, D, A, B) X3 16 0xd4ef3085;
          (B, C, D, A) = md5_R2 (B, C, D, A) X6 23 0x04881d05;
          (A, B, C, D) = md5_R2 (A, B, C, D) X9 4 0xd9d4d039;
          (D, A, B, C) = md5_R2 (D, A, B, C) X12 11 0xe6db99e5;
          (C, D, A, B) = md5_R2 (C, D, A, B) X15 16 0x1fa27cf8;
          (B, C, D, A) = md5_R2 (B, C, D, A) X2 23 0xc4ac5665;
          (A, B, C, D) = md5_R3 (A, B, C, D) X0 6 0xf4292244;
          (D, A, B, C) = md5_R3 (D, A, B, C) X7 10 0x432aff97;
          (C, D, A, B) = md5_R3 (C, D, A, B) X14 15 0xab9423a7;
          (B, C, D, A) = md5_R3 (B, C, D, A) X5 21 0xfc93a039;
          (A, B, C, D) = md5_R3 (A, B, C, D) X12 6 0x655b59c3;
          (D, A, B, C) = md5_R3 (D, A, B, C) X3 10 0x8f0ccc92;
          (C, D, A, B) = md5_R3 (C, D, A, B) X10 15 0xffeff47d;
          (B, C, D, A) = md5_R3 (B, C, D, A) X1 21 0x85845dd1;
          (A, B, C, D) = md5_R3 (A, B, C, D) X8 6 0x6fa87e4f;
          (D, A, B, C) = md5_R3 (D, A, B, C) X15 10 0xfe2ce6e0;
          (C, D, A, B) = md5_R3 (C, D, A, B) X6 15 0xa3014314;
          (B, C, D, A) = md5_R3 (B, C, D, A) X13 21 0x4e0811a1;
          (A, B, C, D) = md5_R3 (A, B, C, D) X4 6 0xf7537e82;
          (D, A, B, C) = md5_R3 (D, A, B, C) X11 10 0xbd3af235;
          (C, D, A, B) = md5_R3 (C, D, A, B) X2 15 0x2ad7d2bb;
          (B, C, D, A) = md5_R3 (B, C, D, A) X9 21 0xeb86d391;
          state = state[0 := state ! 0 + A]; A = state ! 0;
          state = state[1 := state ! 1 + B]; B = state ! 1;
          state = state[2 := state ! 2 + C]; C = state ! 2;
          state = state[3 := state ! 3 + D]; D = state ! 3
      in ((A, B, C, D), state, data))"

fun md5_loop :: "regs4 \<Rightarrow> u32 list \<Rightarrow> bytes \<Rightarrow> nat \<Rightarrow> u32 list" where
  "md5_loop r state data 0 = state"
| "md5_loop r state data (Suc n) =
     (case md5_block r state data of (r, state, data) \<Rightarrow> md5_loop r state data n)"

definition md5_block_data_order :: "u32 list \<Rightarrow> bytes \<Rightarrow> nat \<Rightarrow> u32 list" where
  "md5_block_data_order state data n =
     md5_loop (state ! 0, state ! 1, state ! 2, state ! 3) state data n"

text \<open>The instances of the template, and the one-shot function.\<close>

definition MD5_Update :: "MD5_CTX \<Rightarrow> bytes \<Rightarrow> MD5_CTX" where
  "MD5_Update c data = HASH_UPDATE md5_block_data_order c data"

definition MD5_Transform :: "MD5_CTX \<Rightarrow> bytes \<Rightarrow> MD5_CTX" where
  "MD5_Transform c data = HASH_TRANSFORM md5_block_data_order c data"

definition MD5_Final :: "MD5_CTX \<Rightarrow> (bytes, MD5_CTX) outcome option" where
  "MD5_Final c = HASH_FINAL Little_Endian md5_block_data_order md5_HASH_MAKE_STRING c"

definition MD5 :: "bytes \<Rightarrow> bytes option" where
  "MD5 data =
     (let ctx = MD5_Init;
          ctx = MD5_Update ctx data
      in case MD5_Final ctx of Some (Some out, ctx) \<Rightarrow> Some out | _ \<Rightarrow> None)"

section \<open>The compression function of RFC 1321\<close>

text \<open>Section 3.4: the auxiliary functions, and for each step its word, its shift and its constant.\<close>

definition md5_aux :: "nat \<Rightarrow> u32 \<Rightarrow> u32 \<Rightarrow> u32 \<Rightarrow> u32" where
  "md5_aux t x y z =
     (if t < 16 then (x AND y) OR (NOT x AND z)
      else if t < 32 then (x AND z) OR (y AND NOT z)
      else if t < 48 then x XOR y XOR z
      else y XOR (x OR NOT z))"

definition md5_k :: "nat \<Rightarrow> nat" where
  "md5_k t =
     (if t < 16 then t else if t < 32 then (5 * t + 1) mod 16
      else if t < 48 then (3 * t + 5) mod 16 else 7 * t mod 16)"

definition md5_s :: "nat \<Rightarrow> nat" where
  "md5_s t =
     (if t < 16 then [7, 12, 17, 22] else if t < 32 then [5, 9, 14, 20]
      else if t < 48 then [4, 11, 16, 23] else [6, 10, 15, 21]) ! (t mod 4)"

text \<open>The table \<open>T\<close>: element \<open>i\<close> is the integer part of \<open>2 ^ 32 * abs (sin (i + 1))\<close>.\<close>

definition md5_T :: "u32 list" where
  "md5_T =
     [0xd76aa478, 0xe8c7b756, 0x242070db, 0xc1bdceee,
      0xf57c0faf, 0x4787c62a, 0xa8304613, 0xfd469501,
      0x698098d8, 0x8b44f7af, 0xffff5bb1, 0x895cd7be,
      0x6b901122, 0xfd987193, 0xa679438e, 0x49b40821,
      0xf61e2562, 0xc040b340, 0x265e5a51, 0xe9b6c7aa,
      0xd62f105d, 0x02441453, 0xd8a1e681, 0xe7d3fbc8,
      0x21e1cde6, 0xc33707d6, 0xf4d50d87, 0x455a14ed,
      0xa9e3e905, 0xfcefa3f8, 0x676f02d9, 0x8d2a4c8a,
      0xfffa3942, 0x8771f681, 0x6d9d6122, 0xfde5380c,
      0xa4beea44, 0x4bdecfa9, 0xf6bb4b60, 0xbebfbc70,
      0x289b7ec6, 0xeaa127fa, 0xd4ef3085, 0x04881d05,
      0xd9d4d039, 0xe6db99e5, 0x1fa27cf8, 0xc4ac5665,
      0xf4292244, 0x432aff97, 0xab9423a7, 0xfc93a039,
      0x655b59c3, 0x8f0ccc92, 0xffeff47d, 0x85845dd1,
      0x6fa87e4f, 0xfe2ce6e0, 0xa3014314, 0x4e0811a1,
      0xf7537e82, 0xbd3af235, 0x2ad7d2bb, 0xeb86d391]"

text \<open>
  One step \<open>a = b + ((a + F(b, c, d) + X[k] + T[i]) <<< s)\<close>, after which the next one works on the
  registers moved by one.
\<close>

definition md5_step :: "(nat \<Rightarrow> u32) \<Rightarrow> nat \<Rightarrow> regs4 \<Rightarrow> regs4" where
  "md5_step X t = (\<lambda>(a, b, c, d).
     (d, b + word_rotl (md5_s t) (a + md5_aux t b c d + X (md5_k t) + md5_T ! t), b, c))"

fun md5_steps :: "(nat \<Rightarrow> u32) \<Rightarrow> nat \<Rightarrow> nat \<Rightarrow> regs4 \<Rightarrow> regs4" where
  "md5_steps X t 0 r = r"
| "md5_steps X t (Suc n) r = md5_steps X (t + 1) n (md5_step X t r)"

definition md5_add :: "u32 list \<Rightarrow> regs4 \<Rightarrow> u32 list" where
  "md5_add H = (\<lambda>(a, b, c, d). map2 (+) H [a, b, c, d])"

definition md5_compress :: "u32 list \<Rightarrow> bytes \<Rightarrow> u32 list" where
  "md5_compress H M =
     md5_add H (md5_steps (msg_word Little_Endian M) 0 64 (H ! 0, H ! 1, H ! 2, H ! 3))"

section \<open>The code computes it\<close>

lemma md5_aux_eq:
  "t < 16 \<Longrightarrow> md5_aux t b c d = md5_F b c d"
  "16 \<le> t \<Longrightarrow> t < 32 \<Longrightarrow> md5_aux t b c d = md5_G b c d"
  "32 \<le> t \<Longrightarrow> t < 48 \<Longrightarrow> md5_aux t b c d = md5_H b c d"
  "48 \<le> t \<Longrightarrow> md5_aux t b c d = md5_I b c d"
  by (auto simp: md5_aux_def md5_F_def md5_G_def md5_H_def md5_I_def bit_simps intro!: bit_word_eqI)

lemma md5_s_less: "md5_s t < 32"
proof -
  have "t mod 4 = 0 \<or> t mod 4 = 1 \<or> t mod 4 = 2 \<or> t mod 4 = 3" by linarith
  then show ?thesis by (auto simp: md5_s_def)
qed

definition md5_R :: "nat \<Rightarrow> regs4 \<Rightarrow> u32 \<Rightarrow> nat \<Rightarrow> u32 \<Rightarrow> regs4" where
  "md5_R t = (if t < 16 then md5_R0 else if t < 32 then md5_R1 else if t < 48 then md5_R2 else md5_R3)"

lemma md5_step_eq:
  "md5_step X t (a, b, c, d) =
     (case md5_R t (a, b, c, d) (X (md5_k t)) (md5_s t) (md5_T ! t) of (a, b, c, d) \<Rightarrow> (d, a, b, c))"
  by (simp add: md5_step_def md5_R_def md5_R0_def md5_R1_def md5_R2_def md5_R3_def Let_def md5_aux_eq
      ROTATE_eq [OF md5_s_less] ac_simps)

text \<open>What the loop body returns for the registers at its end.\<close>

definition md5_out :: "u32 list \<Rightarrow> bytes \<Rightarrow> regs4 \<Rightarrow> regs4 \<times> u32 list \<times> bytes" where
  "md5_out H data r = (let s = md5_add H r in ((s ! 0, s ! 1, s ! 2, s ! 3), s, data))"

lemma md5_out_regs:
  "md5_out [h0, h1, h2, h3] data (a, b, c, d) =
     ((h0 + a, h1 + b, h2 + c, h3 + d), [h0 + a, h1 + b, h2 + c, h3 + d], data)"
  by (simp add: md5_out_def md5_add_def)

lemma md5_unroll:
  "0 < n \<Longrightarrow>
   md5_out H D (md5_steps X t n (a, b, c, d)) =
     (case md5_R t (a, b, c, d) (X (md5_k t)) (md5_s t) (md5_T ! t) of
        (a, b, c, d) \<Rightarrow> md5_out H D (md5_steps X (t + 1) (n - 1) (d, a, b, c)))"
  by (cases n) (auto simp: md5_step_eq split: prod.split)

theorem md5_block_eq:
  assumes "length H = 4"
  shows "md5_block (H ! 0, H ! 1, H ! 2, H ! 3) H M =
    (let s = md5_compress H M in ((s ! 0, s ! 1, s ! 2, s ! 3), s, drop 64 M))"
proof -
  obtain h0 h1 h2 h3 where H: "H = [h0, h1, h2, h3]"
    using assms by (auto simp: numeral_eq_Suc length_Suc_conv)
  have "md5_block (H ! 0, H ! 1, H ! 2, H ! 3) H M =
      md5_out H (drop 64 M) (md5_steps (msg_word Little_Endian M) 0 64 (H ! 0, H ! 1, H ! 2, H ! 3))"
    unfolding H md5_block_def
    by (simp add: Let_def HOST_c2l_0 [of _ M] HOST_c2l_drop md5_unroll md5_out_regs md5_R_def md5_k_def md5_s_def
        md5_T_def case_1 del: One_nat_def add_2_eq_Suc add_2_eq_Suc' md5_steps.simps(2))
  then show ?thesis by (simp add: md5_out_def md5_compress_def)
qed

lemma md5_k_less: "md5_k t < 16"
  by (simp add: md5_k_def)

lemma md5_steps_cong: "(\<And>k. k < 16 \<Longrightarrow> X k = Y k) \<Longrightarrow> md5_steps X t n r = md5_steps Y t n r"
  by (induction n arbitrary: t r) (simp_all add: md5_step_def md5_k_less)

lemma md5_compress_take: "64 \<le> length x \<Longrightarrow> md5_compress H (take 64 x) = md5_compress H x"
  unfolding md5_compress_def by (subst md5_steps_cong) (simp_all add: msg_word_take)

lemma length_md5_compress: "length H = 4 \<Longrightarrow> length (md5_compress H x) = 4"
  by (simp add: md5_compress_def md5_add_def split: prod.split)

lemma md5_loop_eq:
  "length H = 4 \<Longrightarrow> 64 * n \<le> length x \<Longrightarrow>
   md5_loop (H ! 0, H ! 1, H ! 2, H ! 3) H x n = iterate_blocks 64 md5_compress H x n"
proof (induction n arbitrary: H x)
  case (Suc n)
  then show ?case
    by (simp add: md5_block_eq Let_def md5_compress_take length_md5_compress del: One_nat_def)
qed simp

theorem md5_block_data_order_eq:
  "length H = 4 \<Longrightarrow> 64 * n \<le> length x \<Longrightarrow>
   md5_block_data_order H x n = iterate_blocks 64 md5_compress H x n"
  unfolding md5_block_data_order_def by (rule md5_loop_eq)

interpretation md5: md32 md5_block_data_order md5_compress 4
  by unfold_locales (simp_all add: length_md5_compress md5_block_data_order_eq)

section \<open>Digests\<close>

text \<open>Section 3.3: the words A, B, C and D, given there by their bytes, low-order bytes first. Then the digest.\<close>

definition md5_words :: "u32 list" where
  "md5_words =
     map (msg_word Little_Endian
            ([0x01, 0x23, 0x45, 0x67] @ [0x89, 0xab, 0xcd, 0xef] @ [0xfe, 0xdc, 0xba, 0x98] @ [0x76, 0x54, 0x32, 0x10]))
       [0, 1, 2, 3]"

definition md5_digest :: "bytes \<Rightarrow> bytes" where
  "md5_digest msg = word_bytes Little_Endian (md_hash Little_Endian md5_compress md5_words msg)"

lemma md5_words_eq: "md5_words = chain MD5_Init"
  by (simp add: md5_words_def MD5_Init_def msg_word_def be_val_Cons)

lemma md5_make_string:
  assumes "length (chain c) = 4"
  shows "md5_HASH_MAKE_STRING c = Some (word_bytes Little_Endian (chain c))"
proof -
  obtain h0 h1 h2 h3 where "chain c = [h0, h1, h2, h3]"
    using assms by (auto simp: numeral_eq_Suc length_Suc_conv)
  then show ?thesis by (simp add: md5_HASH_MAKE_STRING_def word_bytes_def HOST_l2c_eq)
qed

theorem md5_pieces:
  "\<exists>c. MD5_Final (foldl MD5_Update MD5_Init ds) = Some (Some (md5_digest (concat ds)), c)"
proof -
  have i: "length (chain MD5_Init) = 4" "md_repr md5_compress (chain MD5_Init) MD5_Init []"
    by (simp_all add: MD5_Init_def md_repr_fresh)
  then have "length (md_hash Little_Endian md5_compress (chain MD5_Init) msg) = 4" for msg
    by (simp add: md_hash_def iterate_all_def md5.iterate_length)
  with md5.hash_pieces [OF i, of Little_Endian md5_HASH_MAKE_STRING ds] show ?thesis
    by (auto simp: MD5_Final_def MD5_Update_def [abs_def] md5_digest_def md5_words_eq md5_make_string)
qed

theorem MD5_eq: "MD5 data = Some (md5_digest data)"
  using md5_pieces [of "[data]"] by (auto simp: MD5_def)

end
