(* ===== verification/Spec2Isabelle.thy ===== *)
theory Spec2Isabelle
  imports Conf CBB_Errors SetOf MBString ASN1_Time_Set OID Unicode Base64 SHA1 SHA256 SHA512 MD4 MD5 "HOL-Library.Code_Target_Nat"
begin

text \<open>
  This repository packages an iOS framework, AntViewer, with an example application. The framework is
  a binary and a Swift wrapper; the C code of the repository is what the example's pods bring with
  them, under \<open>src/Example/Pods\<close>. The largest body of it with logic of its own is BoringSSL-GRPC, the
  TLS and cryptography library below gRPC, Firestore and the other pods. This development models the
  base layer that everything in BoringSSL rests on, below written relative to
  \<open>src/Example/Pods/BoringSSL-GRPC/src/crypto\<close>, for the configuration the pod builds: \<open>size_t\<close>, \<open>long\<close>
  and pointers of 64 bits, \<open>int\<close> of 32, little-endian, \<open>char\<close> signed, and \<open>OPENSSL_NO_ASM\<close>, so that the C
  implementations are the ones in use.

  \<^bold>\<open>Parts and how they interact.\<close>

  \<^item> \<open>Prelude\<close>: machine types, big-endian values, \<open>andthen\<close> (run on an object, stop at the first failure)
    and the locales \<open>codec\<close> and \<open>canonical_codec\<close>, the contract between a reader and a writer.
  \<^item> \<open>Mem\<close>: \<open>mem.c\<close> and the byte swaps of \<open>internal.h\<close>. All other parts allocate through \<open>OPENSSL_malloc\<close>.
  \<^item> \<open>CBS\<close>, \<open>CBS_ASN1\<close>: \<open>bytestring/cbs.c\<close>, the byte-string reader and its DER and BER element parser.
    A \<open>CBS\<close> is the bytes that are left to read.
  \<^item> \<open>CBB\<close>, \<open>CBB_ASN1\<close>: \<open>bytestring/cbb.c\<close>, the builder: one buffer, and a chain of open children whose
    length prefixes are written when they are flushed. The abstract state is the stack of the contents
    written at every depth (\<open>collapse\<close> is the flush); \<open>implements\<close> is the refinement relation.
    \<open>CBB_Errors\<close> has sequences of calls on a builder, and what its error bit promises for them.
  \<^item> \<open>ASN1_Values\<close>, \<open>OID\<close>: the integer and object-identifier functions of both files, against the DER
    encodings of a number and of a list of components.
  \<^item> \<open>SetOf\<close>: \<open>CBB_flush_asn1_set_of\<close>, for which the builder, the parser and \<open>qsort\<close> work together.
  \<^item> \<open>Unicode\<close>: \<open>bytestring/unicode.c\<close>, readers and writers of code points on \<open>CBS\<close> and \<open>CBB\<close>.
  \<^item> \<open>Constant_Time\<close>, \<open>Base64\<close>: the masks of \<open>internal.h\<close>, and \<open>base64/base64.c\<close>, which is written with
    them; encoder and decoder, for whole texts and streaming.
  \<^item> \<open>Digest\<close>: the template \<open>fipsmodule/digest/md32_common.h\<close>, whose macros are arguments here, and its
    contract \<open>md32\<close>; \<open>MD4\<close>, \<open>MD5\<close>, \<open>SHA1\<close>, \<open>SHA256\<close> instantiate it with \<open>fipsmodule/md4\<close>, \<open>md5\<close> and \<open>sha\<close>;
    \<open>SHA512\<close> has a collector of its own. \<open>FIPS_180\<close> has the constants of SHA-256 as the standard describes
    them, by the roots of the first primes; the specifications of the digests use no definition of the code.
  \<^item> \<open>LHash\<close>: \<open>lhash/lhash.c\<close>, the chained hash table. \<open>hash_client\<close> is what it needs of the comparison and
    the hash of a client; \<open>lh_history\<close> is every table a client can build, with the partial map it is.
  \<^item> \<open>Stack\<close>: \<open>stack/stack.c\<close>, the growable array sorted on demand. \<open>total_cmp\<close> is what sorting and
    searching need of a comparison; \<open>sk_history\<close> is every stack a client can build.
  \<^item> \<open>Conf\<close>: the entries of \<open>conf/conf.c\<close>, a client of both: a table of sections and values in which every
    section has a stack that shares its values. \<open>conf_history\<close> is every configuration the loader builds
    out of headers and lines, with what they say.
  \<^item> \<open>String_Table\<close>: \<open>asn1/a_strnid.c\<close>, limits per object identifier: a constant table and a stack of
    additions.
  \<^item> \<open>ASN1_String\<close>: the record of all ASN.1 strings and times, and the functions of \<open>asn1/asn1_lib.c\<close> that
    make, fill and copy one.
  \<^item> \<open>MBString\<close>: \<open>asn1/a_mbstr.c\<close>, which picks the smallest string type for a text, with the readers and
    writers of \<open>Unicode\<close>, the builder of \<open>CBB\<close> and, for \<open>ASN1_STRING_set_by_NID\<close>, the limits of
    \<open>String_Table\<close>.
  \<^item> \<open>Time_Support\<close>: \<open>asn1/time_support.c\<close>, calendar arithmetic on \<open>struct tm\<close> by the formulas of Julian
    days, against a calendar of leap years and months (\<open>day_number\<close>, \<open>seconds\<close>).
  \<^item> \<open>ASN1_Time\<close>, \<open>ASN1_Time_Set\<close>: \<open>asn1/a_utctm.c\<close>, \<open>a_gentm.c\<close> and \<open>a_time.c\<close>, clients of both: parsers of
    the two time formats, against their grammars (\<open>utctime_format\<close>, \<open>generalizedtime_format\<close>), and the
    functions that set, convert, compare and subtract times. The loop over the fields is written once,
    with the tables of the file that uses it as arguments.

  \<^bold>\<open>How state and operations correspond.\<close> Definitions carry the names of the C functions (\<open>OPENSSL_lh_\<close> and
  \<open>sk_\<close> names as their files write them). A function that can fail and changes an object returns an
  \<open>outcome\<close>: an optional result and the object afterwards, on the error paths too. Where C code can
  read or write what does not exist, or an assertion can fail, an outer \<open>None\<close> stands for that, and the
  theorems state that it does not occur; in the time parsers it is the error \<open>Undefined\<close>, beside \<open>Rejected\<close>, and in
  \<open>OPENSSL_malloc\<close> a negative size, of a block too short for the prefix that is stored in it. Which allocations succeed is the parameter \<open>alloc\<close>, a
  predicate on sizes, so that every theorem that does not restrict it covers all failures. The
  contents of memory that the code leaves uninitialised are zeros or empty slots, and nothing reads
  them. Objects that C code shares by pointer are values, and where identity matters they carry an
  address (\<open>cv_addr\<close>, the handles of \<open>Entries\<close>, \<open>entry_ptr\<close>).

  \<^bold>\<open>What the lemmas show.\<close> Readers accept exactly an encoding that is written down independently of the
  code (\<open>der_element\<close>, \<open>der_int\<close>, \<open>der_oid\<close>, \<open>utf8\<close>, base-64 digits) and writers produce it, from which the
  round trips follow; an allocator that never fails makes the writers succeed, as long as the result
  fits into \<open>size_t\<close>. Failure is sticky in builders and streaming decoders, so that
  the last call reports it. The digests compute the
  functions of the standards for messages cut in any way. Hash table, stack, configuration and string
  table keep their invariants under every operation in any order, and refine a partial map, a list, a
  list of names and texts per section, and a map from identifiers to limits. A string is converted to
  the first type that can hold it, and only if its size is within the limits. Calendar arithmetic is
  exact, and no \<open>int\<close> overflows for offsets below 68 years in seconds and two billion days; a time that is
  set is read back as itself, and differences of times are differences of seconds.

  \<^bold>\<open>Bounds and termination.\<close> No fuel is used anywhere: every loop of the modelled code is a total function,
  with the measure the code has in mind (bytes left, the distance of the bounds of a search, the value
  that is shifted). Bounds that occur in theorems are those of the C types: contents below \<open>2 ^ 32\<close> bytes in
  an element, lengths below \<open>2 ^ 64\<close>, an \<open>int\<close> length in an ASN.1 string, identifiers that are not negative.

  \<^bold>\<open>What of the C library is used.\<close> \<open>malloc\<close> is \<open>alloc\<close>; \<open>qsort\<close> is a parameter with the hypothesis \<open>sorts\<close>, which
  insertion sort is shown to satisfy; \<open>gmtime_r\<close> is a parameter with the hypothesis \<open>gmtime_gives\<close> (the fields
  it returns are a calendar time as many seconds after 1970 as it was given), which \<open>gmtime_example\<close> is
  shown to satisfy; \<open>strcmp\<close>, \<open>strchr\<close>, \<open>strtoul\<close>, \<open>bsearch\<close> and the formats of \<open>printf\<close> are written out.

  \<^bold>\<open>Not modelled.\<close> Freeing and cleansing memory, error queues and locks have no result in the model. Of the
  modelled files: the lexical part of \<open>conf.c\<close> and its lists, the i386 branch of
  \<open>sha512.c\<close>, and \<open>lh_doall\<close> with callbacks that change the table. Other parts of BoringSSL (ciphers and
  modes, big numbers, curves, the template-driven ASN.1 layer, X.509, BIO, TLS), gRPC, upb, nanopb,
  abseil, leveldb, Firestore and Crashlytics are not modelled: they are C++ or Objective-C, or generated,
  or rest on files, sockets and threads, or are left for a later extension. The tables under \<open>obj\<close> and
  the precomputed points of curves are generated data.
\<close>

section \<open>Lemmas for the properties\<close>

lemma element_bounds:
  assumes "cbs_get_any_asn1_element s ber_ok = (Some (out, tag, hl), t)"
  shows "s = out @ t \<and> 2 \<le> hl \<and> hl \<le> length out"
proof -
  have "1 \<le> length (der_tag tag)" by (simp add: Suc_le_eq)
  moreover have "1 \<le> length (der_length n)" for n by (simp add: length_der_length)
  ultimately have "2 \<le> length (der_tag tag) + length (der_length n)" for n
    using add_mono [of 1 "length (der_tag tag)" 1 "length (der_length n)"] by simp
  then show ?thesis
    using cbs_get_any_asn1_element_sound [OF assms] \<open>1 \<le> length (der_tag tag)\<close>
    by (auto simp: der_element_def der_header_def)
qed

lemma add_keeps:
  assumes "buffer_ok b" "n < 2 ^ 64" "cbb_buffer_add alloc b n = (Some i, b')"
  shows "buffer_ok b' \<and> grows b b' \<and> i = length (buf b) \<and> length (buf b') = i + n"
  using add_sound [OF assms] by auto

text \<open>Concrete times: a struct to write to, a leap day, and strings that \<open>ASN1_TIME_set\<close> makes.\<close>

definition zero_tm :: tm where
  "zero_tm = \<lparr>tm_sec = 0, tm_min = 0, tm_hour = 0, tm_mday = 0, tm_mon = 0, tm_year = 0\<rparr>"

definition leap_tm :: tm where
  "leap_tm = \<lparr>tm_sec = 0, tm_min = 30, tm_hour = 1, tm_mday = 29, tm_mon = 1, tm_year = 100\<rparr>"

definition example_string :: "bytes \<Rightarrow> asn1_string" where
  "example_string ds = \<lparr>str_length = 13, str_type = V_ASN1_UTCTIME,
     str_data = Some (map (\<lambda>n. 48 + n) ds @ 90 # 0 # replicate 6 0), str_flags = 0\<rparr>"

lemma has_text_example: "length ds = 12 \<Longrightarrow> has_text (example_string ds) (map (\<lambda>n. 48 + n) ds @ [90])"
  by (simp add: has_text_def example_string_def)

lemma example_strings:
  "ASN1_TIME_set (\<lambda>_. True) gmtime_example None 0 = Some (Some (), Some (example_string [7, 0, 0, 1, 0, 1, 0, 0, 0, 0, 0, 0]))"
  "ASN1_TIME_set (\<lambda>_. True) gmtime_example None 1700000000 =
    Some (Some (), Some (example_string [2, 3, 1, 1, 1, 4, 2, 2, 1, 3, 2, 0]))"
  by code_simp+

definition example_generalized :: asn1_string where
  "example_generalized = \<lparr>str_length = 15, str_type = V_ASN1_GENERALIZEDTIME,
     str_data = Some ([50, 48, 50, 51, 49, 49, 49, 52, 50, 50, 49, 51, 50, 48, 90, 0]), str_flags = 0\<rparr>"

lemma example_converted:
  "ASN1_TIME_to_generalizedtime (\<lambda>_. True) (example_string [2, 3, 1, 1, 1, 4, 2, 2, 1, 3, 2, 0]) None =
    Some (Some example_generalized, None)"
  by code_simp

text \<open>Two INTEGERs in a builder, in the wrong order and in the right one.\<close>

definition set_of_before :: CBB where
  "set_of_before = \<lparr>base = Some \<lparr>buf = [2, 1, 5, 2, 1, 3], cap = 6, can_resize = False, error = False\<rparr>, children = []\<rparr>"

definition set_of_after :: CBB where
  "set_of_after = \<lparr>base = Some \<lparr>buf = [2, 1, 3, 2, 1, 5], cap = 6, can_resize = False, error = False\<rparr>, children = []\<rparr>"

section \<open>Properties\<close>

text \<open>
  C1: CBS_get_asn1 returns contents exactly for the inputs that start with their DER encoding under
  the tag, of contents shorter than 2^32 bytes.
\<close>

theorem get_asn1_accepts_DER:
  "CBS_get_asn1 s tag = (Some c, t) \<longleftrightarrow> length c < 2 ^ 32 \<and> s = der_element tag c @ t"
  by (rule CBS_get_asn1_iff)

text \<open>
  C2: Opening an ASN.1 child, running an operation on it and flushing implements writing the DER
  element of what the operation writes: the builder refines the abstract stack of contents.
\<close>

theorem der_child_written:
  assumes "implements alloc (Suc d) g ok c []"
  shows "implements alloc d
    (\<lambda>cbb. andthen (CBB_add_asn1 alloc d tag cbb) (\<lambda>_ cbb. andthen (g cbb) (\<lambda>_. CBB_flush alloc d)))
    (ok \<and> length c \<le> 0xfffffffe) (der_element tag c) []"
  using assms by (rule implements_element)

theorem der_child_written_witness:
  "implements (\<lambda>_. True) 0
    (\<lambda>cbb. andthen (CBB_add_asn1 (\<lambda>_. True) 0 CBS_ASN1_INTEGER cbb) (\<lambda>_ cbb.
      andthen (CBB_add_u8 (\<lambda>_. True) (Suc 0) 5 cbb) (\<lambda>_. CBB_flush (\<lambda>_. True) 0)))
    True (der_element CBS_ASN1_INTEGER [5]) []"
  using der_child_written [OF u8_writer.op_implements [OF TrueI, of "\<lambda>_. True" "Suc 0" 5], of CBS_ASN1_INTEGER] by simp

text \<open>
  C3: Whatever the allocator does, if the builder produces a string from signed 64-bit integers then
  the reader returns those integers.
\<close>

theorem int64_roundtrip:
  assumes "n < 2 ^ 64" "serialize CBB_add_asn1_int64 alloc n vs = Some out"
  shows "read_all CBS_get_asn1_int64 out = Some vs"
  using asn1_int64.roundtrip [OF assms(1) _ assms(2)] by (simp add: list_all_iff)

theorem int64_roundtrip_witness:
  "read_all CBS_get_asn1_int64 [2, 1, 5, 2, 2, 255, 0] = Some [5, - 256]"
proof (rule int64_roundtrip)
  show "(0 :: nat) < 2 ^ 64" by simp
  show "serialize CBB_add_asn1_int64 (\<lambda>_. True) 0 [5, - 256] = Some [2, 1, 5, 2, 2, 255, 0]"
    by code_simp
qed

text \<open>
  C4: With an allocator that never fails, unsigned integers are always written, as the DER encodings
  in order, as long as they fit into memory.
\<close>

theorem uint64_written:
  assumes "n < 2 ^ 64" "\<forall>k. alloc k"
    "length (concat (map (\<lambda>v. der_element CBS_ASN1_INTEGER (der_int (uint v))) vs)) < 2 ^ 64"
  shows "serialize CBB_add_asn1_uint64 alloc n vs =
    Some (concat (map (\<lambda>v. der_element CBS_ASN1_INTEGER (der_int (uint v))) vs))"
  by (rule asn1_uint64.serialize_complete) (use assms in \<open>simp_all add: list_all_iff\<close>)

theorem uint64_written_witness:
  "serialize CBB_add_asn1_uint64 (\<lambda>_. True) 0 [5] =
    Some (concat (map (\<lambda>v. der_element CBS_ASN1_INTEGER (der_int (uint v))) [5 :: u64]))"
  by (rule uint64_written) (simp_all, code_simp)

text \<open>
  C5: The unsigned integers read from a string are written as that same string: no input has a
  second reading.
\<close>

theorem uint64_reserialized:
  assumes "n < 2 ^ 64" "read_all CBS_get_asn1_uint64 s = Some vs" "\<forall>k. alloc k" "length s < 2 ^ 64"
  shows "serialize CBB_add_asn1_uint64 alloc n vs = Some s"
  by (rule asn1_uint64.reserialize [OF assms(1) _ assms(2,3,4)]) (simp add: list_all_iff)

theorem uint64_reserialized_witness:
  "serialize CBB_add_asn1_uint64 (\<lambda>_. True) 0 [5, 300] = Some [2, 1, 5, 2, 2, 1, 44]"
  by (rule uint64_reserialized) (simp_all, code_simp)

text \<open>
  C6: Whatever configuration the loader builds out of section headers and value lines, looking up a
  section gives its values in order, and looking up a name gives the value set last: hash table and
  stacks together refine a list of names and texts per section.
\<close>

theorem configuration_refined:
  assumes "conf_history conf sec sv m"
  shows "NCONF_get_string conf s (Some n) = Option.bind (m s) (\<lambda>es. map_of es n) \<and>
    map_option (map_option (\<lambda>st. map (\<lambda>v. (the (cv_name v), cv_value v)) (non_null (sk_list st)))) (NCONF_get_section conf s) =
      Some (m s)"
  using conf_history_ok [OF assms] get_string_listed [of conf s n] get_section_entries [of conf s] by simp

theorem configuration_refined_witness:
  "\<exists>conf sv m. conf_history conf default_section sv m \<and>
    NCONF_get_string conf default_section (Some [120]) = Some (Text [49])"
proof -
  let ?always = "\<lambda>_ :: nat. True"
  obtain conf0 where 0: "NCONF_new ?always False = Some conf0" using sample_conf by blast
  obtain conf1 sv where 1: "NCONF_new_section ?always conf0 default_section = Some (Some sv, conf1)"
    and "fst (the (load_value ?always conf1 default_section sv default_section [120] [49]))"
    "load_value ?always conf1 default_section sv default_section [120] [49] \<noteq> None"
    using sample_section 0 by auto
  then obtain conf2 where 2: "load_value ?always conf1 default_section sv default_section [120] [49] = Some (True, conf2)"
    by auto
  note h = conf_history.line [OF conf_history.start [OF 0 1] 2]
  from configuration_refined [OF h, of default_section "[120]"]
  have "NCONF_get_string conf2 default_section (Some [120]) = Some (Text [49])"
    by (simp add: assigned_def opened_def)
  with h show ?thesis by blast
qed

text \<open>
  C7: Whatever operations built a hash table, in whatever order and with whatever allocations
  failing, it behaves as the partial map they describe: retrieving, deleting and inserting return
  its element, an insertion that fails changes nothing, and none of them runs into the assertion.
\<close>

theorem lhash_refines_map:
  assumes "hash_client hash cmp" "lh_history hash cmp lh m"
  shows "lh_retrieve lh x = m x \<and>
    (\<exists>lh'. lh_delete alloc lh x = Some (m x, lh') \<and>
       lh_retrieve lh' = (\<lambda>y. if cmp x y = 0 then None else m y)) \<and>
    (lh_insert alloc lh x = Some (False, None, lh) \<and> m x = None \<or>
     (\<exists>lh'. lh_insert alloc lh x = Some (True, m x, lh') \<and>
        lh_retrieve lh' = (\<lambda>y. if cmp x y = 0 then Some x else m y)))"
  by (rule table_behaviour [OF assms])

theorem lhash_refines_map_witness:
  "\<exists>lh lh' v. lh_insert (\<lambda>_. True) lh v = Some (True, None, lh') \<and> lh_retrieve lh' v = Some (v :: conf_value)"
proof -
  obtain lh :: "conf_value lhash" where 0: "lh_new (\<lambda>_. True) conf_value_hash conf_value_cmp = Some lh"
    by (simp add: conf_eval)
  from lhash_refines_map [OF conf_table.hash_client_axioms lh_history.new [OF 0], of "section_key []" "\<lambda>_. True"]
  have "\<exists>lh'. lh_insert (\<lambda>_. True) lh (section_key []) = Some (True, None, lh') \<and>
      lh_retrieve lh' (section_key []) = Some (section_key [])"
    using sample_insert [OF 0, of "section_key []"] by (auto simp: conf_value_cmp_eq_0)
  then show ?thesis by blast
qed

text \<open>
  C8: On any stack built by insertion, deletion, sorting, copying and exchange of the comparison
  function, sk_find returns the index of the first element that compares equal: the binary search of
  a sorted stack finds what a linear search does.
\<close>

theorem stack_find_first:
  assumes "sk_history valid qsort call_cmp s" "sorts valid qsort" "\<And>c. total_cmp valid (call_cmp c)"
    "st_comp s = Some c" "valid p"
  shows "\<exists>r. sk_find call_cmp (Some s) (Some p) = Some r \<and>
    first_match (\<lambda>e. call_cmp c (Some p) e = 0) (sk_list s) r"
  by (rule sk_find_inv [OF sk_history_inv [OF assms(1-3)] assms(3-5)])

theorem stack_find_first_witness:
  "\<exists>s r. sk_history valid_nid insertion_sort sk_table_cmp s \<and>
    sk_find sk_table_cmp (Some s) (Some (entry 7 1 1 0 0)) = Some r \<and>
    first_match (\<lambda>e. sk_table_cmp () (Some (entry 7 1 1 0 0)) e = 0) (sk_list s) r"
proof -
  obtain s :: stable_stack where s: "sk_new (\<lambda>_. True) (Some ()) = Some s" by (simp add: conf_eval)
  then have h: "sk_history valid_nid insertion_sort sk_table_cmp s" by (rule sk_history.new)
  have "st_comp s = Some ()" using sk_new_ok [OF s] by simp
  moreover have "valid_nid (entry 7 1 1 0 0)" by (simp add: valid_nid_def entry_def)
  ultimately show ?thesis
    using stack_find_first [OF h insertion_sort_sorts table.total_cmp_axioms] h by blast
qed

text \<open>
  C9: Adding limits for an identifier that is not a standard one changes the entry of that
  identifier and no other, and the search finds every entry afterwards, the stack being sorted on
  the way. It does not do so only if an allocation fails and the identifier had no entry; the table
  is then as before, although the return value can still be one, since the result of the push is
  ignored.
\<close>

theorem string_table_added:
  assumes "table_ok stbl" "sorts valid_nid qsort" "unat n < 2 ^ 31" "n \<notin> nid ` set tbl_standard" "unat n' < 2 ^ 31"
  shows "\<exists>ok stbl1 p stbl2. ASN1_STRING_TABLE_add alloc qsort n mn mx m fl stbl = Some (ok, stbl1) \<and>
    (ok \<and> string_table stbl1 = (string_table stbl)(n \<mapsto> changed_entry n mn mx m fl (string_table stbl n)) \<or>
     string_table stbl1 = string_table stbl \<and> string_table stbl n = None \<and> (\<exists>k. \<not> alloc k)) \<and>
    ASN1_STRING_TABLE_get qsort n' stbl1 = Some (p, stbl2) \<and>
    Option.bind p (entry_at stbl2) = string_table stbl1 n'"
proof -
  have "\<exists>ok stbl1. ASN1_STRING_TABLE_add alloc qsort n mn mx m fl stbl = Some (ok, stbl1) \<and> table_ok stbl1 \<and>
    (ok \<and> string_table stbl1 = (string_table stbl)(n \<mapsto> changed_entry n mn mx m fl (string_table stbl n)) \<or>
     string_table stbl1 = string_table stbl \<and> string_table stbl n = None \<and> (\<exists>k. \<not> alloc k))"
    by (rule add_ok [OF assms(1-4), of alloc mn mx m fl]) (auto simp: same_table_def)
  then obtain ok stbl1 where a: "ASN1_STRING_TABLE_add alloc qsort n mn mx m fl stbl = Some (ok, stbl1)" "table_ok stbl1"
    "ok \<and> string_table stbl1 = (string_table stbl)(n \<mapsto> changed_entry n mn mx m fl (string_table stbl n)) \<or>
     string_table stbl1 = string_table stbl \<and> string_table stbl n = None \<and> (\<exists>k. \<not> alloc k)" by blast
  with get_ok [OF a(2) assms(2,5)] show ?thesis by metis
qed

theorem string_table_added_witness:
  "\<exists>stbl1 p stbl2. ASN1_STRING_TABLE_add (\<lambda>_. True) insertion_sort 5000 1 9 B_ASN1_IA5STRING 0 None = Some (True, stbl1) \<and>
    ASN1_STRING_TABLE_get insertion_sort 5000 stbl1 = Some (p, stbl2) \<and>
    Option.bind p (entry_at stbl2) = Some (entry 5000 1 9 B_ASN1_IA5STRING STABLE_FLAGS_MALLOC)"
proof -
  have n: "(5000 :: u32) \<notin> nid ` set tbl_standard" "string_table None 5000 = None"
    by (simp_all add: string_table_def all_entries_def added_def tbl_standard_def entry_def)
  have e: "changed_entry 5000 1 9 B_ASN1_IA5STRING 0 None = entry 5000 1 9 B_ASN1_IA5STRING STABLE_FLAGS_MALLOC"
    by (simp add: changed_entry_def)
  show ?thesis
    using string_table_added [OF table_ok_init insertion_sort_sorts _ n(1), of 5000 "\<lambda>_. True" 1 9 B_ASN1_IA5STRING 0]
    by (auto simp: n e)
qed

text \<open>
  C10: When ASN1_mbstring_ncopy succeeds, the input decodes to valid characters, and the string it
  leaves is their encoding, with its length, under the first of PrintableString, IA5String,
  T61String, BMPString and UniversalString that the mask permits and that holds them all, and under
  UTF8String if there is none, whether the mask permits that one or not. A PrintableString holds the
  characters of its alphabet in X.680 and NUL.
\<close>

theorem mbstring_smallest:
  assumes "ASN1_mbstring_ncopy alloc out mem len inform m mn mx = Some (t, Object d)" "t \<noteq> - 1"
    "mb_input mem len = Some src" "len < 2 ^ 31" "decoder_of inform = Some decode"
  shows "\<exists>vs. read_all decode src = Some vs \<and> list_all (\<lambda>c. code_point (unat c)) vs \<and>
    smallest_type (effective_mask m) vs t \<and> string_of t vs d"
  by (rule mbstring_sound [OF assms])

theorem mbstring_smallest_witness:
  "\<exists>t d vs. ASN1_mbstring_ncopy (\<lambda>_. True) Null [72, 105] 2 MBSTRING_UTF8 B_ASN1_PRINTABLESTRING 0 0 = Some (t, Object d) \<and>
    smallest_type (effective_mask B_ASN1_PRINTABLESTRING) vs t \<and> string_of t vs d"
proof -
  obtain t d where r: "ASN1_mbstring_ncopy (\<lambda>_. True) Null [72, 105] 2 MBSTRING_UTF8 B_ASN1_PRINTABLESTRING 0 0 =
      Some (t, Object d)" "t \<noteq> - 1"
    using sample_printable by blast
  from mbstring_smallest [OF r sample_input _ sample_decoder] r(1) show ?thesis by auto
qed

text \<open>
  C11: With memory and an input that decodes, without a byte-order mark, to characters that some
  permitted type can hold, and sizes within the limits, ASN1_mbstring_ncopy succeeds.
\<close>

theorem mbstring_accepted:
  assumes "decoder_of inform = Some decode" "mb_input mem len = Some src" "len < 2 ^ 31"
    "len \<noteq> - 1 \<or> 0 \<in> set mem" "read_all decode src = Some vs" "\<not> starts_with_BOM inform vs"
    "p \<in> set (string_types @ [V_ASN1_UTF8STRING])" "bit (effective_mask m) (type_bit p)" "list_all (type_holds p) vs"
    "sint mn > 0 \<longrightarrow> unat mn \<le> length vs" "sint mx > 0 \<longrightarrow> length vs \<le> unat mx"
    "out = Null \<or> (\<exists>d. out = Object d)" "\<forall>k. alloc k" "4 * length vs < 2 ^ 31 - 1"
  shows "\<exists>t d. ASN1_mbstring_ncopy alloc out mem len inform m mn mx = Some (t, Object d) \<and> t \<noteq> - 1"
  by (rule mbstring_complete [OF assms])

theorem mbstring_accepted_witness:
  "\<exists>t d. ASN1_mbstring_ncopy (\<lambda>_. True) Null [72, 105] 2 MBSTRING_UTF8 B_ASN1_UTF8STRING 0 0 = Some (t, Object d) \<and> t \<noteq> - 1"
proof (rule mbstring_accepted [OF sample_decoder sample_input _ _ sample_read])
  show "V_ASN1_UTF8STRING \<in> set (string_types @ [V_ASN1_UTF8STRING])" by simp
  show "bit (effective_mask B_ASN1_UTF8STRING) (type_bit V_ASN1_UTF8STRING)"
    by (simp add: sample_string_types)
  show "list_all (type_holds V_ASN1_UTF8STRING) [72, 105]" by (simp add: sample_string_types)
qed (simp_all add: starts_with_BOM_def)

text \<open>
  C12: When ASN1_STRING_set_by_NID succeeds for a country name, the string is a PrintableString of
  exactly two characters, each of the alphabet of PrintableString in X.680 or NUL, whatever the
  global mask: table, size limits and conversion compose.
\<close>

theorem country_name:
  assumes "ASN1_STRING_set_by_NID alloc qsort gm out mem len inform 14 stbl = Some (Object d, stbl')"
    "mb_input mem len = Some src" "len < 2 ^ 31" "decoder_of inform = Some decode"
  shows "\<exists>a b. read_all decode src = Some [a, b] \<and> str_type d = V_ASN1_PRINTABLESTRING \<and>
    list_all (\<lambda>c. c = 0 \<or> printable c) [a, b] \<and> str_data d = Some [ucast a, ucast b, 0] \<and> str_length d = 2"
  using country_string [OF assms] by simp

theorem country_name_witness:
  "\<exists>d a b. ASN1_STRING_set_by_NID (\<lambda>_. True) insertion_sort 0 Absent [72, 105] 2 MBSTRING_UTF8 14 None = Some (Object d, None) \<and>
    str_type d = V_ASN1_PRINTABLESTRING \<and> str_data d = Some [ucast (a :: u32), ucast (b :: u32), 0]"
proof -
  obtain d where r: "ASN1_STRING_set_by_NID (\<lambda>_. True) insertion_sort 0 Absent [72, 105] 2 MBSTRING_UTF8 14 None =
      Some (Object d, None)"
    using sample_country by blast
  from country_name [OF r sample_input _ sample_decoder] r show ?thesis by auto
qed

text \<open>
  C13: If gmtime_r gives the struct tm of a time_t, with its year between -4799 and 991900, for an
  offset of at most 2*10^9 days and at most 2^31-1 seconds either way, a string that is NULL or
  well-formed, and a sum of time and offset in the years 1900 to 9999: ASN1_TIME_adj makes a string,
  UTCTime exactly for 1950 to 2049, from which the parser reads the exact time; it fails only for
  want of memory, and then the string is as before.
\<close>

theorem time_read_back:
  assumes "gmtime_gives gmtime_r t ts" "offset_ok off_day offset_sec" "usable s"
    and "in_range (epoch + t + 86400 * off_day + offset_sec)"
  shows "(\<exists>d ts'. ASN1_TIME_adj alloc gmtime_r s t off_day offset_sec = Some (Some (), Some d) \<and>
      asn1_time_to_tm gmtime_r now tm (Some d) = (Inr (), Some ts') \<and>
      valid_tm ts' \<and> seconds ts' = epoch + t + 86400 * off_day + offset_sec \<and>
      str_type d = (if 50 \<le> tm_year ts' \<and> tm_year ts' < 150 then V_ASN1_UTCTIME else V_ASN1_GENERALIZEDTIME)) \<or>
    ASN1_TIME_adj alloc gmtime_r s t off_day offset_sec = Some (None, s) \<and> (\<exists>n. \<not> alloc n)"
proof (rule ASN1_TIME_adj_eq [OF assms, of alloc])
  fix d ts'
  assume a: "ASN1_TIME_adj alloc gmtime_r s t off_day offset_sec = Some (Some (), Some d)" "time_string d ts'"
    "seconds ts' = epoch + t + 86400 * off_day + offset_sec"
  with time_string_read [OF a(2), of gmtime_r now tm] show ?thesis
    by (auto simp: time_string_def)
qed simp

theorem time_read_back_witness:
  "(\<exists>d ts'. ASN1_TIME_adj (\<lambda>_. True) gmtime_example None 1700000000 (- 30000) 45 = Some (Some (), Some d) \<and>
      asn1_time_to_tm gmtime_example 0 zero_tm (Some d) = (Inr (), Some ts') \<and>
      valid_tm ts' \<and> seconds ts' = epoch + 1700000000 + 86400 * (- 30000) + 45 \<and>
      str_type d = (if 50 \<le> tm_year ts' \<and> tm_year ts' < 150 then V_ASN1_UTCTIME else V_ASN1_GENERALIZEDTIME)) \<or>
    ASN1_TIME_adj (\<lambda>_. True) gmtime_example None 1700000000 (- 30000) 45 = Some (None, None) \<and> (\<exists>n::nat. \<not> True)"
proof -
  have "in_range (epoch + 1700000000)" by (simp add: in_range_def epoch_eq year_starts)
  then obtain ts where "gmtime_gives gmtime_example 1700000000 ts" by (rule gmtime_example_gives)
  then show ?thesis
    by (rule time_read_back) (simp_all add: offset_ok_def usable_def in_range_def epoch_eq year_starts)
qed

text \<open>
  C14: Two strings that ASN1_TIME_set made, in objects of the caller or its own, of times in the
  years 1900 to 9999 for which gmtime_r gives the struct tm, are the exact number of seconds apart
  that ASN1_TIME_diff gives, as days and seconds of the same sign.
\<close>

theorem time_difference:
  assumes "gmtime_gives gmtime_r t ts" "gmtime_gives gmtime_r u us" "in_range (epoch + t)" "in_range (epoch + u)"
    and "usable s" "ASN1_TIME_set alloc gmtime_r s t = Some (Some (), Some a)"
    and "usable s'" "ASN1_TIME_set alloc gmtime_r s' u = Some (Some (), Some b)"
  shows "\<exists>days secs. ASN1_TIME_diff gmtime_r now tm (Some a) (Some b) = Some (Some (days, secs)) \<and>
    86400 * days + secs = u - t \<and> \<bar>secs\<bar> < 86400 \<and> (0 < days \<longrightarrow> 0 \<le> secs) \<and> (days < 0 \<longrightarrow> secs \<le> 0)"
proof -
  obtain ta where a: "time_string a ta" "seconds ta = epoch + t" by (rule ASN1_TIME_set_string_of [OF assms(1,3,5,6)])
  obtain tb where b: "time_string b tb" "seconds tb = epoch + u" by (rule ASN1_TIME_set_string_of [OF assms(2,4,7,8)])
  show ?thesis by (rule time_string_diff [OF a(1) b(1), of gmtime_r now tm]) (use a(2) b(2) in auto)
qed

theorem time_difference_witness:
  "\<exists>days secs. ASN1_TIME_diff gmtime_example 0 zero_tm (Some (example_string [7, 0, 0, 1, 0, 1, 0, 0, 0, 0, 0, 0]))
      (Some (example_string [2, 3, 1, 1, 1, 4, 2, 2, 1, 3, 2, 0])) = Some (Some (days, secs)) \<and>
    86400 * days + secs = 1700000000 - 0 \<and> \<bar>secs\<bar> < 86400 \<and> (0 < days \<longrightarrow> 0 \<le> secs) \<and> (days < 0 \<longrightarrow> secs \<le> 0)"
proof -
  have r: "in_range (epoch + 0)" "in_range (epoch + 1700000000)" by (simp_all add: in_range_def epoch_eq year_starts)
  obtain ts us where g: "gmtime_gives gmtime_example 0 ts" "gmtime_gives gmtime_example 1700000000 us"
    by (meson gmtime_example_gives r)
  have "usable None" by (simp add: usable_def)
  show ?thesis by (rule time_difference [OF g r \<open>usable None\<close> example_strings(1) \<open>usable None\<close> example_strings(2)])
qed

text \<open>
  C15: ASN1_TIME_check of a terminated string accepts exactly the formats of its type, UTCTime or
  GeneralizedTime, written down by their fields, fraction and zone, and never reads behind the
  terminator. The formats are what the code accepts: day 31 in any month, and a GeneralizedTime
  without any zone, which a comment in a_gentm.c calls an error.
\<close>

theorem times_accepted:
  assumes "has_text d b"
  shows "ASN1_TIME_check d =
    (if str_type d = V_ASN1_UTCTIME \<and> utctime_format b \<or> str_type d = V_ASN1_GENERALIZEDTIME \<and> generalizedtime_format b
     then Inr () else Inl Rejected)"
  using utctime_check_eq [OF assms] generalizedtime_check_eq [OF assms]
  by (auto simp: ASN1_TIME_check_def V_ASN1_UTCTIME_def V_ASN1_GENERALIZEDTIME_def)

theorem times_accepted_witness:
  "ASN1_TIME_check (example_string [2, 3, 1, 3, 1, 4, 2, 2, 1, 3, 2, 0]) =
    (if str_type (example_string [2, 3, 1, 3, 1, 4, 2, 2, 1, 3, 2, 0]) = V_ASN1_UTCTIME \<and>
        utctime_format [50, 51, 49, 51, 49, 52, 50, 50, 49, 51, 50, 48, 90] \<or>
        str_type (example_string [2, 3, 1, 3, 1, 4, 2, 2, 1, 3, 2, 0]) = V_ASN1_GENERALIZEDTIME \<and>
        generalizedtime_format [50, 51, 49, 51, 49, 52, 50, 50, 49, 51, 50, 48, 90]
     then Inr () else Inl Rejected)"
  using times_accepted [OF has_text_example [of "[2, 3, 1, 3, 1, 4, 2, 2, 1, 3, 2, 0]"]] by simp

text \<open>
  C16: The GeneralizedTime that ASN1_TIME_to_generalizedtime makes of a UTCTime string, century
  prepended, in a new string or in a well-formed one of the caller whose type is GeneralizedTime
  already, is read as the same time with the same result, offsets included.
\<close>

theorem same_generalizedtime:
  assumes "has_text t b" "str_type t = V_ASN1_UTCTIME" "\<And>r. out = Some (Some r) \<Longrightarrow> str_ok r \<and> str_type r = V_ASN1_GENERALIZEDTIME"
    and "ASN1_TIME_to_generalizedtime alloc t out = Some (Some ret, out')"
  shows "str_type ret = V_ASN1_GENERALIZEDTIME \<and> asn1_generalizedtime_to_tm tm ret = asn1_utctime_to_tm tm t"
proof -
  have "ASN1_UTCTIME_check t = Inr ()"
    using assms(2,4)
    by (auto simp: ASN1_TIME_to_generalizedtime_def ASN1_TIME_check_def V_ASN1_UTCTIME_def V_ASN1_GENERALIZEDTIME_def
        split: sum.splits parse_error.splits)
  then have "utctime_format b" using utctime_check_eq [OF assms(1,2)] by (simp split: if_splits)
  then obtain y mo d h mi s z where f: "0 \<le> y" "y \<le> 99" "clock_ok mo d h mi s z" "b = utctime_text y mo d h mi s z"
    by (auto simp: utctime_format_def)
  from to_generalizedtime_same [OF assms(1) [unfolded f(4)] assms(2) f(1-3) assms(4,3)] show ?thesis by simp
qed

theorem same_generalizedtime_witness:
  "str_type example_generalized = V_ASN1_GENERALIZEDTIME \<and>
    asn1_generalizedtime_to_tm (Some zero_tm) example_generalized =
    asn1_utctime_to_tm (Some zero_tm) (example_string [2, 3, 1, 1, 1, 4, 2, 2, 1, 3, 2, 0])"
  by (rule same_generalizedtime [OF has_text_example _ _ example_converted]) (simp_all add: example_string_def)

text \<open>
  C17: OPENSSL_gmtime_adj gives the one calendar time that is exactly the offset away, and fails,
  changing nothing, exactly if that lies outside the years 1900 to 9999; no int overflows within the
  stated bounds of time and offset.
\<close>

theorem time_adjusted:
  assumes "valid_tm t" "- 6699 \<le> tm_year t" "tm_year t \<le> 990000" "offset_ok off_day offset_sec"
  shows "if in_range (seconds t + 86400 * off_day + offset_sec)
    then \<exists>!t'. OPENSSL_gmtime_adj t off_day offset_sec = Some (Some (), t') \<and> valid_tm t' \<and>
      seconds t' = seconds t + 86400 * off_day + offset_sec
    else OPENSSL_gmtime_adj t off_day offset_sec = Some (None, t)"
  using gmtime_adj [OF assms(1-3), of off_day offset_sec] assms(4) by (auto simp: offset_ok_def target_def)

theorem time_adjusted_witness:
  "if in_range (seconds leap_tm + 86400 * 366 + (- 7200))
    then \<exists>!t'. OPENSSL_gmtime_adj leap_tm 366 (- 7200) = Some (Some (), t') \<and> valid_tm t' \<and>
      seconds t' = seconds leap_tm + 86400 * 366 + (- 7200)
    else OPENSSL_gmtime_adj leap_tm 366 (- 7200) = Some (None, leap_tm)"
  by (rule time_adjusted) (simp_all add: leap_tm_def offset_ok_def valid_tm_def valid_date_def days_in_month_def leap_def)

text \<open>
  C18: CBB_flush_asn1_set_of never fails its assertion, and when it succeeds on contents at any
  depth they were a sequence of DER elements and are now the same elements in the ascending order
  that DER prescribes for SET OF, everything around them unchanged.
\<close>

theorem set_of_arranged:
  assumes "sorts (\<lambda>_. True) qsort" "models cbb (c, ks)" "d \<le> length ks"
  shows "CBB_flush_asn1_set_of alloc qsort d cbb \<noteq> None \<and>
    (\<forall>cbb'. CBB_flush_asn1_set_of alloc qsort d cbb = Some (Some (), cbb') \<longrightarrow>
      (\<exists>es es'. der_elements es \<and> contents_at d (c, ks) = concat es \<and> mset es' = mset es \<and>
        sorted_wrt lexordp_eq es' \<and> models cbb' (replace_at d (concat es') (c, ks))))"
  using flush_set_of_sound [OF assms] by blast

theorem set_of_arranged_witness:
  "CBB_flush_asn1_set_of (\<lambda>_. True) insertion_sort 0 set_of_before = Some (Some (), set_of_after) \<and>
    (\<exists>es es'. der_elements es \<and> contents_at 0 ([2, 1, 5, 2, 1, 3], []) = concat es \<and> mset es' = mset es \<and>
      sorted_wrt lexordp_eq es' \<and> models set_of_after (replace_at 0 (concat es') ([2, 1, 5, 2, 1, 3], [])))"
proof -
  have e: "CBB_flush_asn1_set_of (\<lambda>_. True) insertion_sort 0 set_of_before = Some (Some (), set_of_after)" by code_simp
  have m: "models set_of_before ([2, 1, 5, 2, 1, 3], [])"
    by (simp add: models_def set_of_before_def buffer_ok_def)
  from set_of_arranged [OF insertion_sort_sorts m, of 0 "\<lambda>_. True"] e show ?thesis by blast
qed

text \<open>
  C19: An element the parser returns, BER header included, is a non-empty prefix of the input, the
  reader is left behind it, and the header length does not exceed it.
\<close>

theorem element_within_input:
  assumes "cbs_get_any_asn1_element s ber_ok = (Some (out, tag, header_len), t)"
  shows "s = out @ t \<and> 2 \<le> header_len \<and> header_len \<le> length out"
  using element_bounds [OF assms] .

theorem element_within_input_witness:
  "[4, 1, 7, 9] = [4, 1, 7 :: u8] @ [9] \<and> 2 \<le> (2 :: nat) \<and> 2 \<le> length [4, 1, 7 :: u8]"
proof (rule element_within_input)
  show "cbs_get_any_asn1_element [4, 1, 7, 9] False = (Some ([4, 1, 7], 4, 2), [9])" by code_simp
qed

text \<open>
  C20: In any sequence of flushes, additions of words, bytes, space, children and ASN.1 values, each
  made on an open object of a builder until one fails, every call after the first failure fails as
  well, and then so does CBB_finish: a caller who only looks at the result of CBB_finish misses no
  error.
\<close>

theorem errors_are_caught:
  assumes "calls_open alloc cs cbb" "run_calls alloc cs cbb = (oks, t)"
  shows "\<exists>n \<le> length cs. oks = replicate n True @ replicate (length cs - n) False \<and>
    (n < length cs \<longrightarrow> fst (CBB_finish alloc d t out) = None)"
  using first_failure [OF assms] finish_failed [of t alloc d out] by blast

theorem errors_are_caught_witness:
  "\<exists>n \<le> length [Add_u8 0 7, Add_u16 0 8, Add_u8 0 9]. [True, False, False] =
      replicate n True @ replicate (length [Add_u8 0 7, Add_u16 0 8, Add_u8 0 9] - n) False \<and>
    (n < length [Add_u8 0 7, Add_u16 0 8, Add_u8 0 9] \<longrightarrow>
      fst (CBB_finish (\<lambda>_. True) 0
        \<lparr>base = Some \<lparr>buf = [7], cap = 1, can_resize = False, error = True\<rparr>, children = []\<rparr> True) = None)"
  by (rule errors_are_caught [where cbb =
      "\<lparr>base = Some \<lparr>buf = [], cap = 1, can_resize = False, error = False\<rparr>, children = []\<rparr>"])
    (simp_all add: tested_def CBB_add_u8_def CBB_add_u16_def cbb_add_u_def CBB_flush_def cbb_flush_chain.simps
      on_base_def cbb_buffer_add_u_def cbb_buffer_add_def cbb_buffer_reserve_def size_add_def Let_def)

text \<open>
  C21: Adding to a buffer keeps its invariant: no error, the length within the capacity, the
  capacity a size_t; a fixed buffer keeps its capacity, so nothing is written past it.
\<close>

theorem buffer_add_invariant:
  assumes "buffer_ok b" "n < 2 ^ 64" "cbb_buffer_add alloc b n = (Some i, b')"
  shows "buffer_ok b' \<and> grows b b' \<and> i = length (buf b) \<and> length (buf b') = i + n"
  using add_keeps [OF assms] .

theorem buffer_add_invariant_witness:
  "buffer_ok \<lparr>buf = [1, 0, 0], cap = 4, can_resize = False, error = False\<rparr> \<and>
   grows \<lparr>buf = [1], cap = 4, can_resize = False, error = False\<rparr> \<lparr>buf = [1, 0, 0], cap = 4, can_resize = False, error = False\<rparr> \<and>
   (1 :: nat) = length [1 :: u8] \<and> length [1, 0, 0 :: u8] = 1 + 2"
  using buffer_add_invariant [of "\<lparr>buf = [1], cap = 4, can_resize = False, error = False\<rparr>" "Suc (Suc 0)" "\<lambda>_. True" 1
    "\<lparr>buf = [1, 0, 0], cap = 4, can_resize = False, error = False\<rparr>"]
  by (simp add: buffer_ok_def cbb_buffer_add_def cbb_buffer_reserve_def grows_def size_add_def Let_def)

text \<open>
  C22: The text of an object identifier is given for exactly the DER contents of valid identifiers,
  and is their dotted form.
\<close>

theorem oid_text_read:
  assumes "\<forall>k. alloc k" "length str < 2 ^ 64"
  shows "CBS_asn1_oid_to_text alloc s = Some str \<longleftrightarrow>
    (\<exists>oid. valid_oid oid \<and> s = der_oid oid \<and> str = dotted oid @ [0])"
  using oid_to_text_sound [of alloc s str] oid_to_text_complete [OF _ assms(1)] assms(2) by auto

theorem oid_text_read_witness:
  "CBS_asn1_oid_to_text (\<lambda>_. True) [42, 3] = Some [49, 46, 50, 46, 51, 0] \<longleftrightarrow>
    (\<exists>oid. valid_oid oid \<and> [42, 3] = der_oid oid \<and> [49, 46, 50, 46, 51, 0] = dotted oid @ [0])"
  by (rule oid_text_read) simp_all

text \<open>
  C23: An identifier read as text and built from that text is the one that was read.
\<close>

theorem oid_roundtrip:
  assumes "CBS_asn1_oid_to_text alloc s = Some str" "n < 2 ^ 64"
    "build alloc' n (CBB_add_asn1_oid_from_text alloc' 0 (butlast str)) = Some out"
  shows "out = s"
proof -
  obtain oid where o: "valid_oid oid" "s = der_oid oid" "str = dotted oid @ [0]"
    using oid_to_text_sound [OF assms(1)] by blast
  from build_sound [OF implements_oid_from_text [OF o(1)] assms(2), of alloc' out] assms(3) o
  show ?thesis by simp
qed

theorem oid_roundtrip_witness: "[42, 3] = ([42, 3] :: bytes)"
proof (rule oid_roundtrip)
  show "CBS_asn1_oid_to_text (\<lambda>_. True) [42, 3] = Some [49, 46, 50, 46, 51, 0]" by code_simp
  show "(0 :: nat) < 2 ^ 64" by simp
  show "build (\<lambda>_. True) 0 (CBB_add_asn1_oid_from_text (\<lambda>_. True) 0 (butlast [49, 46, 50, 46, 51, 0])) = Some [42, 3]"
    by code_simp
qed

text \<open>
  C24: The UTF-8 reader accepts exactly the shortest encodings of the code points that the library
  calls valid.
\<close>

theorem utf8_accepted:
  "cbs_get_utf8 s = (Some v, t) \<longleftrightarrow> code_point (unat v) \<and> s = utf8 (unat v) @ t"
  by (rule utf8_codec.rd_iff)

text \<open>
  C25: A string written with cbb_add_utf8 is read back by cbs_get_utf8.
\<close>

theorem utf8_roundtrip:
  assumes "n < 2 ^ 64" "serialize cbb_add_utf8 alloc n us = Some out"
  shows "read_all cbs_get_utf8 out = Some us"
  using utf8_codec.roundtrip [OF assms(1) _ assms(2)] by (simp add: list_all_iff)

theorem utf8_roundtrip_witness: "read_all cbs_get_utf8 [0x41, 0xc3, 0xa9] = Some [0x41, 0xe9]"
proof (rule utf8_roundtrip)
  show "(0 :: nat) < 2 ^ 64" by simp
  show "serialize cbb_add_utf8 (\<lambda>_. True) 0 [0x41, 0xe9] = Some [0x41, 0xc3, 0xa9]" by code_simp
qed

text \<open>
  C26: EVP_DecodeBase64 succeeds exactly when the text is padded base64 and the output buffer is as
  long as the text may need, and writes the bytes it stands for.
\<close>

theorem base64_decoded:
  "EVP_DecodeBase64 dst max_out inp = (Some n, dst') \<longleftrightarrow>
     length inp div 4 * 3 \<le> max_out \<and>
     (\<exists>x. base64_decodes inp x \<and> n = length x \<and> dst' = memcpy dst 0 x)"
  by (rule EVP_DecodeBase64_iff)

text \<open>
  C27: EVP_EncodeBlock writes the base64 text of its input and a NUL, and returns the length of the
  text; the text decodes to the input and to nothing else.
\<close>

theorem base64_encoded:
  "EVP_EncodeBlock dst off src = (length (base64 src), memcpy dst off (base64 src @ [0])) \<and>
   (\<forall>x. base64_decodes (base64 src) x \<longleftrightarrow> x = src)"
  using base64_decodes_base64 base64_decodes_unique by (auto simp: EVP_EncodeBlock_eq)

text \<open>
  C28: EVP_EncodedLength returns the length of the base64 text with its NUL, and fails exactly when
  that does not fit into size_t.
\<close>

theorem encoded_length_bound:
  "EVP_EncodedLength len =
     (if 4 * ((unat len + 2) div 3) + 1 < 2 ^ 64 then Some (of_nat (4 * ((unat len + 2) div 3) + 1)) else None)"
proof (cases "4 * ((unat len + 2) div 3) + 1 < 2 ^ 64")
  case True
  then have "unat (of_nat (4 * ((unat len + 2) div 3) + 1) :: u64) = 4 * ((unat len + 2) div 3) + 1"
    unfolding unat_of_nat by simp
  with True EVP_EncodedLength_Some show ?thesis by (simp only: if_True)
next
  case False
  then have "EVP_EncodedLength len \<noteq> Some r" for r using EVP_EncodedLength_Some [of len r] by blast
  then have "EVP_EncodedLength len = None" by (metis not_None_eq)
  with False show ?thesis by simp
qed

text \<open>
  C29: Encoding in any pieces gives the lines of the whole text: the calls to EVP_EncodeUpdate and
  the final one together write what one encoder of the concatenation would.
\<close>

theorem streaming_base64:
  assumes "\<forall>inp \<in> set inps. 65 * (length inp div 48 + 1) \<le> INT_MAX"
  shows "encode_run EVP_EncodeInit inps = Some (pem_text (concat inps))"
  using encode_run_eq [OF encoding_init(1) assms] by (simp add: encoding_init(2))

theorem streaming_base64_witness:
  "encode_run EVP_EncodeInit [[1, 2], [], [3]] = Some (pem_text [1, 2, 3])"
  using streaming_base64 [of "[[1, 2], [], [3]]"] by simp

text \<open>
  C30: What the streaming encoder writes, the streaming decoder reads back, line ends included.
\<close>

theorem pem_roundtrip:
  assumes "\<forall>inp \<in> set inps. 65 * (length inp div 48 + 1) \<le> INT_MAX" "length (concat inps) \<le> INT_MAX"
    "encode_run EVP_EncodeInit inps = Some str"
  shows "\<exists>r ctx. EVP_DecodeUpdate EVP_DecodeInit dst str =
    (r, length (concat inps), memcpy dst 0 (concat inps), ctx) \<and> r \<noteq> - 1 \<and> EVP_DecodeFinal ctx = (1, 0)"
proof -
  have "str = pem_text (concat inps)"
    using encode_run_eq [OF encoding_init(1) assms(1)] assms(3) by (simp add: encoding_init(2))
  then have "base64_decodes (unwhite str) (concat inps)"
    by (simp add: unwhite_pem_text base64_decodes_base64)
  with decode_run_iff [of dst str "length (concat inps)" "memcpy dst 0 (concat inps)"] assms(2)
  show ?thesis by blast
qed

theorem pem_roundtrip_witness:
  "\<exists>r ctx. EVP_DecodeUpdate EVP_DecodeInit [0, 0, 0] (pem_text [1, 2, 3]) =
    (r, length (concat [[1, 2], [3 :: u8]]), memcpy [0, 0, 0] 0 (concat [[1, 2], [3]]), ctx) \<and>
    r \<noteq> - 1 \<and> EVP_DecodeFinal ctx = (1, 0)"
  by (rule pem_roundtrip)
    (use encode_run_eq [OF encoding_init(1), of "[[1, 2], [3]]"] in \<open>simp_all add: encoding_init(2)\<close>)

text \<open>
  C31: A decoder that has met an error stays in error: EVP_DecodeUpdate returns -1 exactly when the
  context is in error afterwards, and from then on every call fails without writing.
\<close>

theorem decode_errors:
  assumes "EVP_DecodeUpdate ctx dst inp = (r, n, dst', ctx')"
  shows "(r = - 1 \<longleftrightarrow> error_encountered ctx') \<and>
    (r = - 1 \<longrightarrow> EVP_DecodeUpdate ctx' dst2 inp2 = (- 1, 0, dst2, ctx') \<and> EVP_DecodeFinal ctx' = (- 1, 0))"
  using EVP_DecodeUpdate_error [OF assms] EVP_DecodeUpdate_sticky [of ctx' dst2 inp2] by simp

theorem decode_errors_witness:
  "\<exists>r n dst' ctx'. EVP_DecodeUpdate EVP_DecodeInit [0, 0, 0] [63, 63, 63, 63] = (r, n, dst', ctx') \<and>
    (r = - 1 \<longrightarrow> EVP_DecodeFinal ctx' = (- 1, 0))"
proof -
  obtain r n dst' ctx' where u: "EVP_DecodeUpdate EVP_DecodeInit [0, 0, 0] [63, 63, 63, 63] = (r, n, dst', ctx')"
    by (metis prod_cases4)
  with decode_errors [OF u] show ?thesis by blast
qed

text \<open>
  C32: SHA256 and SHA224 return the digests of FIPS 180-4 for every input, with the bit count modulo
  2^64 as its length: functions, constants and initial values are those of the standard, the latter
  from the roots of the first primes.
\<close>

theorem sha256_computed:
  "SHA256 data = Some (sha256_digest data) \<and> SHA224 data = Some (sha224_digest data)"
  by (simp add: SHA256_eq SHA224_eq)

text \<open>
  C33: However a message is cut into updates, finishing a SHA-256 or SHA-224 context gives the
  truncated hash of the whole message, and fails exactly for an md_len over 32.
\<close>

theorem sha256_streaming:
  assumes "length st = 8" "md_repr sha256_compress st c []"
  shows "\<exists>c'. SHA256_Final (foldl SHA256_Update c ds) =
      Some (if md_len c \<le> 32
            then Some (word_bytes Big_Endian
              (take (md_len c div 4) (md_hash Big_Endian sha256_compress st (concat ds))))
            else None, c')"
  using assms by (rule sha256_pieces)

theorem sha256_streaming_witness:
  "\<exists>c'. SHA256_Final (foldl SHA256_Update SHA224_Init [[1, 2], [3]]) =
      Some (if md_len SHA224_Init \<le> 32
            then Some (word_bytes Big_Endian (take (md_len SHA224_Init div 4)
              (md_hash Big_Endian sha256_compress (chain SHA224_Init) (concat [[1, 2], [3]]))))
            else None, c')"
  by (rule sha256_streaming) (simp_all add: SHA224_Init_def md_repr_fresh)

text \<open>
  C34: The update of the digest collector keeps its invariant: the chaining value is that of the
  complete blocks, the buffer holds the rest, num is its length and Nh, Nl count the bits modulo
  2^64.
\<close>

theorem collector_invariant:
  assumes "length st = 5" "md_repr sha1_compress st c msg"
  shows "md_repr sha1_compress st (HASH_UPDATE sha1_block_data_order c data) (msg @ data)"
  using assms by (rule sha1.HASH_UPDATE_repr)

theorem collector_invariant_witness:
  "md_repr sha1_compress (chain SHA1_Init) (HASH_UPDATE sha1_block_data_order SHA1_Init [1, 2, 3]) ([] @ [1, 2, 3])"
  by (rule collector_invariant) (simp_all add: SHA1_Init_def md_repr_fresh)

text \<open>
  C35: SHA-1 in any pieces: the digest of FIPS 180-4 of the concatenation, with its initial value,
  constants and functions, and the bit count modulo 2^64 as the length.
\<close>

theorem sha1_computed:
  "\<exists>c. SHA1_Final (foldl SHA1_Update SHA1_Init ds) = Some (Some (sha1_digest (concat ds)), c)"
  by (rule sha1_pieces)

text \<open>
  C36: SHA-512 and SHA-384 in any pieces: the truncated hash of the padded message; they fail
  exactly for a null output or an md_len that no Init function sets.
\<close>

theorem sha512_computed:
  assumes "length st = 8" "sha512_repr st c []"
  shows "\<exists>c'. SHA512_Final null (foldl SHA512_Update c ds) =
    Some (if \<not> null \<and> sha_md_len c \<in> {48, 64}
          then Some (sha512_bytes (take (sha_md_len c div 8) (sha512_hash st (concat ds)))) else None, c')"
  using assms by (rule sha512_pieces)

theorem sha512_computed_witness:
  "\<exists>c'. SHA512_Final False (foldl SHA512_Update
      \<lparr>sha_h = replicate 8 0, sha_Nl = 0, sha_Nh = 0, sha_p = replicate 128 0, sha_num = 0, sha_md_len = 48\<rparr> [[1], [2]]) =
    Some (Some (sha512_bytes (take 6 (sha512_hash (replicate 8 0) [1, 2]))), c')"
  using sha512_computed [of "replicate 8 0"
      "\<lparr>sha_h = replicate 8 0, sha_Nl = 0, sha_Nh = 0, sha_p = replicate 128 0, sha_num = 0, sha_md_len = 48\<rparr>"
      False "[[1], [2]]"]
  by (simp add: sha512_repr_fresh del: foldl_Cons)

text \<open>
  C37: MD5 in any pieces: the digest of RFC 1321 of the concatenation, with its words A to D, its
  table and its functions, and the bit count modulo 2^64 as the length.
\<close>

theorem md5_computed:
  "\<exists>c. MD5_Final (foldl MD5_Update MD5_Init ds) = Some (Some (md5_digest (concat ds)), c)"
  by (rule md5_pieces)

text \<open>
  C38: The contents an unsigned integer is read from are a minimal two's complement encoding of at
  most nine bytes, of a value below 2^64.
\<close>

theorem minimal_integers:
  assumes "CBS_get_asn1_uint64 s = (Some v, t)"
  shows "\<exists>c. s = der_element CBS_ASN1_INTEGER c @ t \<and> minimal c \<and> length c \<le> 9 \<and> tc_val c = uint v"
proof -
  have "length (der_int (uint v)) \<le> Suc 8"
    using uint_lt2p [of v] order_trans [OF _ uint_ge_0 [of v]] by (intro length_der_int) simp_all
  with assms show ?thesis
    using tc_val_der_int [of "uint v"] by (auto simp: CBS_get_asn1_uint64_iff)
qed

theorem minimal_integers_witness:
  "\<exists>c. [2, 1, 5] = der_element CBS_ASN1_INTEGER c @ [] \<and> minimal c \<and> length c \<le> 9 \<and> tc_val c = uint (5 :: u64)"
proof (rule minimal_integers)
  show "CBS_get_asn1_uint64 [2, 1, 5] = (Some 5, [])" by code_simp
qed

end
